(* ===== verification/Prelude.thy ===== *)
theory Prelude
  imports Main "HOL-Library.Word" "HOL-Library.Sublist" "HOL-Library.Multiset"
begin

text \<open>
  Shared vocabulary of the development: the Go types the sources use, the result type of a
  fallible Go function, the range loop that stops at the first error, and the reachability
  predicate of the step relations.

  \<^item> A Go \<open>string\<close> or \<open>[]byte\<close> is a list of \<^typ>\<open>char\<close>: both are byte sequences and a
    \<^typ>\<open>char\<close> of HOL is one byte. \<open>uint32\<close> is a 32-bit word. Go's \<open>int\<close>, \<open>int64\<close> and
    \<open>time.Duration\<close> are \<^typ>\<open>int\<close>; where an operation can leave the 64-bit range the
    wrap-around is written out with \<open>int64_wrap\<close>.
  \<^item> \<open>(T, error)\<close> is the sum type \<open>error + T\<close>: \<^const>\<open>Inl\<close> carries the error.
\<close>

section \<open>Types\<close>

type_synonym byte = char
type_synonym bytes = "char list"
type_synonym uint32 = "32 word"

abbreviation byte_val :: "byte \<Rightarrow> nat" where
  "byte_val c \<equiv> of_char c"

lemma byte_val_less [simp]: "byte_val c < 256"
proof -
  have "byte_val c = byte_val c mod 256"
    using char_of_eq_iff [of "byte_val c" c] by simp
  then show ?thesis
    by (metis mod_less_divisor zero_less_numeral)
qed

named_theorems res_simps \<open>equations of the result type and of the error loops\<close>
named_theorems sys_intros \<open>introduction rules of the step relations\<close>
named_theorems inv_defs \<open>definitions of the component invariants\<close>

section \<open>Results\<close>

definition res_bind :: "('e + 'a) \<Rightarrow> ('a \<Rightarrow> 'e + 'b) \<Rightarrow> 'e + 'b" where
  "res_bind m f = (case m of Inl e \<Rightarrow> Inl e | Inr x \<Rightarrow> f x)"

definition res_wrap :: "('e \<Rightarrow> 'f) \<Rightarrow> ('e + 'a) \<Rightarrow> 'f + 'a" where
  "res_wrap w m = (case m of Inl e \<Rightarrow> Inl (w e) | Inr x \<Rightarrow> Inr x)"

definition is_ok :: "'e + 'a \<Rightarrow> bool" where
  "is_ok r = (case r of Inl _ \<Rightarrow> False | Inr _ \<Rightarrow> True)"

lemma res_bind_simps [simp, res_simps]:
  "res_bind (Inl e) f = Inl e"
  "res_bind (Inr x) f = f x"
  by (simp_all add: res_bind_def)

lemma res_wrap_simps [simp, res_simps]:
  "res_wrap w (Inl e) = Inl (w e)"
  "res_wrap w (Inr x) = Inr x"
  by (simp_all add: res_wrap_def)

lemma is_ok_simps [simp, res_simps]: "is_ok (Inr x)" "\<not> is_ok (Inl e)"
  by (simp_all add: is_ok_def)

lemma is_ok_iff: "is_ok r \<longleftrightarrow> (\<exists>x. r = Inr x)"
  by (cases r) auto

lemma res_bind_Inr_iff: "res_bind m f = Inr y \<longleftrightarrow> (\<exists>x. m = Inr x \<and> f x = Inr y)"
  by (cases m) auto

lemma res_wrap_Inr_iff [simp]: "res_wrap w m = Inr y \<longleftrightarrow> m = Inr y"
  by (cases m) auto

lemma res_bind_Inl_iff:
  "res_bind m f = Inl e \<longleftrightarrow> m = Inl e \<or> (\<exists>x. m = Inr x \<and> f x = Inl e)"
  by (cases m) auto

section \<open>The range loop that returns at the first error\<close>

text \<open>
  \<open>for i, x := range xs { if err := body; err != nil { return err } }\<close> over the variables
  the body updates, which are the loop state.
\<close>

fun for_idx :: "(nat \<Rightarrow> 'a \<Rightarrow> 's \<Rightarrow> 'e + 's) \<Rightarrow> nat \<Rightarrow> 'a list \<Rightarrow> 's \<Rightarrow> 'e + 's" where
  "for_idx f i [] s = Inr s"
| "for_idx f i (x # xs) s =
     (case f i x s of Inl e \<Rightarrow> Inl e | Inr s' \<Rightarrow> for_idx f (Suc i) xs s')"

lemma for_idx_append:
  "for_idx f i (xs @ ys) s = res_bind (for_idx f i xs s) (for_idx f (i + length xs) ys)"
  by (induction xs arbitrary: i s) (auto split: sum.splits)

text \<open>
  The loop rule: an invariant relating the elements already visited to the loop state.
\<close>

lemma for_idx_invariant:
  assumes "for_idx f i xs s = Inr t"
    and "P done s"
    and "\<And>j d x s s'. \<lbrakk>x \<in> set xs; P d s; f j x s = Inr s'\<rbrakk> \<Longrightarrow> P (d @ [x]) s'"
  shows "P (done @ xs) t"
  using assms
proof (induction xs arbitrary: i s "done")
  case Nil
  then show ?case by simp
next
  case (Cons x xs)
  from Cons.prems(1) obtain s' where s': "f i x s = Inr s'" "for_idx f (Suc i) xs s' = Inr t"
    by (auto split: sum.splits)
  have "P (done @ [x]) s'" using Cons.prems(2,3) s'(1) by auto
  then have "P ((done @ [x]) @ xs) t"
    using Cons.prems(3) by (intro Cons.IH [OF s'(2)]) auto
  then show ?case by simp
qed

text \<open>A loop whose body never fails on its elements under an invariant succeeds.\<close>

lemma for_idx_total:
  assumes "P done s"
    and "\<And>j d x s. \<lbrakk>x \<in> set xs; P d s\<rbrakk> \<Longrightarrow> \<exists>s'. f j x s = Inr s' \<and> P (d @ [x]) s'"
  shows "\<exists>t. for_idx f i xs s = Inr t \<and> P (done @ xs) t"
  using assms
proof (induction xs arbitrary: i s "done")
  case Nil
  then show ?case by simp
next
  case (Cons x xs)
  from Cons.prems(2) [of x "done" s i] Cons.prems(1)
  obtain s' where s': "f i x s = Inr s'" "P (done @ [x]) s'" by auto
  from Cons.IH [OF s'(2), of "Suc i"] Cons.prems(2)
  obtain t where "for_idx f (Suc i) xs s' = Inr t" "P ((done @ [x]) @ xs) t" by auto
  with s' show ?case by auto
qed

text \<open>A check that carries no state: it succeeds iff it succeeds on every element.\<close>

lemma for_idx_check_iff:
  assumes "\<And>j x. is_ok (f j x ()) \<longleftrightarrow> P x"
  shows "is_ok (for_idx f i xs ()) \<longleftrightarrow> list_all P xs"
proof (induction xs arbitrary: i)
  case Nil
  show ?case by simp
next
  case (Cons x xs)
  from assms [of i x] Cons.IH [of "Suc i"] show ?case
    by (cases "f i x ()") (auto simp: is_ok_iff)
qed

text \<open>
  Loops that reject a repeated key: each element brings some keys, and the loop state records
  the keys seen so far. Several validators are such loops over different states.
\<close>

locale unique_loop =
  fixes body :: "nat \<Rightarrow> 'a \<Rightarrow> 's \<Rightarrow> 'e + 's"
    and good :: "'a \<Rightarrow> bool"
    and keys :: "'a \<Rightarrow> 'k list"
    and seen :: "'s \<Rightarrow> 'k set"
  assumes body_ok:
      "is_ok (body i x s) \<longleftrightarrow> good x \<and> distinct (keys x) \<and> set (keys x) \<inter> seen s = {}"
    and body_seen: "body i x s = Inr t \<Longrightarrow> seen t = seen s \<union> set (keys x)"
begin

lemma loop_seen:
  "for_idx body i xs s = Inr t \<Longrightarrow> seen t = seen s \<union> set (concat (map keys xs))"
  by (induction xs arbitrary: i s) (auto split: sum.splits dest: body_seen)

lemma loop_ok:
  "is_ok (for_idx body i xs s) \<longleftrightarrow>
     list_all good xs \<and> distinct (concat (map keys xs)) \<and>
     set (concat (map keys xs)) \<inter> seen s = {}"
proof (induction xs arbitrary: i s)
  case Nil
  show ?case by simp
next
  case (Cons x xs)
  show ?case
  proof (cases "body i x s")
    case (Inl e)
    with body_ok [of i x s] show ?thesis by auto
  next
    case (Inr t)
    then have "good x \<and> distinct (keys x) \<and> set (keys x) \<inter> seen s = {}"
      using body_ok [of i x s] by simp
    with Inr body_seen [OF Inr] Cons.IH [of "Suc i" t] show ?thesis by auto
  qed
qed

end

section \<open>Signed 64-bit wrap-around\<close>

definition int64_wrap :: "int \<Rightarrow> int" where
  "int64_wrap x = (x + 2 ^ 63) mod 2 ^ 64 - 2 ^ 63"

lemma int64_wrap_id: "- (2 ^ 63) \<le> x \<Longrightarrow> x < 2 ^ 63 \<Longrightarrow> int64_wrap x = x"
  by (simp add: int64_wrap_def)

lemma int64_wrap_range: "- (2 ^ 63) \<le> int64_wrap x \<and> int64_wrap x < 2 ^ 63"
  by (simp add: int64_wrap_def)

section \<open>Step relations\<close>

text \<open>The states a step relation reaches from its initial states.\<close>

inductive reach :: "('s \<Rightarrow> bool) \<Rightarrow> ('s \<Rightarrow> 's \<Rightarrow> bool) \<Rightarrow> 's \<Rightarrow> bool"
  for start :: "'s \<Rightarrow> bool" and step :: "'s \<Rightarrow> 's \<Rightarrow> bool" where
  reach_start [sys_intros]: "start s \<Longrightarrow> reach start step s"
| reach_step [sys_intros]: "reach start step s \<Longrightarrow> step s t \<Longrightarrow> reach start step t"

text \<open>The contract of an inductive invariant, proved once for every component.\<close>

locale invariant_system =
  fixes start :: "'s \<Rightarrow> bool"
    and step :: "'s \<Rightarrow> 's \<Rightarrow> bool"
    and invar :: "'s \<Rightarrow> bool"
  assumes invar_start: "start s \<Longrightarrow> invar s"
    and invar_step: "invar s \<Longrightarrow> step s t \<Longrightarrow> invar t"
begin

lemma invar_reach: "reach start step s \<Longrightarrow> invar s"
proof (induction rule: reach.induct)
  case (reach_start s)
  then show ?case by (rule invar_start)
next
  case (reach_step s t)
  then show ?case by (blast intro: invar_step)
qed

lemma invar_steps: "step\<^sup>*\<^sup>* s t \<Longrightarrow> invar s \<Longrightarrow> invar t"
  by (induction rule: rtranclp_induct) (auto intro: invar_step)

end

lemma reach_rtranclp: "step\<^sup>*\<^sup>* s t \<Longrightarrow> reach start step s \<Longrightarrow> reach start step t"
  by (induction rule: rtranclp_induct) (auto intro: sys_intros)

section \<open>Lists and maps\<close>

lemma list_all_iff_Ball: "list_all P xs \<longleftrightarrow> (\<forall>x \<in> set xs. P x)"
  by (simp add: list_all_iff)

lemma distinct_map_snoc [simp]:
  "distinct (map f (xs @ [x])) \<longleftrightarrow> distinct (map f xs) \<and> f x \<notin> f ` set xs"
  by auto

lemma take_length_le: "length (take n xs) \<le> n"
  by simp

end
