(* ===== verification/Go_Unicode.thy ===== *)
theory Go_Unicode
  imports Prelude
begin

text \<open>
  What the sources use of Go's \<open>unicode/utf8\<close> and \<open>unicode\<close> packages: decoding a byte string
  into runes (an invalid byte yields U+FFFD and width 1), encoding a rune, and the simple
  lower-case mapping of the Unicode character database behind \<open>unicode.ToLower\<close>.
  \<open>strings.ToLower\<close> and \<open>encoding/json\<close> are built on these.
\<close>

section \<open>Decoding and encoding runes\<close>

abbreviation is_cont :: "byte \<Rightarrow> bool" where
  "is_cont c \<equiv> 128 \<le> byte_val c \<and> byte_val c \<le> 191"

definition RuneError :: nat where "RuneError = 0xFFFD"

text \<open>\<open>utf8.DecodeRune\<close>: the rune and the number of bytes it takes.\<close>

fun decode_rune :: "bytes \<Rightarrow> nat \<times> nat" where
  "decode_rune [] = (RuneError, 0)"
| "decode_rune (a # r) =
    (let x = byte_val a in
     if x < 128 then (x, 1)
     else case r of
       [] \<Rightarrow> (RuneError, 1)
     | b # r2 \<Rightarrow>
       (let y = byte_val b in
        if 0xC2 \<le> x \<and> x \<le> 0xDF \<and> is_cont b
        then ((x - 0xC0) * 64 + (y - 128), 2)
        else case r2 of
          [] \<Rightarrow> (RuneError, 1)
        | c # r3 \<Rightarrow>
          (let z = byte_val c in
           if 0xE0 \<le> x \<and> x \<le> 0xEF \<and> is_cont b \<and> is_cont c
              \<and> (x = 0xE0 \<longrightarrow> 0xA0 \<le> y) \<and> (x = 0xED \<longrightarrow> y \<le> 0x9F)
           then ((x - 0xE0) * 4096 + (y - 128) * 64 + (z - 128), 3)
           else case r3 of
             [] \<Rightarrow> (RuneError, 1)
           | d # _ \<Rightarrow>
             (if 0xF0 \<le> x \<and> x \<le> 0xF4 \<and> is_cont b \<and> is_cont c \<and> is_cont d
                 \<and> (x = 0xF0 \<longrightarrow> 0x90 \<le> y) \<and> (x = 0xF4 \<longrightarrow> y \<le> 0x8F)
              then ((x - 0xF0) * 262144 + (y - 128) * 4096 + (z - 128) * 64
                    + (byte_val d - 128), 4)
              else (RuneError, 1)))))"

text \<open>\<open>utf8.AppendRune\<close>: surrogates and values past U+10FFFF become U+FFFD.\<close>

fun encode_rune :: "nat \<Rightarrow> bytes" where
  "encode_rune r =
    (if r < 128 then [char_of r]
     else if r < 0x800 then [char_of (0xC0 + r div 64), char_of (128 + r mod 64)]
     else if 0x10FFFF < r \<or> (0xD800 \<le> r \<and> r \<le> 0xDFFF)
       then [char_of (0xEF::nat), char_of (0xBF::nat), char_of (0xBD::nat)]
     else if r < 0x10000 then
       [char_of (0xE0 + r div 4096), char_of (128 + (r div 64) mod 64),
        char_of (128 + r mod 64)]
     else
       [char_of (0xF0 + r div 262144), char_of (128 + (r div 4096) mod 64),
        char_of (128 + (r div 64) mod 64), char_of (128 + r mod 64)])"

lemma decode_rune_width_pos: "s \<noteq> [] \<Longrightarrow> 1 \<le> snd (decode_rune s)"
  by (cases s rule: decode_rune.cases) (auto simp: Let_def split: list.splits)

declare decode_rune.simps(2) [simp del]

text \<open>The runes a range loop over a string visits, with the bytes each one takes.\<close>

function runes :: "bytes \<Rightarrow> (nat \<times> nat) list" where
  "runes [] = []"
| "runes (a # s) = decode_rune (a # s) # runes (drop (snd (decode_rune (a # s))) (a # s))"
  by pat_completeness auto
termination
proof (relation "measure length", goal_cases)
  case 1
  show ?case by simp
next
  case (2 a s)
  from decode_rune_width_pos [of "a # s"] show ?case by (simp add: less_Suc_eq_le)
qed

lemma decode_rune_ascii: "byte_val a < 128 \<Longrightarrow> decode_rune (a # s) = (byte_val a, 1)"
  by (simp add: decode_rune.simps(2))

lemma runes_ascii [simp]: "byte_val a < 128 \<Longrightarrow> runes (a # s) = (byte_val a, 1) # runes s"
  by (simp add: runes.simps(2) decode_rune_ascii)

declare runes.simps(2) [simp del]

text \<open>A rune that does not start with an ASCII byte is not ASCII and takes no ASCII byte.\<close>

lemma decode_rune_high:
  assumes "128 \<le> byte_val a"
  shows "128 \<le> fst (decode_rune (a # s))"
    and "\<forall>c \<in> set (take (snd (decode_rune (a # s))) (a # s)). 128 \<le> byte_val c"
proof -
  have "\<not> byte_val a < 128" using assms by simp
  then show "128 \<le> fst (decode_rune (a # s))"
    by (auto simp: decode_rune.simps(2) Let_def RuneError_def split: list.splits if_splits)
  show "\<forall>c \<in> set (take (snd (decode_rune (a # s))) (a # s)). 128 \<le> byte_val c"
    using assms by (auto simp: decode_rune.simps(2) Let_def split: list.splits if_splits)
qed

section \<open>The simple lower-case mapping\<close>

text \<open>
  \<open>unicode.ToLower\<close> beyond ASCII: each entry \<open>(lo, hi, stride, delta)\<close> maps the code points
  \<open>lo, lo + stride, \<dots>, hi\<close> to themselves plus \<open>delta\<close>; every other one is its own lower case.
\<close>

definition case_ranges :: "(int \<times> int \<times> int \<times> int) list" where
  "case_ranges = [
    (192, 214, 1, 32), (216, 222, 1, 32), (256, 302, 2, 1), (304, 304, 1, - 199),
    (306, 310, 2, 1), (313, 327, 2, 1), (330, 374, 2, 1), (376, 376, 1, - 121),
    (377, 381, 2, 1), (385, 385, 1, 210), (386, 388, 2, 1), (390, 390, 1, 206),
    (391, 391, 1, 1), (393, 394, 1, 205), (395, 395, 1, 1), (398, 398, 1, 79),
    (399, 399, 1, 202), (400, 400, 1, 203), (401, 401, 1, 1), (403, 403, 1, 205),
    (404, 404, 1, 207), (406, 406, 1, 211), (407, 407, 1, 209), (408, 408, 1, 1),
    (412, 412, 1, 211), (413, 413, 1, 213), (415, 415, 1, 214), (416, 420, 2, 1),
    (422, 422, 1, 218), (423, 423, 1, 1), (425, 425, 1, 218), (428, 428, 1, 1),
    (430, 430, 1, 218), (431, 431, 1, 1), (433, 434, 1, 217), (435, 437, 2, 1),
    (439, 439, 1, 219), (440, 440, 1, 1), (444, 444, 1, 1), (452, 452, 1, 2),
    (453, 453, 1, 1), (455, 455, 1, 2), (456, 456, 1, 1), (458, 458, 1, 2),
    (459, 475, 2, 1), (478, 494, 2, 1), (497, 497, 1, 2), (498, 500, 2, 1),
    (502, 502, 1, - 97), (503, 503, 1, - 56), (504, 542, 2, 1), (544, 544, 1, - 130),
    (546, 562, 2, 1), (570, 570, 1, 10795), (571, 571, 1, 1), (573, 573, 1, - 163),
    (574, 574, 1, 10792), (577, 577, 1, 1), (579, 579, 1, - 195), (580, 580, 1, 69),
    (581, 581, 1, 71), (582, 590, 2, 1), (880, 882, 2, 1), (886, 886, 1, 1),
    (895, 895, 1, 116), (902, 902, 1, 38), (904, 906, 1, 37), (908, 908, 1, 64),
    (910, 911, 1, 63), (913, 929, 1, 32), (931, 939, 1, 32), (975, 975, 1, 8),
    (984, 1006, 2, 1), (1012, 1012, 1, - 60), (1015, 1015, 1, 1), (1017, 1017, 1, - 7),
    (1018, 1018, 1, 1), (1021, 1023, 1, - 130), (1024, 1039, 1, 80), (1040, 1071, 1, 32),
    (1120, 1152, 2, 1), (1162, 1214, 2, 1), (1216, 1216, 1, 15), (1217, 1229, 2, 1),
    (1232, 1326, 2, 1), (1329, 1366, 1, 48), (4256, 4293, 1, 7264), (4295, 4295, 1, 7264),
    (4301, 4301, 1, 7264), (5024, 5103, 1, 38864), (5104, 5109, 1, 8),
    (7312, 7354, 1, - 3008), (7357, 7359, 1, - 3008), (7680, 7828, 2, 1),
    (7838, 7838, 1, - 7615), (7840, 7934, 2, 1), (7944, 7951, 1, - 8), (7960, 7965, 1, - 8),
    (7976, 7983, 1, - 8), (7992, 7999, 1, - 8), (8008, 8013, 1, - 8), (8025, 8031, 2, - 8),
    (8040, 8047, 1, - 8), (8072, 8079, 1, - 8), (8088, 8095, 1, - 8), (8104, 8111, 1, - 8),
    (8120, 8121, 1, - 8), (8122, 8123, 1, - 74), (8124, 8124, 1, - 9),
    (8136, 8139, 1, - 86), (8140, 8140, 1, - 9), (8152, 8153, 1, - 8),
    (8154, 8155, 1, - 100), (8168, 8169, 1, - 8), (8170, 8171, 1, - 112),
    (8172, 8172, 1, - 7), (8184, 8185, 1, - 128), (8186, 8187, 1, - 126),
    (8188, 8188, 1, - 9), (8486, 8486, 1, - 7517), (8490, 8490, 1, - 8383),
    (8491, 8491, 1, - 8262), (8498, 8498, 1, 28), (8544, 8559, 1, 16), (8579, 8579, 1, 1),
    (9398, 9423, 1, 26), (11264, 11311, 1, 48), (11360, 11360, 1, 1),
    (11362, 11362, 1, - 10743), (11363, 11363, 1, - 3814), (11364, 11364, 1, - 10727),
    (11367, 11371, 2, 1), (11373, 11373, 1, - 10780), (11374, 11374, 1, - 10749),
    (11375, 11375, 1, - 10783), (11376, 11376, 1, - 10782), (11378, 11378, 1, 1),
    (11381, 11381, 1, 1), (11390, 11391, 1, - 10815), (11392, 11490, 2, 1),
    (11499, 11501, 2, 1), (11506, 11506, 1, 1), (42560, 42604, 2, 1), (42624, 42650, 2, 1),
    (42786, 42798, 2, 1), (42802, 42862, 2, 1), (42873, 42875, 2, 1),
    (42877, 42877, 1, - 35332), (42878, 42886, 2, 1), (42891, 42891, 1, 1),
    (42893, 42893, 1, - 42280), (42896, 42898, 2, 1), (42902, 42920, 2, 1),
    (42922, 42922, 1, - 42308), (42923, 42923, 1, - 42319), (42924, 42924, 1, - 42315),
    (42925, 42925, 1, - 42305), (42926, 42926, 1, - 42308), (42928, 42928, 1, - 42258),
    (42929, 42929, 1, - 42282), (42930, 42930, 1, - 42261), (42931, 42931, 1, 928),
    (42932, 42946, 2, 1), (42948, 42948, 1, - 48), (42949, 42949, 1, - 42307),
    (42950, 42950, 1, - 35384), (42951, 42953, 2, 1), (42960, 42960, 1, 1),
    (42966, 42968, 2, 1), (42997, 42997, 1, 1), (65313, 65338, 1, 32),
    (66560, 66599, 1, 40), (66736, 66771, 1, 40), (66928, 66938, 1, 39),
    (66940, 66954, 1, 39), (66956, 66962, 1, 39), (66964, 66965, 1, 39),
    (68736, 68786, 1, 64), (71840, 71871, 1, 32), (93760, 93791, 1, 32),
    (125184, 125217, 1, 34)]"

fun find_lower :: "(int \<times> int \<times> int \<times> int) list \<Rightarrow> int \<Rightarrow> int" where
  "find_lower [] r = r"
| "find_lower ((lo, hi, st, d) # t) r =
     (if lo \<le> r \<and> r \<le> hi \<and> (r - lo) mod st = 0 then r + d else find_lower t r)"

definition lower_rune :: "nat \<Rightarrow> nat" where
  "lower_rune r =
     (if r < 128 then (if 65 \<le> r \<and> r \<le> 90 then r + 32 else r)
      else nat (find_lower case_ranges (int r)))"

text \<open>
  Lower-casing a rune beyond ASCII stays beyond ASCII, but for the dotted capital I (U+0130)
  and the Kelvin sign (U+212A), which become the ASCII letters i and k.
\<close>

definition lower_entry_ok :: "int \<times> int \<times> int \<times> int \<Rightarrow> bool" where
  "lower_entry_ok e = (case e of (lo, hi, st, d) \<Rightarrow>
     128 \<le> lo + d \<or> (lo = hi \<and> (lo + d = 105 \<or> lo + d = 107)))"

lemma case_ranges_ok: "list_all lower_entry_ok case_ranges"
  by code_simp

lemma find_lower_ok:
  "list_all lower_entry_ok t \<Longrightarrow> 128 \<le> r \<Longrightarrow>
   128 \<le> find_lower t r \<or> find_lower t r = 105 \<or> find_lower t r = 107"
  by (induction t r rule: find_lower.induct) (auto simp: lower_entry_ok_def)

lemma lower_rune_high:
  assumes "128 \<le> r"
  shows "128 \<le> lower_rune r \<or> lower_rune r = 105 \<or> lower_rune r = 107"
  using find_lower_ok [OF case_ranges_ok, of "int r"] assms
  by (auto simp: lower_rune_def)

lemma encode_rune_high: "128 \<le> r \<Longrightarrow> c \<in> set (encode_rune r) \<Longrightarrow> 128 \<le> byte_val c"
  by (auto split: if_splits)

lemma encode_rune_ascii: "r < 128 \<Longrightarrow> encode_rune r = [char_of r]"
  by simp

lemma encode_rune_nonempty [simp]: "encode_rune r \<noteq> []"
  by auto

declare encode_rune.simps [simp del]

end
