(* ===== verification/Go_Strings.thy ===== *)
theory Go_Strings
  imports Go_Unicode
begin

text \<open>
  What the sources use of Go's \<open>strings\<close>, \<open>bytes\<close>, \<open>strconv\<close> and \<open>net\<close> packages:
  byte search, lower-casing, trimming, splitting, decimal parsing and printing, and the
  host:port syntax of \<open>net.SplitHostPort\<close> and \<open>net.JoinHostPort\<close>.
\<close>

section \<open>Searching\<close>

fun IndexByte :: "bytes \<Rightarrow> byte \<Rightarrow> nat option" where
  "IndexByte [] c = None"
| "IndexByte (x # xs) c = (if x = c then Some 0 else map_option Suc (IndexByte xs c))"

fun LastIndexByte :: "bytes \<Rightarrow> byte \<Rightarrow> nat option" where
  "LastIndexByte [] c = None"
| "LastIndexByte (x # xs) c =
     (case LastIndexByte xs c of Some i \<Rightarrow> Some (Suc i)
      | None \<Rightarrow> if x = c then Some 0 else None)"

lemma IndexByte_None [simp]: "IndexByte s c = None \<longleftrightarrow> c \<notin> set s"
  by (induction s) auto

lemma LastIndexByte_None [simp]: "LastIndexByte s c = None \<longleftrightarrow> c \<notin> set s"
  by (induction s) (auto split: option.splits)

lemma IndexByte_append:
  "c \<notin> set a \<Longrightarrow> IndexByte (a @ c # b) c = Some (length a)"
  by (induction a) auto

lemma LastIndexByte_append:
  "c \<notin> set b \<Longrightarrow> LastIndexByte (a @ c # b) c = Some (length a)"
  by (induction a) (simp_all add: LastIndexByte_None [THEN iffD2])

lemma IndexByte_Some:
  assumes "IndexByte s c = Some i"
  shows "i < length s" and "s ! i = c" and "c \<notin> set (take i s)"
  using assms by (induction s arbitrary: i) (auto split: if_splits)

lemma LastIndexByte_Some:
  assumes "LastIndexByte s c = Some i"
  shows "i < length s" and "s ! i = c" and "c \<notin> set (drop (Suc i) s)"
  using assms
proof (induction s arbitrary: i)
  case Nil
  {
    case 1 then show ?case using Nil by simp
  next
    case 2 then show ?case using Nil by simp
  next
    case 3 then show ?case using Nil by simp
  }
next
  case (Cons x s)
  {
    case 1 then show ?case using Cons by (auto split: option.splits if_splits)
  next
    case 2 then show ?case using Cons by (auto split: option.splits if_splits)
  next
    case 3
    then show ?case
      using Cons by (auto split: option.splits if_splits simp: in_set_dropD)
  }
qed

abbreviation ContainsByte :: "bytes \<Rightarrow> byte \<Rightarrow> bool" where
  "ContainsByte s c \<equiv> c \<in> set s"

abbreviation HasPrefix :: "bytes \<Rightarrow> bytes \<Rightarrow> bool" where
  "HasPrefix s p \<equiv> prefix p s"

abbreviation HasSuffix :: "bytes \<Rightarrow> bytes \<Rightarrow> bool" where
  "HasSuffix s p \<equiv> suffix p s"

section \<open>Lower-casing\<close>

definition lower_byte :: "byte \<Rightarrow> byte" where
  "lower_byte c = (if 65 \<le> byte_val c \<and> byte_val c \<le> 90 then char_of (byte_val c + 32) else c)"

definition is_ascii :: "bytes \<Rightarrow> bool" where
  "is_ascii s = list_all (\<lambda>c. byte_val c < 128) s"

definition map_lower :: "bytes \<Rightarrow> bytes" where
  "map_lower s = concat (map (\<lambda>(r, w). encode_rune (lower_rune r)) (runes s))"

text \<open>\<open>strings.ToLower\<close>: byte-wise on ASCII, rune-wise otherwise.\<close>

definition ToLower :: "bytes \<Rightarrow> bytes" where
  "ToLower s = (if is_ascii s then map lower_byte s else map_lower s)"

lemma lower_byte_idem [simp]: "lower_byte (lower_byte c) = lower_byte c"
  by (auto simp: lower_byte_def)

lemma lower_byte_ascii: "byte_val c < 128 \<Longrightarrow> byte_val (lower_byte c) < 128"
  by (auto simp: lower_byte_def)

lemma lower_byte_eq_iff:
  "\<not> (97 \<le> byte_val d \<and> byte_val d \<le> 122) \<Longrightarrow> \<not> (65 \<le> byte_val d \<and> byte_val d \<le> 90) \<Longrightarrow>
   lower_byte c = d \<longleftrightarrow> c = d"
  by (auto simp: lower_byte_def)

lemma is_ascii_ToLower: "is_ascii s \<Longrightarrow> is_ascii (ToLower s)"
  by (auto simp: is_ascii_def ToLower_def list_all_iff lower_byte_ascii)

lemma ToLower_idem: "is_ascii s \<Longrightarrow> ToLower (ToLower s) = ToLower s"
  using is_ascii_ToLower [of s] by (simp add: ToLower_def)

lemma encode_lower_ascii:
  assumes "byte_val a < 128"
  shows "encode_rune (lower_rune (byte_val a)) = [lower_byte a]"
  using assms by (auto simp: lower_rune_def lower_byte_def encode_rune.simps)

text \<open>
  The two forms agree on ASCII input, so \<open>map_lower\<close> is the meaning of \<^const>\<open>ToLower\<close>
  on every string.
\<close>

lemma map_lower_ascii: "is_ascii s \<Longrightarrow> map_lower s = map lower_byte s"
  by (induction s) (auto simp: is_ascii_def map_lower_def encode_lower_ascii)

lemma ToLower_map_lower: "ToLower s = map_lower s"
  by (simp add: ToLower_def map_lower_ascii)

lemma map_lower_Nil [simp]: "map_lower [] = []"
  by (simp add: map_lower_def)

lemma map_lower_Cons_ascii:
  "byte_val a < 128 \<Longrightarrow> map_lower (a # s) = lower_byte a # map_lower s"
  by (simp add: map_lower_def encode_lower_ascii)

text \<open>
  The ASCII bytes that are no letters (the wildcard, the dot, the colon) survive
  lower-casing exactly where they stood: \<open>delim\<close> is such a byte.
\<close>

definition delim :: "byte \<Rightarrow> bool" where
  "delim c = (byte_val c < 128 \<and> \<not> (65 \<le> byte_val c \<and> byte_val c \<le> 90)
     \<and> \<not> (97 \<le> byte_val c \<and> byte_val c \<le> 122))"

lemma delim_lits [simp]:
  "delim (CHR ''*'')" "delim (CHR ''.'')" "delim (CHR '':'')"
  by (simp_all add: delim_def)

lemma map_lower_step_high:
  assumes "128 \<le> byte_val a"
  obtains u v r where "a # s = u @ v" "u \<noteq> []" "\<forall>c \<in> set u. 128 \<le> byte_val c" "128 \<le> r"
    "map_lower (a # s) = encode_rune (lower_rune r) @ map_lower v" "length v < length (a # s)"
proof -
  define w where "w = snd (decode_rune (a # s))"
  have w: "1 \<le> w" using decode_rune_width_pos [of "a # s"] by (simp add: w_def)
  have "take w (a # s) \<noteq> []" using w by simp
  moreover have "\<forall>c \<in> set (take w (a # s)). 128 \<le> byte_val c"
    using decode_rune_high(2) [OF assms] by (simp add: w_def)
  moreover have "128 \<le> fst (decode_rune (a # s))" by (rule decode_rune_high(1) [OF assms])
  moreover have "map_lower (a # s) =
      encode_rune (lower_rune (fst (decode_rune (a # s)))) @ map_lower (drop w (a # s))"
    by (simp add: map_lower_def w_def case_prod_beta runes.simps(2))
  moreover have "length (drop w (a # s)) < length (a # s)" using w by simp
  ultimately show ?thesis using that append_take_drop_id by metis
qed

lemma encode_lower_high:
  assumes "128 \<le> r" "c \<in> set (encode_rune (lower_rune r))"
  shows "\<not> delim c"
  using lower_rune_high [OF assms(1)] assms(2) encode_rune_high [of "lower_rune r" c]
  by (auto simp: delim_def encode_rune_ascii)

lemma delim_ToLower_iff:
  assumes "delim c"
  shows "c \<in> set (ToLower s) \<longleftrightarrow> c \<in> set s"
proof -
  have "c \<in> set (map_lower s) \<longleftrightarrow> c \<in> set s"
  proof (induction s rule: length_induct)
    case (1 s)
    show ?case
    proof (cases s)
      case Nil
      then show ?thesis by simp
    next
      case (Cons a t)
      show ?thesis
      proof (cases "byte_val a < 128")
        case True
        have "c = lower_byte a \<longleftrightarrow> c = a"
          using assms lower_byte_eq_iff [of c a] by (auto simp: delim_def)
        with 1 Cons True show ?thesis by (simp add: map_lower_Cons_ascii)
      next
        case False
        then have "128 \<le> byte_val a" by simp
        then obtain u v r where d: "a # t = u @ v" "\<forall>c \<in> set u. 128 \<le> byte_val c" "128 \<le> r"
          "map_lower (a # t) = encode_rune (lower_rune r) @ map_lower v"
          "length v < length (a # t)"
          by (rule map_lower_step_high) blast
        have "c \<notin> set u" using d(2) assms by (auto simp: delim_def)
        moreover have "c \<notin> set (encode_rune (lower_rune r))"
          using encode_lower_high [OF d(3)] assms by blast
        moreover have "c \<in> set (map_lower v) \<longleftrightarrow> c \<in> set v" using 1 d(5) Cons by simp
        ultimately show ?thesis using d(1,4) Cons by simp
      qed
    qed
  qed
  then show ?thesis by (simp add: ToLower_map_lower)
qed

lemma ToLower_eq_Nil_iff [simp]: "ToLower s = [] \<longleftrightarrow> s = []"
proof (cases s)
  case Nil
  then show ?thesis by (simp add: ToLower_map_lower)
next
  case (Cons a t)
  then show ?thesis
    by (cases "byte_val a < 128")
      (auto simp: ToLower_map_lower map_lower_Cons_ascii map_lower_def runes.simps(2)
        split: prod.splits)
qed

lemma ToLower_Cons_delim: "delim a \<Longrightarrow> ToLower (a # s) = a # ToLower s"
  by (simp add: ToLower_map_lower map_lower_Cons_ascii delim_def)
    (auto simp: lower_byte_def)

lemma ToLower_head_delim:
  assumes "delim a"
  shows "(\<exists>t. ToLower s = a # t) \<longleftrightarrow> (\<exists>t. s = a # t)"
proof (cases s)
  case Nil
  then show ?thesis by (simp add: ToLower_map_lower)
next
  case (Cons b t)
  show ?thesis
  proof (cases "byte_val b < 128")
    case True
    with Cons assms show ?thesis
      by (auto simp: ToLower_map_lower map_lower_Cons_ascii lower_byte_eq_iff delim_def)
  next
    case False
    then have "128 \<le> byte_val b" by simp
    then obtain u v r where d: "128 \<le> r"
        "map_lower (b # t) = encode_rune (lower_rune r) @ map_lower v"
      by (rule map_lower_step_high) blast
    have "a \<notin> set (encode_rune (lower_rune r))" using encode_lower_high [OF d(1)] assms by blast
    then have "\<not> (\<exists>t'. map_lower (b # t) = a # t')"
      unfolding d(2) using encode_rune_nonempty [of "lower_rune r"]
      by (cases "encode_rune (lower_rune r)") auto
    moreover have "b \<noteq> a" using False assms by (auto simp: delim_def)
    ultimately show ?thesis using Cons by (simp add: ToLower_map_lower)
  qed
qed

end
