(* ===== verification/Go_Net.thy ===== *)
theory Go_Net
  imports Go_Strings
begin

text \<open>
  \<open>strconv.Atoi\<close>, \<open>strconv.Itoa\<close> and \<open>strconv.FormatUint\<close> in base ten, and the host:port
  syntax of Go's \<open>net\<close> package: \<open>SplitHostPort\<close> and \<open>JoinHostPort\<close>, with their round trip.
\<close>

section \<open>Decimal numbers\<close>

definition is_digit :: "byte \<Rightarrow> bool" where
  "is_digit c = (48 \<le> byte_val c \<and> byte_val c \<le> 57)"

definition digits_val :: "bytes \<Rightarrow> nat" where
  "digits_val s = foldl (\<lambda>n c. 10 * n + (byte_val c - 48)) 0 s"

datatype num_error = ErrSyntax | ErrRange

text \<open>
  \<open>strconv.Atoi\<close>: an optional sign, one or more digits, and a value of a 64-bit \<open>int\<close>.
\<close>

definition Atoi :: "bytes \<Rightarrow> num_error + int" where
  "Atoi s =
     (let neg = (case s of c # _ \<Rightarrow> c = CHR ''-'' | [] \<Rightarrow> False);
          ds = (case s of c # t \<Rightarrow> if c = CHR ''-'' \<or> c = CHR ''+'' then t else s | [] \<Rightarrow> [])
      in if ds = [] \<or> \<not> list_all is_digit ds then Inl ErrSyntax
         else if neg then (if 2 ^ 63 < digits_val ds then Inl ErrRange
                           else Inr (- int (digits_val ds)))
         else (if 2 ^ 63 \<le> digits_val ds then Inl ErrRange else Inr (int (digits_val ds))))"

fun digits_of :: "nat \<Rightarrow> bytes" where
  "digits_of n = (if n < 10 then [char_of (48 + n)]
                  else digits_of (n div 10) @ [char_of (48 + n mod 10)])"

declare digits_of.simps [simp del]

definition Itoa :: "int \<Rightarrow> bytes" where
  "Itoa i = (if i < 0 then CHR ''-'' # digits_of (nat (- i)) else digits_of (nat i))"

definition FormatUint :: "uint32 \<Rightarrow> bytes" where
  "FormatUint w = digits_of (unat w)"

lemma digits_val_snoc: "digits_val (s @ [c]) = 10 * digits_val s + (byte_val c - 48)"
  by (simp add: digits_val_def)

lemma digits_of_digits: "list_all is_digit (digits_of n)"
proof (induction n rule: digits_of.induct)
  case (1 n)
  have "is_digit (char_of (48 + n mod 10))" by (simp add: is_digit_def)
  with 1 show ?case
    by (subst digits_of.simps) (auto simp: is_digit_def [of "char_of (48 + n)"])
qed

lemma digits_of_nonempty [simp]: "digits_of n \<noteq> []"
  by (subst digits_of.simps) simp

lemma digits_val_digits_of [simp]: "digits_val (digits_of n) = n"
proof (induction n rule: digits_of.induct)
  case (1 n)
  show ?case
  proof (cases "n < 10")
    case True
    then show ?thesis by (subst digits_of.simps) (simp add: digits_val_def)
  next
    case False
    with 1 have "digits_val (digits_of (n div 10)) = n div 10" by simp
    with False show ?thesis by (subst digits_of.simps) (simp add: digits_val_snoc)
  qed
qed

lemma digits_of_inj: "digits_of m = digits_of n \<Longrightarrow> m = n"
  by (metis digits_val_digits_of)

lemma digits_of_no:
  assumes "c \<in> set (digits_of n)"
  shows "48 \<le> byte_val c \<and> byte_val c \<le> 57"
  using digits_of_digits [of n] assms by (auto simp: list_all_iff is_digit_def)

lemma Itoa_no:
  assumes "c \<in> set (Itoa i)"
  shows "c = CHR ''-'' \<or> (48 \<le> byte_val c \<and> byte_val c \<le> 57)"
  using assms digits_of_no by (auto simp: Itoa_def split: if_splits)

lemma Itoa_no_lits [simp]:
  "CHR '':'' \<notin> set (Itoa i)" "CHR ''['' \<notin> set (Itoa i)" "CHR '']'' \<notin> set (Itoa i)"
  "CHR ''|'' \<notin> set (Itoa i)"
  using Itoa_no by fastforce+

lemma digits_of_head: "digits_of n = c # t \<Longrightarrow> c \<noteq> CHR ''-''"
  using digits_of_no [of c n] by auto

lemma Itoa_inj: "Itoa i = Itoa j \<Longrightarrow> i = j"
  using digits_of_head
  by (auto simp: Itoa_def split: if_splits dest: digits_of_inj)
    (metis digits_of_head digits_of_inj nat_eq_iff2)+

text \<open>Printing and parsing a port are inverse.\<close>

lemma Atoi_Itoa_nonneg:
  assumes "0 \<le> i" "i < 2 ^ 63"
  shows "Atoi (Itoa i) = Inr i"
proof -
  obtain c t where ct: "digits_of (nat i) = c # t"
    using digits_of_nonempty by (cases "digits_of (nat i)") blast+
  have c: "48 \<le> byte_val c \<and> byte_val c \<le> 57" using digits_of_no [of c "nat i"] ct by simp
  have "nat i < 2 ^ 63" using assms by (simp add: nat_less_iff)
  moreover have "list_all is_digit (c # t)" using digits_of_digits [of "nat i"] ct by simp
  moreover have "digits_val (c # t) = nat i" using digits_val_digits_of [of "nat i"] ct by simp
  ultimately show ?thesis using assms c ct by (auto simp: Atoi_def Itoa_def)
qed

section \<open>Host and port\<close>

datatype addr_error = MissingPort | TooManyColons | MissingBracket | UnexpectedOpen
  | UnexpectedClose

text \<open>
  \<open>net.SplitHostPort\<close>. The tail is shared by the two forms: no further bracket may follow
  positions \<open>j\<close> and \<open>k\<close>, and the port is what stands after the last colon.
\<close>

definition split_tail :: "bytes \<Rightarrow> bytes \<Rightarrow> nat \<Rightarrow> nat \<Rightarrow> nat \<Rightarrow> addr_error + bytes \<times> bytes" where
  "split_tail hostport host i j k =
     (if CHR ''['' \<in> set (drop j hostport) then Inl UnexpectedOpen
      else if CHR '']'' \<in> set (drop k hostport) then Inl UnexpectedClose
      else Inr (host, drop (Suc i) hostport))"

definition SplitHostPort :: "bytes \<Rightarrow> addr_error + bytes \<times> bytes" where
  "SplitHostPort hostport =
     (case LastIndexByte hostport (CHR '':'') of
        None \<Rightarrow> Inl MissingPort
      | Some i \<Rightarrow>
        if hd hostport = CHR ''['' then
          (case IndexByte hostport (CHR '']'') of
             None \<Rightarrow> Inl MissingBracket
           | Some e \<Rightarrow>
             if Suc e = length hostport then Inl MissingPort
             else if Suc e = i
               then split_tail hostport (drop 1 (take e hostport)) i 1 (Suc e)
             else if hostport ! Suc e = CHR '':'' then Inl TooManyColons
             else Inl MissingPort)
        else if CHR '':'' \<in> set (take i hostport) then Inl TooManyColons
        else split_tail hostport (take i hostport) i 0 0)"

definition JoinHostPort :: "bytes \<Rightarrow> bytes \<Rightarrow> bytes" where
  "JoinHostPort host port =
     (if CHR '':'' \<in> set host then CHR ''['' # host @ '']:'' @ port
      else host @ CHR '':'' # port)"

lemma split_tail_Inr:
  assumes "split_tail s h i j k = Inr (h', p)" "j \<le> Suc i" "k \<le> Suc i"
  shows "h' = h" "p = drop (Suc i) s" "CHR ''['' \<notin> set p" "CHR '']'' \<notin> set p"
proof -
  from assms(1) show "h' = h" and p: "p = drop (Suc i) s"
    by (auto simp: split_tail_def split: if_splits)
  have "CHR ''['' \<notin> set (drop j s)" "CHR '']'' \<notin> set (drop k s)"
    using assms(1) by (auto simp: split_tail_def split: if_splits)
  with p assms(2,3) show "CHR ''['' \<notin> set p" "CHR '']'' \<notin> set p"
    using set_drop_subset_set_drop [of j "Suc i" s] set_drop_subset_set_drop [of k "Suc i" s]
    by auto
qed

text \<open>
  The parts of a split address: the address is the host and the port joined by a colon, the
  host possibly in brackets, and the port holds none of the separators.
\<close>

lemma SplitHostPort_parts:
  assumes "SplitHostPort s = Inr (h, p)"
  shows "s = h @ CHR '':'' # p \<or> s = CHR ''['' # h @ '']:'' @ p"
    and "CHR '':'' \<notin> set p" "CHR ''['' \<notin> set p" "CHR '']'' \<notin> set p"
proof -
  from assms obtain i where i: "LastIndexByte s (CHR '':'') = Some i"
    by (auto simp: SplitHostPort_def split: option.splits)
  note last = LastIndexByte_Some [OF i]
  have s_i: "s = take i s @ CHR '':'' # drop (Suc i) s"
    using id_take_nth_drop [OF last(1)] last(2) by simp
  consider
    (bracket) e where "hd s = CHR ''[''" "IndexByte s (CHR '']'') = Some e" "Suc e = i"
      "split_tail s (drop 1 (take e s)) i 1 (Suc e) = Inr (h, p)"
  | (plain) "split_tail s (take i s) i 0 0 = Inr (h, p)"
    using assms i by (auto simp: SplitHostPort_def split: option.splits if_splits)
  then have "(s = h @ CHR '':'' # p \<or> s = CHR ''['' # h @ '']:'' @ p) \<and>
      CHR '':'' \<notin> set p \<and> CHR ''['' \<notin> set p \<and> CHR '']'' \<notin> set p"
  proof cases
    case bracket
    note t = split_tail_Inr [OF bracket(4)]
    note idx = IndexByte_Some [OF bracket(2)]
    have "take i s = take e s @ [CHR '']'']"
      using idx(1,2) bracket(3) by (metis take_Suc_conv_app_nth)
    moreover have "take e s = CHR ''['' # drop 1 (take e s)"
    proof -
      have "e \<noteq> 0" using idx(1,2) bracket(1) by (cases s; cases e) auto
      then show ?thesis using bracket(1) idx(1) by (cases s; cases e) auto
    qed
    ultimately have "s = (CHR ''['' # drop 1 (take e s) @ [CHR '']'']) @ CHR '':'' # drop (Suc i) s"
      using s_i by (metis append_Cons)
    then have "s = CHR ''['' # h @ '']:'' @ p" using t(1,2) bracket(3) by simp
    moreover have "CHR '':'' \<notin> set p" using last(3) t(2) bracket(3) by simp
    ultimately show ?thesis using t(3,4) bracket(3) by simp
  next
    case plain
    note t = split_tail_Inr [OF plain]
    from s_i t(1,2) last(3) t(3,4) show ?thesis by simp
  qed
  then show "s = h @ CHR '':'' # p \<or> s = CHR ''['' # h @ '']:'' @ p"
    and "CHR '':'' \<notin> set p" "CHR ''['' \<notin> set p" "CHR '']'' \<notin> set p" by blast+
qed

text \<open>Joining and splitting are inverse on a host and port without brackets.\<close>

lemma SplitHostPort_JoinHostPort:
  assumes "CHR ''['' \<notin> set h" "CHR '']'' \<notin> set h"
    and "CHR ''['' \<notin> set p" "CHR '']'' \<notin> set p" "CHR '':'' \<notin> set p"
  shows "SplitHostPort (JoinHostPort h p) = Inr (h, p)"
proof (cases "CHR '':'' \<in> set h")
  case True
  let ?s = "CHR ''['' # h @ '']:'' @ p"
  have last: "LastIndexByte ?s (CHR '':'') = Some (Suc (Suc (length h)))"
    using LastIndexByte_append [of "CHR '':''" p "CHR ''['' # h @ '']''"] assms(5) by simp
  have idx: "IndexByte ?s (CHR '']'') = Some (Suc (length h))"
    using IndexByte_append [of "CHR '']''" "CHR ''['' # h" "CHR '':'' # p"] assms(2) by simp
  from last idx assms True show ?thesis
    by (simp add: JoinHostPort_def SplitHostPort_def split_tail_def)
next
  case False
  let ?s = "h @ CHR '':'' # p"
  have last: "LastIndexByte ?s (CHR '':'') = Some (length h)"
    by (rule LastIndexByte_append) (rule assms(5))
  have "hd ?s \<noteq> CHR ''[''" using assms(1) by (cases h) auto
  with last assms False show ?thesis
    by (simp add: JoinHostPort_def SplitHostPort_def split_tail_def)
qed

text \<open>Distinct host and port pairs give distinct addresses.\<close>

lemma JoinHostPort_inj:
  assumes "JoinHostPort h p = JoinHostPort h' p'"
    and "CHR '':'' \<notin> set p" "CHR '':'' \<notin> set p'"
  shows "h = h' \<and> p = p'"
proof -
  have *: "take i (a @ CHR '':'' # q) = a \<and> drop (Suc i) (a @ CHR '':'' # q) = q"
    if "LastIndexByte (a @ CHR '':'' # q) (CHR '':'') = Some i" "CHR '':'' \<notin> set q" for a q i
    using that LastIndexByte_append [of "CHR '':''" q a] by simp
  define wrap where "wrap x = (if CHR '':'' \<in> set x then CHR ''['' # x @ '']'' else x)"
    for x :: bytes
  have J: "JoinHostPort x q = wrap x @ CHR '':'' # q" for x q
    by (simp add: JoinHostPort_def wrap_def)
  have eq: "wrap h @ CHR '':'' # p = wrap h' @ CHR '':'' # p'" using assms(1) by (simp add: J)
  have L: "LastIndexByte (wrap h @ CHR '':'' # p) (CHR '':'') = Some (length (wrap h))"
    by (rule LastIndexByte_append) (rule assms(2))
  have L': "LastIndexByte (wrap h' @ CHR '':'' # p') (CHR '':'') = Some (length (wrap h))"
    using L eq by simp
  have "wrap h = wrap h'" "p = p'"
    using * [OF L assms(2)] * [OF L' assms(3)] eq by metis+
  moreover from \<open>wrap h = wrap h'\<close> have "h = h'"
    by (auto simp: wrap_def split: if_splits)
  ultimately show ?thesis by simp
qed

end
