(* ===== verification/Allowlist.thy ===== *)
theory Allowlist
  imports Go_Net
begin

text \<open>
  \<open>internal/allowlist/allowlist.go\<close>: the compiled egress allowlist. The definitions
  translate \<open>parsePattern\<close>, \<open>New\<close>, \<open>match\<close> and \<open>Allow\<close>; \<open>spec_allows\<close> is the meaning
  the package comment gives a pattern list, stated on the pattern texts, and the refinement
  theorem says that a compiled matcher implements it.
\<close>

section \<open>Patterns\<close>

datatype patternKind = kindUniversal | kindAnyHost | kindHostSuffix | kindExact

record pattern =
  p_kind :: patternKind
  p_suffix :: bytes
  p_host :: bytes
  p_port :: int

record Matcher =
  patterns :: "pattern list"

datatype allow_error =
    NoPatterns
  | AtPattern nat allow_error
  | EmptyPattern
  | NotHostPort bytes
  | InvalidPort bytes bytes
  | HostEmpty bytes
  | BadWildcard bytes
  | StarNotLeading bytes

definition parse_port :: "bytes \<Rightarrow> int option" where
  "parse_port s =
     (case Atoi s of Inl _ \<Rightarrow> None
      | Inr p \<Rightarrow> if p < 1 \<or> p > 65535 then None else Some p)"

definition parsePattern :: "bytes \<Rightarrow> allow_error + pattern" where
  "parsePattern raw =
     (if raw = [] then Inl EmptyPattern
      else if raw = ''*'' then
        Inr \<lparr>p_kind = kindUniversal, p_suffix = [], p_host = [], p_port = 0\<rparr>
      else case SplitHostPort raw of
        Inl _ \<Rightarrow> Inl (NotHostPort raw)
      | Inr (host0, portStr) \<Rightarrow>
        (case parse_port portStr of
           None \<Rightarrow> Inl (InvalidPort raw portStr)
         | Some port \<Rightarrow>
           (let host = ToLower host0 in
            if host = [] then Inl (HostEmpty raw)
            else if host = ''*'' then
              Inr \<lparr>p_kind = kindAnyHost, p_suffix = [], p_host = [], p_port = port\<rparr>
            else if HasPrefix host ''*.'' then
              (let rest = drop 2 host in
               if rest = [] \<or> ContainsByte rest (CHR ''*'') then Inl (BadWildcard raw)
               else Inr \<lparr>p_kind = kindHostSuffix, p_suffix = CHR ''.'' # rest, p_host = [],
                         p_port = port\<rparr>)
            else if ContainsByte host (CHR ''*'') then Inl (StarNotLeading raw)
            else Inr \<lparr>p_kind = kindExact, p_suffix = [], p_host = host, p_port = port\<rparr>)))"

definition add_pattern :: "nat \<Rightarrow> bytes \<Rightarrow> pattern list \<Rightarrow> allow_error + pattern list" where
  "add_pattern i raw ps =
     (case parsePattern raw of Inl e \<Rightarrow> Inl (AtPattern i e) | Inr p \<Rightarrow> Inr (ps @ [p]))"

definition New_matcher :: "bytes list \<Rightarrow> allow_error + Matcher" where
  "New_matcher raws =
     (if raws = [] then Inl NoPatterns
      else case for_idx add_pattern 0 raws [] of
        Inl e \<Rightarrow> Inl e
      | Inr ps \<Rightarrow> Inr \<lparr>patterns = ps\<rparr>)"

definition match_pattern :: "pattern \<Rightarrow> bytes \<Rightarrow> int \<Rightarrow> bool" where
  "match_pattern p host port =
     (case p_kind p of
        kindUniversal \<Rightarrow> True
      | kindAnyHost \<Rightarrow> port = p_port p
      | kindExact \<Rightarrow> port = p_port p \<and> host = p_host p
      | kindHostSuffix \<Rightarrow> port = p_port p \<and> HasSuffix host (p_suffix p))"

text \<open>A nil matcher is \<^const>\<open>None\<close>.\<close>

definition Allow :: "Matcher option \<Rightarrow> bytes \<Rightarrow> int \<Rightarrow> bool" where
  "Allow m host port =
     (case m of None \<Rightarrow> False
      | Some mt \<Rightarrow>
        if port < 1 \<or> port > 65535 then False
        else list_ex (\<lambda>p. match_pattern p (ToLower host) port) (patterns mt))"

section \<open>The meaning of a pattern list\<close>

text \<open>
  \<open>spec_match\<close> reads one pattern text: \<open>*\<close>, \<open>*:port\<close>, \<open>host:port\<close> or \<open>*.domain:port\<close>.
\<close>

definition spec_match :: "bytes \<Rightarrow> bytes \<Rightarrow> int \<Rightarrow> bool" where
  "spec_match raw host port \<longleftrightarrow>
     raw = ''*'' \<or>
     (\<exists>h p. SplitHostPort raw = Inr (h, p) \<and> Atoi p = Inr port \<and>
        (h = ''*''
         \<or> CHR ''*'' \<notin> set h \<and> ToLower host = ToLower h
         \<or> (\<exists>domain label. h = ''*.'' @ domain \<and> ToLower host = label @ ''.'' @ ToLower domain)))"

definition spec_allows :: "bytes list \<Rightarrow> bytes \<Rightarrow> int \<Rightarrow> bool" where
  "spec_allows raws host port \<longleftrightarrow>
     1 \<le> port \<and> port \<le> 65535 \<and> (\<exists>raw \<in> set raws. spec_match raw host port)"

section \<open>Lower-casing and the shape of a pattern\<close>

text \<open>The pattern grammar looks at delimiters only, which lower-casing keeps.\<close>

lemma ToLower_star_iff: "ToLower h = ''*'' \<longleftrightarrow> h = ''*''"
proof
  assume "ToLower h = ''*''"
  then obtain t where "h = CHR ''*'' # t" using ToLower_head_delim [of "CHR ''*''" h] by auto
  with \<open>ToLower h = ''*''\<close> show "h = ''*''" by (simp add: ToLower_Cons_delim)
next
  assume "h = ''*''"
  then show "ToLower h = ''*''" by (simp add: ToLower_Cons_delim ToLower_map_lower [of "[]"])
qed

lemma ToLower_wild_prefix: "ToLower (''*.'' @ d) = ''*.'' @ ToLower d"
  by (simp add: ToLower_Cons_delim)

lemma ToLower_wild_iff: "HasPrefix (ToLower h) ''*.'' \<longleftrightarrow> HasPrefix h ''*.''"
proof
  assume "HasPrefix (ToLower h) ''*.''"
  then obtain d where d: "ToLower h = CHR ''*'' # CHR ''.'' # d" by (auto simp: prefix_def)
  then obtain t where t: "h = CHR ''*'' # t" using ToLower_head_delim [of "CHR ''*''" h] by auto
  with d have "ToLower t = CHR ''.'' # d" by (simp add: ToLower_Cons_delim)
  then obtain u where "t = CHR ''.'' # u" using ToLower_head_delim [of "CHR ''.''" t] by auto
  with t show "HasPrefix h ''*.''" by (simp add: prefix_def)
next
  assume "HasPrefix h ''*.''"
  then show "HasPrefix (ToLower h) ''*.''" by (auto simp: prefix_def ToLower_Cons_delim)
qed

text \<open>What a compiled pattern looks like, in terms of its text.\<close>

definition pattern_ok :: "bytes \<Rightarrow> bool" where
  "pattern_ok raw \<longleftrightarrow>
     raw = ''*'' \<or>
     (\<exists>h p n. SplitHostPort raw = Inr (h, p) \<and> parse_port p = Some n \<and> h \<noteq> [] \<and>
        (h = ''*'' \<or> CHR ''*'' \<notin> set h
         \<or> (\<exists>d. h = ''*.'' @ d \<and> d \<noteq> [] \<and> CHR ''*'' \<notin> set d)))"

lemma parsePattern_ok_iff: "is_ok (parsePattern raw) \<longleftrightarrow> pattern_ok raw"
proof (cases "raw = [] \<or> raw = ''*''")
  case True
  then show ?thesis
    by (auto simp: parsePattern_def pattern_ok_def SplitHostPort_def)
next
  case False
  show ?thesis
  proof (cases "SplitHostPort raw")
    case (Inl e)
    with False show ?thesis by (auto simp: parsePattern_def pattern_ok_def)
  next
    case (Inr hp)
    obtain h ps where hp: "hp = (h, ps)" by (cases hp)
    consider "h = ''*''" | d where "h = ''*.'' @ d" | "h \<noteq> ''*''" "\<not> HasPrefix h ''*.''"
      by (auto simp: prefix_def)
    then show ?thesis
    proof cases
      case 1
      with Inr hp False show ?thesis
        by (auto simp: parsePattern_def pattern_ok_def ToLower_star_iff split: option.splits)
    next
      case 2
      with Inr hp False show ?thesis
        by (auto simp: parsePattern_def pattern_ok_def ToLower_Cons_delim delim_ToLower_iff
            split: option.splits)
    next
      case 3
      then have "\<nexists>d. h = ''*.'' @ d" by (auto simp: prefix_def)
      with 3 Inr hp False show ?thesis
        by (simp add: parsePattern_def pattern_ok_def ToLower_star_iff ToLower_wild_iff
            delim_ToLower_iff Let_def split: option.splits)
    qed
  qed
qed

lemma parse_port_Some:
  "parse_port s = Some p \<longleftrightarrow> Atoi s = Inr p \<and> 1 \<le> p \<and> p \<le> 65535"
  by (auto simp: parse_port_def split: sum.splits)

lemma suffix_dot_iff: "HasSuffix s (CHR ''.'' # d) \<longleftrightarrow> (\<exists>l. s = l @ ''.'' @ d)"
  by (auto simp: suffix_def)

lemma match_parsePattern:
  assumes "parsePattern raw = Inr p" "1 \<le> port" "port \<le> 65535"
  shows "match_pattern p (ToLower host) port \<longleftrightarrow> spec_match raw host port"
proof (cases "raw = ''*''")
  case True
  with assms show ?thesis by (auto simp: parsePattern_def match_pattern_def spec_match_def)
next
  case False
  with assms(1) obtain h ps n where s: "SplitHostPort raw = Inr (h, ps)" "parse_port ps = Some n"
    "h \<noteq> []" by (auto simp: parsePattern_def Let_def split: sum.splits option.splits if_splits)
  have n: "Atoi ps = Inr port \<longleftrightarrow> port = n" using s(2) by (auto simp: parse_port_Some)
  consider "h = ''*''" | d where "h = ''*.'' @ d" | "h \<noteq> ''*''" "\<not> HasPrefix h ''*.''"
    by (auto simp: prefix_def)
  then show ?thesis
  proof cases
    case 1
    with assms(1) s False n show ?thesis
      by (auto simp: parsePattern_def match_pattern_def spec_match_def Let_def ToLower_star_iff
          split: if_splits)
  next
    case 2
    with assms(1) s False have p: "p = \<lparr>p_kind = kindHostSuffix, p_suffix = CHR ''.'' # ToLower d,
        p_host = [], p_port = n\<rparr>"
      by (auto simp: parsePattern_def Let_def ToLower_Cons_delim split: if_splits)
    from 2 s False n show ?thesis
      by (auto simp: p match_pattern_def spec_match_def suffix_dot_iff)
  next
    case 3
    with assms(1) s False have p: "p = \<lparr>p_kind = kindExact, p_suffix = [], p_host = ToLower h,
        p_port = n\<rparr>" and "CHR ''*'' \<notin> set h"
      by (auto simp: parsePattern_def Let_def ToLower_star_iff ToLower_wild_iff delim_ToLower_iff
          split: if_splits)
    with 3 s False n show ?thesis
      by (auto simp: p match_pattern_def spec_match_def prefix_def)
  qed
qed

section \<open>The compiled matcher\<close>

lemma add_pattern_Inr [simp]:
  "add_pattern i raw ps = Inr qs \<longleftrightarrow> (\<exists>p. parsePattern raw = Inr p \<and> qs = ps @ [p])"
  by (auto simp: add_pattern_def split: sum.splits)

lemma add_patterns:
  assumes "for_idx add_pattern i raws ps = Inr qs"
  shows "\<exists>rs. qs = ps @ rs \<and> list_all2 (\<lambda>raw p. parsePattern raw = Inr p) raws rs"
  using assms
proof (induction raws arbitrary: i ps)
  case Nil
  then show ?case by simp
next
  case (Cons raw raws)
  from Cons.prems obtain p where p: "parsePattern raw = Inr p"
    and rec: "for_idx add_pattern (Suc i) raws (ps @ [p]) = Inr qs"
    by (auto split: sum.splits)
  from Cons.IH [OF rec] obtain rs where "qs = (ps @ [p]) @ rs"
    "list_all2 (\<lambda>raw p. parsePattern raw = Inr p) raws rs" by blast
  with p show ?case by (intro exI [where x = "p # rs"]) simp
qed

lemma New_matcher_patterns:
  "New_matcher raws = Inr m \<Longrightarrow>
   raws \<noteq> [] \<and> list_all2 (\<lambda>raw p. parsePattern raw = Inr p) raws (patterns m)"
  using add_patterns [of 0 raws "[]"]
  by (auto simp: New_matcher_def split: if_splits sum.splits)

lemma list_all2_ex_iff:
  assumes "list_all2 R xs ys" "\<And>x y. R x y \<Longrightarrow> P x \<longleftrightarrow> Q y"
  shows "(\<exists>x \<in> set xs. P x) \<longleftrightarrow> (\<exists>y \<in> set ys. Q y)"
  using assms by (induction rule: list_all2_induct) auto

lemma add_patterns_ok: "is_ok (for_idx add_pattern i raws ps) \<longleftrightarrow> list_all pattern_ok raws"
proof (induction raws arbitrary: i ps)
  case Nil
  show ?case by simp
next
  case (Cons raw raws)
  show ?case
    using parsePattern_ok_iff [of raw] Cons.IH
    by (cases "parsePattern raw") (auto simp: add_pattern_def)
qed

lemma New_matcher_ok_iff: "is_ok (New_matcher raws) \<longleftrightarrow> raws \<noteq> [] \<and> list_all pattern_ok raws"
  using add_patterns_ok [of 0 raws "[]"]
  by (auto simp: New_matcher_def is_ok_iff split: sum.splits)

section \<open>The policy interface\<close>

text \<open>
  What the forward proxy relies on: a policy decides on a host and a port, denies every port
  outside the TCP range, and a missing policy denies everything.
\<close>

locale egress_policy =
  fixes allow :: "'m option \<Rightarrow> bytes \<Rightarrow> int \<Rightarrow> bool"
  assumes allow_port: "allow m h p \<Longrightarrow> 1 \<le> p \<and> p \<le> 65535"
    and allow_nil: "\<not> allow None h p"
    and allow_case: "is_ascii h \<Longrightarrow> allow m (ToLower h) p \<longleftrightarrow> allow m h p"
begin

lemma allow_some: "allow m h p \<Longrightarrow> \<exists>mt. m = Some mt"
  using allow_nil by (cases m) auto

lemma allow_same_lower:
  "is_ascii h \<Longrightarrow> is_ascii h' \<Longrightarrow> ToLower h = ToLower h' \<Longrightarrow> allow m h p \<longleftrightarrow> allow m h' p"
  using allow_case [of h m p] allow_case [of h' m p] by simp

end

interpretation al: egress_policy Allow
  by unfold_locales (auto simp: Allow_def ToLower_idem split: option.splits if_splits)

lemma Allow_iff_spec:
  assumes "New_matcher raws = Inr m"
  shows "Allow (Some m) host port \<longleftrightarrow> spec_allows raws host port"
proof (cases "1 \<le> port \<and> port \<le> 65535")
  case True
  note pats = New_matcher_patterns [OF assms, THEN conjunct2]
  have "(\<exists>raw \<in> set raws. spec_match raw host port) \<longleftrightarrow>
      (\<exists>p \<in> set (patterns m). match_pattern p (ToLower host) port)"
    by (rule list_all2_ex_iff [OF pats]) (use True match_parsePattern in blast)
  with True show ?thesis by (auto simp: Allow_def spec_allows_def list_ex_iff)
next
  case False
  then show ?thesis by (auto simp: Allow_def spec_allows_def)
qed

section \<open>Properties\<close>

text \<open>
  C16. A matcher compiled from a pattern list allows exactly the destinations the package
  comment promises: some pattern is \<open>*\<close>, or names the port exactly and is \<open>*:port\<close>, the same
  host up to case, or \<open>*.domain:port\<close> with the host a dot-separated extension of the domain.
\<close>

theorem Allow_refines_spec:
  assumes "New_matcher raws = Inr m"
  shows "Allow (Some m) host port \<longleftrightarrow> spec_allows raws host port"
  by (rule Allow_iff_spec [OF assms])

lemmas allow_eval = New_matcher_def add_pattern_def parsePattern_def parse_port_def Atoi_def
  is_digit_def digits_val_def SplitHostPort_def split_tail_def ToLower_def is_ascii_def
  lower_byte_def prefix_def suffix_def Allow_def match_pattern_def

theorem Allow_refines_spec_witness:
  "\<exists>m. New_matcher [''*.aws.com:443''] = Inr m
     \<and> Allow (Some m) ''S3.aws.com'' 443 \<and> spec_allows [''*.aws.com:443''] ''S3.aws.com'' 443"
proof -
  let ?m = "\<lparr>patterns = [\<lparr>p_kind = kindHostSuffix, p_suffix = ''.aws.com'',
     p_host = [], p_port = 443\<rparr>]\<rparr>"
  have m: "New_matcher [''*.aws.com:443''] = Inr ?m" by (simp add: allow_eval)
  moreover have "Allow (Some ?m) ''S3.aws.com'' 443" by (simp add: allow_eval)
  ultimately show ?thesis using Allow_refines_spec [OF m] by blast
qed

end
