(* ===== verification/Config.thy ===== *)
theory Config
  imports Allowlist
begin

text \<open>
  \<open>internal/config/config.go\<close>: the schema and its validation. Each struct is a record with
  the source's field names behind a short prefix. \<open>Validate\<close> returns the configuration with
  the defaults that the Go code writes in place. A \<open>map[string]string\<close> is the association list
  of its entries in the order the range loop visits them.
\<close>

section \<open>Schema\<close>

record Route =
  r_Hostname :: bytes
  r_CID :: uint32
  r_VsockPort :: uint32

record InboundListener =
  il_Bind :: bytes
  il_Port :: int
  il_Mode :: bytes
  il_Routes :: "Route list"

record OutboundCID =
  oc_CID :: uint32
  oc_AllowedHosts :: "bytes list"

record OutboundListener =
  ol_Port :: uint32
  ol_CIDs :: "OutboundCID list"

record TCPToVsockListener =
  tv_Bind :: bytes
  tv_Port :: int
  tv_VsockCID :: uint32
  tv_VsockPort :: uint32

record VsockToTCPListener =
  vt_Port :: uint32
  vt_Upstream :: bytes

record LogRelayEnrich =
  le_CID :: bool
  le_Tags :: "(bytes \<times> bytes) list"
  le_HostKey :: bytes

record LogRelayListener =
  lr_Port :: uint32
  lr_Output :: bytes
  lr_Path :: bytes
  lr_MaxLineBytes :: int
  lr_Enrich :: "LogRelayEnrich option"

record MetricsConfig =
  mc_Bind :: bytes
  mc_VsockPort :: uint32

record Config =
  c_Inbound :: "InboundListener list"
  c_Outbound :: "OutboundListener list"
  c_TCPToVsock :: "TCPToVsockListener list"
  c_VsockToTCP :: "VsockToTCPListener list"
  c_LogRelay :: "LogRelayListener list"
  c_Metrics :: MetricsConfig
  c_ShutdownGrace :: int
  c_LogFormat :: bytes
  c_LogLevel :: bytes

abbreviation ModeHTTPHost :: bytes where "ModeHTTPHost \<equiv> ''http-host''"
abbreviation ModeTLSSNI :: bytes where "ModeTLSSNI \<equiv> ''tls-sni''"
abbreviation LogRelayOutputFile :: bytes where "LogRelayOutputFile \<equiv> ''file''"
abbreviation LogRelayOutputStdout :: bytes where "LogRelayOutputStdout \<equiv> ''stdout''"

definition defaultMaxLineBytes :: int where "defaultMaxLineBytes = 2 ^ 20"
definition minMaxLineBytes :: int where "minMaxLineBytes = 16"
definition defaultHostKey :: bytes where "defaultHostKey = ''host''"
definition relayReservedKeys :: "bytes list" where
  "relayReservedKeys = [''type'', ''msg'', ''truncated'']"
definition minCID :: uint32 where "minCID = 3"
definition vsockPortAny :: uint32 where "vsockPortAny = 0xFFFFFFFF"

section \<open>Errors\<close>

datatype section_ref = InboundAt nat | TCPToVsockAt nat | OutboundAt nat | VsockToTCPAt nat
  | LogRelayAt nat

datatype config_error =
    NoListeners
  | In_section section_ref config_error
  | In_route nat config_error
  | In_cid nat config_error
  | In_host nat config_error
  | DuplicateBind bytes int section_ref
  | DuplicatePort uint32 section_ref
  | DuplicateHost bytes
  | CidOwned uint32 uint32
  | BindEmpty
  | PortRange int
  | VsockPortRange uint32
  | ModeUnknown bytes
  | NoRoutes
  | HostnameEmpty
  | CidReserved uint32
  | NoCids
  | NoAllowedHosts
  | UpstreamEmpty
  | UpstreamBad addr_error
  | UpstreamHostEmpty
  | UpstreamWildcard
  | UpstreamPort bytes
  | PatternBad bytes
  | OutputBad bytes
  | PathMissing
  | PathGiven
  | MaxLineNegative int
  | MaxLineSmall int
  | TagKeyEmpty
  | TagValueEmpty bytes
  | HostKeyReserved bytes
  | HostKeyCid
  | LogFormatBad bytes
  | LogLevelBad bytes
  | GraceNegative int
  | MetricsBoth
  | MetricsBindBad addr_error
  | MetricsPortRange uint32
  | MetricsPortTaken uint32 section_ref

section \<open>Host and pattern syntax\<close>

definition validateHostPort :: "bytes \<Rightarrow> config_error + unit" where
  "validateHostPort s =
     (case SplitHostPort s of
        Inl e \<Rightarrow> Inl (UpstreamBad e)
      | Inr (host, portStr) \<Rightarrow>
        if host = [] then Inl UpstreamHostEmpty
        else if ContainsByte host (CHR ''*'') then Inl UpstreamWildcard
        else if parse_port portStr = None then Inl (UpstreamPort portStr)
        else Inr ())"

definition validatePattern :: "bytes \<Rightarrow> config_error + unit" where
  "validatePattern pat =
     (if pat = ''*'' then Inr ()
      else case SplitHostPort pat of
        Inl _ \<Rightarrow> Inl (PatternBad pat)
      | Inr (host, portStr) \<Rightarrow>
        if host = [] then Inl (PatternBad pat)
        else if host \<noteq> ''*'' \<and> HasPrefix host ''*.''
                \<and> (drop 2 host = [] \<or> ContainsByte (drop 2 host) (CHR ''*''))
          then Inl (PatternBad pat)
        else if host \<noteq> ''*'' \<and> \<not> HasPrefix host ''*.'' \<and> ContainsByte host (CHR ''*'')
          then Inl (PatternBad pat)
        else if parse_port portStr = None then Inl (PatternBad pat)
        else Inr ())"

section \<open>One listener\<close>

definition vsock_port_bad :: "uint32 \<Rightarrow> bool" where
  "vsock_port_bad p = (p = 0 \<or> vsockPortAny \<le> p)"

definition validate_route :: "nat \<Rightarrow> Route \<Rightarrow> bytes set \<Rightarrow> config_error + bytes set" where
  "validate_route i r seenHost =
     (if r_Hostname r = [] then Inl (In_route i HostnameEmpty)
      else let h = ToLower (r_Hostname r) in
        if h \<in> seenHost then Inl (In_route i (DuplicateHost (r_Hostname r)))
        else if r_CID r < minCID then Inl (In_route i (CidReserved (r_CID r)))
        else if vsock_port_bad (r_VsockPort r)
          then Inl (In_route i (VsockPortRange (r_VsockPort r)))
        else Inr (insert h seenHost))"

definition validate_InboundListener :: "InboundListener \<Rightarrow> config_error + unit" where
  "validate_InboundListener il =
     (if il_Bind il = [] then Inl BindEmpty
      else if il_Port il \<le> 0 \<or> il_Port il > 65535 then Inl (PortRange (il_Port il))
      else if il_Mode il \<noteq> ModeHTTPHost \<and> il_Mode il \<noteq> ModeTLSSNI
        then Inl (ModeUnknown (il_Mode il))
      else if il_Routes il = [] then Inl NoRoutes
      else case for_idx validate_route 0 (il_Routes il) {} of
        Inl e \<Rightarrow> Inl e
      | Inr _ \<Rightarrow> Inr ())"

definition validate_TCPToVsockListener :: "TCPToVsockListener \<Rightarrow> config_error + unit" where
  "validate_TCPToVsockListener t =
     (if tv_Bind t = [] then Inl BindEmpty
      else if tv_Port t \<le> 0 \<or> tv_Port t > 65535 then Inl (PortRange (tv_Port t))
      else if tv_VsockCID t < minCID then Inl (CidReserved (tv_VsockCID t))
      else if vsock_port_bad (tv_VsockPort t) then Inl (VsockPortRange (tv_VsockPort t))
      else Inr ())"

definition validate_VsockToTCPListener :: "VsockToTCPListener \<Rightarrow> config_error + unit" where
  "validate_VsockToTCPListener v =
     (if vsock_port_bad (vt_Port v) then Inl (VsockPortRange (vt_Port v))
      else if vt_Upstream v = [] then Inl UpstreamEmpty
      else validateHostPort (vt_Upstream v))"

definition check_tag :: "nat \<Rightarrow> bytes \<times> bytes \<Rightarrow> unit \<Rightarrow> config_error + unit" where
  "check_tag i kv u =
     (if fst kv = [] then Inl TagKeyEmpty
      else if snd kv = [] then Inl (TagValueEmpty (fst kv))
      else Inr ())"

definition validate_enrich :: "LogRelayEnrich \<Rightarrow> config_error + LogRelayEnrich" where
  "validate_enrich e =
     (case for_idx check_tag 0 (le_Tags e) () of
        Inl err \<Rightarrow> Inl err
      | Inr _ \<Rightarrow>
        (let e' = (if le_HostKey e = [] then e\<lparr>le_HostKey := defaultHostKey\<rparr> else e) in
         if le_Tags e' \<noteq> [] \<and> le_HostKey e' \<in> set relayReservedKeys
           then Inl (HostKeyReserved (le_HostKey e'))
         else if le_Tags e' \<noteq> [] \<and> le_CID e' \<and> le_HostKey e' = ''cid'' then Inl HostKeyCid
         else Inr e'))"

definition check_output :: "LogRelayListener \<Rightarrow> config_error + unit" where
  "check_output l =
     (if lr_Output l = LogRelayOutputFile then
        (if lr_Path l = [] then Inl PathMissing else Inr ())
      else if lr_Output l = LogRelayOutputStdout then
        (if lr_Path l \<noteq> [] then Inl PathGiven else Inr ())
      else Inl (OutputBad (lr_Output l)))"

definition validate_LogRelayListener :: "LogRelayListener \<Rightarrow> config_error + LogRelayListener" where
  "validate_LogRelayListener l =
     (if vsock_port_bad (lr_Port l) then Inl (VsockPortRange (lr_Port l))
      else res_bind (check_output l) (\<lambda>_.
        if lr_MaxLineBytes l < 0 then Inl (MaxLineNegative (lr_MaxLineBytes l))
        else if lr_MaxLineBytes l \<noteq> 0 \<and> lr_MaxLineBytes l < minMaxLineBytes
          then Inl (MaxLineSmall (lr_MaxLineBytes l))
        else
          (let l1 = (if lr_MaxLineBytes l = 0 then l\<lparr>lr_MaxLineBytes := defaultMaxLineBytes\<rparr>
                     else l) in
           case lr_Enrich l1 of
             None \<Rightarrow> Inr l1
           | Some e \<Rightarrow>
             res_bind (validate_enrich e) (\<lambda>e'. Inr (l1\<lparr>lr_Enrich := Some e'\<rparr>)))))"

section \<open>The whole configuration\<close>

definition bind_key :: "bytes \<Rightarrow> int \<Rightarrow> bytes" where
  "bind_key b p = b @ ''|'' @ Itoa p"

definition validate_inbound_at ::
  "nat \<Rightarrow> InboundListener \<Rightarrow> (bytes \<rightharpoonup> section_ref) \<Rightarrow> config_error + (bytes \<rightharpoonup> section_ref)" where
  "validate_inbound_at i il seenBind =
     (case validate_InboundListener il of
        Inl e \<Rightarrow> Inl (In_section (InboundAt i) e)
      | Inr _ \<Rightarrow>
        (let key = bind_key (il_Bind il) (il_Port il) in
         case seenBind key of
           Some prev \<Rightarrow>
             Inl (In_section (InboundAt i) (DuplicateBind (il_Bind il) (il_Port il) prev))
         | None \<Rightarrow> Inr (seenBind(key \<mapsto> InboundAt i))))"

definition validate_tcp_at ::
  "nat \<Rightarrow> TCPToVsockListener \<Rightarrow> (bytes \<rightharpoonup> section_ref) \<Rightarrow> config_error + (bytes \<rightharpoonup> section_ref)" where
  "validate_tcp_at i t seenBind =
     (case validate_TCPToVsockListener t of
        Inl e \<Rightarrow> Inl (In_section (TCPToVsockAt i) e)
      | Inr _ \<Rightarrow>
        (let key = bind_key (tv_Bind t) (tv_Port t) in
         case seenBind key of
           Some prev \<Rightarrow>
             Inl (In_section (TCPToVsockAt i) (DuplicateBind (tv_Bind t) (tv_Port t) prev))
         | None \<Rightarrow> Inr (seenBind(key \<mapsto> TCPToVsockAt i))))"

definition validate_allowed ::
  "nat \<Rightarrow> bytes \<Rightarrow> unit \<Rightarrow> config_error + unit" where
  "validate_allowed k pat u = res_wrap (In_host k) (validatePattern pat)"

definition validate_cid ::
  "uint32 \<Rightarrow> nat \<Rightarrow> OutboundCID \<Rightarrow> (uint32 \<rightharpoonup> uint32) \<Rightarrow> config_error + (uint32 \<rightharpoonup> uint32)" where
  "validate_cid port j oc cidOwner =
     (if oc_CID oc < minCID then Inl (In_cid j (CidReserved (oc_CID oc)))
      else case cidOwner (oc_CID oc) of
        Some prev \<Rightarrow> Inl (In_cid j (CidOwned (oc_CID oc) prev))
      | None \<Rightarrow>
        if oc_AllowedHosts oc = [] then Inl (In_cid j NoAllowedHosts)
        else case for_idx validate_allowed 0 (oc_AllowedHosts oc) () of
          Inl e \<Rightarrow> Inl (In_cid j e)
        | Inr _ \<Rightarrow> Inr (cidOwner(oc_CID oc \<mapsto> port)))"

type_synonym port_state = "(uint32 \<rightharpoonup> section_ref) \<times> (uint32 \<rightharpoonup> uint32)"

definition validate_outbound_at ::
  "nat \<Rightarrow> OutboundListener \<Rightarrow> port_state \<Rightarrow> config_error + port_state" where
  "validate_outbound_at i ob st =
     (case st of (seenPort, cidOwner) \<Rightarrow>
      if vsock_port_bad (ol_Port ob)
        then Inl (In_section (OutboundAt i) (VsockPortRange (ol_Port ob)))
      else case seenPort (ol_Port ob) of
        Some prev \<Rightarrow> Inl (In_section (OutboundAt i) (DuplicatePort (ol_Port ob) prev))
      | None \<Rightarrow>
        if ol_CIDs ob = [] then Inl (In_section (OutboundAt i) NoCids)
        else case for_idx (validate_cid (ol_Port ob)) 0 (ol_CIDs ob) cidOwner of
          Inl e \<Rightarrow> Inl (In_section (OutboundAt i) e)
        | Inr cidOwner' \<Rightarrow> Inr (seenPort(ol_Port ob \<mapsto> OutboundAt i), cidOwner'))"

definition validate_vsock_at ::
  "nat \<Rightarrow> VsockToTCPListener \<Rightarrow> (uint32 \<rightharpoonup> section_ref) \<Rightarrow> config_error + (uint32 \<rightharpoonup> section_ref)" where
  "validate_vsock_at i v seenPort =
     (case validate_VsockToTCPListener v of
        Inl e \<Rightarrow> Inl (In_section (VsockToTCPAt i) e)
      | Inr _ \<Rightarrow>
        (case seenPort (vt_Port v) of
           Some prev \<Rightarrow> Inl (In_section (VsockToTCPAt i) (DuplicatePort (vt_Port v) prev))
         | None \<Rightarrow> Inr (seenPort(vt_Port v \<mapsto> VsockToTCPAt i))))"

type_synonym relay_state = "(uint32 \<rightharpoonup> section_ref) \<times> LogRelayListener list"

definition validate_relay_at ::
  "nat \<Rightarrow> LogRelayListener \<Rightarrow> relay_state \<Rightarrow> config_error + relay_state" where
  "validate_relay_at i l st =
     (case st of (seenPort, out) \<Rightarrow>
      case validate_LogRelayListener l of
        Inl e \<Rightarrow> Inl (In_section (LogRelayAt i) e)
      | Inr l' \<Rightarrow>
        (case seenPort (lr_Port l) of
           Some prev \<Rightarrow> Inl (In_section (LogRelayAt i) (DuplicatePort (lr_Port l) prev))
         | None \<Rightarrow> Inr (seenPort(lr_Port l \<mapsto> LogRelayAt i), out @ [l'])))"

definition check_metrics ::
  "MetricsConfig \<Rightarrow> (uint32 \<rightharpoonup> section_ref) \<Rightarrow> config_error + unit" where
  "check_metrics m seenPort =
     (if mc_Bind m \<noteq> [] \<and> mc_VsockPort m \<noteq> 0 then Inl MetricsBoth
      else if mc_Bind m \<noteq> [] then
        (case SplitHostPort (mc_Bind m) of Inl e \<Rightarrow> Inl (MetricsBindBad e) | Inr _ \<Rightarrow> Inr ())
      else if mc_VsockPort m \<noteq> 0 then
        (if vsockPortAny \<le> mc_VsockPort m then Inl (MetricsPortRange (mc_VsockPort m))
         else case seenPort (mc_VsockPort m) of
           Some prev \<Rightarrow> Inl (MetricsPortTaken (mc_VsockPort m) prev)
         | None \<Rightarrow> Inr ())
      else Inr ())"

definition check_scalars :: "Config \<Rightarrow> config_error + unit" where
  "check_scalars c =
     (if c_LogFormat c \<notin> {[], ''json'', ''text'', ''auto''} then Inl (LogFormatBad (c_LogFormat c))
      else if c_LogLevel c \<notin> {[], ''debug'', ''info''} then Inl (LogLevelBad (c_LogLevel c))
      else if c_ShutdownGrace c < 0 then Inl (GraceNegative (c_ShutdownGrace c))
      else Inr ())"

definition Validate :: "Config \<Rightarrow> config_error + Config" where
  "Validate c =
     (if c_Inbound c = [] \<and> c_Outbound c = [] \<and> c_TCPToVsock c = [] \<and> c_VsockToTCP c = []
         \<and> c_LogRelay c = [] then Inl NoListeners
      else
        res_bind (for_idx validate_inbound_at 0 (c_Inbound c) Map.empty) (\<lambda>seenBind.
        res_bind (for_idx validate_tcp_at 0 (c_TCPToVsock c) seenBind) (\<lambda>_.
        res_bind (for_idx validate_outbound_at 0 (c_Outbound c) (Map.empty, Map.empty))
          (\<lambda>(seenPort, _).
        res_bind (for_idx validate_vsock_at 0 (c_VsockToTCP c) seenPort) (\<lambda>seenPort.
        res_bind (for_idx validate_relay_at 0 (c_LogRelay c) (seenPort, []))
          (\<lambda>(seenPort, relays).
        res_bind (check_scalars c) (\<lambda>_.
        res_bind (check_metrics (c_Metrics c) seenPort) (\<lambda>_.
        Inr (c\<lparr>c_LogRelay := relays\<rparr>)))))))))"

end
