(* ===== verification/Config_Valid.thy ===== *)
theory Config_Valid
  imports Config
begin

text \<open>
  What \<open>Config.Validate\<close> accepts. \<open>valid_config\<close> states the documented constraints without
  loops or seen-maps; the main result is that \<open>Validate\<close> succeeds exactly on valid
  configurations and then only fills in defaults. Each validation loop is an instance of the
  locale \<open>unique_loop\<close>.
\<close>

section \<open>Declarative constraints\<close>

definition route_good :: "Route \<Rightarrow> bool" where
  "route_good r \<longleftrightarrow> r_Hostname r \<noteq> [] \<and> minCID \<le> r_CID r \<and> \<not> vsock_port_bad (r_VsockPort r)"

definition inbound_good :: "InboundListener \<Rightarrow> bool" where
  "inbound_good il \<longleftrightarrow>
     il_Bind il \<noteq> [] \<and> 1 \<le> il_Port il \<and> il_Port il \<le> 65535 \<and>
     (il_Mode il = ModeHTTPHost \<or> il_Mode il = ModeTLSSNI) \<and>
     il_Routes il \<noteq> [] \<and> list_all route_good (il_Routes il) \<and>
     distinct (map (ToLower \<circ> r_Hostname) (il_Routes il))"

definition tcp_good :: "TCPToVsockListener \<Rightarrow> bool" where
  "tcp_good t \<longleftrightarrow>
     tv_Bind t \<noteq> [] \<and> 1 \<le> tv_Port t \<and> tv_Port t \<le> 65535 \<and> minCID \<le> tv_VsockCID t \<and>
     \<not> vsock_port_bad (tv_VsockPort t)"

definition cid_good :: "OutboundCID \<Rightarrow> bool" where
  "cid_good oc \<longleftrightarrow>
     minCID \<le> oc_CID oc \<and> oc_AllowedHosts oc \<noteq> [] \<and> list_all pattern_ok (oc_AllowedHosts oc)"

definition outbound_good :: "OutboundListener \<Rightarrow> bool" where
  "outbound_good ob \<longleftrightarrow>
     \<not> vsock_port_bad (ol_Port ob) \<and> ol_CIDs ob \<noteq> [] \<and> list_all cid_good (ol_CIDs ob)"

definition upstream_good :: "bytes \<Rightarrow> bool" where
  "upstream_good u \<longleftrightarrow>
     (\<exists>h p n. SplitHostPort u = Inr (h, p) \<and> h \<noteq> [] \<and> CHR ''*'' \<notin> set h \<and>
        parse_port p = Some n)"

definition vsock_good :: "VsockToTCPListener \<Rightarrow> bool" where
  "vsock_good v \<longleftrightarrow> \<not> vsock_port_bad (vt_Port v) \<and> upstream_good (vt_Upstream v)"

definition host_key_of :: "LogRelayEnrich \<Rightarrow> bytes" where
  "host_key_of e = (if le_HostKey e = [] then defaultHostKey else le_HostKey e)"

definition enrich_good :: "LogRelayEnrich \<Rightarrow> bool" where
  "enrich_good e \<longleftrightarrow>
     (\<forall>(k, v) \<in> set (le_Tags e). k \<noteq> [] \<and> v \<noteq> []) \<and>
     (le_Tags e \<noteq> [] \<longrightarrow> host_key_of e \<notin> set relayReservedKeys
        \<and> \<not> (le_CID e \<and> host_key_of e = ''cid''))"

definition relay_good :: "LogRelayListener \<Rightarrow> bool" where
  "relay_good l \<longleftrightarrow>
     \<not> vsock_port_bad (lr_Port l) \<and>
     (lr_Output l = LogRelayOutputFile \<and> lr_Path l \<noteq> []
      \<or> lr_Output l = LogRelayOutputStdout \<and> lr_Path l = []) \<and>
     (lr_MaxLineBytes l = 0 \<or> minMaxLineBytes \<le> lr_MaxLineBytes l) \<and>
     (\<forall>e. lr_Enrich l = Some e \<longrightarrow> enrich_good e)"

definition binds_of :: "Config \<Rightarrow> (bytes \<times> int) list" where
  "binds_of c = map (\<lambda>il. (il_Bind il, il_Port il)) (c_Inbound c)
     @ map (\<lambda>t. (tv_Bind t, tv_Port t)) (c_TCPToVsock c)"

definition vsock_ports_of :: "Config \<Rightarrow> uint32 list" where
  "vsock_ports_of c = map ol_Port (c_Outbound c) @ map vt_Port (c_VsockToTCP c)
     @ map lr_Port (c_LogRelay c)"

definition cids_of :: "Config \<Rightarrow> uint32 list" where
  "cids_of c = concat (map (\<lambda>ob. map oc_CID (ol_CIDs ob)) (c_Outbound c))"

definition metrics_good :: "MetricsConfig \<Rightarrow> uint32 set \<Rightarrow> bool" where
  "metrics_good m ports \<longleftrightarrow>
     \<not> (mc_Bind m \<noteq> [] \<and> mc_VsockPort m \<noteq> 0) \<and>
     (mc_Bind m \<noteq> [] \<longrightarrow> is_ok (SplitHostPort (mc_Bind m))) \<and>
     (mc_VsockPort m \<noteq> 0 \<longrightarrow> mc_VsockPort m < vsockPortAny \<and> mc_VsockPort m \<notin> ports)"

definition valid_config :: "Config \<Rightarrow> bool" where
  "valid_config c \<longleftrightarrow>
     \<not> (c_Inbound c = [] \<and> c_Outbound c = [] \<and> c_TCPToVsock c = [] \<and> c_VsockToTCP c = []
        \<and> c_LogRelay c = []) \<and>
     list_all inbound_good (c_Inbound c) \<and> list_all tcp_good (c_TCPToVsock c) \<and>
     distinct (binds_of c) \<and>
     list_all outbound_good (c_Outbound c) \<and> list_all vsock_good (c_VsockToTCP c) \<and>
     list_all relay_good (c_LogRelay c) \<and>
     distinct (vsock_ports_of c) \<and> distinct (cids_of c) \<and>
     c_LogFormat c \<in> {[], ''json'', ''text'', ''auto''} \<and>
     c_LogLevel c \<in> {[], ''debug'', ''info''} \<and>
     0 \<le> c_ShutdownGrace c \<and>
     metrics_good (c_Metrics c) (set (vsock_ports_of c))"

text \<open>The defaults \<open>LogRelayListener.validate\<close> writes in place.\<close>

definition relay_defaults :: "LogRelayListener \<Rightarrow> LogRelayListener" where
  "relay_defaults l =
     l\<lparr>lr_MaxLineBytes := (if lr_MaxLineBytes l = 0 then defaultMaxLineBytes
                          else lr_MaxLineBytes l),
       lr_Enrich := map_option (\<lambda>e. e\<lparr>le_HostKey := host_key_of e\<rparr>) (lr_Enrich l)\<rparr>"

section \<open>One listener at a time\<close>

lemma validatePattern_iff: "is_ok (validatePattern pat) \<longleftrightarrow> pattern_ok pat"
proof (cases "pat = ''*''")
  case True
  then show ?thesis by (simp add: validatePattern_def pattern_ok_def)
next
  case False
  show ?thesis
  proof (cases "SplitHostPort pat")
    case (Inl e)
    with False show ?thesis by (simp add: validatePattern_def pattern_ok_def)
  next
    case (Inr hp)
    obtain h p where hp: "hp = (h, p)" by (cases hp)
    consider "h = ''*''" | d where "h = ''*.'' @ d" | "h \<noteq> ''*''" "\<nexists>d. h = ''*.'' @ d"
      by blast
    then show ?thesis
      using Inr hp False
      by cases (auto simp: validatePattern_def pattern_ok_def prefix_def)
  qed
qed

lemma validateHostPort_iff: "is_ok (validateHostPort u) \<longleftrightarrow> upstream_good u"
  by (auto simp: validateHostPort_def upstream_good_def split: sum.splits option.splits)

lemma vsock_listener_iff: "is_ok (validate_VsockToTCPListener v) \<longleftrightarrow> vsock_good v"
  using validateHostPort_iff [of "vt_Upstream v"]
  by (auto simp: validate_VsockToTCPListener_def vsock_good_def upstream_good_def
      SplitHostPort_def)

lemma tcp_listener_iff: "is_ok (validate_TCPToVsockListener t) \<longleftrightarrow> tcp_good t"
  by (auto simp: validate_TCPToVsockListener_def tcp_good_def not_less)

interpretation routes: unique_loop validate_route route_good
  "\<lambda>r. [ToLower (r_Hostname r)]" "\<lambda>s. s"
  by unfold_locales
    (auto simp: validate_route_def route_good_def Let_def not_less split: if_splits)

lemma inbound_listener_iff: "is_ok (validate_InboundListener il) \<longleftrightarrow> inbound_good il"
  using routes.loop_ok [of 0 "il_Routes il" "{}"]
  by (auto simp: validate_InboundListener_def inbound_good_def is_ok_iff comp_def
      split: sum.splits)

lemma allowed_hosts_iff:
  "is_ok (for_idx validate_allowed 0 pats ()) \<longleftrightarrow> list_all pattern_ok pats"
proof (rule for_idx_check_iff)
  fix j x
  show "is_ok (validate_allowed j x ()) \<longleftrightarrow> pattern_ok x"
    using validatePattern_iff [of x] by (cases "validatePattern x") (auto simp: validate_allowed_def)
qed

lemma enrich_iff:
  "validate_enrich e = Inr e' \<longleftrightarrow> enrich_good e \<and> e' = e\<lparr>le_HostKey := host_key_of e\<rparr>"
proof -
  have tags: "is_ok (for_idx check_tag 0 (le_Tags e) ()) \<longleftrightarrow>
      (\<forall>(k, v) \<in> set (le_Tags e). k \<noteq> [] \<and> v \<noteq> [])"
    using for_idx_check_iff [of check_tag "\<lambda>kv. fst kv \<noteq> [] \<and> snd kv \<noteq> []" 0 "le_Tags e"]
    by (auto simp: check_tag_def list_all_iff)
  have upd: "(if le_HostKey e = [] then e\<lparr>le_HostKey := defaultHostKey\<rparr> else e)
      = e\<lparr>le_HostKey := host_key_of e\<rparr>" by (simp add: host_key_of_def)
  show ?thesis
    using tags unfolding validate_enrich_def upd Let_def
    by (auto simp: enrich_good_def split: sum.splits)
qed

lemma relay_listener_iff:
  "validate_LogRelayListener l = Inr l' \<longleftrightarrow> relay_good l \<and> l' = relay_defaults l"
proof -
  have out: "check_output l = Inr u \<longleftrightarrow>
      lr_Output l = LogRelayOutputFile \<and> lr_Path l \<noteq> []
      \<or> lr_Output l = LogRelayOutputStdout \<and> lr_Path l = []" for u
    by (auto simp: check_output_def)
  show ?thesis
    by (cases "lr_Enrich l")
      (auto simp: validate_LogRelayListener_def res_bind_Inr_iff out enrich_iff relay_good_def
        relay_defaults_def minMaxLineBytes_def Let_def)
qed

section \<open>The loops\<close>

lemma bind_key_inj: "bind_key b p = bind_key b' p' \<longleftrightarrow> b = b' \<and> p = p'"
proof
  assume eq: "bind_key b p = bind_key b' p'"
  have L: "LastIndexByte (bind_key x q) (CHR ''|'') = Some (length x)" for x q
    using LastIndexByte_append [of "CHR ''|''" "Itoa q" x] by (simp add: bind_key_def)
  have len: "length b = length b'" using L [of b p] L [of b' p'] eq by simp
  with eq have "b = b'" "Itoa p = Itoa p'" by (auto simp: bind_key_def)
  then show "b = b' \<and> p = p'" using Itoa_inj by blast
qed simp

lemma distinct_bind_keys:
  "distinct (map (\<lambda>(b, p). bind_key b p) xs) \<longleftrightarrow> distinct xs"
  by (auto simp: distinct_map inj_on_def bind_key_inj)

text \<open>Each loop body in closed form: what it accepts and what it records.\<close>

lemma validate_inbound_at_Inr:
  "validate_inbound_at i il sb = Inr sb' \<longleftrightarrow>
     inbound_good il \<and> sb (bind_key (il_Bind il) (il_Port il)) = None \<and>
     sb' = sb(bind_key (il_Bind il) (il_Port il) \<mapsto> InboundAt i)"
  using inbound_listener_iff [of il]
  by (cases "validate_InboundListener il")
    (auto simp: validate_inbound_at_def Let_def split: option.splits)

lemma validate_tcp_at_Inr:
  "validate_tcp_at i t sb = Inr sb' \<longleftrightarrow>
     tcp_good t \<and> sb (bind_key (tv_Bind t) (tv_Port t)) = None \<and>
     sb' = sb(bind_key (tv_Bind t) (tv_Port t) \<mapsto> TCPToVsockAt i)"
  using tcp_listener_iff [of t]
  by (cases "validate_TCPToVsockListener t")
    (auto simp: validate_tcp_at_def Let_def split: option.splits)

lemma validate_cid_Inr:
  "validate_cid port j oc co = Inr co' \<longleftrightarrow>
     cid_good oc \<and> co (oc_CID oc) = None \<and> co' = co(oc_CID oc \<mapsto> port)"
  using allowed_hosts_iff [of "oc_AllowedHosts oc"]
  by (cases "for_idx validate_allowed 0 (oc_AllowedHosts oc) ()")
    (auto simp: validate_cid_def cid_good_def not_less split: option.splits)

lemma validate_vsock_at_Inr:
  "validate_vsock_at i v sp = Inr sp' \<longleftrightarrow>
     vsock_good v \<and> sp (vt_Port v) = None \<and> sp' = sp(vt_Port v \<mapsto> VsockToTCPAt i)"
  using vsock_listener_iff [of v]
  by (cases "validate_VsockToTCPListener v")
    (auto simp: validate_vsock_at_def split: option.splits)

lemma validate_relay_at_Inr:
  "validate_relay_at i l (sp, out) = Inr st' \<longleftrightarrow>
     relay_good l \<and> sp (lr_Port l) = None \<and>
     st' = (sp(lr_Port l \<mapsto> LogRelayAt i), out @ [relay_defaults l])"
  using relay_listener_iff [of l]
  by (cases "validate_LogRelayListener l")
    (auto simp: validate_relay_at_def split: option.splits)

lemmas body_Inr = validate_inbound_at_Inr validate_tcp_at_Inr validate_cid_Inr
  validate_vsock_at_Inr validate_relay_at_Inr

interpretation inb: unique_loop validate_inbound_at inbound_good
  "\<lambda>il. [bind_key (il_Bind il) (il_Port il)]" dom
  by unfold_locales (auto simp: body_Inr is_ok_iff domIff)

interpretation tcps: unique_loop validate_tcp_at tcp_good
  "\<lambda>t. [bind_key (tv_Bind t) (tv_Port t)]" dom
  by unfold_locales (auto simp: body_Inr is_ok_iff domIff)

interpretation cids: unique_loop "validate_cid port" cid_good "\<lambda>oc. [oc_CID oc]" dom for port
  by unfold_locales (auto simp: body_Inr is_ok_iff domIff)

text \<open>The outbound loop has two kinds of keys: the port and the context ids under it.\<close>

definition out_keys :: "OutboundListener \<Rightarrow> (uint32 + uint32) list" where
  "out_keys ob = Inl (ol_Port ob) # map (Inr \<circ> oc_CID) (ol_CIDs ob)"

definition out_seen :: "port_state \<Rightarrow> (uint32 + uint32) set" where
  "out_seen st = Inl ` dom (fst st) \<union> Inr ` dom (snd st)"

lemma out_body_ok:
  "is_ok (validate_outbound_at i ob st) \<longleftrightarrow>
     outbound_good ob \<and> distinct (out_keys ob) \<and> set (out_keys ob) \<inter> out_seen st = {}"
proof -
  obtain sp co where st: "st = (sp, co)" by (cases st)
  have d: "distinct (out_keys ob) \<longleftrightarrow> distinct (map oc_CID (ol_CIDs ob))"
    by (auto simp: out_keys_def distinct_map inj_on_def)
  have s: "set (out_keys ob) \<inter> out_seen st = {} \<longleftrightarrow>
      sp (ol_Port ob) = None \<and> set (map oc_CID (ol_CIDs ob)) \<inter> dom co = {}"
    by (auto simp: out_keys_def out_seen_def st domIff)
  show ?thesis
    using cids.loop_ok [of "ol_Port ob" 0 "ol_CIDs ob" co] unfolding d s
    by (auto simp: validate_outbound_at_def st outbound_good_def is_ok_def
        split: sum.splits option.splits)
qed

lemma out_body_seen:
  assumes "validate_outbound_at i ob st = Inr st'"
  shows "out_seen st' = out_seen st \<union> set (out_keys ob)"
proof -
  obtain sp co where st: "st = (sp, co)" by (cases st)
  from assms obtain co' where co': "for_idx (validate_cid (ol_Port ob)) 0 (ol_CIDs ob) co = Inr co'"
    and st': "st' = (sp(ol_Port ob \<mapsto> OutboundAt i), co')"
    by (auto simp: validate_outbound_at_def st split: sum.splits option.splits if_splits)
  from cids.loop_seen [OF co'] show ?thesis
    by (auto simp: st st' out_seen_def out_keys_def)
qed

interpretation outb: unique_loop validate_outbound_at outbound_good out_keys out_seen
  by unfold_locales (rule out_body_ok, rule out_body_seen)

interpretation vsocks: unique_loop validate_vsock_at vsock_good "\<lambda>v. [vt_Port v]" dom
  by unfold_locales (auto simp: body_Inr is_ok_iff domIff)

interpretation relays: unique_loop validate_relay_at relay_good "\<lambda>l. [lr_Port l]"
  "\<lambda>st. dom (fst st)"
  by unfold_locales (auto simp: body_Inr is_ok_iff domIff split_paired_all)

lemma relay_loop_out:
  "for_idx validate_relay_at i ls (sp, out) = Inr (sp', out') \<Longrightarrow>
   out' = out @ map relay_defaults ls"
proof (induction ls arbitrary: i sp out)
  case Nil
  then show ?case by simp
next
  case (Cons l ls)
  from Cons.prems obtain st where "validate_relay_at i l (sp, out) = Inr st"
    "for_idx validate_relay_at (Suc i) ls st = Inr (sp', out')"
    by (auto split: sum.splits)
  then show ?case using Cons.IH by (fastforce simp: body_Inr)
qed

section \<open>The whole configuration\<close>

lemma check_scalars_ok:
  "is_ok (check_scalars c) \<longleftrightarrow>
     c_LogFormat c \<in> {[], ''json'', ''text'', ''auto''} \<and>
     c_LogLevel c \<in> {[], ''debug'', ''info''} \<and> 0 \<le> c_ShutdownGrace c"
  by (auto simp: check_scalars_def)

lemma check_metrics_ok: "is_ok (check_metrics m sp) \<longleftrightarrow> metrics_good m (dom sp)"
  by (auto simp: check_metrics_def metrics_good_def is_ok_iff domIff
      split: sum.splits option.splits)

lemma is_ok_bind: "is_ok (res_bind m f) \<longleftrightarrow> (\<exists>x. m = Inr x \<and> is_ok (f x))"
  by (cases m) auto

text \<open>The two stages of the port maps: TCP addresses, then vsock ports and context ids.\<close>

lemma bind_stage:
  "(\<exists>sb. for_idx validate_inbound_at 0 ins Map.empty = Inr sb \<and>
      is_ok (for_idx validate_tcp_at 0 ts sb)) \<longleftrightarrow>
   list_all inbound_good ins \<and> list_all tcp_good ts \<and>
   distinct (map (\<lambda>il. (il_Bind il, il_Port il)) ins @ map (\<lambda>t. (tv_Bind t, tv_Port t)) ts)"
proof -
  let ?bi = "map (\<lambda>il. (il_Bind il, il_Port il)) ins"
  let ?bt = "map (\<lambda>t. (tv_Bind t, tv_Port t)) ts"
  let ?k = "\<lambda>(b, p). bind_key b p"
  have ki: "concat (map (\<lambda>il. [bind_key (il_Bind il) (il_Port il)]) ins) = map ?k ?bi"
    and kt: "concat (map (\<lambda>t. [bind_key (tv_Bind t) (tv_Port t)]) ts) = map ?k ?bt"
    by (simp_all add: comp_def)
  have "distinct (?bi @ ?bt) \<longleftrightarrow> distinct (map ?k (?bi @ ?bt))" by (simp only: distinct_bind_keys)
  then have d: "distinct (?bi @ ?bt) \<longleftrightarrow> distinct (map ?k ?bi) \<and> distinct (map ?k ?bt) \<and>
      set (map ?k ?bt) \<inter> set (map ?k ?bi) = {}" by auto
  show ?thesis
  proof (cases "for_idx validate_inbound_at 0 ins Map.empty")
    case (Inl e)
    with inb.loop_ok [of 0 ins Map.empty] show ?thesis unfolding d ki by auto
  next
    case (Inr sb)
    with inb.loop_ok [of 0 ins Map.empty] inb.loop_seen [OF Inr] tcps.loop_ok [of 0 ts sb]
    show ?thesis unfolding d ki kt by auto
  qed
qed

lemma sum_parts_eqD: "Inl ` A \<union> Inr ` B = Inl ` C \<union> Inr ` D \<Longrightarrow> A = C"
proof -
  have *: "X = Inl -` (Inl ` X \<union> Inr ` Y)" for X :: "'a set" and Y :: "'b set" by auto
  assume "Inl ` A \<union> Inr ` B = Inl ` C \<union> Inr ` D"
  then show "A = C" using * [of A B] * [of C D] by simp
qed

lemma sum_parts_disjoint:
  "insert (Inl a) (Inr ` B) \<inter> (Inl ` C \<union> Inr ` D) = {} \<longleftrightarrow> a \<notin> C \<and> B \<inter> D = {}"
  by auto

lemma set_out_keys:
  "set (concat (map out_keys obs)) =
     Inl ` set (map ol_Port obs) \<union> Inr ` set (concat (map (\<lambda>ob. map oc_CID (ol_CIDs ob)) obs))"
  by (auto simp: out_keys_def)

lemma distinct_out_keys:
  "distinct (concat (map out_keys obs)) \<longleftrightarrow>
     distinct (map ol_Port obs) \<and>
     distinct (concat (map (\<lambda>ob. map oc_CID (ol_CIDs ob)) obs))"
proof (induction obs)
  case Nil
  show ?case by simp
next
  case (Cons ob obs)
  have "distinct (out_keys ob) \<longleftrightarrow> distinct (map oc_CID (ol_CIDs ob))"
    by (auto simp: out_keys_def distinct_map inj_on_def)
  moreover have "set (out_keys ob) = insert (Inl (ol_Port ob)) (Inr ` set (map oc_CID (ol_CIDs ob)))"
    by (auto simp: out_keys_def)
  ultimately have "distinct (concat (map out_keys (ob # obs))) \<longleftrightarrow>
      distinct (map oc_CID (ol_CIDs ob)) \<and> distinct (concat (map out_keys obs)) \<and>
      ol_Port ob \<notin> set (map ol_Port obs) \<and> set (map oc_CID (ol_CIDs ob)) \<inter>
        set (concat (map (\<lambda>ob. map oc_CID (ol_CIDs ob)) obs)) = {}"
    by (simp only: list.map concat.simps distinct_append set_out_keys sum_parts_disjoint)
  with Cons show ?case by (auto simp: Int_commute)
qed

lemma outbound_stage:
  assumes "for_idx validate_outbound_at 0 obs (Map.empty, Map.empty) = Inr (sp, co)"
  shows "dom sp = set (map ol_Port obs)"
proof -
  have "Inl ` dom sp \<union> Inr ` dom co = set (concat (map out_keys obs))"
    using outb.loop_seen [OF assms] by (simp add: out_seen_def)
  then show ?thesis unfolding set_out_keys by (rule sum_parts_eqD)
qed

lemma port_stage:
  "(\<exists>sp co. for_idx validate_outbound_at 0 obs (Map.empty, Map.empty) = Inr (sp, co) \<and>
     (\<exists>sp1. for_idx validate_vsock_at 0 vs sp = Inr sp1 \<and>
     (\<exists>sp2 rs. for_idx validate_relay_at 0 ls (sp1, []) = Inr (sp2, rs) \<and> Q (dom sp2)))) \<longleftrightarrow>
   list_all outbound_good obs \<and> list_all vsock_good vs \<and> list_all relay_good ls \<and>
   distinct (map ol_Port obs @ map vt_Port vs @ map lr_Port ls) \<and>
   distinct (concat (map (\<lambda>ob. map oc_CID (ol_CIDs ob)) obs)) \<and>
   Q (set (map ol_Port obs @ map vt_Port vs @ map lr_Port ls))"
  (is "?L \<longleftrightarrow> ?R")
proof (cases "for_idx validate_outbound_at 0 obs (Map.empty, Map.empty)")
  case (Inl e)
  with outb.loop_ok [of 0 obs "(Map.empty, Map.empty)"] show ?thesis
    by (auto simp: out_seen_def distinct_out_keys)
next
  case (Inr st)
  obtain sp co where st: "st = (sp, co)" by (cases st)
  have o: "list_all outbound_good obs" "distinct (map ol_Port obs)"
    "distinct (concat (map (\<lambda>ob. map oc_CID (ol_CIDs ob)) obs))"
    using outb.loop_ok [of 0 obs "(Map.empty, Map.empty)"] Inr by (auto simp: distinct_out_keys)
  have d: "dom sp = set (map ol_Port obs)" using outbound_stage Inr st by simp
  show ?thesis
  proof (cases "for_idx validate_vsock_at 0 vs sp")
    case Inl2: (Inl e)
    with vsocks.loop_ok [of 0 vs sp] Inr st d o show ?thesis by auto
  next
    case Inr2: (Inr sp1)
    note v = vsocks.loop_ok [of 0 vs sp] vsocks.loop_seen [OF Inr2]
    show ?thesis
    proof (cases "for_idx validate_relay_at 0 ls (sp1, [])")
      case Inl3: (Inl e)
      with relays.loop_ok [of 0 ls "(sp1, [])"] Inr st d o Inr2 v show ?thesis by auto
    next
      case Inr3: (Inr st3)
      obtain sp2 rs where st3: "st3 = (sp2, rs)" by (cases st3)
      note r = relays.loop_ok [of 0 ls "(sp1, [])"] relays.loop_seen [OF Inr3]
      have dom: "dom sp2 = set (map ol_Port obs @ map vt_Port vs @ map lr_Port ls)"
        using r(2) v(2) d st3 by auto
      from Inr st d o Inr2 v Inr3 st3 r dom show ?thesis by auto
    qed
  qed
qed

lemma Validate_Inr:
  assumes "Validate c = Inr c'"
  shows "c' = c\<lparr>c_LogRelay := map relay_defaults (c_LogRelay c)\<rparr>"
  using assms
  by (auto simp: Validate_def res_bind_Inr_iff dest: relay_loop_out split: if_splits)

lemma Validate_ok_iff: "is_ok (Validate c) \<longleftrightarrow> valid_config c"
proof -
  let ?none = "c_Inbound c = [] \<and> c_Outbound c = [] \<and> c_TCPToVsock c = [] \<and>
    c_VsockToTCP c = [] \<and> c_LogRelay c = []"
  let ?B = "\<exists>sb. for_idx validate_inbound_at 0 (c_Inbound c) Map.empty = Inr sb \<and>
    is_ok (for_idx validate_tcp_at 0 (c_TCPToVsock c) sb)"
  let ?Q = "\<lambda>ports. is_ok (check_scalars c) \<and> metrics_good (c_Metrics c) ports"
  let ?P = "\<exists>sp co. for_idx validate_outbound_at 0 (c_Outbound c) (Map.empty, Map.empty) =
      Inr (sp, co) \<and>
     (\<exists>sp1. for_idx validate_vsock_at 0 (c_VsockToTCP c) sp = Inr sp1 \<and>
     (\<exists>sp2 rs. for_idx validate_relay_at 0 (c_LogRelay c) (sp1, []) = Inr (sp2, rs) \<and>
       ?Q (dom sp2)))"
  have "is_ok (Validate c) \<longleftrightarrow> \<not> ?none \<and> ?B \<and> ?P"
  proof (cases "?none")
    case True
    then show ?thesis by (simp add: Validate_def)
  next
    case False
    then have "is_ok (Validate c) \<longleftrightarrow> ?B \<and> ?P"
      unfolding Validate_def check_metrics_ok [symmetric]
      by (simp only: if_False is_ok_bind is_ok_iff [of "for_idx validate_tcp_at _ _ _"]
          case_prod_beta) (force simp: is_ok_iff)
    with False show ?thesis by simp
  qed
  then show ?thesis
    unfolding bind_stage port_stage [where Q = ?Q]
    unfolding check_scalars_ok valid_config_def binds_of_def vsock_ports_of_def cids_of_def
    by blast
qed

text \<open>Filling in defaults is stable and keeps the constraints.\<close>

lemma host_key_of_idem [simp]: "host_key_of (e\<lparr>le_HostKey := host_key_of e\<rparr>) = host_key_of e"
  by (simp add: host_key_of_def defaultHostKey_def)

lemma relay_defaults_idem: "relay_defaults (relay_defaults l) = relay_defaults l"
  by (cases "lr_Enrich l") (simp_all add: relay_defaults_def defaultMaxLineBytes_def)

lemma relay_good_defaults: "relay_good l \<Longrightarrow> relay_good (relay_defaults l)"
  by (auto simp: relay_good_def relay_defaults_def enrich_good_def defaultMaxLineBytes_def
      minMaxLineBytes_def)

lemma lr_Port_defaults [simp]: "lr_Port (relay_defaults l) = lr_Port l"
  by (simp add: relay_defaults_def)

lemma valid_config_defaults:
  "valid_config c \<Longrightarrow> valid_config (c\<lparr>c_LogRelay := map relay_defaults (c_LogRelay c)\<rparr>)"
  by (auto simp: valid_config_def binds_of_def vsock_ports_of_def cids_of_def list_all_iff
      comp_def relay_good_defaults)

section \<open>Properties\<close>

text \<open>
  C27. Validation is exact: \<open>Config.Validate\<close> accepts a configuration if and only if it meets
  the documented constraints (ranges, modes, distinct host names per listener, distinct TCP
  addresses across inbound and tcp_to_vsock, distinct vsock ports across the three vsock
  sections, a context id under at most one outbound port, allowlist syntax, metrics rules),
  and what it returns is the input with the log_relay defaults filled in.
\<close>

theorem Validate_exact:
  "Validate c = Inr c' \<longleftrightarrow>
     valid_config c \<and> c' = c\<lparr>c_LogRelay := map relay_defaults (c_LogRelay c)\<rparr>"
  using Validate_ok_iff [of c] Validate_Inr [of c] by (cases "Validate c") auto

text \<open>
  The two pattern checkers agree: a pattern passes \<open>config.validatePattern\<close> at load time if
  and only if \<open>allowlist.parsePattern\<close> compiles it, although one looks at the host as written
  and the other at its lower-case form.
\<close>

theorem pattern_checks_agree: "is_ok (validatePattern pat) \<longleftrightarrow> is_ok (parsePattern pat)"
  by (simp add: validatePattern_iff parsePattern_ok_iff)

text \<open>
  Validation is idempotent: a configuration that came out of \<open>Validate\<close> validates again,
  unchanged.
\<close>

theorem Validate_idempotent:
  assumes "Validate c = Inr c'"
  shows "Validate c' = Inr c'"
proof -
  have v: "valid_config c" using Validate_ok_iff [of c] assms by simp
  have c': "c' = c\<lparr>c_LogRelay := map relay_defaults (c_LogRelay c)\<rparr>" by (rule Validate_Inr [OF assms])
  have "is_ok (Validate c')" using valid_config_defaults [OF v] c' by (simp add: Validate_ok_iff)
  then obtain c'' where c'': "Validate c' = Inr c''" by (auto simp: is_ok_iff)
  have "c'' = c'" using Validate_Inr [OF c''] c' by (simp add: comp_def relay_defaults_idem)
  with c'' show ?thesis by simp
qed

definition sample_relay_config :: Config where
  "sample_relay_config = \<lparr>c_Inbound = [], c_Outbound = [], c_TCPToVsock = [], c_VsockToTCP = [],
     c_LogRelay = [\<lparr>lr_Port = 5140, lr_Output = ''stdout'', lr_Path = [], lr_MaxLineBytes = 0,
        lr_Enrich = Some \<lparr>le_CID = True, le_Tags = [(''region'', ''eu'')], le_HostKey = []\<rparr>\<rparr>],
     c_Metrics = \<lparr>mc_Bind = [], mc_VsockPort = 9090\<rparr>, c_ShutdownGrace = 30000000000,
     c_LogFormat = ''json'', c_LogLevel = []\<rparr>"

theorem Validate_idempotent_witness:
  "\<exists>c'. Validate sample_relay_config = Inr c' \<and> c' \<noteq> sample_relay_config \<and> Validate c' = Inr c'"
proof -
  let ?c = "sample_relay_config\<lparr>c_LogRelay := map relay_defaults (c_LogRelay sample_relay_config)\<rparr>"
  have "valid_config sample_relay_config"
    by (simp add: valid_config_def sample_relay_config_def relay_good_def enrich_good_def
        host_key_of_def defaultHostKey_def relayReservedKeys_def vsock_port_bad_def vsockPortAny_def
        metrics_good_def vsock_ports_of_def binds_of_def cids_of_def)
  then have v: "Validate sample_relay_config = Inr ?c"
    using Validate_ok_iff [of sample_relay_config] Validate_Inr [of sample_relay_config]
    by (auto simp: is_ok_iff)
  moreover have "?c \<noteq> sample_relay_config"
    by (simp add: sample_relay_config_def relay_defaults_def defaultMaxLineBytes_def)
  ultimately show ?thesis using Validate_idempotent [OF v] by blast
qed

text \<open>A configuration with one listener of every kind, for the witnesses of the other components.\<close>

definition sample_config :: Config where
  "sample_config = \<lparr>
     c_Inbound = [\<lparr>il_Bind = ''0.0.0.0'', il_Port = 443, il_Mode = ''tls-sni'',
        il_Routes = [\<lparr>r_Hostname = ''Api.example.com'', r_CID = 16, r_VsockPort = 8443\<rparr>]\<rparr>],
     c_Outbound = [\<lparr>ol_Port = 8080, ol_CIDs = [\<lparr>oc_CID = 16, oc_AllowedHosts = [''api.test:443'']\<rparr>]\<rparr>],
     c_TCPToVsock = [\<lparr>tv_Bind = ''::1'', tv_Port = 5432, tv_VsockCID = 17, tv_VsockPort = 5432\<rparr>],
     c_VsockToTCP = [\<lparr>vt_Port = 9000, vt_Upstream = ''db:5432''\<rparr>],
     c_LogRelay = [\<lparr>lr_Port = 5140, lr_Output = ''stdout'', lr_Path = [], lr_MaxLineBytes = 65536,
        lr_Enrich = Some \<lparr>le_CID = True, le_Tags = [(''region'', ''eu'')], le_HostKey = []\<rparr>\<rparr>],
     c_Metrics = \<lparr>mc_Bind = [], mc_VsockPort = 9090\<rparr>, c_ShutdownGrace = 30000000000,
     c_LogFormat = ''json'', c_LogLevel = []\<rparr>"


lemma sample_config_valid: "valid_config sample_config"
proof -
  have "is_ok (validateHostPort ''db:5432'')" by (simp add: validateHostPort_def allow_eval)
  then have u: "upstream_good ''db:5432''" by (simp only: validateHostPort_iff)
  have "is_ok (parsePattern ''api.test:443'')" by (simp add: allow_eval)
  then have p: "pattern_ok ''api.test:443''" by (simp only: parsePattern_ok_iff)
  show ?thesis
    using u p
    by (simp add: valid_config_def sample_config_def relay_good_def enrich_good_def
        host_key_of_def defaultHostKey_def relayReservedKeys_def vsock_port_bad_def vsockPortAny_def
        metrics_good_def vsock_ports_of_def binds_of_def cids_of_def outbound_good_def cid_good_def vsock_good_def minCID_def
        minMaxLineBytes_def inbound_good_def tcp_good_def route_good_def)
qed

end
