(* ===== verification/Go_Duration.thy ===== *)
theory Go_Duration
  imports Go_Net
begin

text \<open>
  \<open>Duration.UnmarshalYAML\<close> of both configuration packages over \<open>time.ParseDuration\<close>: numbers of nanoseconds in a
  \<open>uint64\<close>, whose one addition that can wrap is written out. \<open>frac f unit k\<close> is what the float64 expression for the fraction
  \<open>f / 10 ^ k\<close> of a unit yields.
\<close>

section \<open>Parsing\<close>

fun leadingInt :: "nat \<Rightarrow> bytes \<Rightarrow> (nat \<times> bytes) option" where
  "leadingInt x [] = Some (x, [])"
| "leadingInt x (c # s) =
     (if \<not> is_digit c then Some (x, c # s)
      else if x > 2 ^ 63 div 10 then None
      else let y = 10 * x + (byte_val c - 48) in if y > 2 ^ 63 then None else leadingInt y s)"

text \<open>The digits of a fraction as far as they fit, how many those are, and what follows the digits.\<close>

fun leadingFraction :: "bool \<Rightarrow> nat \<Rightarrow> nat \<Rightarrow> bytes \<Rightarrow> nat \<times> nat \<times> bytes" where
  "leadingFraction overflow x k [] = (x, k, [])"
| "leadingFraction overflow x k (c # s) =
     (if \<not> is_digit c then (x, k, c # s)
      else if overflow then leadingFraction True x k s
      else if x > (2 ^ 63 - 1) div 10 then leadingFraction True x k s
      else let y = 10 * x + (byte_val c - 48) in
        if y > 2 ^ 63 then leadingFraction True x k s else leadingFraction False y (Suc k) s)"

definition unitMap :: "(bytes \<times> nat) list" where
  "unitMap = [(''ns'', 1), (''us'', 1000), ([CHR 0xC2, CHR 0xB5, CHR ''s''], 1000), ([CHR 0xCE, CHR 0xBC, CHR ''s''], 1000),
     (''ms'', 1000000), (''s'', 1000000000), (''m'', 60000000000), (''h'', 3600000000000)]"

type_synonym fraction = "nat \<Rightarrow> nat \<Rightarrow> nat \<Rightarrow> nat"

definition unit_char :: "byte \<Rightarrow> bool" where
  "unit_char c \<longleftrightarrow> c \<noteq> CHR ''.'' \<and> \<not> is_digit c"

text \<open>One round of the loop: the nanoseconds of a number with its unit, and the rest.\<close>

definition dur_term :: "fraction \<Rightarrow> bytes \<Rightarrow> (nat \<times> bytes) option" where
  "dur_term frac s =
     (if \<not> (case s of [] \<Rightarrow> False | c # _ \<Rightarrow> c = CHR ''.'' \<or> is_digit c) then None
      else case leadingInt 0 s of
        None \<Rightarrow> None
      | Some (v, s1) \<Rightarrow>
          let pre = length s \<noteq> length s1;
              (f, k, s2) = (case s1 of c # t \<Rightarrow> if c = CHR ''.'' then leadingFraction False 0 0 t else (0, 0, s1) | [] \<Rightarrow> (0, 0, s1));
              post = (case s1 of c # t \<Rightarrow> c = CHR ''.'' \<and> length t \<noteq> length s2 | [] \<Rightarrow> False);
              u = takeWhile unit_char s2
          in if \<not> pre \<and> \<not> post then None
             else if u = [] then None
             else case map_of unitMap u of
               None \<Rightarrow> None
             | Some unit \<Rightarrow>
                 if v > 2 ^ 63 div unit then None
                 else let w = v * unit + (if f > 0 then frac f unit k else 0) in
                   if f > 0 \<and> w > 2 ^ 63 then None else Some (w, dropWhile unit_char s2))"

lemma leadingInt_length: "leadingInt x s = Some (v, r) \<Longrightarrow> length r \<le> length s"
  by (induction x s rule: leadingInt.induct) (auto simp: Let_def split: if_splits)

lemma leadingFraction_length: "leadingFraction b x k s = (v, n, r) \<Longrightarrow> length r \<le> length s"
proof (induction s arbitrary: b x k)
  case (Cons c s)
  then show ?case by (fastforce simp: Let_def split: if_splits)
qed simp

lemma dropWhile_shorter: "takeWhile P s \<noteq> [] \<Longrightarrow> length (dropWhile P s) < length s"
  by (cases s) (auto simp: le_imp_less_Suc length_dropWhile_le split: if_splits)

lemma dur_term_length:
  assumes "dur_term frac s = Some (v, r)"
  shows "length r < length s"
proof -
  obtain n s1 where n: "leadingInt 0 s = Some (n, s1)" using assms by (auto simp: dur_term_def split: if_splits option.splits)
  obtain f k s2 where s2: "(case s1 of c # t \<Rightarrow> if c = CHR ''.'' then leadingFraction False 0 0 t else (0, 0, s1) | [] \<Rightarrow> (0, 0, s1)) = (f, k, s2)"
    by (metis prod_cases3)
  have r: "r = dropWhile unit_char s2" "takeWhile unit_char s2 \<noteq> []"
    using assms n s2 by (auto simp: dur_term_def Let_def split: if_splits option.splits)
  have "length s2 \<le> length s1"
    using s2 leadingFraction_length by (fastforce split: list.splits if_splits)
  then show ?thesis using leadingInt_length [OF n] dropWhile_shorter [OF r(2)] r(1) by simp
qed

function dur_loop :: "fraction \<Rightarrow> bytes \<Rightarrow> nat \<Rightarrow> nat option" where
  "dur_loop frac s d =
     (if s = [] then Some d
      else case dur_term frac s of
        None \<Rightarrow> None
      | Some (v, r) \<Rightarrow> let d' = (d + v) mod 2 ^ 64 in if d' > 2 ^ 63 then None else dur_loop frac r d')"
  by pat_completeness auto
termination
  by (relation "measure (\<lambda>(frac, s, d). length s)") (auto intro: dur_term_length)

declare dur_loop.simps [simp del]

definition ParseDuration :: "fraction \<Rightarrow> bytes \<Rightarrow> int option" where
  "ParseDuration frac orig =
     (let neg = (case orig of c # _ \<Rightarrow> c = CHR ''-'' | [] \<Rightarrow> False);
          s = (case orig of c # t \<Rightarrow> if c = CHR ''-'' \<or> c = CHR ''+'' then t else orig | [] \<Rightarrow> [])
      in if s = ''0'' then Some 0
         else if s = [] then None
         else case dur_loop frac s 0 of
           None \<Rightarrow> None
         | Some d \<Rightarrow> if neg then Some (- int d) else if d > 2 ^ 63 - 1 then None else Some (int d))"

section \<open>The configuration value\<close>

datatype duration_error = DurationNotString | InvalidDuration bytes

text \<open>What decoding the YAML node into a string yields, and the new value of the field.\<close>

definition UnmarshalYAML :: "fraction \<Rightarrow> bytes option \<Rightarrow> duration_error + int" where
  "UnmarshalYAML frac decoded =
     (case decoded of
        None \<Rightarrow> Inl DurationNotString
      | Some s \<Rightarrow> (case ParseDuration frac s of None \<Rightarrow> Inl (InvalidDuration s) | Some d \<Rightarrow> Inr d))"

section \<open>Durations as people write them\<close>

definition term_text :: "nat \<times> bytes \<Rightarrow> bytes" where
  "term_text t = digits_of (fst t) @ snd t"

definition term_ns :: "nat \<times> bytes \<Rightarrow> nat" where
  "term_ns t = fst t * the (map_of unitMap (snd t))"

definition good_unit :: "nat \<times> bytes \<Rightarrow> bool" where
  "good_unit t \<longleftrightarrow> snd t \<in> set (map fst unitMap)"

lemma unit_facts:
  assumes "u \<in> set (map fst unitMap)"
  shows "\<exists>n. map_of unitMap u = Some n \<and> 0 < n \<and> u \<noteq> [] \<and> list_all unit_char u"
  using assms unfolding unitMap_def list.map set_simps fst_conv
  by (elim insertE emptyE) (simp_all add: unit_char_def is_digit_def)

lemma leadingInt_digits:
  "\<lbrakk>list_all is_digit ds; foldl (\<lambda>n c. 10 * n + (byte_val c - 48)) x ds \<le> 2 ^ 63; r = [] \<or> \<not> is_digit (hd r)\<rbrakk> \<Longrightarrow>
   leadingInt x (ds @ r) = Some (foldl (\<lambda>n c. 10 * n + (byte_val c - 48)) x ds, r)"
proof (induction ds arbitrary: x)
  case Nil
  then show ?case by (cases r) simp_all
next
  case (Cons c ds)
  let ?y = "10 * x + (byte_val c - 48)"
  have mono: "y \<le> foldl (\<lambda>n c. 10 * n + (byte_val c - 48)) y ds" for y
  proof (induction ds arbitrary: y)
    case (Cons a ds)
    show ?case using Cons [of "10 * y + (byte_val a - 48)"] by simp
  qed simp
  have "?y \<le> 2 ^ 63" using Cons.prems(2) mono [of ?y] by simp
  then show ?case using Cons by (simp add: Let_def)
qed

lemma dur_term_text:
  assumes "good_unit t" "term_ns t \<le> 2 ^ 63" "r = [] \<or> is_digit (hd r)"
  shows "dur_term frac (term_text t @ r) = Some (term_ns t, r)"
proof -
  obtain n u where t: "t = (n, u)" by fastforce
  obtain m where m: "map_of unitMap u = Some m" "0 < m" "u \<noteq> []" "list_all unit_char u"
    using assms(1) unit_facts [of u] unfolding t good_unit_def by auto
  have ns: "n * m \<le> 2 ^ 63" "term_ns t = n * m" using assms(2) m by (simp_all add: t term_ns_def)
  then have n: "n \<le> 2 ^ 63 div m" using m(2) by (simp add: less_eq_div_iff_mult_less_eq)
  then have "n \<le> 2 ^ 63" using div_le_dividend order.trans by blast
  have u0: "unit_char (hd u)" using m(3,4) by (cases u) simp_all
  have "leadingInt 0 (digits_of n @ u @ r) = Some (n, u @ r)"
    using leadingInt_digits [OF digits_of_digits [of n], of 0 "u @ r"] \<open>n \<le> 2 ^ 63\<close> u0 m(3) digits_val_digits_of [of n]
    by (simp add: digits_val_def unit_char_def)
  moreover obtain c ds where d: "digits_of n = c # ds" by (cases "digits_of n") simp_all
  moreover have "is_digit c" using digits_of_digits [of n] d by simp
  moreover have tw: "takeWhile unit_char (u @ r) = u" "dropWhile unit_char (u @ r) = r"
  proof -
    have "takeWhile unit_char r = [] \<and> dropWhile unit_char r = r" using assms(3) by (cases r) (auto simp: unit_char_def)
    then show "takeWhile unit_char (u @ r) = u" "dropWhile unit_char (u @ r) = r"
      using m(4) by (simp_all add: list_all_iff takeWhile_append dropWhile_append)
  qed
  moreover obtain a b where u: "u = a # b" using m(3) by (cases u) simp_all
  moreover have "a \<noteq> CHR ''.''" using u0 u by (simp add: unit_char_def)
  ultimately show ?thesis
    using m n by (simp add: dur_term_def t term_text_def term_ns_def Let_def)
qed

lemma dur_loop_texts:
  assumes "list_all good_unit ts" "d + sum_list (map term_ns ts) \<le> 2 ^ 63"
  shows "dur_loop frac (concat (map term_text ts)) d = Some (d + sum_list (map term_ns ts))"
  using assms
proof (induction ts arbitrary: d)
  case Nil
  then show ?case by (simp add: dur_loop.simps)
next
  case (Cons t ts)
  let ?r = "concat (map term_text ts)"
  have r: "?r = [] \<or> is_digit (hd ?r)"
  proof (cases ts)
    case (Cons u us)
    obtain c ds where "digits_of (fst u) = c # ds" by (cases "digits_of (fst u)") simp_all
    then show ?thesis using digits_of_digits [of "fst u"] Cons by (simp add: term_text_def)
  qed simp
  have "dur_term frac (term_text t @ ?r) = Some (term_ns t, ?r)"
    by (rule dur_term_text) (use Cons.prems r in simp_all)
  moreover have "term_text t \<noteq> []" by (simp add: term_text_def)
  ultimately show ?case
    using Cons.prems Cons.IH [of "d + term_ns t"] by (simp add: dur_loop.simps [of frac "term_text t @ ?r"] Let_def add.assoc)
qed

lemma dur_loop_bound: "dur_loop frac s d = Some v \<Longrightarrow> d \<le> 2 ^ 63 \<Longrightarrow> v \<le> 2 ^ 63"
proof (induction frac s d rule: dur_loop.induct)
  case (1 frac s d)
  then show ?case by (auto simp: dur_loop.simps [of frac s d] Let_def not_less split: if_splits option.splits)
qed

text \<open>
  A configured duration is what was written, in nanoseconds: a sequence of numbers with units, with or without a sign, is accepted
  and is its sum whenever that fits; whatever is accepted is a 64-bit value.
\<close>

theorem duration_exact:
  assumes "list_all good_unit ts" "ts \<noteq> []" "sum_list (map term_ns ts) \<le> 2 ^ 63 - 1"
  shows "UnmarshalYAML frac (Some (concat (map term_text ts))) = Inr (int (sum_list (map term_ns ts))) \<and>
     UnmarshalYAML frac (Some (CHR ''-'' # concat (map term_text ts))) = Inr (- int (sum_list (map term_ns ts))) \<and>
     (\<forall>x d. UnmarshalYAML frac x = Inr d \<longrightarrow> - (2 ^ 63) \<le> d \<and> d < 2 ^ 63)"
proof -
  let ?s = "concat (map term_text ts)"
  obtain t us where ts: "ts = t # us" using assms(2) by (cases ts) auto
  obtain c ds where d: "digits_of (fst t) = c # ds" by (cases "digits_of (fst t)") simp_all
  have c: "c \<noteq> CHR ''-''" "c \<noteq> CHR ''+''" using digits_of_digits [of "fst t"] d by (auto simp: is_digit_def)
  have u: "snd t \<noteq> []" using assms(1) unit_facts [of "snd t"] ts by (auto simp: good_unit_def)
  have s: "?s = c # ds @ snd t @ concat (map term_text us)" by (simp add: ts term_text_def d)
  then have z: "?s \<noteq> ''0''" using u by simp
  have l: "dur_loop frac ?s 0 = Some (sum_list (map term_ns ts))"
    using dur_loop_texts [OF assms(1), of 0 frac] assms(3) by simp
  have p: "ParseDuration frac ?s = Some (int (sum_list (map term_ns ts)))"
    using l z u assms(3) c unfolding ParseDuration_def s by (simp add: Let_def)
  have n: "ParseDuration frac (CHR ''-'' # ?s) = Some (- int (sum_list (map term_ns ts)))"
    using l z u s unfolding ParseDuration_def by (simp add: Let_def)
  have b: "- (2 ^ 63) \<le> d \<and> d < 2 ^ 63" if "ParseDuration frac x = Some d" for x d
    using that dur_loop_bound [of frac _ 0] by (fastforce simp: ParseDuration_def Let_def split: if_splits option.splits)
  show ?thesis using p n b by (auto simp: UnmarshalYAML_def split: option.splits)
qed

text \<open>
  The standard library's check for overflow comes after the addition, so the \<open>uint64\<close> can wrap: \<open>2 ^ 63\<close> nanoseconds are refused,
  but written twice they are accepted as a duration of zero.
\<close>

theorem duration_wraps:
  "UnmarshalYAML frac (Some ''9223372036854775808ns9223372036854775808ns'') = Inr 0"
  "UnmarshalYAML frac (Some ''9223372036854775808ns'') = Inl (InvalidDuration ''9223372036854775808ns'')"
  by (simp_all add: UnmarshalYAML_def ParseDuration_def dur_loop.simps dur_term_def unitMap_def unit_char_def is_digit_def Let_def)

end
