(* ===== verification/Sni.thy ===== *)
theory Sni
  imports Go_Net
begin

unbundle bit_operations_syntax

text \<open>
  \<open>internal/inbound/sni.go\<close>: the TLS ClientHello sniffer. A connection is the byte string it
  will deliver before end of file, so \<open>io.ReadFull\<close> either splits off the bytes it asked for or
  fails. Slice expressions carry their bounds check: an out-of-range slice or index is the error
  \<open>Panic\<close>, and one of the theorems is that no input reaches it.
\<close>

section \<open>Slices and big-endian integers\<close>

datatype sni_error =
    Panic
  | ReadHeader
  | NotHandshake nat
  | EmptyFragment
  | FragmentTooBig nat
  | ReadFragment
  | HandshakeTruncated
  | NotClientHello nat
  | BodyTruncated
  | HelloTruncated
  | MissingLength
  | VectorTruncated
  | In_SessionId sni_error
  | In_CipherSuites sni_error
  | In_Compression sni_error
  | In_Extensions sni_error
  | ExtensionTruncated
  | NoServerName
  | ServerNameShort
  | ServerNameListTruncated
  | ServerNameTruncated
  | EmptyHostName
  | NoHostName

definition slice :: "nat \<Rightarrow> nat \<Rightarrow> bytes \<Rightarrow> sni_error + bytes" where
  "slice lo hi b =
     (if lo \<le> hi \<and> hi \<le> length b then Inr (take (hi - lo) (drop lo b)) else Inl Panic)"

definition slice_from :: "nat \<Rightarrow> bytes \<Rightarrow> sni_error + bytes" where
  "slice_from lo b = (if lo \<le> length b then Inr (drop lo b) else Inl Panic)"

definition index_at :: "nat \<Rightarrow> bytes \<Rightarrow> sni_error + nat" where
  "index_at i b = (if i < length b then Inr (byte_val (b ! i)) else Inl Panic)"

definition Uint16 :: "bytes \<Rightarrow> sni_error + nat" where
  "Uint16 b = (if 2 \<le> length b then Inr (byte_val (b ! 0) * 256 + byte_val (b ! 1)) else Inl Panic)"

text \<open>
  \<open>io.ReadFull\<close> on a connection holding \<open>r\<close>: the bytes or an error, and what is left. A short
  read consumes what there was.
\<close>

definition ReadFull :: "nat \<Rightarrow> bytes \<Rightarrow> sni_error \<Rightarrow> (sni_error + bytes) \<times> bytes" where
  "ReadFull n r err = (if n \<le> length r then (Inr (take n r), drop n r) else (Inl err, []))"

lemma res_bind_cong [fundef_cong]:
  "m = m' \<Longrightarrow> (\<And>x. m' = Inr x \<Longrightarrow> f x = g x) \<Longrightarrow> res_bind m f = res_bind m' g"
  by (cases m') auto

section \<open>The parser\<close>

definition tlsRecordHeaderLen :: nat where "tlsRecordHeaderLen = 5"
definition tlsContentTypeHandshake :: nat where "tlsContentTypeHandshake = 0x16"
definition tlsHandshakeClientHello :: nat where "tlsHandshakeClientHello = 1"
definition maxTLSRecordFragment :: nat where "maxTLSRecordFragment = 2 ^ 14"
definition tlsExtServerName :: nat where "tlsExtServerName = 0"
definition tlsSNINameTypeHost :: nat where "tlsSNINameTypeHost = 0"

definition readVec8 :: "bytes \<Rightarrow> sni_error + bytes \<times> bytes" where
  "readVec8 b =
     (if length b < 1 then Inl MissingLength
      else res_bind (index_at 0 b) (\<lambda>n.
        if n > length b - 1 then Inl VectorTruncated
        else res_bind (slice 1 (1 + n) b) (\<lambda>v.
             res_bind (slice_from (1 + n) b) (\<lambda>rest. Inr (v, rest)))))"

definition readVec16 :: "bytes \<Rightarrow> sni_error + bytes \<times> bytes" where
  "readVec16 b =
     (if length b < 2 then Inl MissingLength
      else res_bind (slice 0 2 b) (\<lambda>h. res_bind (Uint16 h) (\<lambda>n.
        if n > length b - 2 then Inl VectorTruncated
        else res_bind (slice 2 (2 + n) b) (\<lambda>v.
             res_bind (slice_from (2 + n) b) (\<lambda>rest. Inr (v, rest))))))"

function sni_names :: "bytes \<Rightarrow> sni_error + bytes" where
  "sni_names l =
     (if length l < 3 then Inl NoHostName
      else res_bind (index_at 0 l) (\<lambda>nameType.
           res_bind (slice 1 3 l) (\<lambda>h. res_bind (Uint16 h) (\<lambda>nameLen.
           res_bind (slice_from 3 l) (\<lambda>l1.
           if nameLen > length l1 then Inl ServerNameTruncated
           else res_bind (slice 0 nameLen l1) (\<lambda>name.
                res_bind (slice_from nameLen l1) (\<lambda>l2.
                if nameType \<noteq> tlsSNINameTypeHost then sni_names l2
                else if nameLen = 0 then Inl EmptyHostName
                else Inr (ToLower name))))))))"
  by pat_completeness auto
termination
  by (relation "measure length") (auto simp: slice_from_def split: if_splits)

definition parseSNIExtension :: "bytes \<Rightarrow> sni_error + bytes" where
  "parseSNIExtension data =
     (if length data < 2 then Inl ServerNameShort
      else res_bind (slice 0 2 data) (\<lambda>h. res_bind (Uint16 h) (\<lambda>listLen.
           res_bind (slice_from 2 data) (\<lambda>l.
           if listLen > length l then Inl ServerNameListTruncated
           else res_bind (slice 0 listLen l) sni_names))))"

function sni_exts :: "bytes \<Rightarrow> sni_error + bytes" where
  "sni_exts exts =
     (if length exts < 4 then Inl NoServerName
      else res_bind (slice 0 2 exts) (\<lambda>t. res_bind (Uint16 t) (\<lambda>extType.
           res_bind (slice 2 4 exts) (\<lambda>h. res_bind (Uint16 h) (\<lambda>extLen.
           res_bind (slice_from 4 exts) (\<lambda>exts1.
           if extLen > length exts1 then Inl ExtensionTruncated
           else res_bind (slice 0 extLen exts1) (\<lambda>extData.
                res_bind (slice_from extLen exts1) (\<lambda>exts2.
                if extType \<noteq> tlsExtServerName then sni_exts exts2
                else parseSNIExtension extData))))))))"
  by pat_completeness auto
termination
  by (relation "measure length") (auto simp: slice_from_def split: if_splits)

declare sni_names.simps [simp del] sni_exts.simps [simp del]

definition uint24 :: "nat \<Rightarrow> nat \<Rightarrow> nat \<Rightarrow> nat" where
  "uint24 a b c = push_bit 16 a OR push_bit 8 b OR c"

definition parseClientHelloSNI :: "bytes \<Rightarrow> sni_error + bytes" where
  "parseClientHelloSNI data =
     (if length data < 4 then Inl HandshakeTruncated
      else res_bind (index_at 0 data) (\<lambda>t.
        if t \<noteq> tlsHandshakeClientHello then Inl (NotClientHello t)
        else res_bind (index_at 1 data) (\<lambda>a. res_bind (index_at 2 data) (\<lambda>b.
             res_bind (index_at 3 data) (\<lambda>c.
             let bodyLen = uint24 a b c in
             res_bind (slice_from 4 data) (\<lambda>body0.
             if bodyLen > length body0 then Inl BodyTruncated
             else res_bind (slice 0 bodyLen body0) (\<lambda>body1.
             if length body1 < 2 + 32 then Inl HelloTruncated
             else res_bind (slice_from (2 + 32) body1) (\<lambda>body2.
             res_bind (res_wrap In_SessionId (readVec8 body2)) (\<lambda>(sid, body3).
             res_bind (res_wrap In_CipherSuites (readVec16 body3)) (\<lambda>(cs, body4).
             res_bind (res_wrap In_Compression (readVec8 body4)) (\<lambda>(cm, body5).
             res_bind (res_wrap In_Extensions (readVec16 body5)) (\<lambda>(exts, rest).
             sni_exts exts))))))))))))"

text \<open>The result is the host and the bytes to replay, or an error; and what the connection still holds.\<close>

definition SniffSNI :: "bytes \<Rightarrow> (sni_error + bytes \<times> bytes) \<times> bytes" where
  "SniffSNI r =
     (case ReadFull tlsRecordHeaderLen r ReadHeader of
        (Inl e, r1) \<Rightarrow> (Inl e, r1)
      | (Inr header, r1) \<Rightarrow>
         (case index_at 0 header of Inl e \<Rightarrow> (Inl e, r1) | Inr ct \<Rightarrow>
          if ct \<noteq> tlsContentTypeHandshake then (Inl (NotHandshake ct), r1)
          else case res_bind (slice 3 5 header) Uint16 of Inl e \<Rightarrow> (Inl e, r1) | Inr fragLen \<Rightarrow>
          if fragLen = 0 then (Inl EmptyFragment, r1)
          else if fragLen > maxTLSRecordFragment then (Inl (FragmentTooBig fragLen), r1)
          else case ReadFull fragLen r1 ReadFragment of
             (Inl e, r2) \<Rightarrow> (Inl e, r2)
           | (Inr frag, r2) \<Rightarrow>
              (case parseClientHelloSNI frag of
                 Inl e \<Rightarrow> (Inl e, r2)
               | Inr host \<Rightarrow> (Inr (host, header @ frag), r2))))"

section \<open>The 24-bit length\<close>

lemma or_push_bit_add:
  fixes a b :: nat
  assumes "b < 2 ^ n"
  shows "push_bit n a OR b = a * 2 ^ n + b"
proof -
  have b: "take_bit n b = b" using assms by (simp add: take_bit_nat_eq_self)
  have "push_bit n a AND take_bit n b = 0"
    by (rule bit_eqI) (auto simp: bit_simps)
  then have "push_bit n a + b = push_bit n a OR b"
    using b by (simp add: disjunctive_add_eq_or)
  then show ?thesis by (simp add: push_bit_eq_mult)
qed

lemma uint24_eq:
  assumes "b < 256" "c < 256"
  shows "uint24 a b c = a * 65536 + b * 256 + c"
proof -
  have "push_bit 8 b OR c = b * 256 + c"
    using or_push_bit_add [of c 8 b] assms by simp
  then show ?thesis
    using or_push_bit_add [of "b * 256 + c" 16 a] assms
    by (simp add: uint24_def or.assoc)
qed

section \<open>Length-prefixed vectors\<close>

definition be16 :: "nat \<Rightarrow> bytes" where
  "be16 n = [char_of (n div 256), char_of (n mod 256)]"

definition be24 :: "nat \<Rightarrow> bytes" where
  "be24 n = [char_of (n div 65536), char_of (n div 256 mod 256), char_of (n mod 256)]"

definition vec8 :: "bytes \<Rightarrow> bytes" where "vec8 v = char_of (length v) # v"
definition vec16 :: "bytes \<Rightarrow> bytes" where "vec16 v = be16 (length v) @ v"

lemma byte_val_char_of [simp]: "byte_val (char_of (n :: nat)) = n mod 256"
  by (simp add: of_char_of)

lemma char_eq_iff_byte_val: "c = d \<longleftrightarrow> byte_val c = byte_val d"
  by (metis char_of_char)

lemma Uint16_be16 [simp]: "n < 65536 \<Longrightarrow> Uint16 (be16 n) = Inr n"
  by (simp add: Uint16_def be16_def)

lemma length_be16 [simp]: "length (be16 n) = 2"
  by (simp add: be16_def)

lemma be16_of_bytes: "be16 (byte_val c * 256 + byte_val d) = [c, d]"
  by (simp add: be16_def)

text \<open>
  The contract of a vector reader: it returns a vector exactly on the inputs that begin with the
  encoding of a vector that fits, leaves what follows, and never runs past its input.
\<close>

locale vec_reader =
  fixes rd :: "bytes \<Rightarrow> sni_error + bytes \<times> bytes"
    and enc :: "bytes \<Rightarrow> bytes"
    and bound :: nat
  assumes read_iff: "rd b = Inr (v, rest) \<longleftrightarrow> length v < bound \<and> b = enc v @ rest"
    and read_safe: "rd b \<noteq> Inl Panic"
begin

lemma read_enc: "length v < bound \<Longrightarrow> rd (enc v @ rest) = Inr (v, rest)"
  by (simp add: read_iff)

lemma enc_unique:
  assumes "enc v @ r = enc w @ s" "length v < bound" "length w < bound"
  shows "v = w \<and> r = s"
  using read_enc [OF assms(2), of r] read_enc [OF assms(3), of s] assms(1) by (metis Inr_inject prod.inject)

end

lemma readVec8_iff: "readVec8 b = Inr (v, rest) \<longleftrightarrow> length v < 256 \<and> b = vec8 v @ rest"
proof (cases b)
  case Nil
  then show ?thesis by (simp add: readVec8_def vec8_def)
next
  case (Cons c t)
  have "c = char_of (length v) \<longleftrightarrow> byte_val c = length v" if "length v < 256"
    using that by (simp add: char_eq_iff_byte_val)
  moreover have "take n t = v \<and> drop n t = rest \<and> n \<le> length t \<longleftrightarrow> n = length v \<and> t = v @ rest" for n
    by auto
  moreover have "readVec8 b = (if byte_val c > length t then Inl VectorTruncated
                    else Inr (take (byte_val c) t, drop (byte_val c) t))"
    using Cons by (auto simp: readVec8_def index_at_def slice_def slice_from_def)
  ultimately show ?thesis
    using Cons byte_val_less [of c] by (auto simp: vec8_def)
qed

lemma readVec16_Cons:
  "readVec16 (c # d # t) =
     (let n = byte_val c * 256 + byte_val d in
      if n > length t then Inl VectorTruncated else Inr (take n t, drop n t))"
  by (simp add: readVec16_def slice_def slice_from_def Uint16_def Let_def)

lemma readVec16_iff: "readVec16 b = Inr (v, rest) \<longleftrightarrow> length v < 65536 \<and> b = vec16 v @ rest"
proof (cases "2 \<le> length b")
  case False
  then show ?thesis by (auto simp: readVec16_def vec16_def)
next
  case True
  then obtain c d t where b: "b = c # d # t"
    by (metis Suc_le_length_iff numeral_2_eq_2)
  let ?n = "byte_val c * 256 + byte_val d"
  have lt: "?n < 65536" using byte_val_less [of c] byte_val_less [of d] by linarith
  have hd: "c = char_of (length v div 256) \<and> d = char_of (length v mod 256) \<longleftrightarrow> ?n = length v"
    if "length v < 65536"
  proof -
    have "?n div 256 = byte_val c" "?n mod 256 = byte_val d" by simp_all
    then have "byte_val c = m div 256 \<and> byte_val d = m mod 256 \<longleftrightarrow> ?n = m" for m
      by (metis div_mult_mod_eq)
    then show ?thesis using that by (simp add: char_eq_iff_byte_val)
  qed
  show ?thesis
    using lt hd by (auto simp: b vec16_def be16_def readVec16_Cons Let_def)
qed

lemma readVec8_safe: "readVec8 b \<noteq> Inl Panic"
  by (cases b) (auto simp: readVec8_def index_at_def slice_def slice_from_def)

lemma readVec16_safe: "readVec16 b \<noteq> Inl Panic"
  by (auto simp: readVec16_def Uint16_def slice_def slice_from_def)

interpretation v8: vec_reader readVec8 vec8 256
  by unfold_locales (simp_all add: readVec8_iff readVec8_safe)

interpretation v16: vec_reader readVec16 vec16 65536
  by unfold_locales (simp_all add: readVec16_iff readVec16_safe)

section \<open>The two entry loops\<close>

text \<open>
  Each round of the loops reads one entry, which is a type followed by a two-byte vector.
\<close>

lemma sni_names_step:
  assumes "3 \<le> length l"
  shows "sni_names l =
    (case readVec16 (tl l) of
       Inl _ \<Rightarrow> Inl ServerNameTruncated
     | Inr (name, rest) \<Rightarrow>
         if byte_val (hd l) \<noteq> 0 then sni_names rest
         else if name = [] then Inl EmptyHostName else Inr (ToLower name))"
proof -
  obtain a c d t where l: "l = a # c # d # t"
    using assms by (metis Suc_le_length_iff numeral_3_eq_3)
  show ?thesis
    by (subst sni_names.simps)
      (auto simp: l readVec16_Cons Let_def index_at_def slice_def slice_from_def Uint16_def
         tlsSNINameTypeHost_def)
qed

lemma sni_exts_step:
  assumes "4 \<le> length l"
  shows "sni_exts l =
    (case readVec16 (drop 2 l) of
       Inl _ \<Rightarrow> Inl ExtensionTruncated
     | Inr (data, rest) \<Rightarrow>
         if take 2 l \<noteq> be16 0 then sni_exts rest else parseSNIExtension data)"
proof -
  obtain a b c d t where l: "l = a # b # c # d # t"
    using assms by (metis Suc_le_length_iff numeral_eq_Suc pred_numeral_simps(3) pred_numeral_simps(2) BitM.simps numeral_One pred_numeral_simps(1))
  have ty: "[a, b] \<noteq> be16 0 \<longleftrightarrow> byte_val a * 256 + byte_val b \<noteq> 0"
    by (auto simp: be16_def char_eq_iff_byte_val)
  show ?thesis
    by (subst sni_exts.simps)
      (use ty in \<open>auto simp: l readVec16_Cons Let_def slice_def slice_from_def Uint16_def
         tlsExtServerName_def\<close>)
qed

lemma sni_names_short: "length l < 3 \<Longrightarrow> sni_names l = Inl NoHostName"
  by (subst sni_names.simps) simp

lemma sni_exts_short: "length l < 4 \<Longrightarrow> sni_exts l = Inl NoServerName"
  by (subst sni_exts.simps) simp

text \<open>
  An encoder for the entries, and what the loops accept: entries of other types, then an entry of
  the type looked for, then anything.
\<close>

definition enc_name :: "nat \<times> bytes \<Rightarrow> bytes" where
  "enc_name = (\<lambda>(t, d). char_of t # vec16 d)"

definition enc_ext :: "nat \<times> bytes \<Rightarrow> bytes" where
  "enc_ext = (\<lambda>(t, d). be16 t @ vec16 d)"

definition other_entries :: "nat \<Rightarrow> (nat \<times> bytes) list \<Rightarrow> bool" where
  "other_entries m = list_all (\<lambda>(t, d). t \<noteq> 0 \<and> t < m \<and> length d < 65536)"

locale entry_loop =
  fixes loop :: "bytes \<Rightarrow> sni_error + bytes"
    and enc :: "nat \<times> bytes \<Rightarrow> bytes"
    and tmax :: nat
    and hit :: "bytes \<Rightarrow> sni_error + bytes"
  assumes loop_enc: "\<lbrakk>t < tmax; length d < 65536\<rbrakk> \<Longrightarrow>
      loop (enc (t, d) @ rest) = (if t \<noteq> 0 then loop rest else hit d)"
    and loop_cases: "(\<exists>t d rest. l = enc (t, d) @ rest \<and> t < tmax \<and> length d < 65536) \<or>
      (\<exists>e. loop l = Inl e \<and> e \<noteq> Panic)"
    and enc_nonempty: "enc e \<noteq> []"
    and tmax_pos: "0 < tmax"
begin

lemma loop_complete:
  assumes "other_entries tmax others" "length d < 65536"
  shows "loop (concat (map enc others) @ enc (0, d) @ tail) = hit d"
  using assms by (induction others) (auto simp: other_entries_def loop_enc tmax_pos)

lemma loop_sound:
  assumes "loop l = Inr h"
  shows "\<exists>others d tail. other_entries tmax others \<and> length d < 65536 \<and>
    l = concat (map enc others) @ enc (0, d) @ tail \<and> hit d = Inr h"
  using assms
proof (induction l rule: length_induct)
  case (1 l)
  then obtain t d rest where l: "l = enc (t, d) @ rest" "t < tmax" "length d < 65536"
    using loop_cases [of l] by auto
  show ?case
  proof (cases "t = 0")
    case True
    then have "other_entries tmax []" "hit d = Inr h" using 1(2) l
      by (auto simp: loop_enc other_entries_def)
    then show ?thesis using l True by (metis append_Nil concat.simps(1) list.map(1))
  next
    case False
    then have "loop rest = Inr h" "length rest < length l"
      using 1(2) l enc_nonempty [of "(t, d)"] by (auto simp: loop_enc)
    then obtain others d' tail where
      "other_entries tmax others" "length d' < 65536"
      "rest = concat (map enc others) @ enc (0, d') @ tail" "hit d' = Inr h"
      using 1(1) by blast
    then have "other_entries tmax ((t, d) # others) \<and> length d' < 65536 \<and>
        l = concat (map enc ((t, d) # others)) @ enc (0, d') @ tail \<and> hit d' = Inr h"
      using False l by (simp add: other_entries_def)
    then show ?thesis by blast
  qed
qed

lemma loop_iff:
  "loop l = Inr h \<longleftrightarrow> (\<exists>others d tail. other_entries tmax others \<and> length d < 65536 \<and>
    l = concat (map enc others) @ enc (0, d) @ tail \<and> hit d = Inr h)"
  using loop_complete loop_sound by metis

lemma loop_safe: "(\<And>d. hit d \<noteq> Inl Panic) \<Longrightarrow> loop l \<noteq> Inl Panic"
proof (induction l rule: length_induct)
  case (1 l)
  consider e where "loop l = Inl e" "e \<noteq> Panic"
    | t d rest where "l = enc (t, d) @ rest" "t < tmax" "length d < 65536"
    using loop_cases [of l] by blast
  then show ?case
  proof cases
    case 2
    then have "length rest < length l" using enc_nonempty [of "(t, d)"] by simp
    then show ?thesis using 1 2 by (auto simp: loop_enc)
  qed simp
qed

end

text \<open>A host name entry of the list ends the search: an empty one is an error.\<close>

definition host_entry :: "bytes \<Rightarrow> sni_error + bytes" where
  "host_entry d = (if d = [] then Inl EmptyHostName else Inr (ToLower d))"

lemma length_vec16 [simp]: "length (vec16 d) = 2 + length d"
  by (simp add: vec16_def)

lemma sni_names_cases:
  "(\<exists>t d rest. l = enc_name (t, d) @ rest \<and> t < 256 \<and> length d < 65536) \<or>
   (\<exists>e. sni_names l = Inl e \<and> e \<noteq> Panic)"
proof (cases "3 \<le> length l")
  case False
  then show ?thesis by (simp add: sni_names_short)
next
  case True
  then obtain c t where l: "l = c # t" by (cases l) auto
  show ?thesis
  proof (cases "readVec16 t")
    case (Inl e)
    then show ?thesis using sni_names_step [OF True] l by simp
  next
    case (Inr p)
    then obtain d rest where "readVec16 t = Inr (d, rest)" by (cases p) auto
    then have "l = enc_name (byte_val c, d) @ rest" "length d < 65536"
      using l by (auto simp: readVec16_iff enc_name_def)
    then show ?thesis using byte_val_less [of c] by blast
  qed
qed

lemma sni_exts_cases:
  "(\<exists>t d rest. l = enc_ext (t, d) @ rest \<and> t < 65536 \<and> length d < 65536) \<or>
   (\<exists>e. sni_exts l = Inl e \<and> e \<noteq> Panic)"
proof (cases "4 \<le> length l")
  case False
  then show ?thesis by (simp add: sni_exts_short)
next
  case True
  then obtain a b t where l: "l = a # b # t" by (cases l; cases "tl l") auto
  show ?thesis
  proof (cases "readVec16 t")
    case (Inl e)
    then show ?thesis using sni_exts_step [OF True] l by simp
  next
    case (Inr p)
    then obtain d rest where "readVec16 t = Inr (d, rest)" by (cases p) auto
    then have "l = enc_ext (byte_val a * 256 + byte_val b, d) @ rest" "length d < 65536"
      using l by (auto simp: readVec16_iff enc_ext_def be16_of_bytes)
    moreover have "byte_val a * 256 + byte_val b < 65536"
      using byte_val_less [of a] byte_val_less [of b] by linarith
    ultimately show ?thesis by blast
  qed
qed

lemma enc_ext_step: "sni_exts (enc_ext (t, d) @ rest) =
    (if t \<noteq> 0 then sni_exts rest else parseSNIExtension d)"
  if "t < 65536" "length d < 65536"
proof -
  have "be16 t = be16 0 \<longleftrightarrow> t = 0"
    using that(1) by (metis Inr_inject Uint16_be16 zero_less_numeral)
  moreover have "readVec16 (vec16 d @ rest) = Inr (d, rest)"
    using that(2) by (rule v16.read_enc)
  ultimately show ?thesis
    using sni_exts_step [of "enc_ext (t, d) @ rest"] by (simp add: enc_ext_def)
qed

lemma enc_name_step: "sni_names (enc_name (t, d) @ rest) =
    (if t \<noteq> 0 then sni_names rest else host_entry d)"
  if "t < 256" "length d < 65536"
proof -
  have "readVec16 (vec16 d @ rest) = Inr (d, rest)"
    using that(2) by (rule v16.read_enc)
  then show ?thesis
    using that sni_names_step [of "enc_name (t, d) @ rest"] by (simp add: enc_name_def host_entry_def)
qed

interpretation names: entry_loop sni_names enc_name 256 host_entry
  by unfold_locales (simp add: enc_name_step, rule sni_names_cases,
      simp add: enc_name_def split: prod.split, simp)

interpretation exts: entry_loop sni_exts enc_ext 65536 parseSNIExtension
  by unfold_locales (simp add: enc_ext_step, rule sni_exts_cases,
      simp add: enc_ext_def be16_def split: prod.split, simp)

section \<open>What the sniffer accepts\<close>

lemma parseSNIExtension_eq:
  "parseSNIExtension data =
     (if length data < 2 then Inl ServerNameShort
      else case readVec16 data of
        Inl _ \<Rightarrow> Inl ServerNameListTruncated
      | Inr (l, _) \<Rightarrow> sni_names l)"
proof (cases "length data < 2")
  case True
  then show ?thesis by (simp add: parseSNIExtension_def)
next
  case False
  then obtain c d t where "data = c # d # t" by (cases data; cases "tl data") auto
  then show ?thesis
    by (simp add: parseSNIExtension_def readVec16_Cons Let_def slice_def slice_from_def Uint16_def)
qed

lemma parseSNIExtension_iff:
  "parseSNIExtension data = Inr h \<longleftrightarrow>
     (\<exists>l tail. length l < 65536 \<and> data = vec16 l @ tail \<and> sni_names l = Inr h)"
proof -
  have "parseSNIExtension data = Inr h \<longleftrightarrow> (\<exists>l tail. readVec16 data = Inr (l, tail) \<and> sni_names l = Inr h)"
    by (auto simp: parseSNIExtension_eq readVec16_def split: sum.splits)
  then show ?thesis by (simp add: readVec16_iff)
qed

lemma host_entry_safe: "host_entry d \<noteq> Inl Panic"
  by (simp add: host_entry_def)

lemma parseSNIExtension_safe: "parseSNIExtension d \<noteq> Inl Panic"
  using names.loop_safe [OF host_entry_safe]
  by (auto simp: parseSNIExtension_eq split: sum.split prod.split)

lemmas sni_exts_safe = exts.loop_safe [OF parseSNIExtension_safe]

text \<open>The parser of the handshake message in closed form.\<close>

definition hello_body :: "bytes \<Rightarrow> sni_error + bytes" where
  "hello_body body =
     (if length body < 34 then Inl HelloTruncated
      else res_bind (res_wrap In_SessionId (readVec8 (drop 34 body))) (\<lambda>(_, b3).
           res_bind (res_wrap In_CipherSuites (readVec16 b3)) (\<lambda>(_, b4).
           res_bind (res_wrap In_Compression (readVec8 b4)) (\<lambda>(_, b5).
           res_bind (res_wrap In_Extensions (readVec16 b5)) (\<lambda>(es, _). sni_exts es)))))"

lemma parseClientHelloSNI_Cons:
  "parseClientHelloSNI (t # a # b # c # rest) =
     (let n = byte_val a * 65536 + byte_val b * 256 + byte_val c in
      if byte_val t \<noteq> 1 then Inl (NotClientHello (byte_val t))
      else if n > length rest then Inl BodyTruncated
      else hello_body (take n rest))"
  by (simp add: parseClientHelloSNI_def hello_body_def index_at_def slice_def slice_from_def
      uint24_eq tlsHandshakeClientHello_def Let_def)

lemma hello_body_safe: "hello_body b \<noteq> Inl Panic"
  using sni_exts_safe
  by (auto simp: hello_body_def res_bind_def res_wrap_def split: sum.splits)

lemma parseClientHelloSNI_safe: "parseClientHelloSNI data \<noteq> Inl Panic"
proof (cases "length data < 4")
  case True
  then show ?thesis by (simp add: parseClientHelloSNI_def)
next
  case False
  then obtain t a b c rest where "data = t # a # b # c # rest"
    by (cases data; cases "tl data"; cases "tl (tl data)"; cases "tl (tl (tl data))") auto
  then show ?thesis using hello_body_safe by (simp add: parseClientHelloSNI_Cons Let_def)
qed

text \<open>
  An encoder for the messages the sniffer reads. The tails are what the parser skips: the entries
  after the first host name, bytes after the name list, after the extension list and so on.
\<close>

record client_hello =
  ch_head :: bytes
  ch_session :: bytes
  ch_suites :: bytes
  ch_compression :: bytes
  ch_exts_before :: "(nat \<times> bytes) list"
  ch_names_before :: "(nat \<times> bytes) list"
  ch_host :: bytes
  ch_names_tail :: bytes
  ch_sni_tail :: bytes
  ch_exts_tail :: bytes
  ch_body_tail :: bytes
  ch_tail :: bytes

definition enc_names :: "client_hello \<Rightarrow> bytes" where
  "enc_names ch = concat (map enc_name (ch_names_before ch)) @ enc_name (0, ch_host ch) @ ch_names_tail ch"

definition enc_sni :: "client_hello \<Rightarrow> bytes" where
  "enc_sni ch = vec16 (enc_names ch) @ ch_sni_tail ch"

definition enc_exts :: "client_hello \<Rightarrow> bytes" where
  "enc_exts ch = concat (map enc_ext (ch_exts_before ch)) @ enc_ext (0, enc_sni ch) @ ch_exts_tail ch"

definition enc_body :: "client_hello \<Rightarrow> bytes" where
  "enc_body ch = ch_head ch @ vec8 (ch_session ch) @ vec16 (ch_suites ch) @
     vec8 (ch_compression ch) @ vec16 (enc_exts ch) @ ch_body_tail ch"

definition enc_hello :: "client_hello \<Rightarrow> bytes" where
  "enc_hello ch = CHR 0x01 # be24 (length (enc_body ch)) @ enc_body ch @ ch_tail ch"

definition ok_hello :: "client_hello \<Rightarrow> bool" where
  "ok_hello ch \<longleftrightarrow> length (ch_head ch) = 34 \<and> length (ch_session ch) < 256 \<and>
     length (ch_suites ch) < 65536 \<and> length (ch_compression ch) < 256 \<and>
     other_entries 65536 (ch_exts_before ch) \<and> other_entries 256 (ch_names_before ch) \<and>
     ch_host ch \<noteq> [] \<and> length (ch_host ch) < 65536 \<and> length (enc_names ch) < 65536 \<and>
     length (enc_sni ch) < 65536 \<and> length (enc_exts ch) < 65536 \<and> length (enc_body ch) < 16777216"

lemma sni_names_iff:
  "sni_names l = Inr h \<longleftrightarrow>
     (\<exists>others name tail. other_entries 256 others \<and> length name < 65536 \<and> name \<noteq> [] \<and>
        l = concat (map enc_name others) @ enc_name (0, name) @ tail \<and> h = ToLower name)"
  by (auto simp: names.loop_iff host_entry_def split: if_splits)

lemma cut_at: "n \<le> length b \<and> P (drop n b) \<longleftrightarrow> (\<exists>h r. length h = n \<and> P r \<and> b = h @ r)"
proof
  assume "n \<le> length b \<and> P (drop n b)"
  then show "\<exists>h r. length h = n \<and> P r \<and> b = h @ r"
    by (intro exI [of _ "take n b"] exI [of _ "drop n b"]) simp
qed auto

lemma cut_take: "n \<le> length b \<and> P (take n b) \<longleftrightarrow> (\<exists>h r. length h = n \<and> P h \<and> b = h @ r)"
proof
  assume "n \<le> length b \<and> P (take n b)"
  then show "\<exists>h r. length h = n \<and> P h \<and> b = h @ r"
    by (intro exI [of _ "take n b"] exI [of _ "drop n b"]) simp
qed auto

lemma hello_body_iff:
  "hello_body body = Inr h \<longleftrightarrow>
     (\<exists>head sid cs cm es tail. length head = 34 \<and> length sid < 256 \<and> length cs < 65536 \<and>
        length cm < 256 \<and> length es < 65536 \<and> sni_exts es = Inr h \<and>
        body = head @ vec8 sid @ vec16 cs @ vec8 cm @ vec16 es @ tail)"
proof -
  let ?mid = "\<lambda>r. \<exists>sid cs cm es tail. length sid < 256 \<and> length cs < 65536 \<and> length cm < 256 \<and>
         length es < 65536 \<and> sni_exts es = Inr h \<and> r = vec8 sid @ vec16 cs @ vec8 cm @ vec16 es @ tail"
  have "hello_body body = Inr h \<longleftrightarrow> 34 \<le> length body \<and> ?mid (drop 34 body)"
    by (simp add: hello_body_def res_bind_Inr_iff readVec8_iff readVec16_iff not_less) blast
  also have "\<dots> \<longleftrightarrow> (\<exists>head r. length head = 34 \<and> ?mid r \<and> body = head @ r)"
    by (rule cut_at)
  finally show ?thesis by blast
qed

lemma be24_digits:
  fixes a b c :: nat
  assumes "b < 256" "c < 256"
  shows "(a * 65536 + b * 256 + c) div 65536 = a"
    "(a * 65536 + b * 256 + c) div 256 mod 256 = b"
    "(a * 65536 + b * 256 + c) mod 256 = c"
proof -
  have "a * 65536 + b * 256 + c = (b * 256 + c) + a * 65536" "b * 256 + c < 65536"
    using assms by linarith+
  then show "(a * 65536 + b * 256 + c) div 65536 = a" by simp
  have e: "a * 65536 + b * 256 + c = (b + a * 256) * 256 + c" by simp
  have "((b + a * 256) * 256 + c) div 256 = b + a * 256"
    using assms(2) by (simp only: div_mult_self3)
  then show "(a * 65536 + b * 256 + c) div 256 mod 256 = b" unfolding e using assms(1) by simp
  have "((b + a * 256) * 256 + c) mod 256 = c"
    using assms(2) by (simp only: mod_mult_self3 mod_less)
  then show "(a * 65536 + b * 256 + c) mod 256 = c" unfolding e .
qed

lemma be24_iff:
  assumes n: "n < 16777216"
  shows "[a, b, c] = be24 n \<longleftrightarrow> n = byte_val a * 65536 + byte_val b * 256 + byte_val c"
proof
  assume "[a, b, c] = be24 n"
  then have "byte_val a = n div 65536" "byte_val b = n div 256 mod 256" "byte_val c = n mod 256"
    using n by (auto simp: be24_def char_eq_iff_byte_val)
  moreover have "n = n div 65536 * 65536 + n div 256 mod 256 * 256 + n mod 256"
  proof -
    have "n div 65536 = n div 256 div 256" by (simp add: div_mult2_eq [symmetric])
    then show ?thesis
      using div_mult_mod_eq [of n 256] div_mult_mod_eq [of "n div 256" 256] by linarith
  qed
  ultimately show "n = byte_val a * 65536 + byte_val b * 256 + byte_val c" by metis
next
  assume "n = byte_val a * 65536 + byte_val b * 256 + byte_val c"
  then show "[a, b, c] = be24 n"
    using be24_digits [of "byte_val b" "byte_val c" "byte_val a"]
    by (simp add: be24_def)
qed

lemma parseClientHelloSNI_iff:
  "parseClientHelloSNI data = Inr h \<longleftrightarrow>
     (\<exists>body tail. length body < 16777216 \<and>
        data = CHR 0x01 # be24 (length body) @ body @ tail \<and> hello_body body = Inr h)"
proof (cases "length data < 4")
  case True
  then show ?thesis by (auto simp: parseClientHelloSNI_def be24_def)
next
  case False
  then obtain t a b c rest where d: "data = t # a # b # c # rest"
    by (cases data; cases "tl data"; cases "tl (tl data)"; cases "tl (tl (tl data))") auto
  let ?n = "byte_val a * 65536 + byte_val b * 256 + byte_val c"
  have lt: "?n < 16777216"
    using byte_val_less [of a] byte_val_less [of b] byte_val_less [of c] by linarith
  have t: "byte_val t = 1 \<longleftrightarrow> t = CHR 0x01" by (simp add: char_eq_iff_byte_val)
  have "length body < 16777216 \<and> data = CHR 0x01 # be24 (length body) @ body @ tail \<longleftrightarrow>
      byte_val t = 1 \<and> length body = ?n \<and> rest = body @ tail" for body tail
    using be24_iff [of "length body" a b c] t lt by (auto simp: d be24_def)
  then have "(\<exists>body tail. length body < 16777216 \<and>
        data = CHR 0x01 # be24 (length body) @ body @ tail \<and> hello_body body = Inr h) \<longleftrightarrow>
      byte_val t = 1 \<and> (\<exists>body tail. length body = ?n \<and> hello_body body = Inr h \<and> rest = body @ tail)"
    by blast
  also have "\<dots> \<longleftrightarrow> byte_val t = 1 \<and> ?n \<le> length rest \<and> hello_body (take ?n rest) = Inr h"
    unfolding cut_take [of _ rest "\<lambda>b. hello_body b = Inr h", symmetric] ..
  finally have "(\<exists>body tail. length body < 16777216 \<and>
        data = CHR 0x01 # be24 (length body) @ body @ tail \<and> hello_body body = Inr h) \<longleftrightarrow>
      byte_val t = 1 \<and> ?n \<le> length rest \<and> hello_body (take ?n rest) = Inr h" .
  then show ?thesis by (auto simp: d parseClientHelloSNI_Cons Let_def)
qed

lemma sni_exts_iff:
  "sni_exts l = Inr h \<longleftrightarrow>
     (\<exists>others data tail. other_entries 65536 others \<and> length data < 65536 \<and>
        l = concat (map enc_ext others) @ enc_ext (0, data) @ tail \<and> parseSNIExtension data = Inr h)"
  by (rule exts.loop_iff)

text \<open>The accepted handshake messages are the encoded ones, and the result is the host in lower case.\<close>

lemma enc_hello_sound: "ok_hello ch \<Longrightarrow> parseClientHelloSNI (enc_hello ch) = Inr (ToLower (ch_host ch))"
proof -
  assume ok: "ok_hello ch"
  have "sni_names (enc_names ch) = Inr (ToLower (ch_host ch))"
    using ok names.loop_complete [of "ch_names_before ch" "ch_host ch" "ch_names_tail ch"]
    by (simp add: enc_names_def ok_hello_def host_entry_def)
  then have "parseSNIExtension (enc_sni ch) = Inr (ToLower (ch_host ch))"
    using ok by (auto simp: parseSNIExtension_iff enc_sni_def ok_hello_def)
  then have "sni_exts (enc_exts ch) = Inr (ToLower (ch_host ch))"
    using ok exts.loop_complete [of "ch_exts_before ch" "enc_sni ch" "ch_exts_tail ch"]
    by (simp add: enc_exts_def ok_hello_def)
  then have "hello_body (enc_body ch) = Inr (ToLower (ch_host ch))"
    unfolding hello_body_iff enc_body_def ok_hello_def using ok [unfolded ok_hello_def] by blast
  then show ?thesis
    unfolding parseClientHelloSNI_iff enc_hello_def using ok by (auto simp: ok_hello_def)
qed

lemma enc_hello_complete:
  assumes "parseClientHelloSNI data = Inr h"
  shows "\<exists>ch. ok_hello ch \<and> data = enc_hello ch \<and> h = ToLower (ch_host ch)"
proof -
  obtain body tail where b: "length body < 16777216" "hello_body body = Inr h"
      "data = CHR 0x01 # be24 (length body) @ body @ tail"
    using assms by (auto simp: parseClientHelloSNI_iff)
  obtain head sid cs cm es btail where h: "length head = 34" "length sid < 256" "length cs < 65536"
      "length cm < 256" "length es < 65536" "sni_exts es = Inr h"
      "body = head @ vec8 sid @ vec16 cs @ vec8 cm @ vec16 es @ btail"
    using b(2) unfolding hello_body_iff by blast
  obtain oe sd etail where e: "other_entries 65536 oe" "length sd < 65536"
      "es = concat (map enc_ext oe) @ enc_ext (0, sd) @ etail" "parseSNIExtension sd = Inr h"
    using h(6) unfolding sni_exts_iff by blast
  obtain l stail where l: "length l < 65536" "sd = vec16 l @ stail" "sni_names l = Inr h"
    using e(4) unfolding parseSNIExtension_iff by blast
  obtain nb name ntail where n: "other_entries 256 nb" "length name < 65536" "name \<noteq> []"
      "l = concat (map enc_name nb) @ enc_name (0, name) @ ntail" "h = ToLower name"
    using l(3) unfolding sni_names_iff by blast
  define ch where "ch = \<lparr>ch_head = head, ch_session = sid, ch_suites = cs, ch_compression = cm,
    ch_exts_before = oe, ch_names_before = nb, ch_host = name, ch_names_tail = ntail,
    ch_sni_tail = stail, ch_exts_tail = etail, ch_body_tail = btail, ch_tail = tail\<rparr>"
  have enc: "enc_names ch = l" "enc_sni ch = sd" "enc_exts ch = es" "enc_body ch = body"
      "enc_hello ch = data"
    by (simp_all add: ch_def enc_names_def enc_sni_def enc_exts_def enc_body_def enc_hello_def
        n(4) [symmetric] l(2) [symmetric] e(3) [symmetric] h(7) [symmetric] b(3) [symmetric])
  then have "ok_hello ch"
    using b(1) h(1-5) e(1,2) l(1) n(1-3) by (simp add: ok_hello_def) (simp add: ch_def)
  then show ?thesis using enc(5) n(5) by (intro exI [of _ ch]) (simp add: ch_def)
qed

section \<open>The record layer\<close>

definition tls_record :: "bytes \<Rightarrow> bytes \<Rightarrow> bytes" where
  "tls_record ver frag = CHR 0x16 # ver @ vec16 frag"

lemma SniffSNI_short: "length r < 5 \<Longrightarrow> SniffSNI r = (Inl ReadHeader, [])"
  by (simp add: SniffSNI_def ReadFull_def tlsRecordHeaderLen_def)

lemma SniffSNI_Cons:
  "SniffSNI (t # v # w # c # d # r) =
     (let n = byte_val c * 256 + byte_val d in
      if byte_val t \<noteq> 22 then (Inl (NotHandshake (byte_val t)), r)
      else if n = 0 then (Inl EmptyFragment, r)
      else if n > 16384 then (Inl (FragmentTooBig n), r)
      else if n > length r then (Inl ReadFragment, [])
      else (case parseClientHelloSNI (take n r) of
              Inl e \<Rightarrow> Inl e
            | Inr host \<Rightarrow> Inr (host, t # v # w # c # d # take n r), drop n r))"
  by (simp add: SniffSNI_def ReadFull_def tlsRecordHeaderLen_def index_at_def slice_def Uint16_def
      tlsContentTypeHandshake_def maxTLSRecordFragment_def Let_def split: sum.split)

lemma five_bytes: "5 \<le> length (s :: bytes) \<Longrightarrow> \<exists>t v w c d r. s = t # v # w # c # d # r"
  by (simp add: numeral_eq_Suc Suc_le_length_iff) blast

lemma enc_hello_nonempty: "enc_hello ch \<noteq> []"
  by (simp add: enc_hello_def)

lemma SniffSNI_consumes:
  "\<exists>consumed. s = consumed @ snd (SniffSNI s) \<and> length consumed \<le> 5 + 16384 \<and>
     (case fst (SniffSNI s) of
        Inl e \<Rightarrow> e \<noteq> Panic
      | Inr (host, buffered) \<Rightarrow> host \<noteq> [] \<and> buffered = consumed)"
proof (cases "length s < 5")
  case True
  then show ?thesis by (simp add: SniffSNI_short)
next
  case False
  then obtain t v w c d r where s: "s = t # v # w # c # d # r" using five_bytes [of s] by auto
  let ?n = "byte_val c * 256 + byte_val d"
  have host: "h \<noteq> []" if "parseClientHelloSNI x = Inr h" for x h
    using enc_hello_complete [OF that] by (auto simp: ok_hello_def ToLower_eq_Nil_iff)
  show ?thesis
  proof (cases "byte_val t = 22 \<and> ?n \<noteq> 0 \<and> ?n \<le> 16384")
    case True
    then show ?thesis
      using parseClientHelloSNI_safe [of "take ?n r"] host [of "take ?n r"]
      by (intro exI [of _ "t # v # w # c # d # take ?n r"])
        (auto simp: s SniffSNI_Cons Let_def split: sum.splits)
  next
    case False
    then show ?thesis
      by (intro exI [of _ "[t, v, w, c, d]"]) (auto simp: s SniffSNI_Cons Let_def)
  qed
qed

text \<open>On success what was consumed and what is left is the input.\<close>

lemma SniffSNI_replay: "SniffSNI s = (Inr (host, buffered), rest) \<Longrightarrow> buffered @ rest = s"
  using SniffSNI_consumes [of s] by (auto simp: prod_eq_iff)

text \<open>
  \<open>SniffSNI\<close> cannot panic on any input, reads at most one record (five header bytes and a
  fragment of at most 16384), and on success hands back exactly the bytes it consumed, in order,
  so that replaying them in front of the rest of the connection gives the upstream the client's
  byte stream unchanged.
\<close>

theorem SniffSNI_safe_replay:
  "\<exists>consumed. s = consumed @ snd (SniffSNI s) \<and> length consumed \<le> 5 + 16384 \<and>
     (case fst (SniffSNI s) of
        Inl e \<Rightarrow> e \<noteq> Panic
      | Inr (host, buffered) \<Rightarrow> host \<noteq> [] \<and> buffered = consumed)"
  by (rule SniffSNI_consumes)

text \<open>
  C28. \<open>SniffSNI\<close> succeeds exactly on the inputs that begin with one TLS handshake record carrying a
  well-formed ClientHello with a server name, and then returns the first host name of the first
  server name extension in lower case. Right to left this is the round trip with the encoder;
  left to right nothing else is accepted.
\<close>

theorem SniffSNI_exact:
  "fst (SniffSNI s) = Inr (host, buffered) \<longleftrightarrow>
     (\<exists>ver ch rest. length ver = 2 \<and> ok_hello ch \<and> length (enc_hello ch) \<le> 16384 \<and>
        buffered = tls_record ver (enc_hello ch) \<and> s = buffered @ rest \<and>
        host = ToLower (ch_host ch))" (is "_ \<longleftrightarrow> ?R")
proof
  assume L: "fst (SniffSNI s) = Inr (host, buffered)"
  then have "5 \<le> length s" using SniffSNI_short [of s] by (cases "length s < 5") auto
  then obtain t v w c d r where s: "s = t # v # w # c # d # r" using five_bytes by blast
  let ?n = "byte_val c * 256 + byte_val d"
  have n: "byte_val t = 22" "?n \<le> 16384" "?n \<le> length r"
      "parseClientHelloSNI (take ?n r) = Inr host" "buffered = t # v # w # c # d # take ?n r"
    using L by (auto simp: s SniffSNI_Cons Let_def split: if_splits sum.splits)
  obtain ch where ch: "ok_hello ch" "take ?n r = enc_hello ch" "host = ToLower (ch_host ch)"
    using enc_hello_complete [OF n(4)] by blast
  have "t = CHR 0x16" using n(1) by (simp add: char_eq_iff_byte_val)
  moreover have "length (enc_hello ch) = ?n" using n(3) ch(2) [symmetric] by simp
  ultimately have "buffered = tls_record [v, w] (enc_hello ch)" "length (enc_hello ch) \<le> 16384"
    using n(2,5) ch(2) by (simp_all add: tls_record_def vec16_def be16_of_bytes)
  moreover have "s = buffered @ drop ?n r" using n(5) by (simp add: s)
  ultimately show ?R using ch by (metis length_Cons list.size(3) numeral_2_eq_2)
next
  assume ?R
  then obtain ver ch rest where h: "length ver = 2" "ok_hello ch" "length (enc_hello ch) \<le> 16384"
      "buffered = tls_record ver (enc_hello ch)" "s = buffered @ rest" "host = ToLower (ch_host ch)"
    by blast
  obtain v w where v: "ver = [v, w]" using h(1) by (auto simp: numeral_2_eq_2 length_Suc_conv)
  let ?l = "length (enc_hello ch)"
  have len: "?l div 256 mod 256 * 256 + ?l mod 256 = ?l" using h(3) by simp
  show "fst (SniffSNI s) = Inr (host, buffered)"
    using h(3) enc_hello_sound [OF h(2)] enc_hello_nonempty [of ch]
    by (simp add: h(4-6) v tls_record_def vec16_def be16_def SniffSNI_Cons Let_def len)
qed

end
