(* ===== verification/Go_Bufio.thy ===== *)
theory Go_Bufio
  imports Go_Strings
begin

text \<open>
  \<open>bufio.Reader\<close> over a connection. The connection is the list of chunks its \<open>Read\<close> calls deliver and
  the error it ends with; an optional limit and a record of what was read stand for \<open>io.LimitedReader\<close>
  and \<open>io.TeeReader\<close>. The main result is that what \<open>ReadSlice\<close> returns depends on the byte stream only,
  not on how the network cut it into chunks.
\<close>

section \<open>The reader\<close>

datatype read_error = EOF | ErrBufferFull | ReadFailed

record bufio =
  bf_size :: nat
  bf_buf :: bytes
  bf_err :: "read_error option"
  bf_src :: "bytes list"
  bf_end :: read_error
  bf_limit :: "nat option"
  bf_tee :: bytes

definition minReadBufferSize :: nat where "minReadBufferSize = 16"

definition NewReaderSize :: "nat \<Rightarrow> bytes list \<Rightarrow> read_error \<Rightarrow> bufio" where
  "NewReaderSize n chunks e =
     \<lparr>bf_size = max n minReadBufferSize, bf_buf = [], bf_err = None, bf_src = chunks, bf_end = e,
      bf_limit = None, bf_tee = []\<rparr>"

text \<open>One \<open>Read\<close> of at most \<open>k\<close> bytes; an empty read is retried.\<close>

fun read_chunk :: "nat \<Rightarrow> bytes list \<Rightarrow> (bytes \<times> bytes list) option" where
  "read_chunk k [] = None"
| "read_chunk k (c # cs) =
     (if c = [] then read_chunk k cs
      else if length c \<le> k then Some (c, cs) else Some (take k c, drop k c # cs))"

definition fill :: "bufio \<Rightarrow> bufio" where
  "fill b =
     (if bf_limit b = Some 0 then b\<lparr>bf_err := Some EOF\<rparr>
      else
        let free = bf_size b - length (bf_buf b);
            k = (case bf_limit b of None \<Rightarrow> free | Some n \<Rightarrow> min free n)
        in case read_chunk k (bf_src b) of
             None \<Rightarrow> b\<lparr>bf_src := [], bf_err := Some (bf_end b)\<rparr>
           | Some (c, cs) \<Rightarrow>
               b\<lparr>bf_buf := bf_buf b @ c, bf_src := cs, bf_limit := map_option (\<lambda>n. n - length c) (bf_limit b),
                 bf_tee := bf_tee b @ c\<rparr>)"

text \<open>What the source still has to give, and the whole stream left to the caller.\<close>

definition src_rest :: "bufio \<Rightarrow> bytes" where
  "src_rest b = (case bf_limit b of None \<Rightarrow> concat (bf_src b) | Some n \<Rightarrow> take n (concat (bf_src b)))"

definition stream :: "bufio \<Rightarrow> bytes" where
  "stream b = bf_buf b @ src_rest b"

definition end_err :: "bufio \<Rightarrow> read_error" where
  "end_err b = (case bf_limit b of
     Some n \<Rightarrow> if n \<le> length (concat (bf_src b)) then EOF else bf_end b | None \<Rightarrow> bf_end b)"

definition bufio_inv :: "bufio \<Rightarrow> bool" where
  "bufio_inv b \<longleftrightarrow> 0 < bf_size b \<and> length (bf_buf b) \<le> bf_size b \<and>
     (\<forall>e. bf_err b = Some e \<longrightarrow> src_rest b = [] \<and> e = end_err b \<and> length (bf_buf b) < bf_size b) \<and> bf_end b \<noteq> ErrBufferFull"

lemma src_rest_simps [simp]:
  "src_rest (b\<lparr>bf_buf := x\<rparr>) = src_rest b" "src_rest (b\<lparr>bf_err := y\<rparr>) = src_rest b"
  "end_err (b\<lparr>bf_buf := x\<rparr>) = end_err b" "end_err (b\<lparr>bf_err := y\<rparr>) = end_err b"
  by (simp_all add: src_rest_def end_err_def split: option.split)

lemma read_chunk_None: "read_chunk k cs = None \<longleftrightarrow> concat cs = []"
  by (induction cs) auto

lemma read_chunk_Some:
  "read_chunk k cs = Some (c, cs') \<Longrightarrow> concat cs = c @ concat cs' \<and> length c \<le> k \<and> (0 < k \<longrightarrow> c \<noteq> [])"
  by (induction cs) (auto split: if_splits)

lemma fill_facts:
  assumes "bufio_inv b" "length (bf_buf b) < bf_size b" "bf_err b = None"
  shows "bufio_inv (fill b)" "stream (fill b) = stream b" "end_err (fill b) = end_err b"
    "bf_size (fill b) = bf_size b" "bf_tee (fill b) @ concat (bf_src (fill b)) = bf_tee b @ concat (bf_src b)"
    "bf_err (fill b) = None \<Longrightarrow> length (src_rest (fill b)) < length (src_rest b)"
    "bf_end (fill b) = bf_end b"
proof -
  consider (zero) "bf_limit b = Some 0"
    | (eof) "bf_limit b \<noteq> Some 0" "concat (bf_src b) = []"
    | (more) k c cs where "bf_limit b \<noteq> Some 0"
        "k = (case bf_limit b of None \<Rightarrow> bf_size b - length (bf_buf b) | Some n \<Rightarrow> min (bf_size b - length (bf_buf b)) n)"
        "read_chunk k (bf_src b) = Some (c, cs)"
    using read_chunk_None [of _ "bf_src b"] by (metis not_None_eq surj_pair)
  then have "bufio_inv (fill b) \<and> stream (fill b) = stream b \<and> end_err (fill b) = end_err b \<and>
      bf_size (fill b) = bf_size b \<and> bf_tee (fill b) @ concat (bf_src (fill b)) = bf_tee b @ concat (bf_src b) \<and>
      (bf_err (fill b) = None \<longrightarrow> length (src_rest (fill b)) < length (src_rest b)) \<and> bf_end (fill b) = bf_end b"
  proof cases
    case zero
    then show ?thesis
      using assms by (simp add: fill_def bufio_inv_def src_rest_def stream_def end_err_def)
  next
    case eof
    then have "read_chunk k (bf_src b) = None" for k by (simp only: read_chunk_None)
    then show ?thesis
      using eof(1) assms unfolding fill_def bufio_inv_def src_rest_def stream_def end_err_def
      by (auto simp: eof(2) simp del: concat_eq_Nil_conv simp: Let_def split: option.splits)
  next
    case more
    have c: "concat (bf_src b) = c @ concat cs" "length c \<le> k" "0 < k" "c \<noteq> []"
      using read_chunk_Some [OF more(3)] more(1,2) assms(2) by (auto split: option.splits)
    have f: "fill b = b\<lparr>bf_buf := bf_buf b @ c, bf_src := cs,
        bf_limit := map_option (\<lambda>n. n - length c) (bf_limit b), bf_tee := bf_tee b @ c\<rparr>"
      using more by (simp add: fill_def Let_def)
    show ?thesis
    proof (cases "bf_limit b")
      case None
      then show ?thesis
        using c more(2) assms by (simp add: f bufio_inv_def src_rest_def stream_def end_err_def)
    next
      case (Some n)
      have n: "length c \<le> n" "length (bf_buf b) + length c \<le> bf_size b" using c(2) more(2) assms(2) Some by auto
      then have "n - length c \<le> length (concat cs) \<longleftrightarrow> n \<le> length c + length (concat cs)" by arith
      then have "end_err (fill b) = end_err b" using c(1) Some by (simp add: f end_err_def)
      moreover have "src_rest b = c @ src_rest (fill b)" using c(1) Some n(1) by (simp add: f src_rest_def)
      ultimately show ?thesis
        using c n assms(1,3) by (simp add: f bufio_inv_def stream_def)
    qed
  qed
  then show "bufio_inv (fill b)" "stream (fill b) = stream b" "end_err (fill b) = end_err b"
    "bf_size (fill b) = bf_size b" "bf_tee (fill b) @ concat (bf_src (fill b)) = bf_tee b @ concat (bf_src b)"
    "bf_err (fill b) = None \<Longrightarrow> length (src_rest (fill b)) < length (src_rest b)"
    "bf_end (fill b) = bf_end b"
    by blast+
qed

lemma fill_measure:
  assumes "bf_err b = None" "length (bf_buf b) < bf_size b" "bf_err (fill b) = None"
  shows "length (concat (bf_src (fill b))) < length (concat (bf_src b))"
proof -
  define k where "k = (case bf_limit b of None \<Rightarrow> bf_size b - length (bf_buf b) | Some n \<Rightarrow> min (bf_size b - length (bf_buf b)) n)"
  have nz: "bf_limit b \<noteq> Some 0" using assms(3) by (auto simp: fill_def)
  then obtain c cs where r: "read_chunk k (bf_src b) = Some (c, cs)" "bf_src (fill b) = cs"
    using assms(3) by (auto simp: fill_def Let_def k_def split: option.splits)
  moreover have "0 < k" using nz assms(2) by (auto simp: k_def split: option.splits)
  ultimately show ?thesis using read_chunk_Some [OF r(1)] by simp
qed

section \<open>ReadSlice\<close>

text \<open>The loop of \<open>ReadSlice\<close>; \<open>readErr\<close> hands out the pending error and clears it.\<close>

function ReadSlice :: "byte \<Rightarrow> bufio \<Rightarrow> bytes \<times> read_error option \<times> bufio" where
  "ReadSlice d b =
     (case IndexByte (bf_buf b) d of
        Some i \<Rightarrow> (take (Suc i) (bf_buf b), None, b\<lparr>bf_buf := drop (Suc i) (bf_buf b)\<rparr>)
      | None \<Rightarrow>
          if bf_err b \<noteq> None then (bf_buf b, bf_err b, b\<lparr>bf_buf := [], bf_err := None\<rparr>)
          else if bf_size b \<le> length (bf_buf b) then (bf_buf b, Some ErrBufferFull, b\<lparr>bf_buf := []\<rparr>)
          else ReadSlice d (fill b))"
  by pat_completeness auto
termination
  by (relation "measure (\<lambda>(d, b). if bf_err b = None then Suc (length (concat (bf_src b))) else 0)")
    (auto simp: fill_measure)

declare ReadSlice.simps [simp del]

text \<open>What \<open>ReadSlice\<close> does to the stream: the line up to the delimiter if that is within the buffer size, a full buffer
  with \<open>ErrBufferFull\<close> if not, and all that is left with the final error at the end.\<close>

definition cut_line :: "byte \<Rightarrow> nat \<Rightarrow> read_error \<Rightarrow> bytes \<Rightarrow> bytes \<times> read_error option \<times> bytes" where
  "cut_line d n e t =
     (case IndexByte (take n t) d of
        Some i \<Rightarrow> (take (Suc i) t, None, drop (Suc i) t)
      | None \<Rightarrow> if n \<le> length t then (take n t, Some ErrBufferFull, drop n t) else (t, Some e, []))"

lemma IndexByte_take_append:
  "IndexByte a d = Some i \<Longrightarrow> IndexByte (a @ b) d = Some i"
  by (induction a arbitrary: i) (auto split: if_splits)

lemma IndexByte_less: "IndexByte a d = Some i \<Longrightarrow> i < length a"
  by (induction a arbitrary: i) (auto split: if_splits)

lemma ReadSlice_stream:
  assumes "bufio_inv b" "ReadSlice d b = (line, err, b')"
  shows "(line, err, stream b') = cut_line d (bf_size b) (end_err b) (stream b) \<and> bufio_inv b' \<and>
     bf_size b' = bf_size b \<and> end_err b' = end_err b \<and>
     bf_tee b' @ concat (bf_src b') = bf_tee b @ concat (bf_src b)"
  using assms
proof (induction d b rule: ReadSlice.induct)
  case (1 d b)
  have len: "length (bf_buf b) \<le> bf_size b" using 1(2) by (simp add: bufio_inv_def)
  show ?case
  proof (cases "IndexByte (bf_buf b) d")
    case (Some i)
    have r: "line = take (Suc i) (bf_buf b)" "err = None" "b' = b\<lparr>bf_buf := drop (Suc i) (bf_buf b)\<rparr>"
      using 1(3) Some by (simp_all add: ReadSlice.simps [of d b])
    have "i < length (bf_buf b)" using IndexByte_less [OF Some] .
    moreover have "take (bf_size b) (stream b) = bf_buf b @ take (bf_size b - length (bf_buf b)) (src_rest b)"
      using len by (simp add: stream_def)
    then have "IndexByte (take (bf_size b) (stream b)) d = Some i" using IndexByte_take_append [OF Some] by simp
    moreover have "length (bf_buf b) - Suc i \<le> bf_size b" "0 < length (bf_buf b)" using len calculation(1) by auto
    ultimately show ?thesis
      using 1(2) by (auto simp: r cut_line_def stream_def bufio_inv_def)
  next
    case None
    consider (err) e where "bf_err b = Some e" | (full) "bf_err b = None" "bf_size b = length (bf_buf b)"
      | (more) "bf_err b = None" "length (bf_buf b) < bf_size b"
      using len by fastforce
    then show ?thesis
    proof cases
      case err
      have r: "line = bf_buf b" "err = Some e" "b' = b\<lparr>bf_buf := [], bf_err := None\<rparr>"
        using 1(3) None err by (simp_all add: ReadSlice.simps [of d b])
      have s: "src_rest b = []" "e = end_err b" "length (bf_buf b) < bf_size b"
        using 1(2) err by (simp_all add: bufio_inv_def)
      have "cut_line d (bf_size b) (end_err b) (stream b) = (bf_buf b, Some e, [])"
      proof -
        have "take (bf_size b) (stream b) = bf_buf b" "length (stream b) < bf_size b" "stream b = bf_buf b"
          using s by (simp_all add: stream_def)
        then show ?thesis unfolding cut_line_def by (simp only: None option.case s(2)) simp
      qed
      moreover have "stream b' = []" "bufio_inv b'" using s(1) 1(2) by (simp_all add: r(3) stream_def bufio_inv_def)
      ultimately show ?thesis unfolding r(1,2) by (simp add: r(3))
    next
      case full
      have r: "line = bf_buf b" "err = Some ErrBufferFull" "b' = b\<lparr>bf_buf := []\<rparr>"
        using 1(3) None full by (simp_all add: ReadSlice.simps [of d b])
      have "cut_line d (bf_size b) (end_err b) (stream b) = (bf_buf b, Some ErrBufferFull, src_rest b)"
      proof -
        have "take (bf_size b) (stream b) = bf_buf b" "bf_size b \<le> length (stream b)" "drop (bf_size b) (stream b) = src_rest b"
          using full(2) by (simp_all add: stream_def)
        then show ?thesis unfolding cut_line_def by (simp only: None option.case) simp
      qed
      moreover have "stream b' = src_rest b" "bufio_inv b'" using 1(2) full(1) by (simp_all add: r(3) stream_def bufio_inv_def)
      ultimately show ?thesis unfolding r(1,2) by (simp add: r(3))
    next
      case more
      have "ReadSlice d (fill b) = (line, err, b')"
        using 1(3) None more by (simp add: ReadSlice.simps [of d b])
      with fill_facts [OF 1(2) more(2,1)] 1(1) [OF None] more show ?thesis by simp
    qed
  qed
qed

text \<open>Every byte is handed out once: the measure of the loops over a reader.\<close>

definition pending :: "bufio \<Rightarrow> nat" where
  "pending b = length (bf_buf b) + length (concat (bf_src b))"

lemma fill_pending: "pending (fill b) = pending b"
  unfolding fill_def pending_def Let_def
  by (auto split: option.splits dest!: read_chunk_Some simp: read_chunk_None)

lemma ReadSlice_pending: "ReadSlice d b = (line, err, b') \<Longrightarrow> pending b' + length line = pending b"
proof (induction d b rule: ReadSlice.induct)
  case (1 d b)
  then show ?case
    by (cases "IndexByte (bf_buf b) d") (auto simp: ReadSlice.simps [of d b] fill_pending split: if_splits,
      auto simp: pending_def)
qed

section \<open>Reading to the end of a line\<close>

text \<open>
  \<open>discardToNewline\<close> (\<open>logrelay.go\<close>, and its twin in \<open>manager.go\<close>). \<open>ErrBufferFull\<close> comes with a full
  buffer, so asking for a non-empty line does not change the loop; it makes it terminate for readers of
  size zero too, which \<open>NewReaderSize\<close> never returns.
\<close>

function discardToNewline :: "bufio \<Rightarrow> read_error option \<times> bufio" where
  "discardToNewline b =
     (case ReadSlice (CHR 0x0A) b of (line, err, b') \<Rightarrow>
        if err = Some ErrBufferFull \<and> line \<noteq> [] then discardToNewline b' else (err, b'))"
  by pat_completeness auto

termination
proof (relation "measure pending")
  fix b line y e b' assume "(line, y) = ReadSlice (CHR 0x0A) b" "(e, b') = y" "e = Some ErrBufferFull \<and> line \<noteq> []"
  then show "(b', b) \<in> measure pending" using ReadSlice_pending [of "CHR 0x0A" b line e b'] by (cases line) auto
qed simp

declare discardToNewline.simps [simp del]

text \<open>A line without the carriage return before its newline.\<close>

definition strip_cr :: "bytes \<Rightarrow> bytes" where
  "strip_cr c = (if c \<noteq> [] \<and> last c = CHR 0x0D then butlast c else c)"

text \<open>What it leaves: everything after the first newline of the stream.\<close>

definition after_newline :: "bytes \<Rightarrow> bytes" where
  "after_newline t = drop 1 (dropWhile (\<lambda>c. c \<noteq> CHR 0x0A) t)"

lemma cut_line_cases:
  assumes "cut_line d n e t = (line, err, rest)" "0 < n" "e \<noteq> ErrBufferFull"
  obtains (line) body where "line = body @ [d]" "d \<notin> set body" "err = None" "t = line @ rest" "length line \<le> n"
    | (full) "err = Some ErrBufferFull" "t = line @ rest" "length line = n" "d \<notin> set line"
    | (eof) "err = Some e" "line = t" "rest = []" "d \<notin> set t" "length t < n"
proof (cases "IndexByte (take n t) d")
  case (Some i)
  have i: "i < n" "i < length t" using IndexByte_less [OF Some] by simp_all
  have "t ! i = d" "d \<notin> set (take i t)" using IndexByte_Some [OF Some] i by simp_all
  moreover have "take (Suc i) t = take i t @ [t ! i]" using i by (simp add: take_Suc_conv_app_nth)
  ultimately have "take (Suc i) t = take i t @ [d]" "d \<notin> set (take i t)" by simp_all
  moreover have "line = take (Suc i) t" "err = None" "rest = drop (Suc i) t"
    using assms(1) Some by (simp_all add: cut_line_def)
  ultimately show ?thesis
    using i append_take_drop_id [of "Suc i" t] by (intro line [of "take i t"]) (simp_all del: append_take_drop_id)
next
  case None
  then have d: "d \<notin> set (take n t)" by simp
  show ?thesis
  proof (cases "n \<le> length t")
    case True
    then have "line = take n t" "err = Some ErrBufferFull" "rest = drop n t"
      using assms(1) unfolding cut_line_def None by simp_all
    then show ?thesis using True d by (intro full) simp_all
  next
    case False
    then have "line = t" "err = Some e" "rest = []"
      using assms(1) unfolding cut_line_def None by simp_all
    then show ?thesis using False d by (intro eof) simp_all
  qed
qed

lemma discardToNewline_stream:
  assumes "bufio_inv b" "discardToNewline b = (err, b')"
  shows "stream b' = after_newline (stream b) \<and> bufio_inv b' \<and> bf_size b' = bf_size b \<and> end_err b' = end_err b \<and>
     err = (if CHR 0x0A \<in> set (stream b) then None else Some (end_err b))"
  using assms
proof (induction b rule: discardToNewline.induct)
  case (1 b)
  obtain line e b1 where r: "ReadSlice (CHR 0x0A) b = (line, e, b1)" by (metis prod_cases3)
  note s = ReadSlice_stream [OF 1(2) r]
  have inv: "0 < bf_size b" "end_err b \<noteq> ErrBufferFull"
    using 1(2) by (auto simp: bufio_inv_def end_err_def split: option.splits)
  have cut: "cut_line (CHR 0x0A) (bf_size b) (end_err b) (stream b) = (line, e, stream b1)" using s by simp
  from cut inv show ?case
  proof (cases rule: cut_line_cases)
    case (line body)
    then have "err = None" "b' = b1" using 1(3) r by (simp_all add: discardToNewline.simps [of b])
    then show ?thesis using s line by (simp add: after_newline_def dropWhile_append)
  next
    case full
    then have l: "line \<noteq> []" using inv(1) by auto
    then have "discardToNewline b1 = (err, b')" using 1(3) r full by (simp add: discardToNewline.simps [of b])
    from 1(1) [OF r [symmetric] refl _ _ this] l full s show ?thesis
      by (auto simp: after_newline_def dropWhile_append)
  next
    case eof
    then have "err = e" "b' = b1" using 1(3) r inv(2) by (simp_all add: discardToNewline.simps [of b])
    moreover have "after_newline (stream b) = []"
      using eof(4) unfolding after_newline_def by (subst dropWhile_eq_Nil_conv [THEN iffD2]) auto
    ultimately show ?thesis using s eof by simp
  qed
qed

end
