(* ===== verification/Go_Http.thy ===== *)
theory Go_Http
  imports Go_Net "HOL-Library.AList"
begin

text \<open>
  What the proxies use of \<open>strings\<close>, \<open>net/textproto\<close>, \<open>net/url\<close> and \<open>net/http\<close>: splitting at a byte, trimming
  white space, canonical header keys, header maps, and the host and port of a URL.
\<close>

section \<open>Strings\<close>

text \<open>\<open>strings.Split\<close> at a one-byte separator.\<close>

fun Split :: "bytes \<Rightarrow> byte \<Rightarrow> bytes list" where
  "Split [] c = [[]]"
| "Split (x # xs) c =
     (if x = c then [] # Split xs c
      else case Split xs c of [] \<Rightarrow> [[x]] | y # ys \<Rightarrow> (x # y) # ys)"

lemma Split_nonempty [simp]: "Split s c \<noteq> []"
  by (cases s) (auto split: list.split)

lemma Split_no_sep: "p \<in> set (Split s c) \<Longrightarrow> c \<notin> set p"
  by (induction s arbitrary: p) (auto split: if_splits list.splits)

text \<open>\<open>unicode.IsSpace\<close> and \<open>strings.TrimSpace\<close>.\<close>

definition is_space :: "nat \<Rightarrow> bool" where
  "is_space r \<longleftrightarrow> (9 \<le> r \<and> r \<le> 13) \<or> r = 32 \<or> r = 0x85 \<or> r = 0xA0 \<or> r = 0x1680 \<or> (0x2000 \<le> r \<and> r \<le> 0x200A)
     \<or> r = 0x2028 \<or> r = 0x2029 \<or> r = 0x202F \<or> r = 0x205F \<or> r = 0x3000"

definition rune_width :: "(nat \<times> nat) list \<Rightarrow> nat" where
  "rune_width rs = sum_list (map snd rs)"

definition TrimSpace :: "bytes \<Rightarrow> bytes" where
  "TrimSpace s =
     (let rs = runes s;
          left = takeWhile (is_space \<circ> fst) rs;
          rest = dropWhile (is_space \<circ> fst) rs;
          right = takeWhile (is_space \<circ> fst) (rev rest)
      in take (rune_width rest - rune_width right) (drop (rune_width left) s))"

section \<open>Headers\<close>

text \<open>A token byte of RFC 7230.\<close>

definition validHeaderFieldByte :: "byte \<Rightarrow> bool" where
  "validHeaderFieldByte c \<longleftrightarrow>
     (48 \<le> byte_val c \<and> byte_val c \<le> 57) \<or> (65 \<le> byte_val c \<and> byte_val c \<le> 90) \<or> (97 \<le> byte_val c \<and> byte_val c \<le> 122)
     \<or> c \<in> set (''!#$%&*+-.^_`|~'' @ [CHR 0x27])"

definition upper_byte :: "byte \<Rightarrow> byte" where
  "upper_byte c = (if 97 \<le> byte_val c \<and> byte_val c \<le> 122 then char_of (byte_val c - 32) else c)"

fun canon_from :: "bool \<Rightarrow> bytes \<Rightarrow> bytes" where
  "canon_from upper [] = []"
| "canon_from upper (c # s) =
     (let c' = (if upper then upper_byte c else lower_byte c) in c' # canon_from (c' = CHR ''-'') s)"

text \<open>\<open>textproto.CanonicalMIMEHeaderKey\<close>: a name with a byte that is no token byte is left alone.\<close>

definition CanonicalHeaderKey :: "bytes \<Rightarrow> bytes" where
  "CanonicalHeaderKey s = (if list_all validHeaderFieldByte s then canon_from True s else s)"

text \<open>\<open>http.Header\<close>: a map from canonical keys to the values received, here an association list.\<close>

type_synonym Header = "(bytes \<times> bytes list) list"

definition Header_Values :: "Header \<Rightarrow> bytes \<Rightarrow> bytes list" where
  "Header_Values h k = (case map_of h (CanonicalHeaderKey k) of None \<Rightarrow> [] | Some vs \<Rightarrow> vs)"

definition Header_Del :: "Header \<Rightarrow> bytes \<Rightarrow> Header" where
  "Header_Del h k = AList.delete (CanonicalHeaderKey k) h"

lemma Header_Del_filter: "Header_Del h k = filter (\<lambda>(x, _). x \<noteq> CanonicalHeaderKey k) h"
  by (auto simp: Header_Del_def AList.delete_eq case_prod_unfold intro!: filter_cong)

section \<open>URLs and requests\<close>

record URL =
  u_Scheme :: bytes
  u_Opaque :: bytes
  u_Host :: bytes
  u_Path :: bytes
  u_RawPath :: bytes
  u_RawQuery :: bytes
  u_Fragment :: bytes

definition validOptionalPort :: "bytes \<Rightarrow> bool" where
  "validOptionalPort p = (case p of [] \<Rightarrow> True | c # ds \<Rightarrow> c = CHR '':'' \<and> list_all is_digit ds)"

text \<open>\<open>URL.Hostname\<close> and \<open>URL.Port\<close>.\<close>

definition url_split :: "bytes \<Rightarrow> bytes \<times> bytes" where
  "url_split hp =
     (let hp1 = (case LastIndexByte hp (CHR '':'') of
                   None \<Rightarrow> (hp, [])
                 | Some i \<Rightarrow> if validOptionalPort (drop i hp) then (take i hp, drop (Suc i) hp) else (hp, []));
          host = fst hp1
      in (if prefix ''['' host \<and> suffix '']'' host then butlast (tl host) else host, snd hp1))"

definition Hostname :: "URL \<Rightarrow> bytes" where
  "Hostname u = fst (url_split (u_Host u))"

definition Port :: "URL \<Rightarrow> bytes" where
  "Port u = snd (url_split (u_Host u))"

record Request =
  rq_Method :: bytes
  rq_URL :: URL
  rq_Header :: Header
  rq_Host :: bytes
  rq_RequestURI :: bytes
  rq_Close :: bool

record Response =
  rs_StatusCode :: int
  rs_Header :: Header
  rs_Close :: bool

end
