(* ===== verification/Go_Textproto.thy ===== *)
theory Go_Textproto
  imports Go_Bufio Go_Http
begin

text \<open>
  \<open>net/textproto\<close> as the host sniffer uses it: \<open>ReadLine\<close> and \<open>ReadMIMEHeader\<close> on a \<open>bufio.Reader\<close>, with the memory
  limits (\<open>math.MaxInt64\<close>) left out. The second half shows that both depend on the byte stream only: they
  agree with \<open>line_of\<close> and \<open>fields_of\<close>, which take the stream apart without a buffer.
\<close>

section \<open>More of \<open>bufio.Reader\<close>\<close>

text \<open>\<open>ReadByte\<close>; a reader without room panics in Go, \<open>NewReaderSize\<close> never makes one.\<close>

function ReadByte :: "bufio \<Rightarrow> (read_error + byte) \<times> bufio" where
  "ReadByte b =
     (case bf_buf b of
        c # cs \<Rightarrow> (Inr c, b\<lparr>bf_buf := cs\<rparr>)
      | [] \<Rightarrow>
          (case bf_err b of
             Some e \<Rightarrow> (Inl e, b\<lparr>bf_err := None\<rparr>)
           | None \<Rightarrow> if bf_size b = 0 then (Inl ErrBufferFull, b) else ReadByte (fill b)))"
  by pat_completeness auto
termination
  by (relation "measure (\<lambda>b. if bf_err b = None then Suc (length (concat (bf_src b))) else 0)") (auto simp: fill_measure)

declare ReadByte.simps [simp del]

definition UnreadByte :: "byte \<Rightarrow> bufio \<Rightarrow> bufio" where
  "UnreadByte c b = b\<lparr>bf_buf := c # bf_buf b\<rparr>"

function Peek :: "nat \<Rightarrow> bufio \<Rightarrow> bytes \<times> bufio" where
  "Peek n b =
     (if length (bf_buf b) < n \<and> length (bf_buf b) < bf_size b \<and> bf_err b = None then Peek n (fill b)
      else if length (bf_buf b) < n then (bf_buf b, b\<lparr>bf_err := None\<rparr>)
      else (take n (bf_buf b), b))"
  by pat_completeness auto
termination
  by (relation "measure (\<lambda>(n, b). if bf_err b = None then Suc (length (concat (bf_src b))) else 0)") (auto simp: fill_measure)

declare Peek.simps [simp del]

text \<open>\<open>bufio.ReadLine\<close>: a full buffer that ends in a carriage return gives it back.\<close>

definition ReadLine :: "bufio \<Rightarrow> (read_error + bytes \<times> bool) \<times> bufio" where
  "ReadLine b =
     (case ReadSlice (CHR 0x0A) b of (line, err, b1) \<Rightarrow>
        if err = Some ErrBufferFull then
          if line \<noteq> [] \<and> last line = CHR 0x0D then (Inr (butlast line, True), UnreadByte (CHR 0x0D) b1)
          else (Inr (line, True), b1)
        else if line = [] then (Inl (the err), b1)
        else
          let line1 = (if last line \<noteq> CHR 0x0A then line
                       else if 1 < length line \<and> last (butlast line) = CHR 0x0D then butlast (butlast line)
                       else butlast line)
          in (Inr (line1, False), b1))"

section \<open>\<open>textproto.Reader\<close>\<close>

text \<open>
  \<open>readLineSlice\<close>. A partial line is a full buffer, at least fifteen bytes; asking for a non-empty one changes nothing but
  lets the loop terminate for every reader.
\<close>

lemma ReadLine_pending:
  assumes "ReadLine b = (Inr (l, m), b')"
  shows "pending b' + length l \<le> pending b"
proof -
  obtain line err b1 where r: "ReadSlice (CHR 0x0A) b = (line, err, b1)" by (metis prod_cases3)
  have "pending b1 + length line = pending b" using ReadSlice_pending [OF r] .
  moreover have "pending (UnreadByte (CHR 0x0D) b1) = Suc (pending b1)" by (simp add: pending_def UnreadByte_def)
  ultimately show ?thesis
    using assms r by (cases line rule: rev_cases) (auto simp: ReadLine_def Let_def split: if_splits)
qed

datatype tp_error = IOError read_error | ProtocolError bytes | MessageTooLarge

function readLineSlice :: "int \<Rightarrow> bytes \<Rightarrow> bufio \<Rightarrow> (tp_error + bytes) \<times> bufio" where
  "readLineSlice lim acc b =
     (case ReadLine b of
        (Inl e, b1) \<Rightarrow> (Inl (IOError e), b1)
      | (Inr (l, part), b1) \<Rightarrow>
          if 0 \<le> lim \<and> lim < int (length acc + length l) then (Inl MessageTooLarge, b1)
          else if part \<and> l \<noteq> [] then readLineSlice lim (acc @ l) b1
          else (Inr (acc @ l), b1))"
  by pat_completeness auto
termination
proof (relation "measure (\<lambda>(lim, acc, b). pending b)")
  fix lim acc b x b1 y l part
  assume "(x, b1) = ReadLine b" "x = Inr y" "(l, part) = y" "part \<and> l \<noteq> []"
  then show "((lim, acc @ l, b1), lim, acc, b) \<in> measure (\<lambda>(lim, acc, b). pending b)"
    using ReadLine_pending [of b l part b1] by (cases l) auto
qed simp

declare readLineSlice.simps [simp del]

text \<open>\<open>ReadLine\<close>, and what \<open>readLineSlice\<close> is under a limit of \<open>math.MaxInt64\<close>.\<close>

abbreviation ReadLine_tp :: "bufio \<Rightarrow> (tp_error + bytes) \<times> bufio" where
  "ReadLine_tp \<equiv> readLineSlice (- 1) []"

abbreviation blank :: "byte \<Rightarrow> bool" where
  "blank c \<equiv> c = CHR '' '' \<or> c = CHR 0x09"

definition trim :: "bytes \<Rightarrow> bytes" where
  "trim s = rev (dropWhile blank (rev (dropWhile blank s)))"

lemma ReadByte_pending: "ReadByte b = (r, b') \<Longrightarrow> pending b' + (case r of Inl _ \<Rightarrow> 0 | Inr _ \<Rightarrow> 1) = pending b"
proof (induction b rule: ReadByte.induct)
  case (1 b)
  then show ?case
    by (cases "bf_buf b"; cases "bf_err b") (auto simp: ReadByte.simps [of b] fill_pending split: if_splits, auto simp: pending_def)
qed

function skipSpace :: "nat \<Rightarrow> bufio \<Rightarrow> nat \<times> bufio" where
  "skipSpace n b =
     (case ReadByte b of
        (Inl e, b1) \<Rightarrow> (n, b1)
      | (Inr c, b1) \<Rightarrow> if blank c then skipSpace (Suc n) b1 else (n, UnreadByte c b1))"
  by pat_completeness auto
termination
proof (relation "measure (\<lambda>(n, b). pending b)")
  fix n b x b1 c
  assume "(x, b1) = ReadByte b" "x = Inr c" "blank c"
  then show "((Suc n, b1), n, b) \<in> measure (\<lambda>(n, b). pending b)"
    using ReadByte_pending [of b x b1] by (simp split: sum.splits)
qed simp

declare skipSpace.simps [simp del]

definition isASCIILetter :: "byte \<Rightarrow> bool" where
  "isASCIILetter c \<longleftrightarrow> 97 \<le> byte_val (lower_byte c) \<and> byte_val (lower_byte c) \<le> 122"

text \<open>
  \<open>readContinuedLineSlice\<close>: a line and the indented lines that continue it. The look at the buffered bytes
  saves the copy when the next line visibly starts a field.
\<close>

lemma skipSpace_pending: "skipSpace n b = (m, b') \<Longrightarrow> pending b' + m = pending b + n"
proof (induction n b rule: skipSpace.induct)
  case (1 n b)
  obtain r b1 where r: "ReadByte b = (r, b1)" by fastforce
  have p: "pending b1 + (case r of Inl _ \<Rightarrow> 0 | Inr _ \<Rightarrow> 1) = pending b" using ReadByte_pending [OF r] .
  show ?case
  proof (cases r)
    case (Inl e)
    then show ?thesis using 1(2) p r by (simp add: skipSpace.simps [of n b])
  next
    case (Inr c)
    show ?thesis
    proof (cases "blank c")
      case True
      then have "skipSpace (Suc n) b1 = (m, b')" using 1(2) r Inr by (simp add: skipSpace.simps [of n b])
      then show ?thesis using 1(1) [OF r [symmetric] Inr True] p Inr by simp
    next
      case False
      then have "m = n" "b' = UnreadByte c b1" using 1(2) r Inr by (auto simp: skipSpace.simps [of n b])
      then show ?thesis using p Inr by (simp add: UnreadByte_def pending_def)
    qed
  qed
qed

lemma readLineSlice_pending:
  "readLineSlice lim acc b = (r, b') \<Longrightarrow> pending b' + (case r of Inl _ \<Rightarrow> 0 | Inr l \<Rightarrow> length l) \<le> pending b + length acc"
proof (induction lim acc b rule: readLineSlice.induct)
  case (1 lim acc b)
  obtain x b1 where x: "ReadLine b = (x, b1)" by fastforce
  show ?case
  proof (cases x)
    case (Inl e)
    obtain line err b2 where s: "ReadSlice (CHR 0x0A) b = (line, err, b2)" by (metis prod_cases3)
    have "b1 = b2" using x s Inl by (auto simp: ReadLine_def Let_def split: if_splits)
    then show ?thesis using 1(2) x Inl ReadSlice_pending [OF s] by (auto simp: readLineSlice.simps [of lim acc b])
  next
    case (Inr lm)
    obtain l m where lm: "lm = (l, m)" by fastforce
    have p: "pending b1 + length l \<le> pending b" using ReadLine_pending x Inr lm by simp
    show ?thesis
    proof (cases "\<not> (0 \<le> lim \<and> lim < int (length acc + length l)) \<and> m \<and> l \<noteq> []")
      case True
      then have "readLineSlice lim (acc @ l) b1 = (r, b')"
        using 1(2) x Inr lm by (auto simp: readLineSlice.simps [of lim acc b] split: if_splits)
      then show ?thesis using 1(1) [OF x [symmetric] Inr lm [symmetric]] True p by simp
    next
      case False
      then show ?thesis using 1(2) x Inr lm p by (auto simp: readLineSlice.simps [of lim acc b] split: if_splits)
    qed
  qed
qed

function continuations :: "bytes \<Rightarrow> bufio \<Rightarrow> bytes \<times> bufio" where
  "continuations buf b =
     (case skipSpace 0 b of (n, b1) \<Rightarrow>
        if n = 0 then (buf, b1)
        else case ReadLine_tp b1 of
          (Inl e, b2) \<Rightarrow> (buf @ '' '', b2)
        | (Inr line, b2) \<Rightarrow> continuations (buf @ '' '' @ trim line) b2)"
  by pat_completeness auto
termination
proof (relation "measure (\<lambda>(buf, b). pending b)")
  fix buf b n b1 x b2 line
  assume a: "(n, b1) = skipSpace 0 b" "n \<noteq> 0" "(x, b2) = ReadLine_tp b1"
  show "((buf @ '' '' @ trim line, b2), buf, b) \<in> measure (\<lambda>(buf, b). pending b)"
    using skipSpace_pending [OF a(1) [symmetric]] readLineSlice_pending [OF a(3) [symmetric]] a(2) by simp
qed simp

declare continuations.simps [simp del]

definition starts_field :: "bytes \<Rightarrow> bool" where
  "starts_field buffered \<longleftrightarrow> 1 < length buffered \<and>
     (isASCIILetter (buffered ! 0) \<or> buffered ! 0 = CHR 0x0A \<or> buffered ! 0 = CHR 0x0D \<and> buffered ! 1 = CHR 0x0A)"

definition readContinuedLineSlice :: "bufio \<Rightarrow> (tp_error + bytes) \<times> bufio" where
  "readContinuedLineSlice b =
     (case ReadLine_tp b of
        (Inl e, b1) \<Rightarrow> (Inl e, b1)
      | (Inr line, b1) \<Rightarrow>
          if line = [] then (Inr [], b1)
          else if CHR '':'' \<notin> set line then (Inl (ProtocolError (''malformed MIME header: missing colon: '' @ line)), b1)
          else
            if starts_field (bf_buf b1) then (Inr (trim line), b1)
            else case continuations (trim line) b1 of (l, b2) \<Rightarrow> (Inr l, b2))"

text \<open>A header name; one with a space is accepted as it stands.\<close>

definition canonicalMIMEHeaderKey :: "bytes \<Rightarrow> bytes option" where
  "canonicalMIMEHeaderKey k =
     (if k = [] \<or> \<not> list_all (\<lambda>c. validHeaderFieldByte c \<or> c = CHR '' '') k then None
      else if CHR '' '' \<in> set k then Some k
      else Some (canon_from True k))"

definition validHeaderValueByte :: "byte \<Rightarrow> bool" where
  "validHeaderValueByte c \<longleftrightarrow> (32 \<le> byte_val c \<and> byte_val c \<noteq> 127) \<or> byte_val c = 9"

text \<open>One header line as a key and a value.\<close>

definition header_field :: "bytes \<Rightarrow> (bytes \<times> bytes) option" where
  "header_field kv =
     (case IndexByte kv (CHR '':'') of
        None \<Rightarrow> None
      | Some i \<Rightarrow>
          (case canonicalMIMEHeaderKey (take i kv) of
             None \<Rightarrow> None
           | Some key \<Rightarrow>
               let v = drop (Suc i) kv in
               if list_all validHeaderValueByte v then Some (key, dropWhile blank v) else None))"

definition add_value :: "bytes \<times> bytes \<Rightarrow> Header \<Rightarrow> Header" where
  "add_value kv m = AList.update (fst kv) ((case map_of m (fst kv) of None \<Rightarrow> [] | Some vs \<Rightarrow> vs) @ [snd kv]) m"

lemma continuations_pending: "continuations buf b = (l, b') \<Longrightarrow> pending b' \<le> pending b"
proof (induction buf b rule: continuations.induct)
  case (1 buf b)
  obtain n b1 where s: "skipSpace 0 b = (n, b1)" by fastforce
  obtain x b2 where r: "ReadLine_tp b1 = (x, b2)" by fastforce
  have p: "pending b1 \<le> pending b" "pending b2 \<le> pending b1"
    using skipSpace_pending [OF s] readLineSlice_pending [OF r] by simp_all
  show ?case
  proof (cases "n = 0 \<or> (\<exists>e. x = Inl e)")
    case True
    then show ?thesis using 1(2) s r p by (auto simp: continuations.simps [of buf b] split: if_splits)
  next
    case False
    then obtain line where x: "x = Inr line" by (cases x) auto
    then have "continuations (buf @ '' '' @ trim line) b2 = (l, b')" using 1(2) s r False by (simp add: continuations.simps [of buf b])
    then show ?thesis using 1(1) [OF s [symmetric] _ r [symmetric] x] False p by simp
  qed
qed

lemma readContinued_pending:
  assumes "readContinuedLineSlice b = (Inr kv, b')" "kv \<noteq> []"
  shows "pending b' < pending b"
proof -
  obtain r b1 where r: "ReadLine_tp b = (r, b1)" by fastforce
  obtain line where l: "r = Inr line" "line \<noteq> []"
    using assms r by (cases r) (auto simp: readContinuedLineSlice_def Let_def split: if_splits)
  have "pending b1 + length line \<le> pending b" using readLineSlice_pending [OF r] l by simp
  then have p: "pending b1 < pending b" using l(2) by (cases line) auto
  obtain l2 b2 where c: "continuations (trim line) b1 = (l2, b2)" by fastforce
  have "b' = b1 \<or> b' = b2"
    using assms(1) r l c by (auto simp: readContinuedLineSlice_def Let_def split: if_splits)
  then show ?thesis using p continuations_pending [OF c] by auto
qed

function read_fields :: "Header \<Rightarrow> bufio \<Rightarrow> (tp_error + Header) \<times> bufio" where
  "read_fields m b =
     (case readContinuedLineSlice b of
        (Inl e, b1) \<Rightarrow> (Inl e, b1)
      | (Inr kv, b1) \<Rightarrow>
          if kv = [] then (Inr m, b1)
          else case header_field kv of
            None \<Rightarrow> (Inl (ProtocolError (''malformed MIME header line: '' @ kv)), b1)
          | Some f \<Rightarrow> read_fields (add_value f m) b1)"
  by pat_completeness auto
termination
proof (relation "measure (\<lambda>(m, b). pending b)")
  fix m b x b1 kv f
  assume "(x, b1) = readContinuedLineSlice b" "x = Inr kv" "kv \<noteq> []"
  then show "((add_value f m, b1), m, b) \<in> measure (\<lambda>(m, b). pending b)"
    using readContinued_pending [of b kv b1] by simp
qed simp

declare read_fields.simps [simp del]

text \<open>The first \<open>Peek\<close> is that of \<open>upcomingHeaderKeys\<close>, which sizes the map.\<close>

definition ReadMIMEHeader :: "bufio \<Rightarrow> (tp_error + Header) \<times> bufio" where
  "ReadMIMEHeader b =
     (case Peek 1 (snd (Peek 1 b)) of (buf, b1) \<Rightarrow>
        if buf \<noteq> [] \<and> blank (hd buf) then
          case readLineSlice 80 [] b1 of
            (Inl e, b2) \<Rightarrow> (Inl e, b2)
          | (Inr line, b2) \<Rightarrow> (Inl (ProtocolError (''malformed MIME header initial line: '' @ line)), b2)
        else read_fields [] b1)"

section \<open>The same on the byte stream\<close>

definition line_of :: "bytes \<Rightarrow> (bytes \<times> bytes) option" where
  "line_of t = (case IndexByte t (CHR 0x0A) of None \<Rightarrow> None | Some i \<Rightarrow> Some (strip_cr (take i t), drop (Suc i) t))"

lemma line_of_None: "line_of t = None \<longleftrightarrow> CHR 0x0A \<notin> set t"
  unfolding line_of_def IndexByte_None [symmetric] by (simp split: option.split del: IndexByte_None)

lemma line_of_line: "CHR 0x0A \<notin> set y \<Longrightarrow> line_of (y @ CHR 0x0A # rest) = Some (strip_cr y, rest)"
  by (simp add: line_of_def IndexByte_append)

lemma line_of_Some:
  assumes "line_of t = Some (x, rest)"
  obtains y where "t = y @ CHR 0x0A # rest" "CHR 0x0A \<notin> set y" "x = strip_cr y"
proof -
  obtain i where i: "IndexByte t (CHR 0x0A) = Some i" "x = strip_cr (take i t)" "rest = drop (Suc i) t"
    using assms by (auto simp: line_of_def split: option.splits)
  have "t = take i t @ CHR 0x0A # rest" using IndexByte_Some [OF i(1)] id_take_nth_drop [of i t] i(3) by simp
  then show ?thesis using that IndexByte_Some(3) [OF i(1)] i(2) by blast
qed

lemma line_of_length: "line_of t = Some (x, rest) \<Longrightarrow> length rest < length t"
  by (elim line_of_Some) simp

function cont_of :: "bytes \<Rightarrow> bytes \<Rightarrow> (bytes \<times> bytes) option" where
  "cont_of buf t =
     (if t = [] \<or> \<not> blank (hd t) then Some (buf, t)
      else case line_of (dropWhile blank t) of
        None \<Rightarrow> None
      | Some (line, rest) \<Rightarrow> cont_of (buf @ '' '' @ trim line) rest)"
  by pat_completeness auto
termination
proof (relation "measure (\<lambda>(buf, t). length t)")
  fix buf t x line rest
  assume "line_of (dropWhile blank t) = Some x" "(line, rest) = x"
  then have "length rest < length (dropWhile blank t)" using line_of_length [of "dropWhile blank t" line rest] by simp
  then show "((buf @ '' '' @ trim line, rest), buf, t) \<in> measure (\<lambda>(buf, t). length t)"
    using length_dropWhile_le [of blank t] by (simp del: length_dropWhile_le)
qed simp

declare cont_of.simps [simp del]

lemma cont_of_length: "cont_of buf t = Some (l, rest) \<Longrightarrow> length rest \<le> length t"
proof (induction buf t rule: cont_of.induct)
  case (1 buf t)
  show ?case
  proof (cases "t = [] \<or> \<not> blank (hd t)")
    case True
    then show ?thesis using 1(2) by (simp add: cont_of.simps [of buf t])
  next
    case False
    then obtain line r where r: "line_of (dropWhile blank t) = Some (line, r)" "cont_of (buf @ '' '' @ trim line) r = Some (l, rest)"
      using 1(2) by (auto simp: cont_of.simps [of buf t] split: option.splits)
    then show ?thesis using 1(1) [OF False r(1) refl r(2)] line_of_length [OF r(1)] length_dropWhile_le [of blank t] by linarith
  qed
qed

function fields_of :: "Header \<Rightarrow> bytes \<Rightarrow> Header option" where
  "fields_of m t =
     (case line_of t of
        None \<Rightarrow> None
      | Some (line, rest) \<Rightarrow>
          if line = [] then Some m
          else if CHR '':'' \<notin> set line then None
          else case cont_of (trim line) rest of
            None \<Rightarrow> None
          | Some (kv, rest') \<Rightarrow>
              (case header_field kv of None \<Rightarrow> None | Some f \<Rightarrow> fields_of (add_value f m) rest'))"
  by pat_completeness auto
termination
proof (relation "measure (\<lambda>(m, t). length t)")
  fix m t x line rest y kv rest' f
  assume "line_of t = Some x" "(line, rest) = x" "cont_of (trim line) rest = Some y" "(kv, rest') = y"
  then show "((add_value f m, rest'), m, t) \<in> measure (\<lambda>(m, t). length t)"
    using line_of_length [of t line rest] cont_of_length [of "trim line" rest kv rest'] by simp
qed simp

declare fields_of.simps [simp del]

definition header_of :: "bytes \<Rightarrow> Header option" where
  "header_of t = (if t \<noteq> [] \<and> blank (hd t) then None else fields_of [] t)"

section \<open>Agreement\<close>

text \<open>A limited reader has read what its limit was lowered by.\<close>

definition allowance :: "bufio \<Rightarrow> nat option" where
  "allowance b = map_option (\<lambda>n. n + length (bf_tee b)) (bf_limit b)"

lemma fill_allowance: "allowance (fill b) = allowance b"
  unfolding fill_def allowance_def Let_def
  by (auto split: option.splits dest!: read_chunk_Some)

lemma ReadSlice_allowance: "ReadSlice d b = (line, err, b') \<Longrightarrow> allowance b' = allowance b"
proof (induction d b rule: ReadSlice.induct)
  case (1 d b)
  then show ?case
    by (cases "IndexByte (bf_buf b) d") (auto simp: ReadSlice.simps [of d b] fill_allowance split: if_splits, auto simp: allowance_def)
qed

text \<open>What every operation keeps: the invariant, the sizes, the final error, the allowance, and the bytes of the connection.\<close>

definition same_reader :: "bufio \<Rightarrow> bufio \<Rightarrow> bool" where
  "same_reader b b' \<longleftrightarrow> bufio_inv b' \<and> bf_size b' = bf_size b \<and> end_err b' = end_err b \<and> allowance b' = allowance b \<and>
     bf_tee b' @ concat (bf_src b') = bf_tee b @ concat (bf_src b)"

lemma same_reader_trans: "same_reader a b \<Longrightarrow> same_reader b c \<Longrightarrow> same_reader a c"
  by (simp add: same_reader_def)

lemma same_reader_refl: "bufio_inv b \<Longrightarrow> same_reader b b"
  by (simp add: same_reader_def)

lemma fill_same: "bufio_inv b \<Longrightarrow> length (bf_buf b) < bf_size b \<Longrightarrow> bf_err b = None \<Longrightarrow> same_reader b (fill b) \<and> stream (fill b) = stream b"
  using fill_facts [of b] by (simp add: same_reader_def fill_allowance)

lemma ReadSlice_same: "bufio_inv b \<Longrightarrow> ReadSlice d b = (line, err, b') \<Longrightarrow> same_reader b b'"
  using ReadSlice_stream [of b d line err b'] ReadSlice_allowance [of d b line err b'] by (simp add: same_reader_def)

lemma bufio_inv_end: "bufio_inv b \<Longrightarrow> end_err b \<noteq> ErrBufferFull"
  by (auto simp: bufio_inv_def end_err_def split: option.splits)

lemma ReadByte_stream:
  assumes "bufio_inv b" "ReadByte b = (r, b')"
  shows "same_reader b b' \<and>
     (case r of
        Inl e \<Rightarrow> stream b = [] \<and> stream b' = []
      | Inr c \<Rightarrow> stream b = c # stream b' \<and> same_reader b (UnreadByte c b') \<and> stream (UnreadByte c b') = stream b)"
  using assms
proof (induction b rule: ReadByte.induct)
  case (1 b)
  have sz: "bf_size b \<noteq> 0" using 1(2) by (simp add: bufio_inv_def)
  show ?case
  proof (cases "bf_buf b")
    case (Cons c cs)
    then have "r = Inr c" "b' = b\<lparr>bf_buf := cs\<rparr>" using 1(3) by (simp_all add: ReadByte.simps [of b])
    then show ?thesis using 1(2) Cons by (auto simp: same_reader_def bufio_inv_def stream_def UnreadByte_def allowance_def)
  next
    case Nil
    show ?thesis
    proof (cases "bf_err b")
      case None
      have f: "same_reader b (fill b)" "stream (fill b) = stream b" using fill_same [OF 1(2)] Nil None sz by simp_all
      have "ReadByte (fill b) = (r, b')" using 1(3) Nil None sz by (simp add: ReadByte.simps [of b])
      from 1(1) [OF Nil None sz _ this] f show ?thesis
        by (auto simp: same_reader_def split: sum.splits)
    next
      case (Some e)
      then have "r = Inl e" "b' = b\<lparr>bf_err := None\<rparr>" using 1(3) Nil by (simp_all add: ReadByte.simps [of b])
      then show ?thesis using 1(2) Nil Some by (auto simp: same_reader_def bufio_inv_def stream_def allowance_def)
    qed
  qed
qed

lemma skipSpace_stream:
  assumes "bufio_inv b" "skipSpace n b = (m, b')"
  shows "same_reader b b' \<and> m = n + length (takeWhile blank (stream b)) \<and> stream b' = dropWhile blank (stream b)"
  using assms
proof (induction n b rule: skipSpace.induct)
  case (1 n b)
  obtain r b1 where r: "ReadByte b = (r, b1)" by fastforce
  note s = ReadByte_stream [OF 1(2) r]
  show ?case
  proof (cases r)
    case (Inl e)
    then show ?thesis using 1(3) s r by (simp add: skipSpace.simps [of n b])
  next
    case (Inr c)
    show ?thesis
    proof (cases "blank c")
      case True
      then have "skipSpace (Suc n) b1 = (m, b')" using 1(3) r Inr by (simp add: skipSpace.simps [of n b])
      from 1(1) [OF r [symmetric] Inr True _ this] s Inr True show ?thesis
        using same_reader_trans by (auto simp: same_reader_def)
    next
      case False
      then have "m = n" "b' = UnreadByte c b1" using 1(3) r Inr by (auto simp: skipSpace.simps [of n b])
      then show ?thesis using s Inr False by auto
    qed
  qed
qed

lemma Peek_stream:
  assumes "bufio_inv b" "Peek n b = (buf, b')"
  shows "same_reader b b' \<and> stream b' = stream b \<and> (n \<le> bf_size b \<longrightarrow> buf = take n (stream b))"
  using assms
proof (induction n b rule: Peek.induct)
  case (1 n b)
  consider (more) "length (bf_buf b) < n \<and> length (bf_buf b) < bf_size b \<and> bf_err b = None"
    | (short) "length (bf_buf b) < n" "bf_size b \<le> length (bf_buf b) \<or> bf_err b \<noteq> None"
    | (enough) "n \<le> length (bf_buf b)"
    by fastforce
  then show ?case
  proof cases
    case more
    then have p: "Peek n (fill b) = (buf, b')" using 1(3) by (simp add: Peek.simps [of n b])
    have f: "same_reader b (fill b)" "stream (fill b) = stream b" using fill_same [OF 1(2)] more by simp_all
    then show ?thesis using 1(1) [OF more _ p] by (auto simp: same_reader_def)
  next
    case short
    then have "buf = bf_buf b" "b' = b\<lparr>bf_err := None\<rparr>" using 1(3) by (auto simp: Peek.simps [of n b])
    then show ?thesis using 1(2) short by (auto simp: same_reader_def bufio_inv_def stream_def allowance_def)
  next
    case enough
    then have "buf = take n (bf_buf b)" "b' = b" using 1(3) by (auto simp: Peek.simps [of n b])
    then show ?thesis using 1(2) enough by (simp add: same_reader_refl stream_def)
  qed
qed

lemma last_snoc_newline: "line = body @ [d] \<Longrightarrow> line \<noteq> [] \<and> last line = d \<and> butlast line = body"
  by simp

lemma UnreadByte_same:
  assumes "bufio_inv b" "bf_buf b = []" "bf_err b = None" "1 \<le> bf_size b"
  shows "same_reader b (UnreadByte c b)" "stream (UnreadByte c b) = c # stream b"
  using assms by (simp_all add: same_reader_def bufio_inv_def stream_def UnreadByte_def allowance_def)

lemma ReadSlice_full:
  "ReadSlice d b = (line, Some ErrBufferFull, b') \<Longrightarrow> bufio_inv b \<Longrightarrow> bf_buf b' = [] \<and> bf_err b' = None"
proof (induction d b rule: ReadSlice.induct)
  case (1 d b)
  show ?case
  proof (cases "IndexByte (bf_buf b) d")
    case (Some i)
    then show ?thesis using 1(2) by (simp add: ReadSlice.simps [of d b])
  next
    case None
    consider (err) "bf_err b \<noteq> None" | (full) "bf_err b = None" "bf_size b \<le> length (bf_buf b)"
      | (more) "bf_err b = None" "\<not> bf_size b \<le> length (bf_buf b)" by blast
    then show ?thesis
    proof cases
      case err
      then have "bf_err b = Some ErrBufferFull" using 1(2) None by (simp add: ReadSlice.simps [of d b])
      then show ?thesis using 1(3) bufio_inv_end [OF 1(3)] by (simp add: bufio_inv_def)
    next
      case full
      then show ?thesis using 1(2) None by (auto simp: ReadSlice.simps [of d b])
    next
      case more
      then have "ReadSlice d (fill b) = (line, Some ErrBufferFull, b')" using 1(2) None by (simp add: ReadSlice.simps [of d b])
      then show ?thesis using 1(1) [OF None] more fill_facts(1) [OF 1(3)] by simp
    qed
  qed
qed

text \<open>One call of \<open>ReadLine\<close>: the end of the stream, a full buffer of a longer line, or a line.\<close>

lemma ReadLine_stream:
  assumes "bufio_inv b" "2 \<le> bf_size b" "ReadLine b = (r, b')"
  shows "same_reader b b' \<and>
     (case r of
        Inl e \<Rightarrow> stream b = [] \<and> stream b' = []
      | Inr (l, part) \<Rightarrow>
          if part
          then l \<noteq> [] \<and> CHR 0x0A \<notin> set l \<and> stream b = l @ stream b' \<and>
            (last l \<noteq> CHR 0x0D \<or> (\<exists>t. stream b' = CHR 0x0D # t))
          else line_of (stream b) = Some (l, stream b') \<or>
            CHR 0x0A \<notin> set (stream b) \<and> stream b' = [] \<and> l = stream b \<and> l \<noteq> [])"
proof -
  obtain line err b1 where s: "ReadSlice (CHR 0x0A) b = (line, err, b1)" by (metis prod_cases3)
  note same = ReadSlice_same [OF assms(1) s]
  have cut: "cut_line (CHR 0x0A) (bf_size b) (end_err b) (stream b) = (line, err, stream b1)"
    using ReadSlice_stream [OF assms(1) s] by simp
  have "0 < bf_size b" using assms(2) by simp
  from cut this bufio_inv_end [OF assms(1)] show ?thesis
  proof (cases rule: cut_line_cases)
    case (line body)
    have l: "line_of (stream b) = Some (strip_cr body, stream b1)"
      using line line_of_line [of body "stream b1"] by simp
    have "1 < length line \<and> last (butlast line) = CHR 0x0D \<longleftrightarrow> body \<noteq> [] \<and> last body = CHR 0x0D"
      using line(1) by (cases body) simp_all
    then have "r = Inr (strip_cr body, False)" "b' = b1"
      using assms(3) s line(1,3) by (auto simp: ReadLine_def strip_cr_def split: if_splits)
    then show ?thesis using same l by simp
  next
    case full
    have full_buf: "bf_buf b1 = []" "bf_err b1 = None" using ReadSlice_full [OF _ assms(1)] s full(1) by blast+
    have ne: "line \<noteq> []" using full(3) assms(2) by auto
    show ?thesis
    proof (cases "last line = CHR 0x0D")
      case True
      have r: "r = Inr (butlast line, True)" "b' = UnreadByte (CHR 0x0D) b1"
        using assms(3) s full(1) ne True by (auto simp: ReadLine_def)
      have b1: "bufio_inv b1" "bf_size b1 = bf_size b" using same by (simp_all add: same_reader_def)
      have "same_reader b b'" "stream b' = CHR 0x0D # stream b1"
        using UnreadByte_same [OF b1(1) full_buf] b1(2) assms(2) same same_reader_trans unfolding r(2) by auto
      moreover obtain body where body: "line = body @ [CHR 0x0D]" using ne True by (metis append_butlast_last_id)
      moreover have "body \<noteq> []" using full(3) body assms(2) by auto
      moreover have "stream b = body @ CHR 0x0D # stream b1" "CHR 0x0A \<notin> set body" using full(2,4) body by simp_all
      ultimately show ?thesis using r(1) by simp
    next
      case False
      have r: "r = Inr (line, True)" "b' = b1" using assms(3) s full(1) ne False by (auto simp: ReadLine_def)
      then show ?thesis using same full(2,4) ne False by auto
    qed
  next
    case eof
    have "r = (if line = [] then Inl (the err) else Inr (line, False))" "b' = b1"
    proof -
      have "err \<noteq> Some ErrBufferFull" using eof(1) bufio_inv_end [OF assms(1)] by simp
      moreover have "line \<noteq> [] \<Longrightarrow> last line \<noteq> CHR 0x0A" using eof(2,4) last_in_set by metis
      ultimately show "r = (if line = [] then Inl (the err) else Inr (line, False))" "b' = b1"
        using assms(3) s by (auto simp: ReadLine_def Let_def split: if_splits)
    qed
    then show ?thesis using same eof by simp
  qed
qed

lemma line_of_append:
  assumes "CHR 0x0A \<notin> set l" "l \<noteq> []" "last l \<noteq> CHR 0x0D \<or> (\<exists>u. t = CHR 0x0D # u)" "line_of t = Some (x, rest)"
  shows "line_of (l @ t) = Some (l @ x, rest)"
proof -
  obtain y where y: "t = y @ CHR 0x0A # rest" "CHR 0x0A \<notin> set y" "x = strip_cr y" using line_of_Some [OF assms(4)] .
  have "last l \<noteq> CHR 0x0D \<or> y \<noteq> []" using assms(3) y(1) by (cases y) auto
  then have "strip_cr (l @ y) = l @ strip_cr y" using assms(2) by (auto simp: strip_cr_def butlast_append)
  then show ?thesis using line_of_line [of "l @ y" rest] assms(1) y by simp
qed

text \<open>\<open>readLineSlice\<close> without a limit returns the next line; if there is none it uses up the stream.\<close>

lemma readLineSlice_stream:
  assumes "bufio_inv b" "2 \<le> bf_size b" "readLineSlice lim acc b = (r, b')" "lim = - 1"
  shows "same_reader b b' \<and>
     (case line_of (stream b) of
        Some (x, rest) \<Rightarrow> r = Inr (acc @ x) \<and> stream b' = rest
      | None \<Rightarrow> stream b' = [] \<and> (case r of Inl _ \<Rightarrow> True | Inr l \<Rightarrow> l = acc @ stream b \<and> stream b \<noteq> []))"
  using assms
proof (induction lim acc b rule: readLineSlice.induct)
  case (1 lim acc b)
  obtain x b1 where x: "ReadLine b = (x, b1)" by fastforce
  note s = ReadLine_stream [OF 1(2,3) x]
  show ?case
  proof (cases x)
    case (Inl e)
    then have "r = Inl (IOError e)" "b' = b1" using 1(4) x by (simp_all add: readLineSlice.simps [of lim acc b])
    then show ?thesis using s Inl by (auto simp: line_of_def)
  next
    case (Inr lp)
    obtain l p where lp: "lp = (l, p)" by fastforce
    have lim: "\<not> (0 \<le> lim \<and> lim < int (length acc + length l))" using 1(5) by simp
    have b1: "bufio_inv b1" "2 \<le> bf_size b1" using s 1(3) by (simp_all add: same_reader_def)
    show ?thesis
    proof (cases p)
      case True
      have t: "l \<noteq> []" "CHR 0x0A \<notin> set l" "stream b = l @ stream b1" "last l \<noteq> CHR 0x0D \<or> (\<exists>t. stream b1 = CHR 0x0D # t)"
          "same_reader b b1"
        using s Inr lp True by simp_all
      have rec: "readLineSlice lim (acc @ l) b1 = (r, b')"
        using 1(4,5) x Inr lp True t(1) by (simp add: readLineSlice.simps [of "- 1" acc b])
      have ih: "same_reader b1 b' \<and>
         (case line_of (stream b1) of
            Some (x, rest) \<Rightarrow> r = Inr ((acc @ l) @ x) \<and> stream b' = rest
          | None \<Rightarrow> stream b' = [] \<and> (case r of Inl _ \<Rightarrow> True | Inr l2 \<Rightarrow> l2 = (acc @ l) @ stream b1 \<and> stream b1 \<noteq> []))"
        using 1(1) [OF x [symmetric] Inr lp [symmetric] lim _ b1 rec 1(5)] True t(1) by simp
      show ?thesis
      proof (cases "line_of (stream b1)")
        case None
        then have "line_of (stream b) = None" using t(2,3) by (simp add: line_of_None)
        then show ?thesis using ih None t(1,3) same_reader_trans [OF t(5)] by (auto split: sum.splits)
      next
        case (Some y)
        obtain z rest where z: "y = (z, rest)" by fastforce
        have "line_of (stream b) = Some (l @ z, rest)" using line_of_append [OF t(2,1,4)] Some z t(3) by simp
        then show ?thesis using ih Some z same_reader_trans [OF t(5)] by simp
      qed
    next
      case False
      then have "r = Inr (acc @ l)" "b' = b1" using 1(4,5) x Inr lp False by (auto simp: readLineSlice.simps [of "- 1" acc b])
      then show ?thesis using s Inr lp False line_of_None [of "stream b"] by (auto split: option.splits)
    qed
  qed
qed

lemma readLineSlice_same:
  assumes "bufio_inv b" "2 \<le> bf_size b" "readLineSlice lim acc b = (r, b')"
  shows "same_reader b b'"
  using assms
proof (induction lim acc b rule: readLineSlice.induct)
  case (1 lim acc b)
  obtain x b1 where x: "ReadLine b = (x, b1)" by fastforce
  have s: "same_reader b b1" using ReadLine_stream [OF 1(2,3) x] by simp
  then have b1: "bufio_inv b1" "2 \<le> bf_size b1" using 1(3) by (simp_all add: same_reader_def)
  show ?case
  proof (cases "\<exists>l. x = Inr (l, True) \<and> \<not> (0 \<le> lim \<and> lim < int (length acc + length l)) \<and> l \<noteq> []")
    case True
    then obtain l where l: "x = Inr (l, True)" "\<not> (0 \<le> lim \<and> lim < int (length acc + length l))" "l \<noteq> []" by blast
    then have "readLineSlice lim (acc @ l) b1 = (r, b')"
      using 1(4) x by (auto simp: readLineSlice.simps [of lim acc b] split: if_splits)
    from 1(1) [OF x [symmetric] l(1) refl l(2) _ b1 this] l(3) s show ?thesis using same_reader_trans by blast
  next
    case False
    then have "b' = b1" using 1(4) x by (cases x) (auto simp: readLineSlice.simps [of lim acc b] split: if_splits prod.splits)
    then show ?thesis using s by simp
  qed
qed

lemma ReadLine_tp_line:
  assumes "bufio_inv b" "2 \<le> bf_size b" "line_of (stream b) = Some (x, rest)" "ReadLine_tp b = (r, b')"
  shows "same_reader b b' \<and> r = Inr x \<and> stream b' = rest"
  using readLineSlice_stream [OF assms(1,2,4)] assms(3) by simp

lemma ReadLine_tp_end:
  assumes "bufio_inv b" "2 \<le> bf_size b" "line_of (stream b) = None" "ReadLine_tp b = (r, b')"
  shows "same_reader b b' \<and> stream b' = [] \<and> (case r of Inl _ \<Rightarrow> True | Inr l \<Rightarrow> l \<noteq> [] \<and> stream b \<noteq> [])"
  using readLineSlice_stream [OF assms(1,2,4)] assms(3) by (auto split: sum.splits)

lemma continuations_stream:
  assumes "bufio_inv b" "2 \<le> bf_size b" "continuations buf b = (l, b')"
  shows "same_reader b b' \<and>
     (case cont_of buf (stream b) of Some (kv, rest) \<Rightarrow> l = kv \<and> stream b' = rest | None \<Rightarrow> stream b' = [])"
  using assms
proof (induction buf b rule: continuations.induct)
  case (1 buf b)
  obtain n b1 where s: "skipSpace 0 b = (n, b1)" by fastforce
  note sk = skipSpace_stream [OF 1(2) s]
  have n: "n = 0 \<longleftrightarrow> stream b = [] \<or> \<not> blank (hd (stream b))" using sk by (cases "stream b") auto
  show ?case
  proof (cases "n = 0")
    case True
    then have "l = buf" "b' = b1" using 1(4) s by (auto simp: continuations.simps [of buf b])
    moreover have "stream b1 = stream b" using sk n True by (cases "stream b") auto
    ultimately show ?thesis using sk n True by (simp add: cont_of.simps [of buf "stream b"])
  next
    case False
    obtain x b2 where r: "ReadLine_tp b1 = (x, b2)" by fastforce
    have b1: "bufio_inv b1" "2 \<le> bf_size b1" "same_reader b b1" "stream b1 = dropWhile blank (stream b)"
      using sk 1(3) by (simp_all add: same_reader_def)
    note e = readLineSlice_stream [OF b1(1,2) r refl]
    have b2: "bufio_inv b2" "2 \<le> bf_size b2" "same_reader b b2"
      using e b1 same_reader_trans by (auto simp: same_reader_def)
    have c: "cont_of buf (stream b) = (case line_of (stream b1) of None \<Rightarrow> None | Some (line, rest) \<Rightarrow> cont_of (buf @ '' '' @ trim line) rest)"
      using False n b1(4) by (simp add: cont_of.simps [of buf "stream b"])
    show ?thesis
    proof (cases x)
      case (Inl y)
      then have "b' = b2" using 1(4) s r False by (simp add: continuations.simps [of buf b])
      then show ?thesis using e c Inl b2(3) by (auto split: option.splits)
    next
      case (Inr line)
      then have rec: "continuations (buf @ '' '' @ trim line) b2 = (l, b')"
        using 1(4) s r False by (simp add: continuations.simps [of buf b])
      note ih = 1(1) [OF s [symmetric] False r [symmetric] Inr b2(1,2) rec]
      show ?thesis
      proof (cases "line_of (stream b1)")
        case None
        then have "stream b2 = []" using e by simp
        then have "stream b' = []" using ih by (simp add: cont_of.simps)
        then show ?thesis using ih c None same_reader_trans [OF b2(3)] by simp
      next
        case (Some y)
        then show ?thesis using ih c e Inr same_reader_trans [OF b2(3)] by (auto split: prod.splits option.splits)
      qed
    qed
  qed
qed

text \<open>The look at the buffered bytes never changes the outcome.\<close>

lemma cont_of_direct:
  assumes "starts_field buffered"
  shows "cont_of buf (buffered @ t) = Some (buf, buffered @ t)"
proof -
  have "\<not> blank (buffered ! 0)"
    using assms by (auto simp: starts_field_def isASCIILetter_def lower_byte_def)
  then show ?thesis using assms by (cases buffered) (simp_all add: cont_of.simps starts_field_def)
qed

lemma continuations_nonempty: "continuations buf b = (l, b') \<Longrightarrow> buf \<noteq> [] \<Longrightarrow> l \<noteq> []"
proof (induction buf b rule: continuations.induct)
  case (1 buf b)
  obtain n b1 where s: "skipSpace 0 b = (n, b1)" by fastforce
  obtain x b2 where r: "ReadLine_tp b1 = (x, b2)" by fastforce
  show ?case
  proof (cases "n = 0 \<or> (\<exists>e. x = Inl e)")
    case True
    then show ?thesis using 1(2,3) s r by (auto simp: continuations.simps [of buf b] split: if_splits)
  next
    case False
    then obtain line where x: "x = Inr line" by (cases x) auto
    then have "continuations (buf @ '' '' @ trim line) b2 = (l, b')" using 1(2) s r False by (simp add: continuations.simps [of buf b])
    then show ?thesis using 1(1) [OF s [symmetric] _ r [symmetric] x] False by simp
  qed
qed

lemma trim_nonempty:
  assumes "CHR '':'' \<in> set line"
  shows "trim line \<noteq> []"
proof -
  have "dropWhile blank line \<noteq> []"
    unfolding dropWhile_eq_Nil_conv using assms by (intro notI) (drule (1) bspec, simp)
  then have "\<not> blank (hd (dropWhile blank line))" "hd (dropWhile blank line) \<in> set (rev (dropWhile blank line))"
    using hd_dropWhile [of blank line] by simp_all
  then have "dropWhile blank (rev (dropWhile blank line)) \<noteq> []"
    unfolding dropWhile_eq_Nil_conv by blast
  then show ?thesis by (simp add: trim_def)
qed

lemma readContinued_stream:
  assumes "bufio_inv b" "2 \<le> bf_size b" "readContinuedLineSlice b = (r, b')"
  shows "same_reader b b' \<and>
     (case line_of (stream b) of
        None \<Rightarrow> stream b' = [] \<and> r \<noteq> Inr [] \<or> (\<exists>e. r = Inl e)
      | Some (line, rest) \<Rightarrow>
          if line = [] then r = Inr []
          else if CHR '':'' \<notin> set line then \<exists>e. r = Inl e
          else case cont_of (trim line) rest of
            None \<Rightarrow> stream b' = [] \<and> r \<noteq> Inr []
          | Some (kv, rest') \<Rightarrow> r = Inr kv \<and> kv \<noteq> [] \<and> stream b' = rest')"
proof -
  obtain x b1 where x: "ReadLine_tp b = (x, b1)" by fastforce
  note e = readLineSlice_stream [OF assms(1,2) x refl]
  have b1: "same_reader b b1" using e by simp
  then have i1: "bufio_inv b1" "2 \<le> bf_size b1" using assms(2) by (simp_all add: same_reader_def)
  show ?thesis
  proof (cases x)
    case (Inl er)
    then have "r = Inl er" "b' = b1" using assms(3) x by (simp_all add: readContinuedLineSlice_def)
    moreover have "line_of (stream b) = None" using e Inl by (cases "line_of (stream b)") auto
    ultimately show ?thesis using e by simp
  next
    case (Inr line)
    have rc: "readContinuedLineSlice b =
       (if line = [] then (Inr [], b1)
        else if CHR '':'' \<notin> set line then (Inl (ProtocolError (''malformed MIME header: missing colon: '' @ line)), b1)
        else if starts_field (bf_buf b1) then (Inr (trim line), b1)
        else (case continuations (trim line) b1 of (l, b2) \<Rightarrow> (Inr l, b2)))"
      unfolding readContinuedLineSlice_def x prod.case Inr sum.case Let_def ..
    have lo: "line_of (stream b) = None \<and> stream b1 = [] \<and> line \<noteq> [] \<or> line_of (stream b) = Some (line, stream b1)"
      using e Inr by (cases "line_of (stream b)") auto
    obtain l2 b2 where c: "continuations (trim line) b1 = (l2, b2)" by fastforce
    consider (empty) "line = []" | (bad) "line \<noteq> []" "CHR '':'' \<notin> set line"
      | (direct) "CHR '':'' \<in> set line" "b' = b1" "r = Inr (trim line)" "starts_field (bf_buf b1)"
      | (conts) l where "CHR '':'' \<in> set line" "continuations (trim line) b1 = (l, b')" "r = Inr l"
    proof (cases "line = [] \<or> CHR '':'' \<notin> set line")
      case True
      then show ?thesis using empty bad by blast
    next
      case False
      then show ?thesis using direct conts assms(3) c unfolding rc by (cases "starts_field (bf_buf b1)") simp_all
    qed
    then show ?thesis
    proof cases
      case empty
      then have "r = Inr []" "b' = b1" using assms(3) unfolding rc by simp_all
      then show ?thesis using lo b1 empty by auto
    next
      case bad
      then have "\<exists>er. r = Inl er" "b' = b1" using assms(3) unfolding rc by auto
      then show ?thesis using lo b1 bad by auto
    next
      case direct
      have c: "cont_of (trim line) (stream b1) = Some (trim line, stream b1)"
        unfolding stream_def by (rule cont_of_direct [OF direct(4)])
      have ne: "line \<noteq> []" using direct(1) by auto
      show ?thesis using lo b1 direct(1,2,3) c trim_nonempty [OF direct(1)] ne by auto
    next
      case (conts l)
      note cs = continuations_stream [OF i1 conts(2)]
      have ne: "line \<noteq> []" "l \<noteq> []" using conts(1) continuations_nonempty [OF conts(2) trim_nonempty] by auto
      have sr: "same_reader b b'" using cs same_reader_trans [OF b1] by simp
      show ?thesis
      proof (cases "line_of (stream b)")
        case None
        then have "stream b1 = []" using lo by simp
        then have "stream b' = []" using cs by (simp add: cont_of.simps)
        then show ?thesis using None conts(3) ne sr by simp
      next
        case (Some y)
        then have "line_of (stream b) = Some (line, stream b1)" using lo by simp
        then show ?thesis using conts(1,3) cs ne sr by (cases "cont_of (trim line) (stream b1)") auto
      qed
    qed
  qed
qed

lemma read_fields_empty:
  assumes "bufio_inv b" "2 \<le> bf_size b" "stream b = []" "read_fields m b = (r, b')"
  shows "same_reader b b' \<and> (\<exists>e. r = Inl e)"
proof -
  obtain x b1 where x: "ReadLine_tp b = (x, b1)" by fastforce
  have l: "line_of (stream b) = None" using assms(3) by (simp add: line_of_None)
  note e = ReadLine_tp_end [OF assms(1,2) l x]
  then obtain er where "x = Inl er" using assms(3) by (cases x) auto
  then have "readContinuedLineSlice b = (Inl er, b1)" using x by (simp add: readContinuedLineSlice_def)
  then show ?thesis using assms(4) e by (auto simp: read_fields.simps [of m b])
qed

lemma read_fields_stream:
  assumes "bufio_inv b" "2 \<le> bf_size b" "read_fields m b = (r, b')"
  shows "same_reader b b' \<and> (case fields_of m (stream b) of Some h \<Rightarrow> r = Inr h | None \<Rightarrow> \<exists>e. r = Inl e)"
  using assms
proof (induction m b rule: read_fields.induct)
  case (1 m b)
  obtain x b1 where x: "readContinuedLineSlice b = (x, b1)" by fastforce
  note s = readContinued_stream [OF 1(2,3) x]
  have b1: "same_reader b b1" "bufio_inv b1" "2 \<le> bf_size b1" using s 1(3) by (simp_all add: same_reader_def)
  have f: "fields_of m (stream b) =
     (case line_of (stream b) of
        None \<Rightarrow> None
      | Some (line, rest) \<Rightarrow>
          if line = [] then Some m
          else if CHR '':'' \<notin> set line then None
          else case cont_of (trim line) rest of
            None \<Rightarrow> None
          | Some (kv, rest') \<Rightarrow>
              (case header_field kv of None \<Rightarrow> None | Some f \<Rightarrow> fields_of (add_value f m) rest'))"
    by (rule fields_of.simps)
  show ?case
  proof (cases x)
    case (Inl e)
    then have "r = Inl e" "b' = b1" using 1(4) x by (simp_all add: read_fields.simps [of m b])
    then show ?thesis using s Inl f by (auto split: option.splits if_splits)
  next
    case (Inr kv)
    show ?thesis
    proof (cases "kv = []")
      case True
      then have "r = Inr m" "b' = b1" using 1(4) x Inr by (simp_all add: read_fields.simps [of m b])
      then show ?thesis using s Inr True f by (auto split: option.splits if_splits)
    next
      case False
      have step: "read_fields m b = (case header_field kv of None \<Rightarrow> (Inl (ProtocolError (''malformed MIME header line: '' @ kv)), b1)
          | Some g \<Rightarrow> read_fields (add_value g m) b1)"
        using x Inr False by (simp add: read_fields.simps [of m b])
      have drained: "same_reader b b' \<and> (\<exists>e. r = Inl e)" if "stream b1 = []"
      proof (cases "header_field kv")
        case None
        then show ?thesis using step 1(4) b1(1) by simp
      next
        case (Some g)
        then have "read_fields (add_value g m) b1 = (r, b')" using step 1(4) by simp
        from read_fields_empty [OF b1(2,3) that this] show ?thesis using same_reader_trans [OF b1(1)] by blast
      qed
      consider (none) "fields_of m (stream b) = None" "stream b1 = []"
        | (some) "fields_of m (stream b) = (case header_field kv of None \<Rightarrow> None | Some g \<Rightarrow> fields_of (add_value g m) (stream b1))"
        using s Inr False f by (auto split: option.splits if_splits)
      then show ?thesis
      proof cases
        case none
        then show ?thesis using drained by simp
      next
        case some
        show ?thesis
        proof (cases "header_field kv")
          case None
          then show ?thesis using step some 1(4) b1(1) by auto
        next
          case (Some g)
          have rec: "read_fields (add_value g m) b1 = (r, b')" using step 1(4) Some by simp
          from 1(1) [OF x [symmetric] Inr False Some b1(2,3) rec] show ?thesis
            using some Some same_reader_trans [OF b1(1)] by simp
        qed
      qed
    qed
  qed
qed

text \<open>\<open>ReadMIMEHeader\<close> succeeds exactly when the stream starts with a header block, with the same fields.\<close>

theorem ReadMIMEHeader_stream:
  assumes "bufio_inv b" "2 \<le> bf_size b" "ReadMIMEHeader b = (r, b')"
  shows "same_reader b b' \<and> (case header_of (stream b) of Some h \<Rightarrow> r = Inr h | None \<Rightarrow> \<exists>e. r = Inl e)"
proof -
  obtain buf0 b0 where p0: "Peek 1 b = (buf0, b0)" by fastforce
  note s0 = Peek_stream [OF assms(1) p0]
  have b0: "bufio_inv b0" "bf_size b0 = bf_size b" using s0 by (simp_all add: same_reader_def)
  obtain buf b1 where p1: "Peek 1 b0 = (buf, b1)" by fastforce
  note s1 = Peek_stream [OF b0(1) p1]
  have b1: "same_reader b b1" "bufio_inv b1" "2 \<le> bf_size b1" "stream b1 = stream b" "buf = take 1 (stream b)"
    using s0 s1 same_reader_trans [of b b0 b1] b0(2) assms(2) by (simp_all add: same_reader_def)
  show ?thesis
  proof (cases "stream b \<noteq> [] \<and> blank (hd (stream b))")
    case True
    obtain x b2 where x: "readLineSlice 80 [] b1 = (x, b2)" by fastforce
    have "same_reader b1 b2" using readLineSlice_same [OF b1(2,3) x] .
    moreover have "b' = b2" "\<exists>e. r = Inl e"
      using assms(3) p0 p1 x True b1(5) by (cases "stream b"; cases x; auto simp: ReadMIMEHeader_def)+
    ultimately show ?thesis using True same_reader_trans [OF b1(1)] by (simp add: header_of_def)
  next
    case False
    then have "read_fields [] b1 = (r, b')"
      using assms(3) p0 p1 b1(5) by (cases "stream b") (auto simp: ReadMIMEHeader_def)
    from read_fields_stream [OF b1(2,3) this] False b1(4) show ?thesis
      using same_reader_trans [OF b1(1)] by (auto simp: header_of_def)
  qed
qed

end
