(* ===== verification/HttpHost.thy ===== *)
theory HttpHost
  imports Go_Textproto
begin

text \<open>
  \<open>internal/inbound/httphost.go\<close>: the Host sniffer. The connection is the list of chunks it delivers and the error it
  ends with; what \<open>SniffHost\<close> read of it is what it returns for replay. The theorems: nothing is lost or read
  beyond the cap, the host depends on the first 8192 bytes only and not on how they arrive, and on a
  well-formed request it is the host name of the first Host field.
\<close>

section \<open>The sniffer\<close>

definition maxHTTPHeaderBytes :: nat where "maxHTTPHeaderBytes = 8 * 1024"

datatype host_error =
    HeadersExceed
  | HostReadError bytes tp_error
  | MalformedRequestLine bytes
  | BadHTTPVersion bytes
  | MissingHost
  | EmptyHost

definition wrapReadErr :: "bytes \<Rightarrow> tp_error \<Rightarrow> bufio \<Rightarrow> host_error" where
  "wrapReadErr opr err br = (if bf_limit br = Some 0 then HeadersExceed else HostReadError opr err)"

definition validateRequestLine :: "bytes \<Rightarrow> host_error + unit" where
  "validateRequestLine line =
     (case Split line (CHR '' '') of
        [p0, p1, p2] \<Rightarrow>
          if p0 = [] \<or> p1 = [] then Inl (MalformedRequestLine line)
          else if \<not> HasPrefix p2 ''HTTP/'' then Inl (BadHTTPVersion p2)
          else Inr ()
      | _ \<Rightarrow> Inl (MalformedRequestLine line))"

definition stripPort :: "bytes \<Rightarrow> bytes" where
  "stripPort host =
     (if HasPrefix host ''['' then
        (case IndexByte host (CHR '']'') of Some end \<Rightarrow> drop 1 (take end host) | None \<Rightarrow> host)
      else case LastIndexByte host (CHR '':'') of Some i \<Rightarrow> take i host | None \<Rightarrow> host)"

text \<open>\<open>textproto.MIMEHeader.Get\<close>: the first value.\<close>

definition Header_Get :: "Header \<Rightarrow> bytes \<Rightarrow> bytes" where
  "Header_Get h k = (case Header_Values h k of [] \<Rightarrow> [] | v # _ \<Rightarrow> v)"

text \<open>The reader on a limited, teed connection; \<open>bufio.NewReader\<close> has 4096 bytes.\<close>

definition host_reader :: "bytes list \<Rightarrow> read_error \<Rightarrow> bufio" where
  "host_reader chunks e = (NewReaderSize 4096 chunks e)\<lparr>bf_limit := Some maxHTTPHeaderBytes\<rparr>"

text \<open>The value of the Host header, once the block is read.\<close>

definition host_value :: "Header \<Rightarrow> host_error + bytes" where
  "host_value hdr =
     (let host = Header_Get hdr ''Host'' in
      if host = [] then Inl MissingHost
      else
        let host1 = stripPort (TrimSpace host) in
        if host1 = [] then Inl EmptyHost else Inr (ToLower host1))"

text \<open>The host or an error, the bytes for replay, and what the connection has left.\<close>

definition SniffHost :: "bytes list \<Rightarrow> read_error \<Rightarrow> (host_error + bytes) \<times> bytes \<times> bytes list" where
  "SniffHost chunks e =
     (let ret = \<lambda>r br. (r, bf_tee br, bf_src br) in
      case ReadLine_tp (host_reader chunks e) of
        (Inl err, br) \<Rightarrow> ret (Inl (wrapReadErr ''read request line'' err br)) br
      | (Inr requestLine, br) \<Rightarrow>
          (case validateRequestLine requestLine of
             Inl err \<Rightarrow> ret (Inl err) br
           | Inr _ \<Rightarrow>
               (case ReadMIMEHeader br of
                  (Inl err, br2) \<Rightarrow> ret (Inl (wrapReadErr ''read headers'' err br2)) br2
                | (Inr hdr, br2) \<Rightarrow> ret (host_value hdr) br2)))"

section \<open>What it reads\<close>

lemma host_reader_facts:
  assumes "e \<noteq> ErrBufferFull"
  shows "bufio_inv (host_reader chunks e)" "bf_size (host_reader chunks e) = 4096"
    "stream (host_reader chunks e) = take maxHTTPHeaderBytes (concat chunks)"
    "bf_tee (host_reader chunks e) @ concat (bf_src (host_reader chunks e)) = concat chunks"
    "allowance br = allowance (host_reader chunks e) \<Longrightarrow> length (bf_tee br) \<le> maxHTTPHeaderBytes"
  using assms
  by (auto simp: allowance_def host_reader_def NewReaderSize_def bufio_inv_def stream_def src_rest_def minReadBufferSize_def maxHTTPHeaderBytes_def)

text \<open>A request head on a byte string: what \<open>SniffHost\<close> finds there.\<close>

definition host_of :: "bytes \<Rightarrow> bytes option" where
  "host_of t =
     (case line_of t of
        None \<Rightarrow> None
      | Some (line, rest) \<Rightarrow>
          if is_ok (validateRequestLine line) then
            case header_of rest of
              None \<Rightarrow> None
            | Some hdr \<Rightarrow> (case host_value hdr of Inl _ \<Rightarrow> None | Inr h \<Rightarrow> Some h)
          else None)"

lemma validateRequestLine_Inr: "is_ok (validateRequestLine line) \<longleftrightarrow> validateRequestLine line = Inr ()"
  by (cases "validateRequestLine line") auto

lemma header_of_Nil: "header_of [] = None"
  by (simp add: header_of_def fields_of.simps line_of_None [THEN iffD2])

lemma SniffHost_stream:
  assumes "e \<noteq> ErrBufferFull" "SniffHost chunks e = (r, buffered, rest)"
  shows "buffered @ concat rest = concat chunks \<and> length buffered \<le> maxHTTPHeaderBytes \<and>
     (case host_of (take maxHTTPHeaderBytes (concat chunks)) of Some h \<Rightarrow> r = Inr h | None \<Rightarrow> \<exists>err. r = Inl err)"
proof -
  let ?b = "host_reader chunks e"
  note b = host_reader_facts [OF assms(1), where chunks = chunks]
  have sz: "2 \<le> bf_size ?b" using b(2) by simp
  obtain x br where x: "ReadLine_tp ?b = (x, br)" by fastforce
  note s = readLineSlice_stream [OF b(1) sz x refl]
  have br: "same_reader ?b br" "bufio_inv br" "2 \<le> bf_size br"
      "bf_tee br @ concat (bf_src br) = concat chunks \<and> length (bf_tee br) \<le> maxHTTPHeaderBytes"
    using s sz b(4) b(5) [of br] by (simp_all add: same_reader_def)
  show ?thesis
  proof (cases x)
    case (Inl err)
    then have "line_of (stream ?b) = None" using s by (cases "line_of (stream ?b)") auto
    then show ?thesis using assms(2) x Inl br(4) b(3) by (auto simp: SniffHost_def host_of_def)
  next
    case (Inr line)
    show ?thesis
    proof (cases "validateRequestLine line")
      case bad: (Inl err)
      then have "host_of (stream ?b) = None" using s Inr by (cases "line_of (stream ?b)") (auto simp: host_of_def)
      then show ?thesis using assms(2) x Inr bad br(4) b(3) by (auto simp: SniffHost_def)
    next
      case ok: (Inr u)
      obtain y br2 where y: "ReadMIMEHeader br = (y, br2)" by fastforce
      note m = ReadMIMEHeader_stream [OF br(2,3) y]
      have br2: "bf_tee br2 @ concat (bf_src br2) = concat chunks \<and> length (bf_tee br2) \<le> maxHTTPHeaderBytes"
        using m br(1,4) b(5) [of br2] by (simp add: same_reader_def)
      have h: "host_of (stream ?b) = (case header_of (stream br) of None \<Rightarrow> None
          | Some hdr \<Rightarrow> (case host_value hdr of Inl _ \<Rightarrow> None | Inr h \<Rightarrow> Some h))"
        using s Inr ok header_of_Nil by (cases "line_of (stream ?b)") (auto simp: host_of_def)
      have "r = (case y of Inl err \<Rightarrow> Inl (wrapReadErr ''read headers'' err br2) | Inr hdr \<Rightarrow> host_value hdr)"
          "buffered = bf_tee br2" "rest = bf_src br2"
        using assms(2) x Inr ok y by (auto simp: SniffHost_def Let_def split: sum.splits)
      then show ?thesis using m br2 h b(3) by (auto split: option.splits sum.splits)
    qed
  qed
qed

section \<open>Well-formed requests\<close>

definition CRLF :: bytes where "CRLF = [CHR 0x0D, CHR 0x0A]"

definition field_text :: "bytes \<times> bytes \<Rightarrow> bytes" where
  "field_text f = fst f @ '': '' @ snd f @ CRLF"

definition request_text :: "bytes \<Rightarrow> bytes \<Rightarrow> bytes \<Rightarrow> (bytes \<times> bytes) list \<Rightarrow> bytes" where
  "request_text meth target version hs =
     meth @ '' '' @ target @ '' '' @ version @ CRLF @ concat (map field_text hs) @ CRLF"

definition plain_word :: "bytes \<Rightarrow> bool" where
  "plain_word s \<longleftrightarrow> s \<noteq> [] \<and> set s \<inter> {CHR '' '', CHR 0x0A, CHR 0x0D} = {}"

definition good_field :: "bytes \<times> bytes \<Rightarrow> bool" where
  "good_field f \<longleftrightarrow> fst f \<noteq> [] \<and> list_all validHeaderFieldByte (fst f) \<and> list_all validHeaderValueByte (snd f) \<and>
     (snd f \<noteq> [] \<longrightarrow> \<not> blank (hd (snd f)) \<and> \<not> blank (last (snd f)))"

definition good_request :: "bytes \<Rightarrow> bytes \<Rightarrow> bytes \<Rightarrow> (bytes \<times> bytes) list \<Rightarrow> bool" where
  "good_request meth target version hs \<longleftrightarrow> plain_word meth \<and> plain_word target \<and> plain_word version \<and>
     HasPrefix version ''HTTP/'' \<and> list_all good_field hs"

text \<open>The value of the first field of a name, header names being case-insensitive.\<close>

definition first_value :: "bytes \<Rightarrow> (bytes \<times> bytes) list \<Rightarrow> bytes option" where
  "first_value k hs = map_of (map (\<lambda>f. (canon_from True (fst f), snd f)) hs) k"

lemma Split_word: "CHR '' '' \<notin> set s \<Longrightarrow> Split s (CHR '' '') = [s]"
  by (induction s) auto

lemma Split_append: "CHR '' '' \<notin> set s \<Longrightarrow> Split (s @ CHR '' '' # t) (CHR '' '') = s # Split t (CHR '' '')"
  by (induction s) auto

lemma field_byte_plain: "validHeaderFieldByte c \<Longrightarrow> c \<notin> {CHR '' '', CHR 0x09, CHR 0x0A, CHR 0x0D, CHR '':''}"
  by (auto simp: validHeaderFieldByte_def)

lemma value_byte_plain: "validHeaderValueByte c \<Longrightarrow> c \<notin> {CHR 0x0A, CHR 0x0D}"
  by (auto simp: validHeaderValueByte_def)

text \<open>The header line of a well-formed field, without the white space around it.\<close>

definition field_line :: "bytes \<times> bytes \<Rightarrow> bytes" where
  "field_line f = fst f @ '':'' @ (if snd f = [] then [] else '' '' @ snd f)"

lemma trim_id:
  assumes "s \<noteq> []" "\<not> blank (hd s)" "\<not> blank (last s)"
  shows "trim s = s"
proof -
  have keep: "dropWhile blank u = u" if "u \<noteq> []" "\<not> blank (hd u)" for u
    using that by (cases u) auto
  have "dropWhile blank (rev s) = rev s" using assms(1,3) by (intro keep) (simp_all add: hd_rev)
  then show ?thesis using keep [OF assms(1,2)] by (simp add: trim_def)
qed

lemma trim_field:
  assumes "good_field f"
  shows "trim (fst f @ '': '' @ snd f) = field_line f"
proof -
  obtain c k where k: "fst f = c # k" "validHeaderFieldByte c" using assms by (cases "fst f") (auto simp: good_field_def)
  have c: "\<not> blank c" using field_byte_plain [OF k(2)] by simp
  show ?thesis
  proof (cases "snd f = []")
    case True
    have "trim ((c # k) @ '':'' @ '' '') = (c # k) @ '':''" using c by (simp add: trim_def)
    then show ?thesis using True k(1) by (simp add: field_line_def)
  next
    case False
    then have "trim (fst f @ '': '' @ snd f) = fst f @ '': '' @ snd f"
      using assms k(1) c by (intro trim_id) (auto simp: good_field_def)
    then show ?thesis using False by (simp add: field_line_def)
  qed
qed

lemma header_field_line:
  assumes "good_field f"
  shows "header_field (field_line f) = Some (canon_from True (fst f), snd f)"
proof -
  have k: "fst f \<noteq> []" "list_all validHeaderFieldByte (fst f)" using assms by (simp_all add: good_field_def)
  have nc: "CHR '':'' \<notin> set (fst f)" "CHR '' '' \<notin> set (fst f)"
    using k(2) field_byte_plain by (auto simp: list_all_iff)
  have i: "IndexByte (field_line f) (CHR '':'') = Some (length (fst f))"
    using IndexByte_append [OF nc(1)] by (simp add: field_line_def)
  have c: "canonicalMIMEHeaderKey (fst f) = Some (canon_from True (fst f))"
    using k nc(2) by (simp add: canonicalMIMEHeaderKey_def list_all_iff)
  have v: "list_all validHeaderValueByte (drop (Suc (length (fst f))) (field_line f))"
      "dropWhile blank (drop (Suc (length (fst f))) (field_line f)) = snd f"
    using assms by (auto simp: field_line_def good_field_def validHeaderValueByte_def dropWhile_eq_self_iff)
  show ?thesis using i c v by (simp add: header_field_def Let_def field_line_def)
qed

lemma line_of_field:
  assumes "good_field f"
  shows "line_of (field_text f @ t) = Some (fst f @ '': '' @ snd f, t)"
proof -
  have p: "CHR 0x0A \<notin> set (fst f)" "CHR 0x0A \<notin> set (snd f)"
    using assms field_byte_plain value_byte_plain by (fastforce simp: good_field_def list_all_iff)+
  have "line_of ((fst f @ '': '' @ snd f @ [CHR 0x0D]) @ CHR 0x0A # t) = Some (strip_cr (fst f @ '': '' @ snd f @ [CHR 0x0D]), t)"
    using p by (intro line_of_line) auto
  then show ?thesis by (simp add: field_text_def CRLF_def strip_cr_def butlast_append)
qed

lemma fields_of_text:
  assumes "list_all good_field hs"
  shows "fields_of m (concat (map field_text hs) @ CRLF @ t) =
     Some (fold (\<lambda>f. add_value (canon_from True (fst f), snd f)) hs m)"
  using assms
proof (induction hs arbitrary: m)
  case Nil
  have "line_of (CRLF @ t) = Some ([], t)"
    using line_of_line [of "[CHR 0x0D]" t] by (simp add: CRLF_def strip_cr_def)
  then show ?case by (simp add: fields_of.simps)
next
  case (Cons f hs)
  let ?t = "concat (map field_text hs) @ CRLF @ t"
  have f: "good_field f" "list_all good_field hs" using Cons.prems by simp_all
  have nb: "\<not> blank (hd ?t)"
  proof (cases hs)
    case Nil
    then show ?thesis by (simp add: CRLF_def)
  next
    case (Cons g gs)
    then obtain c k where "fst g = c # k" "validHeaderFieldByte c" using f(2) by (cases "fst g") (auto simp: good_field_def)
    then show ?thesis using Cons field_byte_plain [of c] by (simp add: field_text_def)
  qed
  have "line_of (concat (map field_text (f # hs)) @ CRLF @ t) = Some (fst f @ '': '' @ snd f, ?t)"
    using line_of_field [OF f(1), of ?t] by simp
  moreover have "cont_of (trim (fst f @ '': '' @ snd f)) ?t = Some (field_line f, ?t)"
    using nb trim_field [OF f(1)] by (simp add: cont_of.simps)
  ultimately show ?case
    using header_field_line [OF f(1)] Cons.IH [OF f(2)] f(1)
    by (subst fields_of.simps) (simp add: good_field_def)
qed

lemma add_value_lookup:
  "map_of (add_value f m) k = (if fst f = k then Some ((case map_of m k of None \<Rightarrow> [] | Some vs \<Rightarrow> vs) @ [snd f]) else map_of m k)"
  by (simp add: add_value_def update_conv')

text \<open>The first value wins.\<close>

lemma fold_add_value_first:
  "Header_Get (fold (\<lambda>f. add_value (canon_from True (fst f), snd f)) hs m) ''Host'' =
     (case map_of m ''Host'' of
        Some (v # _) \<Rightarrow> v
      | _ \<Rightarrow> (case first_value ''Host'' hs of None \<Rightarrow> [] | Some v \<Rightarrow> v))"
proof -
  have c: "CanonicalHeaderKey ''Host'' = ''Host''"
    by (simp add: CanonicalHeaderKey_def validHeaderFieldByte_def lower_byte_def upper_byte_def)
  show ?thesis
  proof (induction hs arbitrary: m)
    case Nil
    then show ?case by (simp add: Header_Get_def Header_Values_def c first_value_def split: option.split list.split)
  next
    case (Cons f hs)
    then show ?case
      by (auto simp: add_value_lookup first_value_def split: option.splits list.splits)
  qed
qed

text \<open>A request head, whatever follows it, gives the host name of its first Host field.\<close>

lemma host_of_request:
  assumes "good_request meth target version hs" "first_value ''Host'' hs = Some v"
    "v \<noteq> []" "stripPort (TrimSpace v) \<noteq> []"
  shows "host_of (request_text meth target version hs @ t) = Some (ToLower (stripPort (TrimSpace v)))"
proof -
  have w: "plain_word meth" "plain_word target" "plain_word version" "HasPrefix version ''HTTP/''" "list_all good_field hs"
    using assms(1) by (simp_all add: good_request_def)
  let ?line = "meth @ '' '' @ target @ '' '' @ version"
  let ?rest = "concat (map field_text hs) @ CRLF @ t"
  have "line_of ((?line @ [CHR 0x0D]) @ CHR 0x0A # ?rest) = Some (strip_cr (?line @ [CHR 0x0D]), ?rest)"
    using w by (intro line_of_line) (auto simp: plain_word_def)
  then have l: "line_of (request_text meth target version hs @ t) = Some (?line, ?rest)"
    by (simp add: request_text_def CRLF_def strip_cr_def butlast_append)
  have sp: "CHR '' '' \<notin> set meth" "CHR '' '' \<notin> set target" "CHR '' '' \<notin> set version" "meth \<noteq> []" "target \<noteq> []"
    using w by (auto simp: plain_word_def)
  have "Split ?line (CHR '' '') = [meth, target, version]"
    using Split_append [OF sp(1)] Split_append [OF sp(2)] Split_word [OF sp(3)] by simp
  then have v: "is_ok (validateRequestLine ?line)" using sp(4,5) w(4) by (simp add: validateRequestLine_def)
  have f: "hs \<noteq> []" using assms(2) by (auto simp: first_value_def)
  have "\<not> blank (hd ?rest)" "?rest \<noteq> []"
  proof -
    obtain g gs where g: "hs = g # gs" using f by (cases hs) auto
    then obtain c k where "fst g = c # k" "validHeaderFieldByte c" using w(5) by (cases "fst g") (auto simp: good_field_def)
    then show "\<not> blank (hd ?rest)" "?rest \<noteq> []" using g field_byte_plain [of c] by (simp_all add: field_text_def)
  qed
  then have h: "header_of ?rest = Some (fold (\<lambda>f. add_value (canon_from True (fst f), snd f)) hs [])"
    using fields_of_text [OF w(5)] by (simp only: header_of_def) simp
  have "host_value (fold (\<lambda>f. add_value (canon_from True (fst f), snd f)) hs []) = Inr (ToLower (stripPort (TrimSpace v)))"
    using fold_add_value_first [of hs "[]"] assms(2,3,4) by (simp add: host_value_def Let_def)
  then show ?thesis using l v h by (simp add: host_of_def)
qed

lemma SniffHost_request:
  assumes "e \<noteq> ErrBufferFull" "concat chunks = request_text meth target version hs @ body"
    and "good_request meth target version hs" "length (request_text meth target version hs) \<le> maxHTTPHeaderBytes"
    and "first_value ''Host'' hs = Some v" "v \<noteq> []" "stripPort (TrimSpace v) \<noteq> []"
  shows "fst (SniffHost chunks e) = Inr (ToLower (stripPort (TrimSpace v)))"
proof -
  obtain r buffered rest where s: "SniffHost chunks e = (r, buffered, rest)" by (metis prod_cases3)
  have "take maxHTTPHeaderBytes (concat chunks) =
      request_text meth target version hs @ take (maxHTTPHeaderBytes - length (request_text meth target version hs)) body"
    using assms(2,4) by simp
  then show ?thesis using SniffHost_stream [OF assms(1) s] host_of_request [OF assms(3,5,6,7)] s by simp
qed

section \<open>Properties\<close>

text \<open>
  C30. The host is read back: a well-formed request head of at most 8192 bytes, with whatever follows and however
  the network cuts it into reads, is sniffed as the lower-case host name of its first Host field.
\<close>

theorem SniffHost_roundtrip:
  assumes "e \<noteq> ErrBufferFull" "concat chunks = request_text meth target version hs @ body"
    and "good_request meth target version hs" "length (request_text meth target version hs) \<le> maxHTTPHeaderBytes"
    and "first_value ''Host'' hs = Some v" "v \<noteq> []" "stripPort (TrimSpace v) \<noteq> []"
  shows "fst (SniffHost chunks e) = Inr (ToLower (stripPort (TrimSpace v)))"
  using assms by (rule SniffHost_request)

text \<open>
  The sniffer is safe: for every connection it reads at most 8192 bytes, what it returns for replay followed
  by what it left unread is exactly what the client sent, and whether it finds a host, and which, depends on the first
  8192 bytes of the stream only, not on how they arrive.
\<close>

theorem SniffHost_replay:
  assumes "e \<noteq> ErrBufferFull" "SniffHost chunks e = (r, buffered, rest)"
  shows "length buffered \<le> maxHTTPHeaderBytes \<and> buffered @ concat rest = concat chunks \<and>
     (\<forall>chunks2 e2. e2 \<noteq> ErrBufferFull \<and> take maxHTTPHeaderBytes (concat chunks2) = take maxHTTPHeaderBytes (concat chunks) \<longrightarrow>
        (\<forall>h. r = Inr h \<longleftrightarrow> fst (SniffHost chunks2 e2) = Inr h))"
proof -
  note s = SniffHost_stream [OF assms]
  have "\<forall>h. r = Inr h \<longleftrightarrow> fst (SniffHost chunks2 e2) = Inr h"
    if "e2 \<noteq> ErrBufferFull" "take maxHTTPHeaderBytes (concat chunks2) = take maxHTTPHeaderBytes (concat chunks)" for chunks2 e2
  proof -
    obtain r2 b2 rest2 where s2: "SniffHost chunks2 e2 = (r2, b2, rest2)" by (metis prod_cases3)
    show ?thesis
      using s SniffHost_stream [OF that(1) s2] that(2) s2
      by (cases "host_of (take maxHTTPHeaderBytes (concat chunks))") auto
  qed
  then show ?thesis using s by blast
qed

section \<open>Witnesses\<close>

definition sample_fields :: "(bytes \<times> bytes) list" where
  "sample_fields = [(''accept'', []), (''host'', ''Api.test:80''), (''Host'', ''other'')]"

definition sample_request :: bytes where
  "sample_request = request_text ''GET'' ''/'' ''HTTP/1.1'' sample_fields"

lemma sample_request_good:
  "good_request ''GET'' ''/'' ''HTTP/1.1'' sample_fields" "length sample_request \<le> maxHTTPHeaderBytes"
  by (simp_all add: good_request_def plain_word_def good_field_def sample_fields_def validHeaderFieldByte_def
      validHeaderValueByte_def sample_request_def request_text_def field_text_def CRLF_def maxHTTPHeaderBytes_def)

lemma sample_value: "first_value ''Host'' sample_fields = Some ''Api.test:80''"
  by code_simp

lemma sample_host: "stripPort (TrimSpace ''Api.test:80'') = ''Api.test''"
proof -
  have "runes ''Api.test:80'' = map (\<lambda>c. (of_char c, 1)) ''Api.test:80''"
    by simp
  then have "TrimSpace ''Api.test:80'' = ''Api.test:80''"
    by (simp add: TrimSpace_def is_space_def rune_width_def Let_def)
  then show ?thesis by (simp add: stripPort_def)
qed

theorem SniffHost_roundtrip_witness:
  "good_request ''GET'' ''/'' ''HTTP/1.1'' sample_fields \<and>
   fst (SniffHost [take 3 sample_request, drop 3 sample_request @ ''body''] EOF) = Inr (ToLower ''Api.test'')"
proof -
  have c: "concat [take 3 sample_request, drop 3 sample_request @ ''body''] = request_text ''GET'' ''/'' ''HTTP/1.1'' sample_fields @ ''body''"
    by (simp add: sample_request_def [symmetric] append_assoc [symmetric] del: append_assoc)
  have "fst (SniffHost [take 3 sample_request, drop 3 sample_request @ ''body''] EOF) = Inr (ToLower (stripPort (TrimSpace ''Api.test:80'')))"
    using sample_request_good(2) sample_host
    by (intro SniffHost_roundtrip [OF _ c sample_request_good(1) _ sample_value]) (simp_all add: sample_request_def)
  then show ?thesis using sample_request_good(1) sample_host by simp
qed

theorem SniffHost_replay_witness:
  "case SniffHost [''GET / HT'', ''TP/1.1''] ReadFailed of (r, buffered, rest) \<Rightarrow>
     length buffered \<le> maxHTTPHeaderBytes \<and> buffered @ concat rest = ''GET / HTTP/1.1'' \<and>
     (\<forall>h. r = Inr h \<longleftrightarrow> fst (SniffHost [''GET / HTTP/1.1''] EOF) = Inr h)"
proof -
  obtain r buffered rest where s: "SniffHost [''GET / HT'', ''TP/1.1''] ReadFailed = (r, buffered, rest)" by (metis prod_cases3)
  have p: "length buffered \<le> maxHTTPHeaderBytes \<and> buffered @ concat rest = concat [''GET / HT'', ''TP/1.1''] \<and>
     (\<forall>chunks2 e2. e2 \<noteq> ErrBufferFull \<and> take maxHTTPHeaderBytes (concat chunks2) = take maxHTTPHeaderBytes (concat [''GET / HT'', ''TP/1.1'']) \<longrightarrow>
        (\<forall>h. r = Inr h \<longleftrightarrow> fst (SniffHost chunks2 e2) = Inr h))"
    using SniffHost_replay [OF _ s] by blast
  have "concat [''GET / HTTP/1.1''] = concat [''GET / HT'', ''TP/1.1'']" by simp
  then have "\<forall>h. r = Inr h \<longleftrightarrow> fst (SniffHost [''GET / HTTP/1.1''] EOF) = Inr h" using p by (metis read_error.distinct(1))
  then show ?thesis unfolding s prod.case using p by simp
qed

end
