(* ===== verification/Duplex.thy ===== *)
theory Duplex
  imports Prelude
begin

text \<open>
  Two connections and the two goroutines that copy between them, as \<open>proxy\<close>, \<open>tunnel\<close> and \<open>shuttleTCP\<close> start them. A
  connection is seen from the daemon: what its peer has sent and is still unread, whether the peer has finished
  or reset, what the daemon has written, half-closed and closed. The peers act at any time; a copy is a
  program counter between its \<open>Read\<close> and its \<open>Write\<close>.
\<close>

section \<open>Connections\<close>

datatype conn_end = ClientEnd | UpstreamEnd

datatype direction = Up | Down

datatype net_error = IoEOF | NetErrClosed | IoErrClosedPipe | NetOther bytes

record conn =
  cn_in :: bytes
  cn_fin :: bool
  cn_reset :: bool
  cn_out :: bytes
  cn_shut :: bool
  cn_closed :: bool
  cn_canHalf :: bool
  cn_sent :: bytes

text \<open>The client connection is read by the up direction and written by the down direction.\<close>

fun src :: "direction \<Rightarrow> conn_end" where
  "src Up = ClientEnd"
| "src Down = UpstreamEnd"

fun dst :: "direction \<Rightarrow> conn_end" where
  "dst Up = UpstreamEnd"
| "dst Down = ClientEnd"

fun other :: "direction \<Rightarrow> direction" where
  "other Up = Down"
| "other Down = Up"

definition close_conn :: "conn \<Rightarrow> conn" where
  "close_conn c = c\<lparr>cn_closed := True\<rparr>"

text \<open>\<open>halfCloseWrite\<close>: \<open>CloseWrite\<close> where the connection has it, \<open>Close\<close> otherwise.\<close>

definition halfCloseWrite :: "conn \<Rightarrow> conn" where
  "halfCloseWrite c = (if cn_canHalf c then c\<lparr>cn_shut := True\<rparr> else close_conn c)"

section \<open>The copies\<close>

datatype copy_pc = Reading | Writing bytes | Ended "net_error option"

record links =
  ln_conn :: "conn_end \<Rightarrow> conn"
  ln_pc :: "direction \<Rightarrow> copy_pc"
  ln_n :: "direction \<Rightarrow> nat"

text \<open>
  What the peers and the copies do. \<open>CopyRead d k\<close> is a \<open>Read\<close> of \<open>k\<close> bytes, \<open>CopyEOF\<close> the end of the source,
  \<open>CopyReadFails\<close> an error of \<open>Read\<close>, \<open>CopyWrite\<close> a full \<open>Write\<close> and \<open>CopyWriteFails d k\<close> one that fails after \<open>k\<close> bytes.
\<close>

datatype link_event =
    PeerSend conn_end bytes
  | PeerFin conn_end
  | PeerReset conn_end
  | CopyRead direction nat
  | CopyEOF direction
  | CopyReadFails direction
  | CopyWrite direction
  | CopyWriteFails direction nat

definition set_conn :: "conn_end \<Rightarrow> conn \<Rightarrow> links \<Rightarrow> links" where
  "set_conn e c l = l\<lparr>ln_conn := (ln_conn l)(e := c)\<rparr>"

definition set_pc :: "direction \<Rightarrow> copy_pc \<Rightarrow> links \<Rightarrow> links" where
  "set_pc d pc l = l\<lparr>ln_pc := (ln_pc l)(d := pc)\<rparr>"

text \<open>A connection closed by the daemon fails with \<open>net.ErrClosed\<close>; one its peer has reset, or that is half-closed already, with another error.\<close>

definition io_error :: "conn \<Rightarrow> net_error option" where
  "io_error c = (if cn_closed c then Some NetErrClosed else if cn_reset c then Some (NetOther ''connection reset by peer'') else None)"

definition write_error :: "conn \<Rightarrow> net_error option" where
  "write_error c = (case io_error c of Some e \<Rightarrow> Some e | None \<Rightarrow> if cn_shut c then Some (NetOther ''broken pipe'') else None)"

text \<open>\<open>io.Copy\<close> from \<open>src d\<close> to \<open>dst d\<close>: \<open>n\<close> counts what was written.\<close>

fun link_do :: "link_event \<Rightarrow> links \<Rightarrow> links option" where
  "link_do (PeerSend e bs) l =
     (let c = ln_conn l e in
      if cn_fin c \<or> cn_reset c then None
      else Some (set_conn e (c\<lparr>cn_in := cn_in c @ bs, cn_sent := cn_sent c @ bs\<rparr>) l))"
| "link_do (PeerFin e) l = Some (set_conn e ((ln_conn l e)\<lparr>cn_fin := True\<rparr>) l)"
| "link_do (PeerReset e) l = Some (set_conn e ((ln_conn l e)\<lparr>cn_reset := True\<rparr>) l)"
| "link_do (CopyRead d k) l =
     (let c = ln_conn l (src d) in
      if ln_pc l d = Reading \<and> io_error c = None \<and> 0 < k \<and> k \<le> length (cn_in c)
      then Some (set_pc d (Writing (take k (cn_in c))) (set_conn (src d) (c\<lparr>cn_in := drop k (cn_in c)\<rparr>) l))
      else None)"
| "link_do (CopyEOF d) l =
     (let c = ln_conn l (src d) in
      if ln_pc l d = Reading \<and> io_error c = None \<and> cn_in c = [] \<and> cn_fin c then Some (set_pc d (Ended None) l) else None)"
| "link_do (CopyReadFails d) l =
     (if ln_pc l d = Reading \<and> io_error (ln_conn l (src d)) \<noteq> None
      then Some (set_pc d (Ended (io_error (ln_conn l (src d)))) l) else None)"
| "link_do (CopyWrite d) l =
     (case ln_pc l d of
        Writing bs \<Rightarrow>
          (let c = ln_conn l (dst d) in
           if write_error c = None
           then Some (set_pc d Reading (set_conn (dst d) (c\<lparr>cn_out := cn_out c @ bs\<rparr>) (l\<lparr>ln_n := (ln_n l)(d := ln_n l d + length bs)\<rparr>)))
           else None)
      | _ \<Rightarrow> None)"
| "link_do (CopyWriteFails d k) l =
     (case ln_pc l d of
        Writing bs \<Rightarrow>
          (let c = ln_conn l (dst d) in
           if write_error c \<noteq> None \<and> k < length bs
           then Some (set_pc d (Ended (write_error c))
                  (set_conn (dst d) (c\<lparr>cn_out := cn_out c @ take k bs\<rparr>) (l\<lparr>ln_n := (ln_n l)(d := ln_n l d + k)\<rparr>)))
           else None)
      | _ \<Rightarrow> None)"

section \<open>Delivery\<close>

text \<open>
  One direction: what the destination has been given is the source's stream so far, but for the chunk in hand and
  what is unread, and after a failed write a prefix of it.
\<close>

definition in_hand :: "copy_pc \<Rightarrow> bytes" where
  "in_hand pc = (case pc of Writing bs \<Rightarrow> bs | _ \<Rightarrow> [])"

definition delivers :: "direction \<Rightarrow> links \<Rightarrow> bool" where
  "delivers d l \<longleftrightarrow>
     (let s = ln_conn l (src d); t = ln_conn l (dst d) in
      ln_n l d = length (cn_out t) \<and>
      (case ln_pc l d of
         Ended (Some _) \<Rightarrow> prefix (cn_out t) (cn_sent s)
       | Ended None \<Rightarrow> cn_out t = cn_sent s \<and> cn_fin s
       | pc \<Rightarrow> cn_out t @ in_hand pc @ cn_in s = cn_sent s))"

definition link_inv :: "links \<Rightarrow> bool" where
  "link_inv l \<longleftrightarrow> (\<forall>d. delivers d l) \<and>
     (\<forall>d. cn_shut (ln_conn l (dst d)) \<longrightarrow> (\<exists>r. ln_pc l d = Ended r)) \<and>
     (\<forall>d. \<forall>bs. ln_pc l d = Writing bs \<longrightarrow> bs \<noteq> [])"

definition fresh_conn :: "bool \<Rightarrow> conn" where
  "fresh_conn half = \<lparr>cn_in = [], cn_fin = False, cn_reset = False, cn_out = [], cn_shut = False, cn_closed = False,
     cn_canHalf = half, cn_sent = []\<rparr>"

text \<open>Both copies about to start; the peers may already have sent something.\<close>

definition link_start :: "links \<Rightarrow> bool" where
  "link_start l \<longleftrightarrow> ln_pc l = (\<lambda>_. Reading) \<and> ln_n l = (\<lambda>_. 0) \<and>
     (\<forall>e. cn_out (ln_conn l e) = [] \<and> cn_in (ln_conn l e) = cn_sent (ln_conn l e) \<and> \<not> cn_shut (ln_conn l e) \<and>
        \<not> cn_closed (ln_conn l e))"

lemma ends [simp]: "src (other d) = dst d" "dst (other d) = src d" "src d \<noteq> dst d" "dst d \<noteq> src d"
  by (cases d; simp)+

lemma direction_cases: "(\<forall>d. P d) \<longleftrightarrow> P d0 \<and> P (other d0)"
  by (metis direction.exhaust other.simps)

lemma other_neq [simp]: "other d \<noteq> d" "d \<noteq> other d"
  by (cases d; simp)+

lemma conn_end_of: "e = src d \<or> e = dst d"
  by (cases d; cases e; simp)

lemma link_start_inv: "link_start l \<Longrightarrow> link_inv l"
  by (auto simp: link_start_def link_inv_def delivers_def in_hand_def)

text \<open>Steps of a peer and of a copy keep the invariant; so do the ways to close.\<close>

lemma set_conn_sel [simp]:
  "ln_conn (set_conn e c l) = (ln_conn l)(e := c)" "ln_pc (set_conn e c l) = ln_pc l" "ln_n (set_conn e c l) = ln_n l"
  by (simp_all add: set_conn_def)

lemma set_pc_sel [simp]:
  "ln_conn (set_pc d pc l) = ln_conn l" "ln_pc (set_pc d pc l) = (ln_pc l)(d := pc)" "ln_n (set_pc d pc l) = ln_n l"
  by (simp_all add: set_pc_def)

text \<open>Changing a connection in a way that keeps its streams.\<close>

lemma delivers_cong:
  assumes "delivers d l" "ln_pc l' d = ln_pc l d" "ln_n l' d = ln_n l d"
    and "cn_in (ln_conn l' (src d)) = cn_in (ln_conn l (src d))" "cn_sent (ln_conn l' (src d)) = cn_sent (ln_conn l (src d))"
    "cn_fin (ln_conn l (src d)) \<longrightarrow> cn_fin (ln_conn l' (src d))" "cn_out (ln_conn l' (dst d)) = cn_out (ln_conn l (dst d))"
  shows "delivers d l'"
  using assms by (auto simp: delivers_def Let_def split: copy_pc.splits option.splits)

lemma set_conn_inv:
  assumes "link_inv l" "cn_in c = cn_in (ln_conn l e)" "cn_sent c = cn_sent (ln_conn l e)" "cn_out c = cn_out (ln_conn l e)"
    "cn_fin (ln_conn l e) \<longrightarrow> cn_fin c"
    and shut: "\<And>d. e = dst d \<Longrightarrow> cn_shut c \<Longrightarrow> cn_shut (ln_conn l e) \<or> (\<exists>r. ln_pc l d = Ended r)"
  shows "link_inv (set_conn e c l)"
proof -
  have "delivers d (set_conn e c l)" for d
    using assms(1) by (rule_tac delivers_cong [of d l]) (auto simp: link_inv_def assms(2-5))
  moreover have "\<exists>r. ln_pc l d = Ended r" if "cn_shut (ln_conn (set_conn e c l) (dst d))" for d
    using that assms(1) shut [of d] by (auto simp: link_inv_def split: if_splits)
  ultimately show ?thesis using assms(1) by (simp add: link_inv_def)
qed

lemma close_inv: "link_inv l \<Longrightarrow> link_inv (set_conn e (close_conn (ln_conn l e)) l)"
  by (rule set_conn_inv) (auto simp: close_conn_def)

lemma half_close_inv:
  assumes "link_inv l" "ln_pc l d = Ended r"
  shows "link_inv (set_conn (dst d) (halfCloseWrite (ln_conn l (dst d))) l)"
proof -
  have "d' = d" if "dst d = dst d'" for d' using that by (cases d; cases d') auto
  then show ?thesis using assms by (intro set_conn_inv) (auto simp: halfCloseWrite_def close_conn_def)
qed

text \<open>A step of one copy: its own direction is re-established, the other one is untouched.\<close>

lemma copy_step_inv:
  assumes "link_inv l" "delivers d l'"
    and frame: "ln_pc l' (other d) = ln_pc l (other d)" "ln_n l' (other d) = ln_n l (other d)"
      "cn_in (ln_conn l' (dst d)) = cn_in (ln_conn l (dst d))" "cn_sent (ln_conn l' (dst d)) = cn_sent (ln_conn l (dst d))"
      "cn_fin (ln_conn l' (dst d)) = cn_fin (ln_conn l (dst d))" "cn_out (ln_conn l' (src d)) = cn_out (ln_conn l (src d))"
      "\<And>e. cn_shut (ln_conn l' e) = cn_shut (ln_conn l e)"
    and pc: "\<not> (\<exists>r. ln_pc l d = Ended r)" "ln_pc l' d \<noteq> Writing []"
  shows "link_inv l'"
proof -
  have "delivers (other d) l" using assms(1) by (simp add: link_inv_def)
  then have o: "delivers (other d) l'" by (rule delivers_cong) (simp_all add: frame)
  have "\<exists>r. ln_pc l' d' = Ended r" if "cn_shut (ln_conn l' (dst d'))" for d'
  proof (cases "d' = d")
    case True
    then show ?thesis using that assms(1) pc(1) frame(7) by (auto simp: link_inv_def)
  next
    case False
    then have "d' = other d" by (cases d; cases d') auto
    then show ?thesis using that assms(1) frame(1,7) by (auto simp: link_inv_def)
  qed
  moreover have "ln_pc l' d' = Writing bs \<Longrightarrow> bs \<noteq> []" for d' bs
  proof (cases "d' = d")
    case False
    then have "d' = other d" by (cases d; cases d') auto
    then show "ln_pc l' d' = Writing bs \<Longrightarrow> bs \<noteq> []" using assms(1) frame(1) by (auto simp: link_inv_def)
  qed (use pc(2) in auto)
  ultimately show ?thesis using o assms(2) direction_cases [of "\<lambda>d. delivers d l'" d] by (auto simp: link_inv_def)
qed

lemma peer_send_inv:
  assumes "link_inv l" "\<not> cn_fin (ln_conn l e)"
  shows "link_inv (set_conn e ((ln_conn l e)\<lparr>cn_in := cn_in (ln_conn l e) @ bs, cn_sent := cn_sent (ln_conn l e) @ bs\<rparr>) l)"
    (is "link_inv ?l'")
proof -
  obtain d where d: "e = src d" using conn_end_of by (metis ends(1))
  have a: "delivers d l" "delivers (other d) l" using assms(1) by (simp_all add: link_inv_def)
  have "delivers d ?l'"
    using a(1) assms(2) by (auto simp: d delivers_def Let_def in_hand_def split: copy_pc.splits option.splits)
  moreover have "delivers (other d) ?l'" using a(2) by (rule delivers_cong) (simp_all add: d)
  ultimately have "delivers d' ?l'" for d' using direction_cases [of "\<lambda>d. delivers d ?l'" d] by blast
  then show ?thesis using assms(1) by (auto simp: link_inv_def split: if_splits)
qed

lemma link_do_inv:
  assumes "link_inv l" "link_do ev l = Some l'"
  shows "link_inv l'"
proof (cases ev)
  case (PeerSend e bs)
  then show ?thesis using assms peer_send_inv by (auto simp: Let_def split: if_splits)
next
  case (PeerFin e)
  then have "l' = set_conn e ((ln_conn l e)\<lparr>cn_fin := True\<rparr>) l" using assms(2) by simp
  then show ?thesis using set_conn_inv [OF assms(1), of "(ln_conn l e)\<lparr>cn_fin := True\<rparr>" e] by simp
next
  case (PeerReset e)
  then have "l' = set_conn e ((ln_conn l e)\<lparr>cn_reset := True\<rparr>) l" using assms(2) by simp
  then show ?thesis using set_conn_inv [OF assms(1), of "(ln_conn l e)\<lparr>cn_reset := True\<rparr>" e] by simp
next
  case (CopyRead d k)
  have a: "delivers d l" using assms(1) by (simp add: link_inv_def)
  have g: "ln_pc l d = Reading" "0 < k" "k \<le> length (cn_in (ln_conn l (src d)))"
    and l': "l' = set_pc d (Writing (take k (cn_in (ln_conn l (src d)))))
      (set_conn (src d) ((ln_conn l (src d))\<lparr>cn_in := drop k (cn_in (ln_conn l (src d)))\<rparr>) l)"
    using assms(2) CopyRead by (auto simp: Let_def split: if_splits)
  have "delivers d l'" using a g by (auto simp: l' delivers_def Let_def in_hand_def)
  moreover have "take k (cn_in (ln_conn l (src d))) \<noteq> []" using g(2,3) by auto
  ultimately show ?thesis using g(1) by (intro copy_step_inv [OF assms(1), of d]) (auto simp: l')
next
  case (CopyEOF d)
  have a: "delivers d l" using assms(1) by (simp add: link_inv_def)
  have g: "ln_pc l d = Reading" "cn_in (ln_conn l (src d)) = []" "cn_fin (ln_conn l (src d))" and l': "l' = set_pc d (Ended None) l"
    using assms(2) CopyEOF by (auto simp: Let_def split: if_splits)
  have "delivers d l'" using a g by (auto simp: l' delivers_def Let_def in_hand_def)
  then show ?thesis using g(1) by (intro copy_step_inv [OF assms(1), of d]) (auto simp: l')
next
  case (CopyReadFails d)
  have a: "delivers d l" using assms(1) by (simp add: link_inv_def)
  obtain er where g: "ln_pc l d = Reading" and l': "l' = set_pc d (Ended (Some er)) l"
    using assms(2) CopyReadFails by (auto split: if_splits)
  have "delivers d l'" using a g by (auto simp: l' delivers_def Let_def in_hand_def) (metis prefixI)
  then show ?thesis using g(1) by (intro copy_step_inv [OF assms(1), of d]) (auto simp: l')
next
  case (CopyWrite d)
  have a: "delivers d l" using assms(1) by (simp add: link_inv_def)
  obtain bs where g: "ln_pc l d = Writing bs"
    and l': "l' = set_pc d Reading (set_conn (dst d) ((ln_conn l (dst d))\<lparr>cn_out := cn_out (ln_conn l (dst d)) @ bs\<rparr>)
      (l\<lparr>ln_n := (ln_n l)(d := ln_n l d + length bs)\<rparr>))"
    using assms(2) CopyWrite by (auto simp: Let_def split: copy_pc.splits if_splits)
  have "delivers d l'" using a g by (auto simp: l' delivers_def Let_def in_hand_def)
  then show ?thesis using g(1) by (intro copy_step_inv [OF assms(1), of d]) (auto simp: l')
next
  case (CopyWriteFails d k)
  have a: "delivers d l" using assms(1) by (simp add: link_inv_def)
  obtain bs er where g: "ln_pc l d = Writing bs" "k < length bs"
    and l': "l' = set_pc d (Ended (Some er)) (set_conn (dst d) ((ln_conn l (dst d))\<lparr>cn_out := cn_out (ln_conn l (dst d)) @ take k bs\<rparr>)
      (l\<lparr>ln_n := (ln_n l)(d := ln_n l d + k)\<rparr>))"
    using assms(2) CopyWriteFails by (auto simp: Let_def split: copy_pc.splits if_splits)
  have "prefix (cn_out (ln_conn l (dst d)) @ take k bs) (cn_sent (ln_conn l (src d)))"
  proof -
    have "cn_out (ln_conn l (dst d)) @ bs @ cn_in (ln_conn l (src d)) = cn_sent (ln_conn l (src d))"
      using a g(1) by (simp add: delivers_def Let_def in_hand_def)
    then have "cn_sent (ln_conn l (src d)) = (cn_out (ln_conn l (dst d)) @ take k bs) @ drop k bs @ cn_in (ln_conn l (src d))"
      by (metis append.assoc append_take_drop_id)
    then show ?thesis by (rule prefixI)
  qed
  then have "delivers d l'" using a g by (auto simp: l' delivers_def Let_def in_hand_def)
  then show ?thesis using g(1) by (intro copy_step_inv [OF assms(1), of d]) (auto simp: l')
qed

text \<open>What the invariant says to a reader: each side has been given a prefix of what the other sent, all of it at a clean end.\<close>

lemma link_inv_prefix:
  assumes "link_inv l"
  shows "prefix (cn_out (ln_conn l (dst d))) (cn_sent (ln_conn l (src d)))"
proof -
  have a: "delivers d l" using assms by (simp add: link_inv_def)
  show ?thesis
  proof (cases "\<exists>r. ln_pc l d = Ended r")
    case True
    then show ?thesis using a by (auto simp: delivers_def Let_def split: option.splits)
  next
    case False
    then have "cn_sent (ln_conn l (src d)) = cn_out (ln_conn l (dst d)) @ in_hand (ln_pc l d) @ cn_in (ln_conn l (src d))"
      using a by (cases "ln_pc l d") (auto simp: delivers_def Let_def)
    then show ?thesis by (rule prefixI)
  qed
qed

lemma link_inv_count: "link_inv l \<Longrightarrow> ln_n l d = length (cn_out (ln_conn l (dst d)))"
  by (simp add: link_inv_def delivers_def Let_def)

lemma link_inv_complete:
  assumes "link_inv l" "ln_pc l d = Ended None"
  shows "cn_out (ln_conn l (dst d)) = cn_sent (ln_conn l (src d))"
proof -
  have "delivers d l" using assms(1) by (simp add: link_inv_def)
  then show ?thesis using assms(2) by (simp add: delivers_def Let_def)
qed

end
