(* ===== verification/Shuttle.thy ===== *)
theory Shuttle
  imports Duplex
begin

text \<open>
  \<open>shuttleTCP\<close> of \<open>internal/inbound/tcp.go\<close> and \<open>internal/outbound/tcp.go\<close>, which differ in the name of the predicate
  that says which errors count: two copies, the channel of their results, and the function that waits for
  the first, half-closes or closes, and waits for the second under a timer. Peers, copies and waiter are interleaved.
\<close>

section \<open>Errors that count\<close>

definition isExpectedCopyErr :: "net_error \<Rightarrow> bool" where
  "isExpectedCopyErr err \<longleftrightarrow> err = IoEOF \<or> err = NetErrClosed \<or> err = IoErrClosedPipe"

definition isUnexpectedCopyErr :: "net_error option \<Rightarrow> bool" where
  "isUnexpectedCopyErr err = (case err of None \<Rightarrow> False | Some e \<Rightarrow> \<not> isExpectedCopyErr e)"

definition isCopyError :: "net_error option \<Rightarrow> bool" where
  "isCopyError err =
     (case err of
        None \<Rightarrow> False
      | Some e \<Rightarrow> if e = IoEOF \<or> e = NetErrClosed \<or> e = IoErrClosedPipe then False else True)"

lemma isCopyError_eq: "isCopyError = isUnexpectedCopyErr"
  by (auto simp: isCopyError_def isUnexpectedCopyErr_def isExpectedCopyErr_def fun_eq_iff split: option.split)

section \<open>The shuttle\<close>

datatype main_pc =
    AwaitFirst
  | AwaitSecond direction "net_error option"
  | Forced direction "net_error option"
  | Returned bool

record shuttle =
  sh_links :: links
  sh_done :: "(direction \<times> net_error option) list"
  sh_main :: main_pc

datatype shuttle_event = Link link_event | MainFirst | MainSecond | MainTimer

text \<open>A goroutine that ends sends its result.\<close>

definition results :: "link_event \<Rightarrow> links \<Rightarrow> (direction \<times> net_error option) list" where
  "results ev l =
     (let ret = \<lambda>d. (case ln_pc l d of Ended r \<Rightarrow> [(d, r)] | _ \<Rightarrow> []) in
      case ev of CopyEOF d \<Rightarrow> ret d | CopyReadFails d \<Rightarrow> ret d | CopyWriteFails d _ \<Rightarrow> ret d | _ \<Rightarrow> [])"

definition close_both :: "links \<Rightarrow> links" where
  "close_both l =
     set_conn UpstreamEnd (close_conn (ln_conn l UpstreamEnd)) (set_conn ClientEnd (close_conn (ln_conn l ClientEnd)) l)"

definition after_first :: "direction \<Rightarrow> net_error option \<Rightarrow> links \<Rightarrow> links" where
  "after_first d err l =
     (case err of
        None \<Rightarrow> (case d of Up \<Rightarrow> set_conn UpstreamEnd (halfCloseWrite (ln_conn l UpstreamEnd)) l
                        | Down \<Rightarrow> set_conn ClientEnd (halfCloseWrite (ln_conn l ClientEnd)) l)
      | Some _ \<Rightarrow> close_both l)"

fun shuttle_do :: "(net_error option \<Rightarrow> bool) \<Rightarrow> shuttle_event \<Rightarrow> shuttle \<Rightarrow> shuttle option" where
  "shuttle_do bad (Link ev) s =
     (case link_do ev (sh_links s) of
        None \<Rightarrow> None
      | Some l \<Rightarrow> Some (s\<lparr>sh_links := l, sh_done := sh_done s @ results ev l\<rparr>))"
| "shuttle_do bad MainFirst s =
     (case (sh_main s, sh_done s) of
        (AwaitFirst, (d, err) # rest) \<Rightarrow>
          Some (s\<lparr>sh_links := after_first d err (sh_links s), sh_done := rest, sh_main := AwaitSecond d err\<rparr>)
      | _ \<Rightarrow> None)"
| "shuttle_do bad MainSecond s =
     (case sh_done s of
        [] \<Rightarrow> None
      | (_, err2) # rest \<Rightarrow>
          (case sh_main s of
             AwaitSecond d err \<Rightarrow> Some (s\<lparr>sh_done := rest, sh_main := Returned (bad err \<or> bad err2)\<rparr>)
           | Forced d err \<Rightarrow> Some (s\<lparr>sh_done := rest, sh_main := Returned (bad err \<or> bad err2)\<rparr>)
           | _ \<Rightarrow> None))"
| "shuttle_do bad MainTimer s =
     (case sh_main s of
        AwaitSecond d err \<Rightarrow> Some (s\<lparr>sh_links := close_both (sh_links s), sh_main := Forced d err\<rparr>)
      | _ \<Rightarrow> None)"

definition shuttle_start :: "shuttle \<Rightarrow> bool" where
  "shuttle_start s \<longleftrightarrow> link_start (sh_links s) \<and> sh_done s = [] \<and> sh_main s = AwaitFirst"

inductive shuttle_step :: "(net_error option \<Rightarrow> bool) \<Rightarrow> shuttle \<Rightarrow> shuttle \<Rightarrow> bool" for bad where
  "shuttle_do bad ev s = Some t \<Longrightarrow> shuttle_step bad s t"

inductive_cases shuttle_stepE [elim!]: "shuttle_step bad s t"

definition inbound_shuttleTCP :: "shuttle \<Rightarrow> shuttle \<Rightarrow> bool" where
  "inbound_shuttleTCP = shuttle_step isUnexpectedCopyErr"

definition outbound_shuttleTCP :: "shuttle \<Rightarrow> shuttle \<Rightarrow> bool" where
  "outbound_shuttleTCP = shuttle_step isCopyError"

section \<open>Invariant\<close>

definition received :: "main_pc \<Rightarrow> (direction \<times> net_error option) list" where
  "received m = (case m of AwaitSecond d err \<Rightarrow> [(d, err)] | Forced d err \<Rightarrow> [(d, err)] | _ \<Rightarrow> [])"

definition is_open :: "links \<Rightarrow> conn_end \<Rightarrow> bool" where
  "is_open l e \<longleftrightarrow> \<not> cn_closed (ln_conn l e)"

text \<open>What the waiter has closed by now.\<close>

definition closing_ok :: "shuttle \<Rightarrow> bool" where
  "closing_ok s =
     (let l = sh_links s in
      case sh_main s of
        AwaitFirst \<Rightarrow> (\<forall>e. is_open l e \<and> \<not> cn_shut (ln_conn l e))
      | AwaitSecond d None \<Rightarrow> is_open l (src d) \<and> \<not> cn_shut (ln_conn l (src d)) \<and>
          (if cn_canHalf (ln_conn l (dst d)) then is_open l (dst d) \<and> cn_shut (ln_conn l (dst d)) else \<not> is_open l (dst d))
      | AwaitSecond d (Some _) \<Rightarrow> (\<forall>e. \<not> is_open l e)
      | Forced d err \<Rightarrow> (\<forall>e. \<not> is_open l e)
      | Returned _ \<Rightarrow> True)"

text \<open>Each copy reports once, and the report is how it ended.\<close>

definition reported :: "(direction \<times> net_error option) list \<Rightarrow> links \<Rightarrow> bool" where
  "reported rs l \<longleftrightarrow> distinct (map fst rs) \<and> (\<forall>d err. (d, err) \<in> set rs \<longleftrightarrow> ln_pc l d = Ended err)"

definition reports_ok :: "(net_error option \<Rightarrow> bool) \<Rightarrow> shuttle \<Rightarrow> bool" where
  "reports_ok bad s =
     (let l = sh_links s in
      case sh_main s of
        Returned b \<Rightarrow> sh_done s = [] \<and> (\<forall>d. \<exists>err. ln_pc l d = Ended err) \<and> b = (\<exists>d err. ln_pc l d = Ended err \<and> bad err)
      | m \<Rightarrow> reported (received m @ sh_done s) l)"

definition shuttle_inv :: "(net_error option \<Rightarrow> bool) \<Rightarrow> shuttle \<Rightarrow> bool" where
  "shuttle_inv bad s \<longleftrightarrow> link_inv (sh_links s) \<and> closing_ok s \<and> reports_ok bad s"

lemma shuttle_start_inv: "shuttle_start s \<Longrightarrow> shuttle_inv bad s"
  by (auto simp: shuttle_start_def shuttle_inv_def link_start_inv closing_ok_def reports_ok_def reported_def received_def link_start_def
      is_open_def Let_def)

text \<open>What one step of the links does to the closing flags and to the reports.\<close>

lemma link_do_flags:
  assumes "link_do ev l = Some l'"
  shows "cn_closed (ln_conn l' e) = cn_closed (ln_conn l e)" "cn_shut (ln_conn l' e) = cn_shut (ln_conn l e)"
    "cn_canHalf (ln_conn l' e) = cn_canHalf (ln_conn l e)"
  using assms by (cases ev; auto simp: Let_def split: if_splits copy_pc.splits)+

lemma link_do_results:
  assumes "link_do ev l = Some l'"
  shows "(results ev l' = [] \<and> (\<forall>d err. ln_pc l' d = Ended err \<longleftrightarrow> ln_pc l d = Ended err)) \<or>
     (\<exists>d err. results ev l' = [(d, err)] \<and> (\<forall>r. ln_pc l d \<noteq> Ended r) \<and> ln_pc l' = (ln_pc l)(d := Ended err))"
  using assms by (cases ev; auto simp: Let_def results_def split: if_splits copy_pc.splits)

lemma link_step_inv:
  assumes "shuttle_inv bad s" "link_do ev (sh_links s) = Some l"
  shows "shuttle_inv bad (s\<lparr>sh_links := l, sh_done := sh_done s @ results ev l\<rparr>)"
proof -
  have l: "link_inv l" using link_do_inv assms by (auto simp: shuttle_inv_def)
  have c: "closing_ok (s\<lparr>sh_links := l, sh_done := sh_done s @ results ev l\<rparr>)"
    using assms link_do_flags [OF assms(2)]
    by (auto simp: shuttle_inv_def closing_ok_def is_open_def Let_def split: main_pc.splits option.splits)
  have r: "reports_ok bad s" using assms(1) by (simp add: shuttle_inv_def)
  from link_do_results [OF assms(2)] have "reports_ok bad (s\<lparr>sh_links := l, sh_done := sh_done s @ results ev l\<rparr>)"
  proof (elim disjE exE conjE)
    assume "results ev l = []" "\<forall>d err. ln_pc l d = Ended err \<longleftrightarrow> ln_pc (sh_links s) d = Ended err"
    then show ?thesis using r by (simp add: reports_ok_def reported_def Let_def split: main_pc.splits)
  next
    fix d err
    assume a: "results ev l = [(d, err)]" "\<forall>r. ln_pc (sh_links s) d \<noteq> Ended r" "ln_pc l = (ln_pc (sh_links s))(d := Ended err)"
    show ?thesis
    proof (cases "\<exists>b. sh_main s = Returned b")
      case True
      then have "\<exists>r. ln_pc (sh_links s) d = Ended r" using r by (auto simp: reports_ok_def Let_def)
      then show ?thesis using a(2) by blast
    next
      case False
      let ?rs = "received (sh_main s) @ sh_done s"
      have old: "reported ?rs (sh_links s)"
        using r False by (auto simp: reports_ok_def Let_def split: main_pc.splits)
      then have "d \<notin> fst ` set ?rs" using a(2) by (force simp: reported_def)
      then have "reported (?rs @ [(d, err)]) l"
        using old a(2,3) by (auto simp: reported_def image_iff)
      then show ?thesis using False a(1) by (auto simp: reports_ok_def Let_def split: main_pc.splits)
    qed
  qed
  then show ?thesis using l c by (simp add: shuttle_inv_def)
qed

lemma close_both_sel [simp]:
  "ln_pc (close_both l) = ln_pc l" "ln_n (close_both l) = ln_n l" "ln_conn (close_both l) e = close_conn (ln_conn l e)"
  by (cases e; simp add: close_both_def)+

lemma close_both_inv: "link_inv l \<Longrightarrow> link_inv (close_both l)"
  using close_inv [of l ClientEnd] close_inv [of "set_conn ClientEnd (close_conn (ln_conn l ClientEnd)) l" UpstreamEnd]
  by (simp add: close_both_def)

lemma after_first_eq:
  "after_first d None l = set_conn (dst d) (halfCloseWrite (ln_conn l (dst d))) l" "after_first d (Some e) l = close_both l"
  by (cases d; simp add: after_first_def)+

lemma after_first_pc [simp]: "ln_pc (after_first d err l) = ln_pc l" "ln_n (after_first d err l) = ln_n l"
  by (cases err; simp add: after_first_eq)+

lemma shuttle_step_inv:
  assumes "shuttle_inv bad s" "shuttle_do bad ev s = Some t"
  shows "shuttle_inv bad t"
proof (cases ev)
  case (Link e)
  then show ?thesis using assms link_step_inv by (auto split: option.splits)
next
  case MainFirst
  then obtain d err rest where g: "sh_main s = AwaitFirst" "sh_done s = (d, err) # rest"
    and t: "t = s\<lparr>sh_links := after_first d err (sh_links s), sh_done := rest, sh_main := AwaitSecond d err\<rparr>"
    using assms(2) by (auto split: main_pc.splits list.splits)
  have r: "reported ((d, err) # rest) (sh_links s)"
    using assms(1) g by (simp add: shuttle_inv_def reports_ok_def received_def Let_def)
  then have p: "ln_pc (sh_links s) d = Ended err" unfolding reported_def by (metis list.set_intros(1))
  have i: "link_inv (sh_links s)" using assms(1) by (simp add: shuttle_inv_def)
  have c: "\<forall>e. is_open (sh_links s) e \<and> \<not> cn_shut (ln_conn (sh_links s) e)"
    using assms(1) g(1) by (simp add: shuttle_inv_def closing_ok_def Let_def)
  have "link_inv (after_first d err (sh_links s))"
    using half_close_inv [OF i p] close_both_inv [OF i] by (cases err) (simp_all add: after_first_eq)
  moreover have "closing_ok t"
    using c by (cases err) (auto simp: t closing_ok_def is_open_def after_first_eq halfCloseWrite_def close_conn_def Let_def)
  moreover have "reports_ok bad t" using r by (simp add: t reports_ok_def reported_def received_def Let_def)
  ultimately show ?thesis by (simp add: shuttle_inv_def t)
next
  case MainSecond
  then obtain d err d2 err2 rest where g: "sh_done s = (d2, err2) # rest" "sh_main s = AwaitSecond d err \<or> sh_main s = Forced d err"
    and t: "t = s\<lparr>sh_done := rest, sh_main := Returned (bad err \<or> bad err2)\<rparr>"
    using assms(2) by (auto split: main_pc.splits list.splits)
  have r: "reported ((d, err) # (d2, err2) # rest) (sh_links s)"
    using assms(1) g by (auto simp: shuttle_inv_def reports_ok_def received_def Let_def)
  then have dr: "d2 \<noteq> d" "d \<notin> fst ` set rest" "d2 \<notin> fst ` set rest" by (auto simp: reported_def)
  then have d2: "d2 = other d" by (cases d; cases d2) auto
  have two: "x = d \<or> x = d2" for x unfolding d2 by (cases x; cases d) auto
  have rest: "rest = []"
  proof (cases rest)
    case (Cons x xs)
    then show ?thesis using two [of "fst x"] dr(2,3) by auto
  qed simp
  have p: "ln_pc (sh_links s) d = Ended err" "ln_pc (sh_links s) (other d) = Ended err2"
    using r unfolding reported_def d2 [symmetric] by (metis list.set_intros)+
  have "\<forall>d'. \<exists>err. ln_pc (sh_links s) d' = Ended err" using direction_cases [of "\<lambda>d'. \<exists>err. ln_pc (sh_links s) d' = Ended err" d] p by blast
  moreover have "(bad err \<or> bad err2) = (\<exists>d' err'. ln_pc (sh_links s) d' = Ended err' \<and> bad err')"
    using p direction_cases [of "\<lambda>d'. \<forall>err'. ln_pc (sh_links s) d' = Ended err' \<longrightarrow> \<not> bad err'" d] by auto
  ultimately show ?thesis using assms(1) by (simp add: shuttle_inv_def t reports_ok_def closing_ok_def rest Let_def)
next
  case MainTimer
  then obtain d err where g: "sh_main s = AwaitSecond d err" and t: "t = s\<lparr>sh_links := close_both (sh_links s), sh_main := Forced d err\<rparr>"
    using assms(2) by (auto split: main_pc.splits)
  have "link_inv (close_both (sh_links s))" using assms(1) close_both_inv by (simp add: shuttle_inv_def)
  then show ?thesis
    using assms(1) g by (simp add: shuttle_inv_def t closing_ok_def reports_ok_def reported_def received_def is_open_def close_conn_def Let_def)
qed

interpretation shuttle: invariant_system shuttle_start "shuttle_step bad" "shuttle_inv bad"
  by unfold_locales (auto simp: shuttle_start_inv intro: shuttle_step_inv)

section \<open>Ending\<close>

text \<open>The steps of the daemon, as opposed to those of the peers.\<close>

definition own :: "shuttle_event \<Rightarrow> bool" where
  "own ev = (case ev of Link (PeerSend _ _) \<Rightarrow> False | Link (PeerFin _) \<Rightarrow> False | Link (PeerReset _) \<Rightarrow> False | _ \<Rightarrow> True)"

text \<open>Both connections are closed: after an error, or once the timer fired.\<close>

definition torn_down :: "shuttle \<Rightarrow> bool" where
  "torn_down s = (case sh_main s of AwaitSecond _ (Some _) \<Rightarrow> True | Forced _ _ \<Rightarrow> True | Returned _ \<Rightarrow> True | _ \<Rightarrow> False)"

definition running_copy :: "copy_pc \<Rightarrow> nat" where
  "running_copy pc = (case pc of Ended _ \<Rightarrow> 0 | _ \<Rightarrow> 1)"

text \<open>The steps left to the daemon.\<close>

definition todo :: "shuttle \<Rightarrow> nat" where
  "todo s = running_copy (ln_pc (sh_links s) Up) + running_copy (ln_pc (sh_links s) Down) +
     (case sh_main s of AwaitFirst \<Rightarrow> 3 | AwaitSecond _ _ \<Rightarrow> 2 | Forced _ _ \<Rightarrow> 1 | Returned _ \<Rightarrow> 0)"

lemma todo_bound: "torn_down s \<Longrightarrow> todo s \<le> 4"
  by (auto simp: todo_def torn_down_def running_copy_def split: main_pc.splits copy_pc.splits option.splits)

lemma closed_fails: "\<not> is_open l e \<Longrightarrow> io_error (ln_conn l e) = Some NetErrClosed \<and> write_error (ln_conn l e) = Some NetErrClosed"
  by (simp add: is_open_def io_error_def write_error_def)

lemma torn_down_closed:
  assumes "shuttle_inv bad s" "torn_down s" "\<forall>b. sh_main s \<noteq> Returned b"
  shows "\<not> is_open (sh_links s) e"
  using assms by (auto simp: shuttle_inv_def closing_ok_def torn_down_def Let_def split: main_pc.splits option.splits)

text \<open>On closed connections a copy can only fail, and each of its steps ends it.\<close>

lemma link_todo:
  assumes "\<forall>e. \<not> is_open l e" "link_do ev l = Some l'"
  shows "running_copy (ln_pc l' Up) + running_copy (ln_pc l' Down) + (if own (Link ev) then 1 else 0) =
     running_copy (ln_pc l Up) + running_copy (ln_pc l Down)"
proof -
  have split: "running_copy (f Up) + running_copy (f Down) = running_copy (f d) + running_copy (f (other d))" for f d
    by (cases d) auto
  note c = closed_fails [OF spec [OF assms(1)]]
  show ?thesis
  proof (cases ev)
    case (CopyReadFails d)
    then have "ln_pc l d = Reading" "ln_pc l' = (ln_pc l)(d := Ended (Some NetErrClosed))"
      using assms(2) c by (auto split: if_splits)
    then show ?thesis using CopyReadFails split [of "ln_pc l'" d] split [of "ln_pc l" d] by (simp add: own_def running_copy_def)
  next
    case (CopyWriteFails d k)
    then obtain bs where "ln_pc l d = Writing bs" "ln_pc l' = (ln_pc l)(d := Ended (Some NetErrClosed))"
      using assms(2) c by (auto simp: Let_def split: if_splits copy_pc.splits)
    then show ?thesis using CopyWriteFails split [of "ln_pc l'" d] split [of "ln_pc l" d] by (simp add: own_def running_copy_def)
  qed (use assms(2) c in \<open>auto simp: own_def Let_def split: if_splits copy_pc.splits\<close>)
qed

lemma torn_down_step:
  assumes "shuttle_inv bad s" "torn_down s" "\<forall>b. sh_main s \<noteq> Returned b" "shuttle_do bad ev s = Some t"
  shows "torn_down t \<and> todo t + (if own ev then 1 else 0) \<le> todo s"
proof -
  have closed: "\<forall>e. \<not> is_open (sh_links s) e" using torn_down_closed [OF assms(1-3)] by blast
  show ?thesis
  proof (cases ev)
    case (Link e)
    then obtain l where l: "link_do e (sh_links s) = Some l" "t = s\<lparr>sh_links := l, sh_done := sh_done s @ results e l\<rparr>"
      using assms(4) by (auto split: option.splits)
    then show ?thesis using link_todo [OF closed l(1)] assms(2) Link by (auto simp: todo_def torn_down_def)
  next
    case MainFirst
    then show ?thesis using assms(2,4) by (auto simp: torn_down_def split: main_pc.splits list.splits)
  next
    case MainSecond
    then show ?thesis using assms(4) by (auto simp: todo_def torn_down_def own_def split: main_pc.splits list.splits)
  next
    case MainTimer
    then show ?thesis using assms(4) by (auto simp: todo_def torn_down_def own_def split: main_pc.splits)
  qed
qed

lemma torn_down_progress:
  assumes "shuttle_inv bad s" "torn_down s" "\<forall>b. sh_main s \<noteq> Returned b"
  shows "\<exists>ev. own ev \<and> shuttle_do bad ev s \<noteq> None"
proof (cases "sh_done s")
  case (Cons r rest)
  then have "shuttle_do bad MainSecond s \<noteq> None"
    using assms(2,3) by (cases "sh_main s") (auto simp: torn_down_def split: prod.split)
  then show ?thesis by (intro exI [of _ MainSecond]) (simp add: own_def)
next
  case Nil
  obtain d err where m: "received (sh_main s) = [(d, err)]"
    using assms(2,3) by (cases "sh_main s") (auto simp: torn_down_def received_def)
  then have "reported [(d, err)] (sh_links s)"
    using assms(1) Nil by (cases "sh_main s") (auto simp: shuttle_inv_def reports_ok_def received_def Let_def)
  then have "(other d, r) \<in> set [(d, err)] \<longleftrightarrow> ln_pc (sh_links s) (other d) = Ended r" for r
    unfolding reported_def by blast
  then have "\<nexists>r. ln_pc (sh_links s) (other d) = Ended r" by simp
  moreover have c: "io_error (ln_conn (sh_links s) e) = Some NetErrClosed" "write_error (ln_conn (sh_links s) e) = Some NetErrClosed" for e
    using closed_fails torn_down_closed [OF assms] by blast+
  ultimately consider "ln_pc (sh_links s) (other d) = Reading" | bs where "ln_pc (sh_links s) (other d) = Writing bs"
    by (cases "ln_pc (sh_links s) (other d)") auto
  then show ?thesis
  proof cases
    case 1
    then show ?thesis using c by (intro exI [of _ "Link (CopyReadFails (other d))"]) (simp add: own_def)
  next
    case (2 bs)
    then have "bs \<noteq> []" using assms(1) by (auto simp: shuttle_inv_def link_inv_def)
    then show ?thesis using c 2 by (intro exI [of _ "Link (CopyWriteFails (other d) 0)"]) (simp add: own_def)
  qed
qed

fun shuttle_exec :: "(net_error option \<Rightarrow> bool) \<Rightarrow> shuttle_event list \<Rightarrow> shuttle \<Rightarrow> shuttle option" where
  "shuttle_exec bad [] s = Some s"
| "shuttle_exec bad (ev # evs) s = (case shuttle_do bad ev s of None \<Rightarrow> None | Some t \<Rightarrow> shuttle_exec bad evs t)"

lemma returned_steps:
  assumes "shuttle_inv bad s" "sh_main s = Returned b" "shuttle_do bad ev s = Some t"
  shows "\<not> own ev \<and> sh_main t = Returned b"
proof -
  have e: "\<forall>d. \<exists>err. ln_pc (sh_links s) d = Ended err" "sh_done s = []"
    using assms(1,2) by (simp_all add: shuttle_inv_def reports_ok_def Let_def)
  show ?thesis
  proof (cases ev)
    case (Link x)
    obtain r where "ln_pc (sh_links s) d = Ended (r d)" for d using e(1) by metis
    then show ?thesis using assms(2,3) Link by (cases x) (auto simp: own_def Let_def split: option.splits if_splits)
  qed (use assms(2,3) e(2) in auto)
qed

lemma returned_todo:
  assumes "shuttle_inv bad s" "sh_main s = Returned b"
  shows "todo s = 0"
proof -
  have e: "\<exists>err. ln_pc (sh_links s) d = Ended err" for d
    using assms by (simp add: shuttle_inv_def reports_ok_def Let_def)
  have "running_copy (ln_pc (sh_links s) d) = 0" for d using e [of d] by (auto simp: running_copy_def)
  then show ?thesis using assms(2) by (simp add: todo_def)
qed

lemma torn_down_run:
  assumes "shuttle_inv bad s" "torn_down s" "shuttle_exec bad evs s = Some t"
  shows "length (filter own evs) + todo t \<le> todo s \<and> torn_down t"
  using assms
proof (induction evs arbitrary: s)
  case (Cons ev evs)
  obtain u where u: "shuttle_do bad ev s = Some u" "shuttle_exec bad evs u = Some t"
    using Cons.prems(3) by (auto split: option.splits)
  have iu: "shuttle_inv bad u" using shuttle_step_inv [OF Cons.prems(1) u(1)] .
  show ?case
  proof (cases "\<exists>b. sh_main s = Returned b")
    case True
    then obtain b where b: "sh_main s = Returned b" by blast
    have r: "\<not> own ev" "sh_main u = Returned b" using returned_steps [OF Cons.prems(1) b u(1)] by auto
    have "todo u = 0" "todo s = 0" using returned_todo [OF iu r(2)] returned_todo [OF Cons.prems(1) b] .
    then show ?thesis using Cons.IH [OF iu _ u(2)] r by (simp add: torn_down_def)
  next
    case False
    then have "torn_down u" "todo u + (if own ev then 1 else 0) \<le> todo s"
      using torn_down_step [OF Cons.prems(1,2) _ u(1)] by blast+
    then show ?thesis using Cons.IH [OF iu _ u(2)] by (auto split: if_splits)
  qed
qed simp

lemma shuttle_exec_inv:
  assumes "shuttle_inv bad s" "shuttle_exec bad evs s = Some t"
  shows "shuttle_inv bad t"
  using assms
proof (induction evs arbitrary: s)
  case (Cons ev evs)
  then obtain u where u: "shuttle_do bad ev s = Some u" "shuttle_exec bad evs u = Some t" by (auto split: option.splits)
  show ?case using Cons.IH [OF shuttle_step_inv [OF Cons.prems(1) u(1)] u(2)] .
qed simp

section \<open>Properties\<close>

lemma unexpected_iff:
  "(\<exists>d err. ln_pc l d = Ended err \<and> isUnexpectedCopyErr err) =
     (\<exists>d e. ln_pc l d = Ended (Some e) \<and> e \<notin> {IoEOF, NetErrClosed, IoErrClosedPipe})"
proof
  assume "\<exists>d err. ln_pc l d = Ended err \<and> isUnexpectedCopyErr err"
  then obtain d err where d: "ln_pc l d = Ended err" "isUnexpectedCopyErr err" by (elim exE conjE)
  then obtain e where "err = Some e" "e \<notin> {IoEOF, NetErrClosed, IoErrClosedPipe}"
    by (cases err) (auto simp: isUnexpectedCopyErr_def isExpectedCopyErr_def)
  then show "\<exists>d e. ln_pc l d = Ended (Some e) \<and> e \<notin> {IoEOF, NetErrClosed, IoErrClosedPipe}" using d(1) by metis
next
  assume "\<exists>d e. ln_pc l d = Ended (Some e) \<and> e \<notin> {IoEOF, NetErrClosed, IoErrClosedPipe}"
  then obtain d e where d: "ln_pc l d = Ended (Some e)" "e \<notin> {IoEOF, NetErrClosed, IoErrClosedPipe}" by (elim exE conjE)
  have "isUnexpectedCopyErr (Some e)" using d(2) by (simp add: isUnexpectedCopyErr_def isExpectedCopyErr_def)
  then show "\<exists>d err. ln_pc l d = Ended err \<and> isUnexpectedCopyErr err" using d(1) by metis
qed

lemma outbound_shuttle_eq: "outbound_shuttleTCP = inbound_shuttleTCP"
  by (simp add: inbound_shuttleTCP_def outbound_shuttleTCP_def isCopyError_eq)

lemma shuttle_reach_inv:
  assumes "reach shuttle_start inbound_shuttleTCP s \<or> reach shuttle_start outbound_shuttleTCP s"
  shows "shuttle_inv isUnexpectedCopyErr s"
  using assms shuttle.invar_reach unfolding outbound_shuttle_eq by (auto simp: inbound_shuttleTCP_def)

text \<open>
  C7. The raw bridges deliver: under every interleaving of peers, copies, results and the drain timer, in the inbound
  and in the outbound \<open>shuttleTCP\<close>, each side has been given a prefix of what the other sent, the byte counts are
  exact, and a direction that ended cleanly has delivered everything. While the second direction is awaited after a
  clean first one its source and sink stay open, and on return an error is reported if and only if
  some direction ended with one that is neither EOF nor a local close.
\<close>

theorem shuttle_delivers:
  assumes "reach shuttle_start inbound_shuttleTCP s \<or> reach shuttle_start outbound_shuttleTCP s"
  shows "(\<forall>d. prefix (cn_out (ln_conn (sh_links s) (dst d))) (cn_sent (ln_conn (sh_links s) (src d))) \<and>
       ln_n (sh_links s) d = length (cn_out (ln_conn (sh_links s) (dst d))) \<and>
       (ln_pc (sh_links s) d = Ended None \<longrightarrow> cn_out (ln_conn (sh_links s) (dst d)) = cn_sent (ln_conn (sh_links s) (src d)))) \<and>
     (case sh_main s of
        AwaitSecond d None \<Rightarrow>
          is_open (sh_links s) (src d) \<and> \<not> cn_shut (ln_conn (sh_links s) (src d)) \<and>
          (cn_canHalf (ln_conn (sh_links s) (dst d)) \<longrightarrow> is_open (sh_links s) (dst d))
      | Returned b \<Rightarrow>
          (\<forall>d. \<exists>err. ln_pc (sh_links s) d = Ended err) \<and>
          (b \<longleftrightarrow> (\<exists>d e. ln_pc (sh_links s) d = Ended (Some e) \<and> e \<notin> {IoEOF, NetErrClosed, IoErrClosedPipe}))
      | _ \<Rightarrow> True)"
proof -
  have i: "shuttle_inv isUnexpectedCopyErr s" using shuttle_reach_inv [OF assms] .
  then have l: "link_inv (sh_links s)" "closing_ok s" "reports_ok isUnexpectedCopyErr s" by (simp_all add: shuttle_inv_def)
  have "case sh_main s of
        AwaitSecond d None \<Rightarrow>
          is_open (sh_links s) (src d) \<and> \<not> cn_shut (ln_conn (sh_links s) (src d)) \<and>
          (cn_canHalf (ln_conn (sh_links s) (dst d)) \<longrightarrow> is_open (sh_links s) (dst d))
      | Returned b \<Rightarrow>
          (\<forall>d. \<exists>err. ln_pc (sh_links s) d = Ended err) \<and>
          (b \<longleftrightarrow> (\<exists>d e. ln_pc (sh_links s) d = Ended (Some e) \<and> e \<notin> {IoEOF, NetErrClosed, IoErrClosedPipe}))
      | _ \<Rightarrow> True"
  proof (cases "sh_main s")
    case (AwaitSecond d err)
    then show ?thesis using l(2) by (cases err) (simp_all add: closing_ok_def Let_def split: if_splits)
  next
    case (Returned b)
    then have "\<forall>d. \<exists>err. ln_pc (sh_links s) d = Ended err"
        "b = (\<exists>d err. ln_pc (sh_links s) d = Ended err \<and> isUnexpectedCopyErr err)"
      using l(3) by (simp_all add: reports_ok_def Let_def)
    then show ?thesis unfolding Returned main_pc.case unexpected_iff by (rule conjI)
  qed simp_all
  then show ?thesis
    by (rule conjI [rotated]) (intro conjI allI impI link_inv_prefix [OF l(1)] link_inv_count [OF l(1)] link_inv_complete [OF l(1)])
qed

text \<open>
  C8. The bridge ends: once a direction has failed or the drain timer has fired, whatever the peers do, the handler
  takes at most four more steps of its own before \<open>shuttleTCP\<close> has returned, and until then it is never stuck; and
  while it waits for the second direction the timer can always fire.
\<close>

theorem shuttle_returns:
  assumes "reach shuttle_start inbound_shuttleTCP s \<or> reach shuttle_start outbound_shuttleTCP s"
    and "torn_down s" "shuttle_exec isUnexpectedCopyErr evs s = Some t"
  shows "length (filter own evs) \<le> 4 \<and> torn_down t \<and>
     ((\<exists>b. sh_main t = Returned b) \<or> (\<exists>ev. own ev \<and> shuttle_do isUnexpectedCopyErr ev t \<noteq> None)) \<and>
     (\<forall>u d err. sh_main u = AwaitSecond d err \<longrightarrow> (\<exists>v. shuttle_do isUnexpectedCopyErr MainTimer u = Some v \<and> torn_down v))"
proof -
  have i: "shuttle_inv isUnexpectedCopyErr s" using shuttle_reach_inv [OF assms(1)] .
  have it: "shuttle_inv isUnexpectedCopyErr t"
    using shuttle_exec_inv [OF i assms(3)] .
  have r: "length (filter own evs) + todo t \<le> todo s" "torn_down t" using torn_down_run [OF i assms(2,3)] by simp_all
  have "length (filter own evs) \<le> 4" using r(1) todo_bound [OF assms(2)] by linarith
  moreover have "(\<exists>b. sh_main t = Returned b) \<or> (\<exists>ev. own ev \<and> shuttle_do isUnexpectedCopyErr ev t \<noteq> None)"
    using torn_down_progress [OF it r(2)] by blast
  moreover have "\<exists>v. shuttle_do isUnexpectedCopyErr MainTimer u = Some v \<and> torn_down v" if "sh_main u = AwaitSecond d err" for u d err
    using that by (simp add: torn_down_def)
  ultimately show ?thesis using r(2) by blast
qed

section \<open>Witnesses\<close>

lemma shuttle_exec_reach:
  "shuttle_exec bad evs s = Some t \<Longrightarrow> reach shuttle_start (shuttle_step bad) s \<Longrightarrow> reach shuttle_start (shuttle_step bad) t"
proof (induction evs arbitrary: s)
  case (Cons ev evs)
  then obtain u where u: "shuttle_do bad ev s = Some u" "shuttle_exec bad evs u = Some t" by (auto split: option.splits)
  have "reach shuttle_start (shuttle_step bad) u" using Cons.prems(2) u(1) by (auto intro: reach_step shuttle_step.intros)
  then show ?case using Cons.IH u(2) by blast
qed simp

definition fresh_shuttle :: shuttle where
  "fresh_shuttle = \<lparr>sh_links = \<lparr>ln_conn = (\<lambda>_. fresh_conn True), ln_pc = (\<lambda>_. Reading), ln_n = (\<lambda>_. 0)\<rparr>, sh_done = [], sh_main = AwaitFirst\<rparr>"

text \<open>The client sends two bytes and finishes; the upstream answers nothing until the timer fires.\<close>

definition silent_upstream :: "shuttle_event list" where
  "silent_upstream = [Link (PeerSend ClientEnd ''hi''), Link (CopyRead Up 2), Link (CopyWrite Up), Link (PeerFin ClientEnd),
     Link (CopyEOF Up), MainFirst, MainTimer]"

lemma fresh_shuttle_reach: "reach shuttle_start (shuttle_step bad) fresh_shuttle"
  by (rule reach_start) (simp add: shuttle_start_def fresh_shuttle_def link_start_def fresh_conn_def)

lemma silent_run: "\<exists>t. shuttle_exec isUnexpectedCopyErr silent_upstream fresh_shuttle = Some t \<and> sh_main t = Forced Up None \<and>
    cn_out (ln_conn (sh_links t) UpstreamEnd) = ''hi'' \<and> sh_done t = [] \<and> ln_pc (sh_links t) Down = Reading \<and>
    cn_closed (ln_conn (sh_links t) UpstreamEnd)"
  by (simp add: silent_upstream_def fresh_shuttle_def fresh_conn_def io_error_def write_error_def results_def after_first_def
      halfCloseWrite_def close_both_def close_conn_def Let_def)

theorem shuttle_delivers_witness:
  "\<exists>s. reach shuttle_start outbound_shuttleTCP s \<and> sh_main s = Forced Up None \<and>
     prefix (cn_out (ln_conn (sh_links s) (dst Up))) (cn_sent (ln_conn (sh_links s) (src Up))) \<and>
     ln_n (sh_links s) Up = 2"
proof -
  obtain s where s: "shuttle_exec isUnexpectedCopyErr silent_upstream fresh_shuttle = Some s" "sh_main s = Forced Up None"
      "cn_out (ln_conn (sh_links s) UpstreamEnd) = ''hi''"
    using silent_run by blast
  have r: "reach shuttle_start outbound_shuttleTCP s"
    using shuttle_exec_reach [OF s(1) fresh_shuttle_reach] by (simp add: outbound_shuttle_eq inbound_shuttleTCP_def)
  have "prefix (cn_out (ln_conn (sh_links s) (dst Up))) (cn_sent (ln_conn (sh_links s) (src Up)))"
      "ln_n (sh_links s) Up = length (cn_out (ln_conn (sh_links s) (dst Up)))"
    using shuttle_delivers [OF disjI2 [OF r]] by blast+
  then show ?thesis using r s(2,3) by (intro exI [of _ s] conjI) simp_all
qed

theorem shuttle_returns_witness:
  "\<exists>s t. reach shuttle_start inbound_shuttleTCP s \<and> torn_down s \<and>
     shuttle_exec isUnexpectedCopyErr [Link (CopyReadFails Down), MainSecond] s = Some t \<and> torn_down t \<and> sh_main t = Returned False"
proof -
  obtain s where s: "shuttle_exec isUnexpectedCopyErr silent_upstream fresh_shuttle = Some s" "sh_main s = Forced Up None"
      "sh_done s = []" "ln_pc (sh_links s) Down = Reading" "cn_closed (ln_conn (sh_links s) UpstreamEnd)"
    using silent_run by blast
  have r: "reach shuttle_start inbound_shuttleTCP s"
    using shuttle_exec_reach [OF s(1) fresh_shuttle_reach] by (simp add: inbound_shuttleTCP_def)
  have t: "torn_down s" using s(2) by (simp add: torn_down_def)
  obtain u where u: "shuttle_exec isUnexpectedCopyErr [Link (CopyReadFails Down), MainSecond] s = Some u" "sh_main u = Returned False"
    using s(2-5) by (simp add: io_error_def results_def isUnexpectedCopyErr_def isExpectedCopyErr_def)
  show ?thesis using r t u shuttle_returns [OF disjI1 [OF r] t u(1)] by blast
qed

end
