(* ===== verification/Proxy.thy ===== *)
theory Proxy
  imports Shuttle
begin

text \<open>
  \<open>listener.proxy\<close> of \<open>internal/inbound/server.go\<close> and \<open>listener.tunnel\<close> of \<open>internal/outbound/server.go\<close>: the two copies of
  \<open>Duplex\<close>, each followed by its byte count and a half-close of its sink; the function returns when both are through.
  They differ in the errors they count: the inbound one counts unexpected copy errors, the outbound one none.
\<close>

section \<open>The two goroutines\<close>

record proxy =
  px_links :: links
  px_finished :: "direction \<Rightarrow> bool"
  px_bytes :: "direction \<Rightarrow> nat"
  px_errors :: nat

datatype proxy_event = PLink link_event | Finish direction

definition finish :: "(net_error option \<Rightarrow> bool) \<Rightarrow> direction \<Rightarrow> net_error option \<Rightarrow> proxy \<Rightarrow> proxy" where
  "finish bad d err p =
     (let l = px_links p in
      p\<lparr>px_bytes := (px_bytes p)(d := px_bytes p d + ln_n l d),
        px_errors := (if bad err then Suc (px_errors p) else px_errors p),
        px_links := set_conn (dst d) (halfCloseWrite (ln_conn l (dst d))) l,
        px_finished := (px_finished p)(d := True)\<rparr>)"

fun proxy_do :: "(net_error option \<Rightarrow> bool) \<Rightarrow> proxy_event \<Rightarrow> proxy \<Rightarrow> proxy option" where
  "proxy_do bad (PLink ev) p =
     (case link_do ev (px_links p) of None \<Rightarrow> None | Some l \<Rightarrow> Some (p\<lparr>px_links := l\<rparr>))"
| "proxy_do bad (Finish d) p =
     (case ln_pc (px_links p) d of
        Ended err \<Rightarrow> if px_finished p d then None else Some (finish bad d err p)
      | _ \<Rightarrow> None)"

inductive proxy_step :: "(net_error option \<Rightarrow> bool) \<Rightarrow> proxy \<Rightarrow> proxy \<Rightarrow> bool" for bad where
  "proxy_do bad ev p = Some q \<Longrightarrow> proxy_step bad p q"

inductive_cases proxy_stepE [elim!]: "proxy_step bad p q"

definition proxy_start :: "proxy \<Rightarrow> bool" where
  "proxy_start p \<longleftrightarrow> link_start (px_links p) \<and> px_finished p = (\<lambda>_. False) \<and> px_bytes p = (\<lambda>_. 0) \<and> px_errors p = 0"

text \<open>The function has returned.\<close>

definition proxy_done :: "proxy \<Rightarrow> bool" where
  "proxy_done p \<longleftrightarrow> (\<forall>d. px_finished p d)"

definition inbound_proxy :: "proxy \<Rightarrow> proxy \<Rightarrow> bool" where
  "inbound_proxy = proxy_step isUnexpectedCopyErr"

definition outbound_tunnel :: "proxy \<Rightarrow> proxy \<Rightarrow> bool" where
  "outbound_tunnel = proxy_step (\<lambda>_. False)"

section \<open>Invariant\<close>

text \<open>A sink is shut, or closed where it cannot be half-closed, exactly when its copy is through.\<close>

definition dir_ok :: "proxy \<Rightarrow> direction \<Rightarrow> bool" where
  "dir_ok p d \<longleftrightarrow>
     (let c = ln_conn (px_links p) (dst d) in
      (px_finished p d \<longrightarrow> (\<exists>err. ln_pc (px_links p) d = Ended err)) \<and>
      px_bytes p d = (if px_finished p d then ln_n (px_links p) d else 0) \<and>
      cn_shut c = (px_finished p d \<and> cn_canHalf c) \<and> cn_closed c = (px_finished p d \<and> \<not> cn_canHalf c))"

definition counted_error :: "(net_error option \<Rightarrow> bool) \<Rightarrow> proxy \<Rightarrow> direction \<Rightarrow> bool" where
  "counted_error bad p d \<longleftrightarrow> px_finished p d \<and> (\<exists>err. ln_pc (px_links p) d = Ended err \<and> bad err)"

definition proxy_inv :: "(net_error option \<Rightarrow> bool) \<Rightarrow> proxy \<Rightarrow> bool" where
  "proxy_inv bad p \<longleftrightarrow> link_inv (px_links p) \<and> (\<forall>d. dir_ok p d) \<and>
     px_errors p = length (filter (counted_error bad p) [Up, Down])"

lemma proxy_start_inv: "proxy_start p \<Longrightarrow> proxy_inv bad p"
  by (auto simp: proxy_start_def proxy_inv_def dir_ok_def counted_error_def link_start_inv link_start_def Let_def)

text \<open>An ended copy takes no further step.\<close>

lemma ended_stays:
  assumes "link_do ev l = Some l'" "ln_pc l d = Ended err"
  shows "ln_pc l' d = Ended err" "ln_n l' d = ln_n l d"
  using assms by (cases ev; auto simp: Let_def split: if_splits copy_pc.splits)+

lemma proxy_link_inv:
  assumes "proxy_inv bad p" "link_do ev (px_links p) = Some l"
  shows "proxy_inv bad (p\<lparr>px_links := l\<rparr>)"
proof -
  have i: "link_inv (px_links p)" "\<And>d. dir_ok p d" "px_errors p = length (filter (counted_error bad p) [Up, Down])"
    using assms(1) by (simp_all add: proxy_inv_def)
  note fl = link_do_flags [OF assms(2)]
  have same: "ln_pc l d = ln_pc (px_links p) d" "ln_n l d = ln_n (px_links p) d" if f: "px_finished p d" for d
  proof -
    obtain err where "ln_pc (px_links p) d = Ended err" using i(2) [of d] f by (auto simp: dir_ok_def Let_def)
    then show "ln_pc l d = ln_pc (px_links p) d" "ln_n l d = ln_n (px_links p) d" using ended_stays [OF assms(2)] by auto
  qed
  have "dir_ok (p\<lparr>px_links := l\<rparr>) d" for d
    using i(2) [of d] same [of d] fl by (cases "px_finished p d") (simp_all add: dir_ok_def Let_def)
  moreover have "counted_error bad (p\<lparr>px_links := l\<rparr>) = counted_error bad p"
    using same by (auto simp: counted_error_def fun_eq_iff)
  ultimately show ?thesis using link_do_inv [OF i(1) assms(2)] i(3) by (simp add: proxy_inv_def)
qed

lemma finish_inv:
  assumes "proxy_inv bad p" "ln_pc (px_links p) d = Ended err" "\<not> px_finished p d"
  shows "proxy_inv bad (finish bad d err p)"
proof -
  have i: "link_inv (px_links p)" "\<And>d. dir_ok p d" "px_errors p = length (filter (counted_error bad p) [Up, Down])"
    using assms(1) by (simp_all add: proxy_inv_def)
  have d': "d' = d \<or> d' = other d" for d' by (cases d; cases d') auto
  have "dir_ok (finish bad d err p) d"
    using i(2) [of d] assms(2,3) by (simp add: dir_ok_def finish_def halfCloseWrite_def close_conn_def Let_def)
  moreover have "dir_ok (finish bad d err p) (other d)"
    using i(2) [of "other d"] by (simp add: dir_ok_def finish_def Let_def)
  ultimately have ok: "dir_ok (finish bad d err p) d'" for d' using d' [of d'] by auto
  have c: "counted_error bad (finish bad d err p) = (counted_error bad p)(d := bad err)"
    using assms(2) by (auto simp: counted_error_def finish_def fun_eq_iff Let_def)
  have "\<not> counted_error bad p d" using assms(3) by (simp add: counted_error_def)
  then have "length (filter ((counted_error bad p)(d := bad err)) [Up, Down]) = px_errors p + (if bad err then 1 else 0)"
    unfolding i(3) by (cases d) simp_all
  then have "px_errors (finish bad d err p) = length (filter (counted_error bad (finish bad d err p)) [Up, Down])"
    unfolding c by (simp add: finish_def Let_def)
  moreover have "link_inv (px_links (finish bad d err p))"
    using half_close_inv [OF i(1) assms(2)] by (simp add: finish_def Let_def)
  ultimately show ?thesis using ok by (simp only: proxy_inv_def simp_thms)
qed

lemma proxy_step_inv:
  assumes "proxy_inv bad p" "proxy_do bad ev p = Some q"
  shows "proxy_inv bad q"
  using assms by (cases ev) (auto split: option.splits copy_pc.splits if_splits intro: proxy_link_inv finish_inv)

interpretation proxy: invariant_system proxy_start "proxy_step bad" "proxy_inv bad"
  by unfold_locales (auto simp: proxy_start_inv intro: proxy_step_inv)

section \<open>Property\<close>

text \<open>
  C6. The tunnels are transparent: in the inbound proxy and in the CONNECT tunnel, whatever the interleaving, each side has
  been given a prefix of what the other sent; a half-close never takes away the other direction: a connection that can
  be half-closed is never closed while the tunnel runs, and a sink is shut only once its copy has ended. When the
  function returns the bytes counted are the bytes delivered, and a direction that ended cleanly delivered all.
\<close>

theorem proxy_transparent:
  assumes "reach proxy_start inbound_proxy p \<or> reach proxy_start outbound_tunnel p"
  shows "(\<forall>d. prefix (cn_out (ln_conn (px_links p) (dst d))) (cn_sent (ln_conn (px_links p) (src d))) \<and>
       (ln_pc (px_links p) d = Ended None \<longrightarrow> cn_out (ln_conn (px_links p) (dst d)) = cn_sent (ln_conn (px_links p) (src d))) \<and>
       (cn_shut (ln_conn (px_links p) (dst d)) \<longrightarrow> (\<exists>err. ln_pc (px_links p) d = Ended err))) \<and>
     (\<forall>e. cn_canHalf (ln_conn (px_links p) e) \<longrightarrow> is_open (px_links p) e) \<and>
     (proxy_done p \<longrightarrow> (\<forall>d. px_bytes p d = length (cn_out (ln_conn (px_links p) (dst d)))))"
proof -
  obtain bad where i: "proxy_inv bad p"
    using assms proxy.invar_reach unfolding inbound_proxy_def outbound_tunnel_def by blast
  then have l: "link_inv (px_links p)"
    and f: "\<And>d. cn_shut (ln_conn (px_links p) (dst d)) \<Longrightarrow> \<exists>err. ln_pc (px_links p) d = Ended err"
      "\<And>d. cn_closed (ln_conn (px_links p) (dst d)) \<Longrightarrow> \<not> cn_canHalf (ln_conn (px_links p) (dst d))"
      "\<And>d. px_finished p d \<Longrightarrow> px_bytes p d = ln_n (px_links p) d"
    by (auto simp: proxy_inv_def dir_ok_def Let_def)
  have "is_open (px_links p) e" if "cn_canHalf (ln_conn (px_links p) e)" for e
  proof -
    obtain d where "e = dst d" using conn_end_of by (metis ends(2))
    then show ?thesis using f(2) that by (auto simp: is_open_def)
  qed
  moreover have "px_bytes p d = length (cn_out (ln_conn (px_links p) (dst d)))" if "proxy_done p" for d
    using that f(3) link_inv_count [OF l] by (simp add: proxy_done_def)
  ultimately show ?thesis using link_inv_prefix [OF l] link_inv_complete [OF l] f(1) by blast
qed

definition fresh_proxy :: proxy where
  "fresh_proxy = \<lparr>px_links = sh_links fresh_shuttle, px_finished = (\<lambda>_. False), px_bytes = (\<lambda>_. 0), px_errors = 0\<rparr>"

theorem proxy_transparent_witness:
  "\<exists>p. reach proxy_start inbound_proxy p \<and> ln_conn (px_links p) ClientEnd \<noteq> ln_conn (px_links fresh_proxy) ClientEnd \<and>
     prefix (cn_out (ln_conn (px_links p) (dst Up))) (cn_sent (ln_conn (px_links p) (src Up))) \<and>
     (\<forall>e. cn_canHalf (ln_conn (px_links p) e) \<longrightarrow> is_open (px_links p) e)"
proof -
  have s: "reach proxy_start inbound_proxy fresh_proxy"
    by (rule reach_start) (simp add: proxy_start_def fresh_proxy_def fresh_shuttle_def link_start_def fresh_conn_def)
  obtain q where q: "proxy_do isUnexpectedCopyErr (PLink (PeerSend ClientEnd ''hi'')) fresh_proxy = Some q"
      "cn_in (ln_conn (px_links q) ClientEnd) = ''hi''"
    by (simp add: fresh_proxy_def fresh_shuttle_def fresh_conn_def)
  have r: "reach proxy_start inbound_proxy q"
    using s unfolding inbound_proxy_def by (rule reach_step) (rule proxy_step.intros [OF q(1)])
  have "ln_conn (px_links q) ClientEnd \<noteq> ln_conn (px_links fresh_proxy) ClientEnd"
    using q(2) by (auto simp: fresh_proxy_def fresh_shuttle_def fresh_conn_def)
  then show ?thesis using r proxy_transparent [OF disjI1 [OF r]] by blast
qed

end
