(* ===== verification/RingBuffer.thy ===== *)
theory RingBuffer
  imports Prelude
begin

text \<open>
  \<open>internal/supervisor/buffer.go\<close>: the bounded queue of NDJSON frames between the producers and
  the log shipper. Every method runs under the buffer's mutex, so each is one atomic step;
  \<open>DrainTo\<close> is two such steps (\<open>take_frames\<close>, and \<open>requeueFront\<close> after a failed write) with the
  writes between them.

  The lemmas characterise the eviction loop (it drops the shortest prefix that brings the queue
  within budget), and the locale \<open>lossy_fifo\<close> states what the shipper relies on.
\<close>

section \<open>State and operations\<close>

record RingBuffer =
  rb_frames :: "bytes list"
  rb_bytes :: int
  rb_maxBytes :: int
  rb_maxRecords :: int
  rb_drops :: int

definition NewRingBuffer :: "int \<Rightarrow> int \<Rightarrow> RingBuffer" where
  "NewRingBuffer mb mr =
     \<lparr>rb_frames = [], rb_bytes = 0, rb_maxBytes = mb, rb_maxRecords = mr, rb_drops = 0\<rparr>"

definition overBudget :: "RingBuffer \<Rightarrow> bool" where
  "overBudget b =
     (if rb_maxRecords b > 0 \<and> int (length (rb_frames b)) > rb_maxRecords b then True
      else if rb_maxBytes b > 0 \<and> rb_bytes b > rb_maxBytes b then True
      else False)"

definition evict_one :: "RingBuffer \<Rightarrow> RingBuffer" where
  "evict_one b =
     b\<lparr>rb_frames := tl (rb_frames b), rb_bytes := rb_bytes b - int (length (hd (rb_frames b))),
       rb_drops := rb_drops b + 1\<rparr>"

function evict :: "RingBuffer \<Rightarrow> RingBuffer" where
  "evict b = (if rb_frames b \<noteq> [] \<and> overBudget b then evict (evict_one b) else b)"
  by pat_completeness auto
termination
  by (relation "measure (\<lambda>b. length (rb_frames b))") (auto simp: evict_one_def)

declare evict.simps [simp del]

definition Enqueue :: "bytes \<Rightarrow> RingBuffer \<Rightarrow> RingBuffer" where
  "Enqueue f b =
     evict (b\<lparr>rb_frames := rb_frames b @ [f], rb_bytes := rb_bytes b + int (length f)\<rparr>)"

definition take_frames :: "RingBuffer \<Rightarrow> bytes list \<times> RingBuffer" where
  "take_frames b = (rb_frames b, b\<lparr>rb_frames := [], rb_bytes := 0\<rparr>)"

definition frames_size :: "bytes list \<Rightarrow> int" where
  "frames_size fs = foldl (\<lambda>sz f. sz + int (length f)) 0 fs"

definition requeueFront :: "bytes list \<Rightarrow> RingBuffer \<Rightarrow> RingBuffer" where
  "requeueFront unwritten b =
     evict (b\<lparr>rb_frames := unwritten @ rb_frames b, rb_bytes := rb_bytes b + frames_size unwritten\<rparr>)"

text \<open>
  The write loop of \<open>DrainTo\<close>. A writer is a function of its own state that accepts a frame or
  fails; the result is the frames written and, on failure, the unwritten rest from the failed
  frame on.
\<close>

fun write_frames ::
  "('w \<Rightarrow> bytes \<Rightarrow> 'w \<times> bool) \<Rightarrow> 'w \<Rightarrow> bytes list \<Rightarrow> 'w \<times> bytes list \<times> bytes list" where
  "write_frames wr w [] = (w, [], [])"
| "write_frames wr w (f # fs) =
     (case wr w f of
        (w', False) \<Rightarrow> (w', [], f # fs)
      | (w', True) \<Rightarrow>
          (case write_frames wr w' fs of (w'', sent, rest) \<Rightarrow> (w'', f # sent, rest)))"

text \<open>
  \<open>DrainTo\<close> with the frames the producers enqueue while it writes without the lock. The result
  is the writer's state, the frames written (the code returns their number), whether a write
  failed, and the buffer.
\<close>

definition DrainTo ::
  "('w \<Rightarrow> bytes \<Rightarrow> 'w \<times> bool) \<Rightarrow> 'w \<Rightarrow> bytes list \<Rightarrow> RingBuffer
     \<Rightarrow> 'w \<times> bytes list \<times> bool \<times> RingBuffer" where
  "DrainTo wr w meanwhile b =
     (let (frames, b1) = take_frames b;
          (w', written, unwritten) = write_frames wr w frames;
          b2 = fold Enqueue meanwhile b1
      in if unwritten \<noteq> [] then (w', written, True, requeueFront unwritten b2)
         else (w', written, False, b2))"

definition TakeDrops :: "RingBuffer \<Rightarrow> int \<times> RingBuffer" where
  "TakeDrops b = (rb_drops b, b\<lparr>rb_drops := 0\<rparr>)"

definition Drops :: "RingBuffer \<Rightarrow> int" where
  "Drops b = rb_drops b"

definition Len :: "RingBuffer \<Rightarrow> int" where
  "Len b = int (length (rb_frames b))"

section \<open>The budget and the invariant\<close>

definition fits :: "int \<Rightarrow> int \<Rightarrow> bytes list \<Rightarrow> bool" where
  "fits mb mr fs \<longleftrightarrow> (mr \<le> 0 \<or> int (length fs) \<le> mr) \<and>
     (mb \<le> 0 \<or> (\<Sum>f\<leftarrow>fs. int (length f)) \<le> mb)"

definition counted :: "RingBuffer \<Rightarrow> bool" where
  "counted b \<longleftrightarrow> rb_bytes b = (\<Sum>f\<leftarrow>rb_frames b. int (length f)) \<and> 0 \<le> rb_drops b"

definition rb_inv :: "RingBuffer \<Rightarrow> bool" where
  "rb_inv b \<longleftrightarrow> counted b \<and> fits (rb_maxBytes b) (rb_maxRecords b) (rb_frames b)"

lemmas [inv_defs] = rb_inv_def counted_def

lemma frames_size_eq: "frames_size fs = (\<Sum>f\<leftarrow>fs. int (length f))"
proof -
  have "foldl (\<lambda>sz f. sz + int (length f)) n fs = n + (\<Sum>f\<leftarrow>fs. int (length f))" for n
    by (induction fs arbitrary: n) auto
  then show ?thesis by (simp add: frames_size_def)
qed

lemma fits_Nil [simp]: "fits mb mr []"
  by (auto simp: fits_def)

lemma overBudget_iff: "counted b \<Longrightarrow> overBudget b \<longleftrightarrow> \<not> fits (rb_maxBytes b) (rb_maxRecords b) (rb_frames b)"
  by (auto simp: overBudget_def fits_def counted_def)

lemma sum_length_nonneg: "0 \<le> (\<Sum>f\<leftarrow>(fs :: bytes list). int (length f))"
  by (induction fs) auto

lemma fits_drop: "fits mb mr fs \<Longrightarrow> fits mb mr (drop k fs)"
proof -
  have "(\<Sum>f\<leftarrow>drop k fs. int (length f)) \<le> (\<Sum>f\<leftarrow>fs. int (length f))"
    using sum_length_nonneg [of "take k fs"]
    by (subst (2) append_take_drop_id [of k fs, symmetric]) (simp only: map_append sum_list_append)
  then show "fits mb mr fs \<Longrightarrow> fits mb mr (drop k fs)" by (auto simp: fits_def)
qed

text \<open>The frames a trim drops: the least number that leaves a queue within budget.\<close>

definition overflow :: "int \<Rightarrow> int \<Rightarrow> bytes list \<Rightarrow> nat" where
  "overflow mb mr fs = length (takeWhile (\<lambda>k. \<not> fits mb mr (drop k fs)) [0..<length fs])"

lemma overflow_Cons:
  "overflow mb mr (f # fs) = (if fits mb mr (f # fs) then 0 else Suc (overflow mb mr fs))"
proof -
  have "[0..<length (f # fs)] = 0 # map Suc [0..<length fs]" by (simp add: map_Suc_upt upt_conv_Cons del: upt_Suc)
  then show ?thesis by (simp add: overflow_def takeWhile_map comp_def del: upt_Suc)
qed

lemma overflow_Nil [simp]: "overflow mb mr [] = 0"
  by (simp add: overflow_def)

lemma overflow_le: "overflow mb mr fs \<le> length fs"
  by (induction fs) (auto simp: overflow_Cons)

lemma overflow_fits: "fits mb mr (drop (overflow mb mr fs) fs)"
  by (induction fs) (auto simp: overflow_Cons)

lemma overflow_least: "k < overflow mb mr fs \<Longrightarrow> \<not> fits mb mr (drop k fs)"
proof (induction fs arbitrary: k)
  case (Cons f fs)
  then show ?case by (cases k) (auto simp: overflow_Cons split: if_splits)
qed simp

lemma overflow_0: "fits mb mr fs \<Longrightarrow> overflow mb mr fs = 0"
  using overflow_least [of 0 mb mr fs] by (cases "overflow mb mr fs") auto

text \<open>The eviction loop drops exactly these.\<close>

lemma evict_eq:
  "counted b \<Longrightarrow>
   evict b = (let k = overflow (rb_maxBytes b) (rb_maxRecords b) (rb_frames b) in
     b\<lparr>rb_frames := drop k (rb_frames b),
       rb_bytes := (\<Sum>f\<leftarrow>drop k (rb_frames b). int (length f)),
       rb_drops := rb_drops b + int k\<rparr>)"
proof (induction b rule: evict.induct)
  case (1 b)
  show ?case
  proof (cases "rb_frames b \<noteq> [] \<and> overBudget b")
    case True
    then obtain f fs where f: "rb_frames b = f # fs" by (cases "rb_frames b") auto
    have c: "counted (evict_one b)" using 1(2) f by (simp add: counted_def evict_one_def)
    have "overflow (rb_maxBytes b) (rb_maxRecords b) (f # fs)
        = Suc (overflow (rb_maxBytes b) (rb_maxRecords b) fs)"
      using True overBudget_iff [OF 1(2)] f by (simp add: overflow_Cons)
    then show ?thesis
      using 1(1) [OF True c] True f by (subst evict.simps) (simp add: evict_one_def Let_def)
  next
    case False
    then have "overflow (rb_maxBytes b) (rb_maxRecords b) (rb_frames b) = 0"
      using overBudget_iff [OF 1(2)] overflow_0 by (cases "rb_frames b") auto
    then show ?thesis using False 1(2) by (subst evict.simps) (auto simp: Let_def counted_def)
  qed
qed

lemma evict_inv: "counted b \<Longrightarrow> rb_inv (evict b)"
  using overflow_fits
  by (auto simp: evict_eq Let_def rb_inv_def counted_def)

lemma evict_fields:
  assumes "counted b"
  defines "k \<equiv> overflow (rb_maxBytes b) (rb_maxRecords b) (rb_frames b)"
  shows "rb_frames (evict b) = drop k (rb_frames b)" "rb_drops (evict b) = rb_drops b + int k"
    "rb_maxBytes (evict b) = rb_maxBytes b" "rb_maxRecords (evict b) = rb_maxRecords b"
  using assms by (simp_all add: evict_eq Let_def)

section \<open>The contract the shipper relies on\<close>

text \<open>
  A queue that loses items only from its front and counts what it loses. \<open>grab\<close> empties it,
  \<open>putback\<close> returns items to its front, \<open>reset\<close> hands over the loss count.
\<close>

locale lossy_fifo =
  fixes inv :: "'b \<Rightarrow> bool"
    and items :: "'b \<Rightarrow> 'f list"
    and lost :: "'b \<Rightarrow> int"
    and enq :: "'f \<Rightarrow> 'b \<Rightarrow> 'b"
    and grab :: "'b \<Rightarrow> 'f list \<times> 'b"
    and putback :: "'f list \<Rightarrow> 'b \<Rightarrow> 'b"
    and reset :: "'b \<Rightarrow> int \<times> 'b"
  assumes lost_nonneg: "inv b \<Longrightarrow> 0 \<le> lost b"
    and enq_inv: "inv b \<Longrightarrow> inv (enq f b)"
    and enq_law: "inv b \<Longrightarrow> \<exists>k \<le> length (items b @ [f]).
        items (enq f b) = drop k (items b @ [f]) \<and> lost (enq f b) = lost b + int k"
    and putback_inv: "inv b \<Longrightarrow> inv (putback fs b)"
    and putback_law: "inv b \<Longrightarrow> \<exists>k \<le> length (fs @ items b).
        items (putback fs b) = drop k (fs @ items b) \<and> lost (putback fs b) = lost b + int k"
    and grab_law: "\<lbrakk>inv b; grab b = (fs, b')\<rbrakk> \<Longrightarrow>
        fs = items b \<and> items b' = [] \<and> lost b' = lost b \<and> inv b'"
    and reset_law: "\<lbrakk>inv b; reset b = (n, b')\<rbrakk> \<Longrightarrow>
        n = lost b \<and> lost b' = 0 \<and> items b' = items b \<and> inv b'"
begin

lemma enq_count:
  "inv b \<Longrightarrow> int (length (items (enq f b))) + lost (enq f b) = int (length (items b)) + 1 + lost b"
  using enq_law [of b f] by auto

lemma enq_subseq: "inv b \<Longrightarrow> subseq (items (enq f b)) (items b @ [f])"
  using enq_law [of b f] suffix_drop [THEN suffix_imp_subseq] by metis

lemma putback_count:
  "inv b \<Longrightarrow> int (length (items (putback fs b))) + lost (putback fs b)
     = int (length fs) + int (length (items b)) + lost b"
  using putback_law [of b fs] by auto

lemma putback_subseq: "inv b \<Longrightarrow> subseq (items (putback fs b)) (fs @ items b)"
  using putback_law [of b fs] suffix_drop [THEN suffix_imp_subseq] by metis

text \<open>A run of enqueues keeps a suffix of everything offered, and counts the rest.\<close>

lemma enqs_law:
  "inv b \<Longrightarrow> inv (fold enq fs b) \<and> (\<exists>k \<le> length (items b @ fs).
     items (fold enq fs b) = drop k (items b @ fs) \<and> lost (fold enq fs b) = lost b + int k)"
proof (induction fs arbitrary: b)
  case Nil
  then show ?case by (auto intro!: exI [of _ 0])
next
  case (Cons f fs)
  obtain k where k: "k \<le> length (items b @ [f])" "items (enq f b) = drop k (items b @ [f])"
      "lost (enq f b) = lost b + int k"
    using enq_law [OF Cons.prems] by blast
  obtain l where l: "l \<le> length (items (enq f b) @ fs)"
      "items (fold enq fs (enq f b)) = drop l (items (enq f b) @ fs)"
      "lost (fold enq fs (enq f b)) = lost (enq f b) + int l"
    using Cons.IH [OF enq_inv [OF Cons.prems]] by blast
  have "drop l (drop k (items b @ [f]) @ fs) = drop (k + l) (items b @ f # fs)"
  proof -
    have "drop k (items b @ [f]) @ fs = drop k (items b @ f # fs)"
      using k(1) drop_append [of k "items b @ [f]" fs] by (simp del: drop_append)
    then show ?thesis by (simp only: drop_drop add.commute)
  qed
  then show ?case
    using Cons.IH [OF enq_inv [OF Cons.prems]] k l by (intro conjI exI [of _ "k + l"]) auto
qed

end

lemma counted_push: "counted b \<Longrightarrow>
    counted (b\<lparr>rb_frames := rb_frames b @ [f], rb_bytes := rb_bytes b + int (length f)\<rparr>)"
  by (simp add: counted_def)

lemma counted_unshift: "counted b \<Longrightarrow>
    counted (b\<lparr>rb_frames := fs @ rb_frames b, rb_bytes := rb_bytes b + frames_size fs\<rparr>)"
  by (simp add: counted_def frames_size_eq)

lemma rb_inv_counted: "rb_inv b \<Longrightarrow> counted b"
  by (simp add: rb_inv_def)

lemmas Enqueue_fields = evict_fields [OF counted_push, folded Enqueue_def]
lemmas requeueFront_fields = evict_fields [OF counted_unshift, folded requeueFront_def]

interpretation rb: lossy_fifo rb_inv rb_frames rb_drops Enqueue take_frames requeueFront TakeDrops
proof
  fix b :: RingBuffer and f :: bytes and fs
  assume inv: "rb_inv b"
  then have c: "counted b" by (rule rb_inv_counted)
  show "0 \<le> rb_drops b" using inv by (simp add: inv_defs)
  show "rb_inv (Enqueue f b)"
    unfolding Enqueue_def using c by (intro evict_inv counted_push)
  show "rb_inv (requeueFront fs b)"
    unfolding requeueFront_def using c by (intro evict_inv counted_unshift)
  show "\<exists>k \<le> length (rb_frames b @ [f]). rb_frames (Enqueue f b) = drop k (rb_frames b @ [f]) \<and>
      rb_drops (Enqueue f b) = rb_drops b + int k"
    using Enqueue_fields(1,2) [OF c, of f] overflow_le by fastforce
  show "\<exists>k \<le> length (fs @ rb_frames b). rb_frames (requeueFront fs b) = drop k (fs @ rb_frames b) \<and>
      rb_drops (requeueFront fs b) = rb_drops b + int k"
    using requeueFront_fields(1,2) [OF c, of fs] overflow_le by fastforce
qed (auto simp: take_frames_def TakeDrops_def inv_defs)

lemma Enqueue_budget [simp]:
  "rb_inv b \<Longrightarrow> rb_maxBytes (Enqueue f b) = rb_maxBytes b"
  "rb_inv b \<Longrightarrow> rb_maxRecords (Enqueue f b) = rb_maxRecords b"
  using Enqueue_fields(3,4) [of b f] by (simp_all add: rb_inv_counted)

section \<open>Properties\<close>

lemma rb_inv_New: "rb_inv (NewRingBuffer mb mr)"
  by (simp add: NewRingBuffer_def inv_defs)

text \<open>
  \<open>Enqueue\<close> drops oldest whole frames only, and no more than needed: after it the queue is
  the old queue with the new frame behind it, minus the shortest prefix whose removal meets both
  budgets; the drop count grows by the length of that prefix; and the byte counter still is the
  number of bytes queued.
\<close>

theorem Enqueue_drops_oldest:
  assumes "rb_inv b"
  shows "\<exists>k. rb_frames (Enqueue f b) = drop k (rb_frames b @ [f]) \<and>
     rb_drops (Enqueue f b) = rb_drops b + int k \<and> k \<le> Suc (length (rb_frames b)) \<and>
     fits (rb_maxBytes b) (rb_maxRecords b) (rb_frames (Enqueue f b)) \<and>
     (\<forall>j < k. \<not> fits (rb_maxBytes b) (rb_maxRecords b) (drop j (rb_frames b @ [f]))) \<and>
     rb_bytes (Enqueue f b) = (\<Sum>g\<leftarrow>rb_frames (Enqueue f b). int (length g))"
proof -
  let ?k = "overflow (rb_maxBytes b) (rb_maxRecords b) (rb_frames b @ [f])"
  have inv: "rb_inv (Enqueue f b)" using assms by (rule rb.enq_inv)
  then have "rb_bytes (Enqueue f b) = (\<Sum>g\<leftarrow>rb_frames (Enqueue f b). int (length g))"
    "fits (rb_maxBytes b) (rb_maxRecords b) (rb_frames (Enqueue f b))"
    using assms by (simp_all add: rb_inv_def counted_def)
  then show ?thesis
    using Enqueue_fields(1,2) [OF rb_inv_counted [OF assms], of f] overflow_least
      overflow_le [of "rb_maxBytes b" "rb_maxRecords b" "rb_frames b @ [f]"]
    by (intro exI [of _ ?k]) (auto simp del: drop_append)
qed

definition sample_buffer :: RingBuffer where
  "sample_buffer = \<lparr>rb_frames = [''abc'', ''de''], rb_bytes = 5, rb_maxBytes = 6, rb_maxRecords = 0, rb_drops = 2\<rparr>"

lemmas rb_eval = sample_buffer_def Enqueue_def evict.simps evict_one_def overBudget_def
  rb_inv_def counted_def fits_def

theorem Enqueue_drops_oldest_witness:
  "rb_inv sample_buffer \<and> rb_frames (Enqueue ''xyz'' sample_buffer) = [''de'', ''xyz''] \<and>
   (\<exists>k. rb_frames (Enqueue ''xyz'' sample_buffer) = drop k [''abc'', ''de'', ''xyz''] \<and>
        rb_drops (Enqueue ''xyz'' sample_buffer) = 2 + int k)"
proof -
  have "rb_inv sample_buffer" "rb_frames (Enqueue ''xyz'' sample_buffer) = [''de'', ''xyz'']"
    by (simp_all add: rb_eval)
  with Enqueue_drops_oldest [OF this(1), of "''xyz''"] show ?thesis
    by (auto simp: sample_buffer_def)
qed

text \<open>The write loop splits the frames it was given and stops at the first failure.\<close>

lemma write_frames_split:
  "write_frames wr w fs = (w', sent, rest) \<Longrightarrow> fs = sent @ rest"
  by (induction fs arbitrary: w sent) (auto split: prod.splits bool.splits)

text \<open>
  \<open>DrainTo\<close> loses nothing silently and keeps the order: the frames written are a prefix of the
  queue; the frames left are, in order, what was not written followed by what the producers
  queued meanwhile, less what the budget forced out; and every frame is written, still queued or
  counted as dropped.
\<close>

theorem DrainTo_conserves:
  assumes "rb_inv b"
    and "DrainTo wr w meanwhile b = (w', written, failed, b')"
  shows "\<exists>unwritten. rb_frames b = written @ unwritten \<and> (failed \<longleftrightarrow> unwritten \<noteq> []) \<and>
     subseq (rb_frames b') (unwritten @ meanwhile) \<and>
     int (length (rb_frames b)) + int (length meanwhile) + rb_drops b
       = int (length written) + int (length (rb_frames b')) + rb_drops b' \<and>
     rb_inv b'"
proof -
  define b1 where "b1 = snd (take_frames b)"
  have b1: "rb_inv b1" "rb_frames b1 = []" "rb_drops b1 = rb_drops b" "take_frames b = (rb_frames b, b1)"
    using rb.grab_law [OF assms(1), of "rb_frames b" b1] by (auto simp: b1_def take_frames_def)
  define b2 where "b2 = fold Enqueue meanwhile b1"
  obtain k where b2: "rb_inv b2" "k \<le> length meanwhile" "rb_frames b2 = drop k meanwhile"
      "rb_drops b2 = rb_drops b + int k"
    using rb.enqs_law [OF b1(1), of meanwhile] b1 by (auto simp: b2_def)
  obtain unwritten where w: "write_frames wr w (rb_frames b) = (w', written, unwritten)"
      "failed \<longleftrightarrow> unwritten \<noteq> []" "b' = (if unwritten \<noteq> [] then requeueFront unwritten b2 else b2)"
    using assms(2) b1(4) by (auto simp: DrainTo_def b2_def Let_def split: prod.splits if_splits)
  have sub: "subseq (rb_frames b2) meanwhile"
    using b2(3) suffix_drop [THEN suffix_imp_subseq] by metis
  then have "subseq (unwritten @ rb_frames b2) (unwritten @ meanwhile)"
    by (rule list_emb_append_mono [rotated]) simp
  with w(3) have "subseq (rb_frames b') (unwritten @ meanwhile)"
    using rb.putback_subseq [OF b2(1), of unwritten] sub
    by (auto intro: subseq_order.order_trans)
  moreover have "rb_frames b = written @ unwritten" using write_frames_split [OF w(1)] .
  moreover have "rb_inv b'" using w(3) b2(1) rb.putback_inv by auto
  ultimately show ?thesis
    using w(2,3) b2 rb.putback_count [OF b2(1), of unwritten] by (intro exI [of _ unwritten]) auto
qed

definition two_writes :: "nat \<Rightarrow> bytes \<Rightarrow> nat \<times> bool" where
  "two_writes n f = (n + 1, n < 1)"

theorem DrainTo_conserves_witness:
  "rb_inv sample_buffer \<and>
   DrainTo two_writes 0 [''uvw'', ''q''] sample_buffer =
     (2, [''abc''], True, sample_buffer\<lparr>rb_frames := [''de'', ''uvw'', ''q''], rb_bytes := 6\<rparr>) \<and>
   (\<exists>unwritten. [''abc'', ''de''] = ''abc'' # unwritten \<and> subseq [''de'', ''uvw'', ''q''] (unwritten @ [''uvw'', ''q'']))"
proof -
  have i: "rb_inv sample_buffer" by (simp add: rb_eval)
  have d: "DrainTo two_writes 0 [''uvw'', ''q''] sample_buffer =
     (2, [''abc''], True, sample_buffer\<lparr>rb_frames := [''de'', ''uvw'', ''q''], rb_bytes := 6\<rparr>)"
  proof -
    let ?b = "sample_buffer\<lparr>rb_frames := [], rb_bytes := 0\<rparr>"
    have "fold Enqueue [''uvw'', ''q''] ?b = ?b\<lparr>rb_frames := [''uvw'', ''q''], rb_bytes := 4\<rparr>"
      by (simp add: rb_eval)
    moreover have "requeueFront [''de''] (?b\<lparr>rb_frames := [''uvw'', ''q''], rb_bytes := 4\<rparr>) =
        sample_buffer\<lparr>rb_frames := [''de'', ''uvw'', ''q''], rb_bytes := 6\<rparr>"
      by (simp add: requeueFront_def frames_size_def rb_eval)
    moreover have "take_frames sample_buffer = ([''abc'', ''de''], ?b)"
      by (simp add: take_frames_def sample_buffer_def)
    moreover have "write_frames two_writes 0 [''abc'', ''de''] = (2, [''abc''], [''de''])"
      by (simp add: two_writes_def)
    ultimately show ?thesis by (simp only: DrainTo_def Let_def prod.case) simp
  qed
  from DrainTo_conserves [OF i d] i d show ?thesis by (auto simp: sample_buffer_def)
qed

end
