(* ===== verification/Shipper.thy ===== *)
theory Shipper
  imports RingBuffer
begin

text \<open>
  \<open>internal/supervisor/shipper.go\<close>: the goroutine that ships the ring buffer over vsock, the
  producers that feed it and the \<open>Flush\<close> that waits for it at shutdown. The three run
  concurrently, so the model is a state machine whose steps are the critical sections and the I/O
  calls of the code; \<open>ship_do\<close> gives the effect of each event, and \<open>ship_step\<close> interleaves them
  freely. What the network does (a dial or a write succeeds or fails, a timer fires) is part of the
  event.

  Two fields record history and are read by no step: \<open>sh_enqueued\<close>, every frame the producers
  offered, and \<open>sh_sent\<close>, what the connections accepted.
\<close>

section \<open>Configuration and back-off\<close>

record ShipperConfig =
  sc_CID :: uint32
  sc_Port :: uint32
  sc_PID :: int
  sc_MinBackoff :: int
  sc_MaxBackoff :: int
  sc_DrainInterval :: int

definition millisecond :: int where "millisecond = 1000000"

definition defaultMinBackoff :: int where "defaultMinBackoff = 100 * millisecond"
definition defaultMaxBackoff :: int where "defaultMaxBackoff = 5 * 1000 * millisecond"
definition defaultDrainInterval :: int where "defaultDrainInterval = 100 * millisecond"

definition shipper_defaults :: "ShipperConfig \<Rightarrow> ShipperConfig" where
  "shipper_defaults c0 =
     (let c1 = if sc_MinBackoff c0 \<le> 0 then c0\<lparr>sc_MinBackoff := defaultMinBackoff\<rparr> else c0;
          c2 = if sc_MaxBackoff c1 < sc_MinBackoff c1 then c1\<lparr>sc_MaxBackoff := defaultMaxBackoff\<rparr> else c1;
          c3 = if sc_MaxBackoff c2 < sc_MinBackoff c2 then c2\<lparr>sc_MaxBackoff := sc_MinBackoff c2\<rparr> else c2
      in if sc_DrainInterval c3 \<le> 0 then c3\<lparr>sc_DrainInterval := defaultDrainInterval\<rparr> else c3)"

definition nextBackoff :: "ShipperConfig \<Rightarrow> int \<Rightarrow> int" where
  "nextBackoff cfg cur =
     (if cur \<le> 0 then sc_MinBackoff cfg
      else let n = int64_wrap (cur * 2) in
        if n > sc_MaxBackoff cfg then sc_MaxBackoff cfg else n)"

section \<open>State\<close>

text \<open>What the parent receives: a drop record (\<open>Framer.Drop\<close> with the count) or a frame.\<close>

datatype out_rec = DropRec int | Frame bytes

text \<open>
  The program counter of \<open>Run\<close>, inside \<open>Run\<close> itself, \<open>serve\<close> (\<open>Serving\<close>, \<open>Waiting\<close>),
  \<open>drainOnce\<close> (\<open>D_\<close>) and \<open>DrainTo\<close> (\<open>D_grab\<close>, \<open>D_write\<close>, \<open>D_requeue\<close>).
\<close>

datatype run_pc =
    Top | Sleeping | Dial | Serving
  | D_take | D_record int | D_clear | D_grab | D_write "bytes list" | D_requeue "bytes list"
  | D_exit bool
  | Waiting | Returned

datatype flush_pc = F_off | F_notify | F_busy | F_len | F_drops | F_wait | F_idle | F_deadline

record Shipper =
  sh_cfg :: ShipperConfig
  sh_buf :: RingBuffer
  sh_pendingDrops :: int
  sh_draining :: bool
  sh_wake :: bool
  sh_backoff :: int
  sh_cancelled :: bool
  sh_pc :: run_pc
  sh_flush :: flush_pc
  sh_enqueued :: "bytes list"
  sh_sent :: "out_rec list"

definition NewShipper :: "RingBuffer \<Rightarrow> ShipperConfig \<Rightarrow> Shipper" where
  "NewShipper buf cfg =
     \<lparr>sh_cfg = shipper_defaults cfg, sh_buf = buf, sh_pendingDrops = 0, sh_draining = False,
      sh_wake = False, sh_backoff = 0, sh_cancelled = False, sh_pc = Top, sh_flush = F_off,
      sh_enqueued = [], sh_sent = []\<rparr>"

section \<open>Steps\<close>

datatype ship_event =
    Ev_enqueue bytes   \<comment> \<open>a producer's \<open>buf.Enqueue\<close>\<close>
  | Ev_notify          \<comment> \<open>its \<open>notify\<close>\<close>
  | Ev_cancel          \<comment> \<open>the context of \<open>Run\<close> is cancelled\<close>
  | Ev_go              \<comment> \<open>\<open>Run\<close> proceeds; a dial or a write it makes succeeds\<close>
  | Ev_fail            \<comment> \<open>the dial or write fails\<close>
  | Ev_done            \<comment> \<open>\<open>Run\<close> sees its context cancelled\<close>
  | Ev_wake            \<comment> \<open>\<open>Run\<close> takes the wake-up\<close>
  | Ev_timer           \<comment> \<open>\<open>Run\<close>'s timer fires\<close>
  | Ev_flush           \<comment> \<open>\<open>Flush\<close> is called, or proceeds\<close>
  | Ev_flush_deadline  \<comment> \<open>\<open>Flush\<close>'s context is done\<close>

definition notify :: "Shipper \<Rightarrow> Shipper" where
  "notify s = s\<lparr>sh_wake := True\<rparr>"

definition Run_step :: "ship_event \<Rightarrow> Shipper \<Rightarrow> Shipper option" where
  "Run_step e s =
     (case sh_pc s of
        Top \<Rightarrow>
          if e = Ev_go then
            if sh_cancelled s then Some (s\<lparr>sh_pc := Returned\<rparr>)
            else if sh_backoff s > 0 then Some (s\<lparr>sh_pc := Sleeping\<rparr>)
            else Some (s\<lparr>sh_pc := Dial\<rparr>)
          else None
      | Sleeping \<Rightarrow>
          if e = Ev_done \<and> sh_cancelled s then Some (s\<lparr>sh_pc := Returned\<rparr>)
          else if e = Ev_timer then Some (s\<lparr>sh_pc := Dial\<rparr>)
          else None
      | Dial \<Rightarrow>
          if e = Ev_fail then
            Some (s\<lparr>sh_backoff := nextBackoff (sh_cfg s) (sh_backoff s), sh_pc := Top\<rparr>)
          else if e = Ev_go then
            Some (s\<lparr>sh_backoff := sc_MinBackoff (sh_cfg s), sh_pc := Serving\<rparr>)
          else None
      | _ \<Rightarrow> None)"

definition serve_step :: "ship_event \<Rightarrow> Shipper \<Rightarrow> Shipper option" where
  "serve_step e s =
     (case sh_pc s of
        Waiting \<Rightarrow>
          if e = Ev_done \<and> sh_cancelled s then Some (s\<lparr>sh_pc := Top\<rparr>)
          else if e = Ev_wake \<and> sh_wake s then Some (s\<lparr>sh_wake := False, sh_pc := Serving\<rparr>)
          else if e = Ev_timer then Some (s\<lparr>sh_pc := Serving\<rparr>)
          else None
      | _ \<Rightarrow> None)"

definition drainOnce_step :: "ship_event \<Rightarrow> Shipper \<Rightarrow> Shipper option" where
  "drainOnce_step e s =
     (case sh_pc s of
        Serving \<Rightarrow> if e = Ev_go then Some (s\<lparr>sh_draining := True, sh_pc := D_take\<rparr>) else None
      | D_take \<Rightarrow>
          if e = Ev_go then
            (case TakeDrops (sh_buf s) of (n, buf) \<Rightarrow>
               let pending = sh_pendingDrops s + n in
               Some (s\<lparr>sh_buf := buf, sh_pendingDrops := pending,
                      sh_pc := (if pending > 0 then D_record pending else D_grab)\<rparr>))
          else None
      | D_record n \<Rightarrow>
          if e = Ev_go then Some (s\<lparr>sh_sent := sh_sent s @ [DropRec n], sh_pc := D_clear\<rparr>)
          else if e = Ev_fail then Some (s\<lparr>sh_pc := D_exit True\<rparr>)
          else None
      | D_clear \<Rightarrow> if e = Ev_go then Some (s\<lparr>sh_pendingDrops := 0, sh_pc := D_grab\<rparr>) else None
      | D_exit err \<Rightarrow>
          if e = Ev_go then
            Some (s\<lparr>sh_draining := False, sh_pc := (if err then Top else Waiting)\<rparr>)
          else None
      | _ \<Rightarrow> None)"

definition DrainTo_step :: "ship_event \<Rightarrow> Shipper \<Rightarrow> Shipper option" where
  "DrainTo_step e s =
     (case sh_pc s of
        D_grab \<Rightarrow>
          if e = Ev_go then
            (case take_frames (sh_buf s) of (frames, buf) \<Rightarrow>
               Some (s\<lparr>sh_buf := buf, sh_pc := D_write frames\<rparr>))
          else None
      | D_write frames \<Rightarrow>
          (case frames of
             [] \<Rightarrow> if e = Ev_go then Some (s\<lparr>sh_pc := D_exit False\<rparr>) else None
           | f # fs \<Rightarrow>
               if e = Ev_go then Some (s\<lparr>sh_sent := sh_sent s @ [Frame f], sh_pc := D_write fs\<rparr>)
               else if e = Ev_fail then Some (s\<lparr>sh_pc := D_requeue (f # fs)\<rparr>)
               else None)
      | D_requeue fs \<Rightarrow>
          if e = Ev_go then
            Some (s\<lparr>sh_buf := requeueFront fs (sh_buf s), sh_pc := D_exit True\<rparr>)
          else None
      | _ \<Rightarrow> None)"

text \<open>
  \<open>Flush\<close>, with \<open>idle\<close> as the three separate critical sections it is: the shipper's own lock
  (\<open>F_busy\<close>), then \<open>buf.Len\<close>, then \<open>buf.Drops\<close>.
\<close>

definition idle_step :: "Shipper \<Rightarrow> flush_pc" where
  "idle_step s =
     (case sh_flush s of
        F_busy \<Rightarrow> if sh_draining s \<or> sh_pendingDrops s > 0 then F_wait else F_len
      | F_len \<Rightarrow> if Len (sh_buf s) = 0 then F_drops else F_wait
      | F_drops \<Rightarrow> if Drops (sh_buf s) = 0 then F_idle else F_wait
      | pc \<Rightarrow> pc)"

definition Flush_step :: "ship_event \<Rightarrow> Shipper \<Rightarrow> Shipper option" where
  "Flush_step e s =
     (if e = Ev_flush then
        (case sh_flush s of
           F_off \<Rightarrow> Some (s\<lparr>sh_flush := F_notify\<rparr>)
         | F_notify \<Rightarrow> Some ((notify s)\<lparr>sh_flush := F_busy\<rparr>)
         | F_wait \<Rightarrow> Some (s\<lparr>sh_flush := F_notify\<rparr>)
         | F_idle \<Rightarrow> None
         | F_deadline \<Rightarrow> None
         | _ \<Rightarrow> Some (s\<lparr>sh_flush := idle_step s\<rparr>))
      else if e = Ev_flush_deadline \<and> sh_flush s = F_wait then Some (s\<lparr>sh_flush := F_deadline\<rparr>)
      else None)"

fun first_some :: "'a option list \<Rightarrow> 'a option" where
  "first_some [] = None"
| "first_some (x # xs) = (case x of None \<Rightarrow> first_some xs | Some v \<Rightarrow> Some v)"

definition Enqueue_ship :: "bytes \<Rightarrow> Shipper \<Rightarrow> Shipper" where
  "Enqueue_ship f s = s\<lparr>sh_buf := Enqueue f (sh_buf s), sh_enqueued := sh_enqueued s @ [f]\<rparr>"

definition ship_do :: "ship_event \<Rightarrow> Shipper \<Rightarrow> Shipper option" where
  "ship_do e s =
     (case e of
        Ev_enqueue f \<Rightarrow> Some (Enqueue_ship f s)
      | Ev_notify \<Rightarrow> Some (notify s)
      | Ev_cancel \<Rightarrow> Some (s\<lparr>sh_cancelled := True\<rparr>)
      | _ \<Rightarrow> first_some [Run_step e s, serve_step e s, drainOnce_step e s, DrainTo_step e s,
               Flush_step e s])"

inductive ship_step :: "Shipper \<Rightarrow> Shipper \<Rightarrow> bool" where
  ship_event [sys_intros]: "ship_do e s = Some t \<Longrightarrow> ship_step s t"

inductive_cases ship_stepE: "ship_step s t"

definition ship_start :: "Shipper \<Rightarrow> bool" where
  "ship_start s \<longleftrightarrow> (\<exists>mb mr cfg. s = NewShipper (NewRingBuffer mb mr) cfg)"

abbreviation ship_reach :: "Shipper \<Rightarrow> bool" where
  "ship_reach \<equiv> reach ship_start ship_step"

fun ship_exec :: "ship_event list \<Rightarrow> Shipper \<Rightarrow> Shipper option" where
  "ship_exec [] s = Some s"
| "ship_exec (e # es) s = (case ship_do e s of None \<Rightarrow> None | Some t \<Rightarrow> ship_exec es t)"

lemma ship_exec_reach: "ship_exec es s = Some t \<Longrightarrow> ship_reach s \<Longrightarrow> ship_reach t"
  by (induction es arbitrary: s) (auto split: option.splits intro: sys_intros)

lemma ship_exec_steps: "ship_exec es s = Some t \<Longrightarrow> ship_step\<^sup>*\<^sup>* s t"
proof (induction es arbitrary: s)
  case (Cons e es)
  then obtain u where "ship_do e s = Some u" "ship_exec es u = Some t" by (auto split: option.splits)
  then show ?case using Cons.IH by (auto intro: sys_intros converse_rtranclp_into_rtranclp)
qed simp

section \<open>Back-off\<close>

lemma shipper_defaults_ok:
  "0 < sc_MinBackoff (shipper_defaults c)" "sc_MinBackoff (shipper_defaults c) \<le> sc_MaxBackoff (shipper_defaults c)"
  "0 < sc_DrainInterval (shipper_defaults c)"
  by (auto simp: shipper_defaults_def Let_def defaultMinBackoff_def defaultMaxBackoff_def
      defaultDrainInterval_def millisecond_def)

lemma nextBackoff_bounds:
  assumes "0 < sc_MinBackoff cfg" "sc_MinBackoff cfg \<le> sc_MaxBackoff cfg" "sc_MaxBackoff cfg < 2 ^ 62"
    and "cur = 0 \<or> (sc_MinBackoff cfg \<le> cur \<and> cur \<le> sc_MaxBackoff cfg)"
  shows "nextBackoff cfg cur = (if cur = 0 then sc_MinBackoff cfg else min (cur * 2) (sc_MaxBackoff cfg))"
proof -
  have "int64_wrap (cur * 2) = cur * 2" if "cur \<noteq> 0"
    using assms that by (intro int64_wrap_id) auto
  then show ?thesis using assms by (auto simp: nextBackoff_def Let_def)
qed

text \<open>
  The reconnect back-off is exponential and clamped: after \<open>n + 1\<close> failed dials in a row the
  wait is \<open>MinBackoff * 2 ^ n\<close>, or \<open>MaxBackoff\<close> if that is less, whatever configuration
  \<open>NewShipper\<close> was given, as long as \<open>MaxBackoff\<close> is below \<open>2 ^ 62\<close> nanoseconds (so that doubling
  cannot wrap a 64-bit duration).
\<close>

theorem backoff_exponential:
  assumes "sc_MaxBackoff (shipper_defaults c) < 2 ^ 62"
  defines "cfg \<equiv> shipper_defaults c"
  shows "(nextBackoff cfg ^^ Suc n) 0 = min (sc_MinBackoff cfg * 2 ^ n) (sc_MaxBackoff cfg)"
proof (induction n)
  case 0
  then show ?case using shipper_defaults_ok [of c] by (simp add: cfg_def nextBackoff_def)
next
  case (Suc n)
  let ?mn = "sc_MinBackoff cfg" and ?mx = "sc_MaxBackoff cfg"
  let ?cur = "min (?mn * 2 ^ n) ?mx"
  have cfg: "0 < ?mn" "?mn \<le> ?mx" "?mx < 2 ^ 62"
    using shipper_defaults_ok [of c] assms(1) by (simp_all add: cfg_def)
  then have "1 * ?mn \<le> 2 ^ n * ?mn" by (intro mult_right_mono) auto
  then have cur: "?mn \<le> ?cur" "?cur \<le> ?mx" using cfg by (auto simp: mult.commute)
  have "(nextBackoff cfg ^^ Suc (Suc n)) 0 = nextBackoff cfg ?cur" using Suc by simp
  also have "\<dots> = min (?cur * 2) ?mx"
    using nextBackoff_bounds [of cfg ?cur] cfg cur by auto
  also have "\<dots> = min (?mn * 2 ^ Suc n) ?mx" using cfg by (auto simp: min_def)
  finally show ?case .
qed

definition sample_ship_cfg :: ShipperConfig where
  "sample_ship_cfg = \<lparr>sc_CID = 3, sc_Port = 9000, sc_PID = 1, sc_MinBackoff = 0, sc_MaxBackoff = 0, sc_DrainInterval = 0\<rparr>"

theorem backoff_exponential_witness:
  "sc_MaxBackoff (shipper_defaults sample_ship_cfg) < 2 ^ 62 \<and>
   (nextBackoff (shipper_defaults sample_ship_cfg) ^^ Suc 3) 0 = 800000000"
proof -
  have "sc_MaxBackoff (shipper_defaults sample_ship_cfg) = 5000000000"
    "sc_MinBackoff (shipper_defaults sample_ship_cfg) = 100000000"
    by (simp_all add: shipper_defaults_def sample_ship_cfg_def defaultMaxBackoff_def
        defaultMinBackoff_def millisecond_def defaultDrainInterval_def)
  with backoff_exponential [of sample_ship_cfg 3] show ?thesis by simp
qed

section \<open>Accounting\<close>

fun delivered :: "out_rec list \<Rightarrow> bytes list" where
  "delivered [] = []"
| "delivered (Frame f # xs) = f # delivered xs"
| "delivered (DropRec n # xs) = delivered xs"

fun reported :: "out_rec list \<Rightarrow> int" where
  "reported [] = 0"
| "reported (Frame f # xs) = reported xs"
| "reported (DropRec n # xs) = n + reported xs"

lemma delivered_append [simp]: "delivered (xs @ ys) = delivered xs @ delivered ys"
  by (induction xs rule: delivered.induct) auto

lemma reported_append [simp]: "reported (xs @ ys) = reported xs + reported ys"
  by (induction xs rule: reported.induct) auto

text \<open>Frames taken from the buffer and not yet written or put back.\<close>

definition inflight :: "run_pc \<Rightarrow> bytes list" where
  "inflight pc = (case pc of D_write fs \<Rightarrow> fs | D_requeue fs \<Rightarrow> fs | _ \<Rightarrow> [])"

text \<open>Drops not covered by a drop record: at \<open>D_clear\<close> the record is out, the counter not yet reset.\<close>

definition unreported :: "Shipper \<Rightarrow> int" where
  "unreported s = (if sh_pc s = D_clear then 0 else sh_pendingDrops s) + rb_drops (sh_buf s)"

definition in_drain :: "run_pc \<Rightarrow> bool" where
  "in_drain pc = (case pc of D_take \<Rightarrow> True | D_record _ \<Rightarrow> True | D_clear \<Rightarrow> True | D_grab \<Rightarrow> True
     | D_write _ \<Rightarrow> True | D_requeue _ \<Rightarrow> True | D_exit _ \<Rightarrow> True | _ \<Rightarrow> False)"

definition order_inv :: "Shipper \<Rightarrow> bool" where
  "order_inv s \<longleftrightarrow>
     subseq (delivered (sh_sent s) @ inflight (sh_pc s) @ rb_frames (sh_buf s)) (sh_enqueued s)"

definition count_inv :: "Shipper \<Rightarrow> bool" where
  "count_inv s \<longleftrightarrow>
     int (length (sh_enqueued s)) = int (length (delivered (sh_sent s)))
       + int (length (inflight (sh_pc s))) + int (length (rb_frames (sh_buf s)))
       + reported (sh_sent s) + unreported s"

definition ctl_inv :: "Shipper \<Rightarrow> bool" where
  "ctl_inv s \<longleftrightarrow> rb_inv (sh_buf s) \<and> 0 \<le> sh_pendingDrops s \<and> sh_draining s = in_drain (sh_pc s) \<and>
     (\<forall>n. sh_pc s = D_record n \<longrightarrow> n = sh_pendingDrops s \<and> 0 < n)"

definition ship_inv :: "Shipper \<Rightarrow> bool" where
  "ship_inv s \<longleftrightarrow> ctl_inv s \<and> order_inv s \<and> count_inv s"

lemmas ship_inv_defs = ship_inv_def ctl_inv_def order_inv_def count_inv_def inflight_def
  unreported_def in_drain_def

text \<open>The invariant looks at six fields.\<close>

lemma ship_inv_cong:
  "\<lbrakk>sh_buf t = sh_buf s; sh_pendingDrops t = sh_pendingDrops s; sh_draining t = sh_draining s;
    sh_pc t = sh_pc s; sh_enqueued t = sh_enqueued s; sh_sent t = sh_sent s\<rbrakk> \<Longrightarrow> ship_inv t = ship_inv s"
  by (simp add: ship_inv_def ctl_inv_def order_inv_def count_inv_def unreported_def)

lemma Run_step_inv: "Run_step e s = Some t \<Longrightarrow> ship_inv s \<Longrightarrow> ship_inv t"
  by (cases "sh_pc s") (auto simp: Run_step_def ship_inv_defs split: if_splits)

lemma serve_step_inv: "serve_step e s = Some t \<Longrightarrow> ship_inv s \<Longrightarrow> ship_inv t"
  by (cases "sh_pc s") (auto simp: serve_step_def ship_inv_defs split: if_splits)

lemma drainOnce_step_inv: "drainOnce_step e s = Some t \<Longrightarrow> ship_inv s \<Longrightarrow> ship_inv t"
  by (cases "sh_pc s")
    (auto simp: drainOnce_step_def ship_inv_defs TakeDrops_def Let_def rb_inv_def counted_def
      split: if_splits)

lemma subseq_tail: "subseq xs ys \<Longrightarrow> subseq (zs @ ys) as \<Longrightarrow> subseq (zs @ xs) as"
  by (meson list_emb_append_mono subseq_order.order_refl subseq_order.order_trans)

lemma DrainTo_step_inv:
  assumes st: "DrainTo_step e s = Some t" and inv: "ship_inv s"
  shows "ship_inv t"
proof -
  have rb: "rb_inv (sh_buf s)" using inv by (simp add: ship_inv_defs)
  show ?thesis
  proof (cases "sh_pc s")
    case D_grab
    then show ?thesis
      using st inv rb.grab_law [OF rb, of "rb_frames (sh_buf s)" "snd (take_frames (sh_buf s))"]
      by (auto simp: DrainTo_step_def ship_inv_defs take_frames_def split: if_splits)
  next
    case (D_write fs)
    then show ?thesis
      using st inv by (auto simp: DrainTo_step_def ship_inv_defs split: if_splits list.splits)
  next
    case (D_requeue fs)
    then have t: "t = s\<lparr>sh_buf := requeueFront fs (sh_buf s), sh_pc := D_exit True\<rparr>"
      using st by (simp add: DrainTo_step_def split: if_splits)
    show ?thesis
      using inv D_requeue rb.putback_inv [OF rb, of fs] rb.putback_count [OF rb, of fs]
        subseq_tail [OF rb.putback_subseq [OF rb, of fs]]
      by (simp add: t ship_inv_defs)
  qed (use st in \<open>simp_all add: DrainTo_step_def\<close>)
qed

lemma Flush_step_frame:
  "Flush_step e s = Some t \<Longrightarrow>
     sh_buf t = sh_buf s \<and> sh_pendingDrops t = sh_pendingDrops s \<and> sh_draining t = sh_draining s \<and>
     sh_pc t = sh_pc s \<and> sh_enqueued t = sh_enqueued s \<and> sh_sent t = sh_sent s"
  by (auto simp: Flush_step_def notify_def split: if_splits flush_pc.splits)

lemma Flush_step_inv: "Flush_step e s = Some t \<Longrightarrow> ship_inv s \<Longrightarrow> ship_inv t"
  using Flush_step_frame [of e s t] ship_inv_cong [of t s] by simp

lemma Enqueue_ship_inv:
  assumes "ship_inv s"
  shows "ship_inv (Enqueue_ship f s)"
proof -
  have rb: "rb_inv (sh_buf s)" using assms by (simp add: ship_inv_defs)
  let ?p = "delivered (sh_sent s) @ inflight (sh_pc s)"
  have "subseq (?p @ rb_frames (sh_buf s) @ [f]) (sh_enqueued s @ [f])"
    using assms by (simp add: ship_inv_def order_inv_def list_emb_append_mono flip: append_assoc)
  then have "subseq (?p @ rb_frames (Enqueue f (sh_buf s))) (sh_enqueued s @ [f])"
    by (rule subseq_tail [OF rb.enq_subseq [OF rb]])
  then show ?thesis
    using assms rb.enq_inv [OF rb, of f] rb.enq_count [OF rb, of f]
    by (simp add: ship_inv_def ctl_inv_def order_inv_def count_inv_def unreported_def Enqueue_ship_def)
qed

lemma ship_do_cases:
  assumes "ship_do e s = Some t"
  obtains (enq) f where "e = Ev_enqueue f" "t = Enqueue_ship f s"
    | (notified) "t = notify s"
    | (cancel) "t = s\<lparr>sh_cancelled := True\<rparr>"
    | (run) "Run_step e s = Some t"
    | (srv) "serve_step e s = Some t"
    | (drain) "drainOnce_step e s = Some t"
    | (drainto) "DrainTo_step e s = Some t"
    | (flush) "Flush_step e s = Some t"
  using assms by (cases e) (auto simp: ship_do_def split: option.splits)

lemma ship_do_inv:
  assumes "ship_do e s = Some t" and inv: "ship_inv s"
  shows "ship_inv t"
  using assms(1)
proof (cases rule: ship_do_cases)
  case notified
  then show ?thesis using inv ship_inv_cong [of t s] by (simp add: notify_def)
next
  case cancel
  then show ?thesis using inv ship_inv_cong [of t s] by simp
qed (use inv in \<open>blast intro: Enqueue_ship_inv Run_step_inv serve_step_inv drainOnce_step_inv
      DrainTo_step_inv Flush_step_inv\<close>)+

lemma ship_start_inv: "ship_start s \<Longrightarrow> ship_inv s"
  using rb_inv_New
  by (auto simp: ship_start_def NewShipper_def ship_inv_defs) (simp_all add: NewRingBuffer_def)

interpretation shipping: invariant_system ship_start ship_step ship_inv
  by unfold_locales (auto intro: ship_start_inv ship_do_inv elim: ship_stepE)

lemmas ship_eval = ship_do_def Run_step_def serve_step_def drainOnce_step_def DrainTo_step_def
  Flush_step_def idle_step_def notify_def Enqueue_ship_def

definition sample_shipper :: Shipper where
  "sample_shipper = NewShipper (NewRingBuffer 0 1) sample_ship_cfg"

lemma sample_shipper_start: "ship_reach sample_shipper"
  by (rule reach_start) (auto simp: ship_start_def sample_shipper_def)

lemmas sample_ship_eval = ship_eval sample_shipper_def NewShipper_def NewRingBuffer_def TakeDrops_def
  take_frames_def Len_def Drops_def Let_def

text \<open>One frame in a queue of one record: the second frame pushes the first out.\<close>

lemma Enqueue_room: "rb_frames b = [] \<Longrightarrow> rb_maxRecords b = 1 \<Longrightarrow> rb_maxBytes b = 0 \<Longrightarrow>
    Enqueue f b = b\<lparr>rb_frames := [f], rb_bytes := rb_bytes b + int (length f)\<rparr>"
  by (simp add: Enqueue_def evict.simps overBudget_def)

lemma Enqueue_full: "rb_frames b = [g] \<Longrightarrow> rb_maxRecords b = 1 \<Longrightarrow> rb_maxBytes b = 0 \<Longrightarrow>
    Enqueue f b = b\<lparr>rb_frames := [f], rb_bytes := rb_bytes b + int (length f) - int (length g),
      rb_drops := rb_drops b + 1\<rparr>"
  by (simp add: Enqueue_def evict.simps evict_one_def overBudget_def)

text \<open>
  C31. Loss accounting of the shipper, under every interleaving of producers, drain cycles,
  reconnects and flushes: the frames the connections accepted, then those in flight, then those
  queued are the offered frames in the order they were offered, some missing; and the number
  missing is exactly the sum of the drop records sent plus the drops still to be reported. No frame
  is lost without being counted, none is counted twice, none is sent twice.
\<close>

theorem shipper_accounts:
  assumes "ship_reach s"
  shows "subseq (delivered (sh_sent s) @ inflight (sh_pc s) @ rb_frames (sh_buf s)) (sh_enqueued s) \<and>
     int (length (sh_enqueued s)) =
       int (length (delivered (sh_sent s))) + int (length (inflight (sh_pc s)))
       + int (length (rb_frames (sh_buf s))) + reported (sh_sent s) + unreported s \<and>
     0 \<le> unreported s"
proof -
  have "ship_inv s" using assms by (rule shipping.invar_reach)
  then show ?thesis
    using rb.lost_nonneg [of "sh_buf s"]
    by (simp add: ship_inv_def ctl_inv_def order_inv_def count_inv_def unreported_def)
qed

definition overflow_trace :: "ship_event list" where
  "overflow_trace = [Ev_enqueue ''a'', Ev_enqueue ''b'', Ev_go, Ev_go, Ev_go, Ev_go, Ev_go, Ev_go, Ev_go]"

lemma overflow_trace_exec:
  "\<exists>t. ship_exec overflow_trace sample_shipper = Some t \<and>
     sh_sent t = [DropRec 1] \<and> sh_pc t = D_write [''b''] \<and> sh_enqueued t = [''a'', ''b''] \<and>
     rb_frames (sh_buf t) = [] \<and> rb_drops (sh_buf t) = 0"
  by (simp add: overflow_trace_def sample_ship_eval Enqueue_room Enqueue_full)

theorem shipper_accounts_witness:
  "\<exists>s. ship_reach s \<and> sh_sent s = [DropRec 1] \<and> sh_enqueued s = [''a'', ''b''] \<and>
     subseq [''b''] [''a'', ''b''] \<and> (2 :: int) = 0 + 1 + 0 + 1 + unreported s"
proof -
  obtain t where t: "ship_exec overflow_trace sample_shipper = Some t"
     "sh_sent t = [DropRec 1]" "sh_pc t = D_write [''b'']" "sh_enqueued t = [''a'', ''b'']"
     "rb_frames (sh_buf t) = []" "rb_drops (sh_buf t) = 0"
    using overflow_trace_exec by blast
  have "ship_reach t" using ship_exec_reach [OF t(1) sample_shipper_start] .
  with shipper_accounts [OF this] t show ?thesis by (intro exI [of _ t]) (simp add: inflight_def)
qed

text \<open>
  What \<open>idle\<close> is for: in a state where its whole condition holds at once (no drain cycle runs, no
  drops are pending, the queue is empty and its drop counter is zero) every frame offered so far
  was accepted by a connection or is covered by a drop record that was.
\<close>

theorem idle_state_complete:
  assumes "ship_reach s"
    and "\<not> sh_draining s" "sh_pendingDrops s = 0" "Len (sh_buf s) = 0" "Drops (sh_buf s) = 0"
  shows "subseq (delivered (sh_sent s)) (sh_enqueued s) \<and>
     int (length (sh_enqueued s)) = int (length (delivered (sh_sent s))) + reported (sh_sent s)"
proof -
  have inv: "ship_inv s" using assms(1) by (rule shipping.invar_reach)
  then have "inflight (sh_pc s) = []" "sh_pc s \<noteq> D_clear"
    using assms(2) by (auto simp: ship_inv_def ctl_inv_def in_drain_def inflight_def split: run_pc.splits)
  then show ?thesis
    using inv assms(3-5)
    by (simp add: ship_inv_def order_inv_def count_inv_def unreported_def Len_def Drops_def)
qed

lemma idle_trace_exec:
  "\<exists>t. ship_exec (overflow_trace @ [Ev_go, Ev_go, Ev_go]) sample_shipper = Some t \<and>
     sh_sent t = [DropRec 1, Frame ''b''] \<and> \<not> sh_draining t \<and> sh_pendingDrops t = 0 \<and>
     Len (sh_buf t) = 0 \<and> Drops (sh_buf t) = 0 \<and> sh_enqueued t = [''a'', ''b'']"
  by (simp add: overflow_trace_def sample_ship_eval Enqueue_room Enqueue_full)

theorem idle_state_complete_witness:
  "\<exists>s. ship_reach s \<and> \<not> sh_draining s \<and> sh_sent s = [DropRec 1, Frame ''b''] \<and>
     subseq [''b''] (sh_enqueued s) \<and> int (length (sh_enqueued s)) = 1 + 1"
proof -
  obtain t where t: "ship_exec (overflow_trace @ [Ev_go, Ev_go, Ev_go]) sample_shipper = Some t"
     "sh_sent t = [DropRec 1, Frame ''b'']" "\<not> sh_draining t" "sh_pendingDrops t = 0"
     "Len (sh_buf t) = 0" "Drops (sh_buf t) = 0"
    using idle_trace_exec by blast
  have "ship_reach t" using ship_exec_reach [OF t(1) sample_shipper_start] .
  with idle_state_complete [OF this t(3-6)] t show ?thesis by (intro exI [of _ t]) simp
qed

text \<open>The condition \<open>idle\<close> stands for, and the states a sequence of events passes through.\<close>

definition quiescent :: "Shipper \<Rightarrow> bool" where
  "quiescent s \<longleftrightarrow> \<not> sh_draining s \<and> sh_pendingDrops s = 0 \<and> Len (sh_buf s) = 0 \<and> Drops (sh_buf s) = 0"

fun ship_states :: "ship_event list \<Rightarrow> Shipper \<Rightarrow> Shipper list" where
  "ship_states [] s = [s]"
| "ship_states (e # es) s = s # (case ship_do e s of None \<Rightarrow> [] | Some t \<Rightarrow> ship_states es t)"

text \<open>
  C36. \<open>idle\<close> does not observe its condition at once, and \<open>Flush\<close> can return early: there is a reachable state with
  one frame in the queue and \<open>Flush\<close> not yet called, from which \<open>Flush\<close> concludes that the shipper is idle, with nothing
  enqueued in between and no failing dial or write, while that frame is still in flight, neither delivered nor
  reported, although the condition \<open>idle\<close> stands for did not hold at any moment of the call. (The drain cycle starts
  after \<open>idle\<close> read \<open>draining\<close> and takes the frame before it reads the length.)
\<close>

theorem Flush_returns_early:
  "\<exists>s es t. ship_reach s \<and> sh_flush s = F_off \<and> rb_frames (sh_buf s) = [''a''] \<and> sh_enqueued s = [''a''] \<and>
     set es \<subseteq> {Ev_go, Ev_flush} \<and> ship_exec es s = Some t \<and> list_all (\<lambda>u. \<not> quiescent u) (ship_states es s) \<and>
     sh_flush t = F_idle \<and> inflight (sh_pc t) = [''a''] \<and> sh_sent t = []"
proof -
  let ?pre = "[Ev_go, Ev_go, Ev_enqueue ''a'']"
  let ?es = "[Ev_flush, Ev_flush, Ev_flush, Ev_go, Ev_go, Ev_go, Ev_flush, Ev_flush]"
  obtain s where s: "ship_exec ?pre sample_shipper = Some s" "sh_flush s = F_off" "rb_frames (sh_buf s) = [''a'']"
      "sh_enqueued s = [''a'']" "sh_sent s = []" "\<not> sh_draining s" "sh_pc s = Serving" "sh_pendingDrops s = 0" "rb_drops (sh_buf s) = 0"
    by (simp add: sample_ship_eval Enqueue_room)
  then have "ship_reach s" using sample_shipper_start ship_exec_reach by blast
  moreover have "\<exists>t. ship_exec ?es s = Some t \<and> sh_flush t = F_idle \<and> inflight (sh_pc t) = [''a''] \<and> sh_sent t = []"
    by (simp add: ship_eval TakeDrops_def take_frames_def inflight_def Len_def Drops_def s(2-))
  moreover have "list_all (\<lambda>u. \<not> quiescent u) (ship_states ?es s)"
    by (simp add: ship_eval TakeDrops_def take_frames_def quiescent_def Len_def Drops_def s(2-))
  moreover have "set ?es \<subseteq> {Ev_go, Ev_flush}" by simp
  ultimately show ?thesis using s(2-4) by blast
qed

text \<open>
  A drop record can follow frames that were offered after the dropped one: when the overflow
  happens between \<open>TakeDrops\<close> and \<open>DrainTo\<close> of a cycle, the surviving frame goes out first and the
  record in the next cycle. The count is right (see the accounting theorem); the position is not
  where the gap occurred.
\<close>

theorem drop_record_after_gap:
  "\<exists>s. ship_reach s \<and> sh_enqueued s = [''a'', ''b''] \<and> sh_sent s = [Frame ''b'', DropRec 1]"
proof -
  let ?tr = "[Ev_go, Ev_go, Ev_go, Ev_go, Ev_enqueue ''a'', Ev_enqueue ''b'', Ev_go, Ev_go, Ev_go,
     Ev_go, Ev_timer, Ev_go, Ev_go, Ev_go]"
  have "\<exists>t. ship_exec ?tr sample_shipper = Some t \<and> sh_enqueued t = [''a'', ''b''] \<and>
     sh_sent t = [Frame ''b'', DropRec 1]"
    by (simp add: sample_ship_eval Enqueue_room Enqueue_full)
  then show ?thesis using ship_exec_reach sample_shipper_start by blast
qed

section \<open>A drain cycle on a working connection\<close>

lemma ship_exec_append:
  "ship_exec (es @ es') s = (case ship_exec es s of None \<Rightarrow> None | Some t \<Rightarrow> ship_exec es' t)"
  by (induction es arbitrary: s) (auto split: option.splits)

lemma write_loop_exec:
  "sh_pc s = D_write fs \<Longrightarrow>
   ship_exec (replicate (Suc (length fs)) Ev_go) s =
     Some (s\<lparr>sh_sent := sh_sent s @ map Frame fs, sh_pc := D_exit False\<rparr>)"
  by (induction fs arbitrary: s) (simp_all add: ship_eval)

lemma take_exec:
  "sh_pc s = D_grab \<Longrightarrow>
   ship_exec (replicate (Suc (Suc (Suc (length (rb_frames (sh_buf s)))))) Ev_go) s =
     Some (s\<lparr>sh_buf := snd (take_frames (sh_buf s)), sh_draining := False,
       sh_sent := sh_sent s @ map Frame (rb_frames (sh_buf s)), sh_pc := Waiting\<rparr>)"
  (is "_ \<Longrightarrow> _ = Some ?t")
proof -
  assume pc: "sh_pc s = D_grab"
  let ?fs = "rb_frames (sh_buf s)"
  let ?u = "s\<lparr>sh_buf := snd (take_frames (sh_buf s)), sh_pc := D_write ?fs\<rparr>"
  have "ship_do Ev_go s = Some ?u" using pc by (simp add: ship_eval take_frames_def)
  moreover have "ship_exec (replicate (Suc (length ?fs)) Ev_go) ?u =
      Some (?u\<lparr>sh_sent := sh_sent ?u @ map Frame ?fs, sh_pc := D_exit False\<rparr>)"
    by (rule write_loop_exec) simp
  then have "ship_exec (replicate (Suc (length ?fs)) Ev_go @ [Ev_go]) ?u = Some ?t"
    unfolding ship_exec_append by (simp del: replicate_Suc add: ship_eval)
  ultimately show ?thesis
    by (simp add: replicate_append_same)
qed

text \<open>
  A drain cycle on a connection that accepts every write completes, sends one drop record for
  all drops not yet reported (none if there were none), then every queued frame in order, and leaves
  nothing queued or pending.
\<close>

theorem drain_cycle_completes:
  assumes "ship_reach s" "sh_pc s = Serving"
  defines "n \<equiv> sh_pendingDrops s + rb_drops (sh_buf s)"
  shows "\<exists>t. ship_step\<^sup>*\<^sup>* s t \<and> sh_pc t = Waiting \<and> \<not> sh_draining t \<and>
     sh_sent t = sh_sent s @ (if n > 0 then [DropRec n] else []) @ map Frame (rb_frames (sh_buf s)) \<and>
     Len (sh_buf t) = 0 \<and> Drops (sh_buf t) = 0 \<and> sh_pendingDrops t = 0"
proof -
  have "ship_inv s" using assms(1) by (rule shipping.invar_reach)
  then have n0: "0 \<le> n" using rb.lost_nonneg [of "sh_buf s"] by (simp add: n_def ship_inv_def ctl_inv_def)
  define u where "u = s\<lparr>sh_buf := snd (TakeDrops (sh_buf s)), sh_draining := True, sh_pendingDrops := 0,
    sh_sent := sh_sent s @ (if n > 0 then [DropRec n] else []), sh_pc := D_grab\<rparr>"
  have "\<exists>es. ship_exec es s = Some u"
  proof (cases "n > 0")
    case True
    then have "ship_exec [Ev_go, Ev_go, Ev_go, Ev_go] s = Some u"
      using assms(2) by (simp add: ship_eval u_def n_def TakeDrops_def Let_def)
    then show ?thesis by blast
  next
    case False
    then have "ship_exec [Ev_go, Ev_go] s = Some u"
      using assms(2) n0 by (simp add: ship_eval u_def n_def TakeDrops_def Let_def)
    then show ?thesis by blast
  qed
  then have su: "ship_step\<^sup>*\<^sup>* s u" using ship_exec_steps by blast
  have "sh_pc u = D_grab" by (simp add: u_def)
  from rtranclp_trans [OF su ship_exec_steps [OF take_exec [OF this]]]
  obtain t where "ship_step\<^sup>*\<^sup>* s t" and
    t: "t = u\<lparr>sh_buf := snd (take_frames (sh_buf u)), sh_draining := False,
      sh_sent := sh_sent u @ map Frame (rb_frames (sh_buf u)), sh_pc := Waiting\<rparr>"
    by blast
  then show ?thesis
    by (intro exI [of _ t]) (simp add: u_def TakeDrops_def take_frames_def Len_def Drops_def)
qed

lemma serving_trace_exec:
  "\<exists>t. ship_exec [Ev_enqueue ''a'', Ev_enqueue ''b'', Ev_go, Ev_go] sample_shipper = Some t \<and>
     sh_pc t = Serving \<and> sh_sent t = [] \<and> sh_pendingDrops t = 0 \<and> rb_drops (sh_buf t) = 1 \<and>
     rb_frames (sh_buf t) = [''b'']"
  by (simp add: sample_ship_eval Enqueue_room Enqueue_full)

theorem drain_cycle_completes_witness:
  "\<exists>s t. ship_reach s \<and> sh_pc s = Serving \<and> ship_step\<^sup>*\<^sup>* s t \<and> sh_sent t = [DropRec 1, Frame ''b'']"
proof -
  obtain s where s: "ship_exec [Ev_enqueue ''a'', Ev_enqueue ''b'', Ev_go, Ev_go] sample_shipper = Some s"
     "sh_pc s = Serving" "sh_sent s = []" "sh_pendingDrops s = 0" "rb_drops (sh_buf s) = 1"
     "rb_frames (sh_buf s) = [''b'']"
    using serving_trace_exec by blast
  have r: "ship_reach s" using ship_exec_reach [OF s(1) sample_shipper_start] .
  from drain_cycle_completes [OF r s(2)] s(3-6) have "\<exists>t. ship_step\<^sup>*\<^sup>* s t \<and> sh_sent t = [DropRec 1, Frame ''b'']"
    by auto
  with r s(2) show ?thesis by blast
qed

end
