(* ===== verification/Supervisor_Config.thy ===== *)
theory Supervisor_Config
  imports RingBuffer
begin

text \<open>
  \<open>internal/supervisor/config.go\<close>: the supervisor's configuration and its validation, which also
  fills in defaults. \<open>Load\<close> (reading the file and decoding YAML) is outside the model; a Go map is
  the list of its entries in the order the range loop visits them.
\<close>

section \<open>The configuration\<close>

definition RoleTask :: bytes where "RoleTask = ''task''"
definition RoleSidecar :: bytes where "RoleSidecar = ''sidecar''"
definition RestartNo :: bytes where "RestartNo = ''no''"
definition RestartOnFailure :: bytes where "RestartOnFailure = ''on-failure''"
definition RestartAlways :: bytes where "RestartAlways = ''always''"
definition OnFailureTerminate :: bytes where "OnFailureTerminate = ''terminate''"
definition OnFailureContinue :: bytes where "OnFailureContinue = ''continue''"

lemmas policy_names = RoleTask_def RoleSidecar_def RestartNo_def RestartOnFailure_def
  RestartAlways_def OnFailureTerminate_def OnFailureContinue_def

definition DefaultLogCID :: uint32 where "DefaultLogCID = 3"
definition sup_minCID :: uint32 where "sup_minCID = 3"
definition sup_vsockPortAny :: uint32 where "sup_vsockPortAny = 0xFFFFFFFF"
definition defaultBufferMaxBytes :: int where "defaultBufferMaxBytes = 8 * 2 ^ 20"
definition defaultBufferMaxRecords :: int where "defaultBufferMaxRecords = 10000"

record Buffer =
  bf_MaxBytes :: int
  bf_MaxRecords :: int

record Process =
  pr_Name :: bytes
  pr_Command :: bytes
  pr_Args :: "bytes list"
  pr_Role :: bytes
  pr_Restart :: bytes
  pr_MaxRestarts :: int
  pr_RestartWindow :: int
  pr_OnFailure :: bytes

record SupConfig =
  su_LogPort :: uint32
  su_LogCID :: uint32
  su_Tags :: "(bytes \<times> bytes) list"
  su_Buffer :: "Buffer option"
  su_Processes :: "Process list"

datatype sup_error =
    LogPortRange uint32
  | LogCidReserved uint32
  | TagEmptyKey
  | TagEmptyValue bytes
  | BufMaxBytesNegative int
  | BufMaxRecordsNegative int
  | BufUnbounded
  | In_process nat sup_error
  | ProcNameEmpty
  | ProcNameDuplicate bytes
  | ProcCommandEmpty
  | RoleMissing
  | RoleBad bytes
  | RestartBad bytes
  | OnFailureBad bytes
  | MaxRestartsNegative int
  | RestartWindowMissing

section \<open>Validation\<close>

definition validateBuffer :: "SupConfig \<Rightarrow> sup_error + SupConfig" where
  "validateBuffer c =
     (case su_Buffer c of
        None \<Rightarrow> Inr (c\<lparr>su_Buffer := Some \<lparr>bf_MaxBytes = defaultBufferMaxBytes,
                                       bf_MaxRecords = defaultBufferMaxRecords\<rparr>\<rparr>)
      | Some b \<Rightarrow>
          if bf_MaxBytes b < 0 then Inl (BufMaxBytesNegative (bf_MaxBytes b))
          else if bf_MaxRecords b < 0 then Inl (BufMaxRecordsNegative (bf_MaxRecords b))
          else if bf_MaxBytes b = 0 \<and> bf_MaxRecords b = 0 then Inl BufUnbounded
          else Inr c)"

definition validate_Process :: "Process \<Rightarrow> sup_error + Process" where
  "validate_Process p =
     (if pr_Command p = [] then Inl ProcCommandEmpty
      else if pr_Role p = [] then Inl RoleMissing
      else if pr_Role p \<noteq> RoleTask \<and> pr_Role p \<noteq> RoleSidecar then Inl (RoleBad (pr_Role p))
      else
        let p1 = if pr_Restart p = [] then p\<lparr>pr_Restart := RestartOnFailure\<rparr> else p in
        if pr_Restart p1 \<notin> {RestartNo, RestartOnFailure, RestartAlways} then Inl (RestartBad (pr_Restart p1))
        else
          let p2 = if pr_OnFailure p1 = [] then p1\<lparr>pr_OnFailure := OnFailureTerminate\<rparr> else p1 in
          if pr_OnFailure p2 \<notin> {OnFailureTerminate, OnFailureContinue} then Inl (OnFailureBad (pr_OnFailure p2))
          else if pr_MaxRestarts p2 < 0 then Inl (MaxRestartsNegative (pr_MaxRestarts p2))
          else if pr_Restart p2 \<noteq> RestartNo \<and> pr_MaxRestarts p2 > 0 \<and> pr_RestartWindow p2 \<le> 0
            then Inl RestartWindowMissing
          else Inr p2)"

definition sup_check_tag :: "nat \<Rightarrow> bytes \<times> bytes \<Rightarrow> unit \<Rightarrow> sup_error + unit" where
  "sup_check_tag i kv u =
     (case kv of (k, v) \<Rightarrow>
        if k = [] then Inl TagEmptyKey else if v = [] then Inl (TagEmptyValue k) else Inr ())"

type_synonym names_state = "bytes set \<times> Process list"

definition validate_process_at :: "nat \<Rightarrow> Process \<Rightarrow> names_state \<Rightarrow> sup_error + names_state" where
  "validate_process_at i p st =
     (case st of (seenName, out) \<Rightarrow>
        if pr_Name p = [] then Inl (In_process i ProcNameEmpty)
        else if pr_Name p \<in> seenName then Inl (In_process i (ProcNameDuplicate (pr_Name p)))
        else case validate_Process p of
          Inl e \<Rightarrow> Inl (In_process i e)
        | Inr p' \<Rightarrow> Inr (insert (pr_Name p) seenName, out @ [p']))"

definition sup_Validate :: "SupConfig \<Rightarrow> sup_error + SupConfig" where
  "sup_Validate c =
     (if su_LogPort c = 0 \<or> su_LogPort c \<ge> sup_vsockPortAny then Inl (LogPortRange (su_LogPort c))
      else if su_LogCID c \<noteq> 0 \<and> su_LogCID c < sup_minCID then Inl (LogCidReserved (su_LogCID c))
      else
        let c1 = if su_LogCID c = 0 then c\<lparr>su_LogCID := DefaultLogCID\<rparr> else c in
        res_bind (for_idx sup_check_tag 0 (su_Tags c1) ()) (\<lambda>_.
        res_bind (validateBuffer c1) (\<lambda>c2.
        res_bind (for_idx validate_process_at 0 (su_Processes c2) ({}, [])) (\<lambda>(_, ps).
        Inr (c2\<lparr>su_Processes := ps\<rparr>)))))"

section \<open>What a valid configuration is\<close>

definition process_good :: "Process \<Rightarrow> bool" where
  "process_good p \<longleftrightarrow> pr_Name p \<noteq> [] \<and> pr_Command p \<noteq> [] \<and> pr_Role p \<in> {RoleTask, RoleSidecar} \<and>
     pr_Restart p \<in> {[], RestartNo, RestartOnFailure, RestartAlways} \<and>
     pr_OnFailure p \<in> {[], OnFailureTerminate, OnFailureContinue} \<and>
     0 \<le> pr_MaxRestarts p \<and> (pr_Restart p = RestartNo \<or> pr_MaxRestarts p = 0 \<or> 0 < pr_RestartWindow p)"

definition process_defaults :: "Process \<Rightarrow> Process" where
  "process_defaults p =
     p\<lparr>pr_Restart := (if pr_Restart p = [] then RestartOnFailure else pr_Restart p),
       pr_OnFailure := (if pr_OnFailure p = [] then OnFailureTerminate else pr_OnFailure p)\<rparr>"

definition buffer_good :: "Buffer \<Rightarrow> bool" where
  "buffer_good b \<longleftrightarrow> 0 \<le> bf_MaxBytes b \<and> 0 \<le> bf_MaxRecords b \<and> (0 < bf_MaxBytes b \<or> 0 < bf_MaxRecords b)"

definition sup_valid :: "SupConfig \<Rightarrow> bool" where
  "sup_valid c \<longleftrightarrow> su_LogPort c \<noteq> 0 \<and> su_LogPort c < sup_vsockPortAny \<and>
     (su_LogCID c = 0 \<or> 3 \<le> su_LogCID c) \<and>
     list_all (\<lambda>(k, v). k \<noteq> [] \<and> v \<noteq> []) (su_Tags c) \<and>
     (case su_Buffer c of None \<Rightarrow> True | Some b \<Rightarrow> buffer_good b) \<and>
     list_all process_good (su_Processes c) \<and> distinct (map pr_Name (su_Processes c))"

definition sup_defaults :: "SupConfig \<Rightarrow> SupConfig" where
  "sup_defaults c =
     c\<lparr>su_LogCID := (if su_LogCID c = 0 then DefaultLogCID else su_LogCID c),
       su_Buffer := Some (case su_Buffer c of Some b \<Rightarrow> b
          | None \<Rightarrow> \<lparr>bf_MaxBytes = 8388608, bf_MaxRecords = 10000\<rparr>),
       su_Processes := map process_defaults (su_Processes c)\<rparr>"

lemma policy_nonempty [simp]:
  "[] \<noteq> RoleTask" "[] \<noteq> RoleSidecar" "[] \<noteq> RestartNo"
  "RoleTask \<noteq> []" "RoleSidecar \<noteq> []" "RestartNo \<noteq> []" "RestartOnFailure \<noteq> []"
  "RestartAlways \<noteq> []" "OnFailureTerminate \<noteq> []" "OnFailureContinue \<noteq> []" "RestartOnFailure \<noteq> RestartNo"
  "RoleSidecar \<noteq> RoleTask"
  by (simp_all add: policy_names)

lemma validate_Process_eq:
  assumes "pr_Name p \<noteq> []"
  shows "validate_Process p = Inr q \<longleftrightarrow> process_good p \<and> q = process_defaults p"
proof -
  let ?rs = "if pr_Restart p = [] then RestartOnFailure else pr_Restart p"
  let ?of = "if pr_OnFailure p = [] then OnFailureTerminate else pr_OnFailure p"
  have eqs: "validate_Process p =
     (if pr_Command p = [] then Inl ProcCommandEmpty
      else if pr_Role p = [] then Inl RoleMissing
      else if pr_Role p \<noteq> RoleTask \<and> pr_Role p \<noteq> RoleSidecar then Inl (RoleBad (pr_Role p))
      else if ?rs \<notin> {RestartNo, RestartOnFailure, RestartAlways} then Inl (RestartBad ?rs)
      else if ?of \<notin> {OnFailureTerminate, OnFailureContinue} then Inl (OnFailureBad ?of)
      else if pr_MaxRestarts p < 0 then Inl (MaxRestartsNegative (pr_MaxRestarts p))
      else if ?rs \<noteq> RestartNo \<and> pr_MaxRestarts p > 0 \<and> pr_RestartWindow p \<le> 0 then Inl RestartWindowMissing
      else Inr (process_defaults p))"
    unfolding validate_Process_def process_defaults_def Let_def
    by (cases "pr_Restart p = []"; cases "pr_OnFailure p = []") simp_all
  have rs: "?rs \<in> {RestartNo, RestartOnFailure, RestartAlways} \<longleftrightarrow>
      pr_Restart p \<in> {[], RestartNo, RestartOnFailure, RestartAlways}"
    and of: "?of \<in> {OnFailureTerminate, OnFailureContinue} \<longleftrightarrow>
      pr_OnFailure p \<in> {[], OnFailureTerminate, OnFailureContinue}"
    and rn: "?rs = RestartNo \<longleftrightarrow> pr_Restart p = RestartNo"
    and role: "pr_Role p \<in> {RoleTask, RoleSidecar} \<longleftrightarrow>
      pr_Role p \<noteq> [] \<and> (pr_Role p = RoleTask \<or> pr_Role p = RoleSidecar)"
    by auto
  show ?thesis
    unfolding eqs process_good_def rs of rn role using assms
    by (simp split del: if_split add: if_distrib [of "\<lambda>x. x = Inr q"] cong: if_cong) auto
qed

lemma validate_Process_Inr:
  "validate_Process p = Inr q \<Longrightarrow> pr_Name p \<noteq> [] \<Longrightarrow> q = process_defaults p"
  by (simp add: validate_Process_eq)

lemma process_body_ok:
  "is_ok (validate_process_at i p st) \<longleftrightarrow> process_good p \<and> pr_Name p \<notin> fst st"
proof (cases "pr_Name p = []")
  case True
  then show ?thesis by (simp add: validate_process_at_def process_good_def split: prod.split)
next
  case False
  then have "is_ok (validate_Process p) \<longleftrightarrow> process_good p"
    using validate_Process_eq [of p] by (auto simp: is_ok_iff)
  then show ?thesis
    using False by (cases "validate_Process p") (auto simp: validate_process_at_def split: prod.splits)
qed

interpretation procs: unique_loop validate_process_at process_good "\<lambda>p. [pr_Name p]" fst
proof
  fix i p st
  show "is_ok (validate_process_at i p st) \<longleftrightarrow>
      process_good p \<and> distinct [pr_Name p] \<and> set [pr_Name p] \<inter> fst st = {}"
    using process_body_ok by auto
  fix t assume "validate_process_at i p st = Inr t"
  then show "fst t = fst st \<union> set [pr_Name p]"
    by (auto simp: validate_process_at_def split: prod.splits if_splits sum.splits)
qed

lemma process_loop_out:
  assumes "for_idx validate_process_at i ps (seen, out) = Inr (seen', out')"
  shows "out' = out @ map process_defaults ps"
proof -
  have "snd (seen', out') = out @ map process_defaults ([] @ ps)"
    using assms
  proof (rule for_idx_invariant [where P = "\<lambda>ps st. snd st = out @ map process_defaults ps"])
    fix j d p s s'
    assume "snd s = out @ map process_defaults d" "validate_process_at j p s = Inr s'"
    then show "snd s' = out @ map process_defaults (d @ [p])"
      by (auto simp: validate_process_at_def validate_Process_Inr
          split: prod.splits if_splits sum.splits)
  qed simp
  then show ?thesis by simp
qed

lemma sup_tags_ok: "is_ok (for_idx sup_check_tag i tags ()) \<longleftrightarrow> list_all (\<lambda>(k, v). k \<noteq> [] \<and> v \<noteq> []) tags"
  by (rule for_idx_check_iff) (auto simp: sup_check_tag_def split: prod.split)

lemma validateBuffer_eq:
  "validateBuffer c = Inr d \<longleftrightarrow>
     (case su_Buffer c of None \<Rightarrow> True | Some b \<Rightarrow> buffer_good b) \<and>
     d = c\<lparr>su_Buffer := Some (case su_Buffer c of Some b \<Rightarrow> b
          | None \<Rightarrow> \<lparr>bf_MaxBytes = 8388608, bf_MaxRecords = 10000\<rparr>)\<rparr>"
  by (auto simp: validateBuffer_def buffer_good_def defaultBufferMaxBytes_def
      defaultBufferMaxRecords_def split: option.splits)

lemma process_loop_eq:
  "for_idx validate_process_at 0 ps ({}, []) = Inr (seen, out) \<Longrightarrow>
     out = map process_defaults ps \<and> list_all process_good ps \<and> distinct (map pr_Name ps)"
  using process_loop_out [of 0 ps "{}" "[]" seen out] procs.loop_ok [of 0 ps "({}, [])"]
  by (simp add: is_ok_iff concat_map_singleton)

text \<open>The part of \<open>Validate\<close> after the log destination.\<close>

definition sup_Validate_rest :: "SupConfig \<Rightarrow> sup_error + SupConfig" where
  "sup_Validate_rest c =
     res_bind (for_idx sup_check_tag 0 (su_Tags c) ()) (\<lambda>_.
     res_bind (validateBuffer c) (\<lambda>c2.
     res_bind (for_idx validate_process_at 0 (su_Processes c2) ({}, [])) (\<lambda>(_, ps).
     Inr (c2\<lparr>su_Processes := ps\<rparr>))))"

lemma process_loop_iff:
  "(\<exists>seen out. for_idx validate_process_at 0 ps ({}, []) = Inr (seen, out) \<and> P out) \<longleftrightarrow>
      list_all process_good ps \<and> distinct (map pr_Name ps) \<and> P (map process_defaults ps)"
  using process_loop_eq [of ps] procs.loop_ok [of 0 ps "({}, [])"]
  by (cases "for_idx validate_process_at 0 ps ({}, [])") (auto simp: concat_map_singleton)

lemma sup_Validate_rest_eq:
  "sup_Validate_rest c = Inr d \<longleftrightarrow>
     list_all (\<lambda>(k, v). k \<noteq> [] \<and> v \<noteq> []) (su_Tags c) \<and>
     (case su_Buffer c of None \<Rightarrow> True | Some b \<Rightarrow> buffer_good b) \<and>
     list_all process_good (su_Processes c) \<and> distinct (map pr_Name (su_Processes c)) \<and>
     d = c\<lparr>su_Buffer := Some (case su_Buffer c of Some b \<Rightarrow> b
          | None \<Rightarrow> \<lparr>bf_MaxBytes = 8388608, bf_MaxRecords = 10000\<rparr>),
         su_Processes := map process_defaults (su_Processes c)\<rparr>"
proof -
  let ?buf = "Some (case su_Buffer c of Some b \<Rightarrow> b
          | None \<Rightarrow> \<lparr>bf_MaxBytes = 8388608, bf_MaxRecords = 10000\<rparr>)"
  have tags: "for_idx sup_check_tag 0 (su_Tags c) () = Inr () \<longleftrightarrow>
      list_all (\<lambda>(k, v). k \<noteq> [] \<and> v \<noteq> []) (su_Tags c)"
    using sup_tags_ok [of 0 "su_Tags c"] by (simp add: is_ok_iff)
  have "sup_Validate_rest c = Inr d \<longleftrightarrow>
     list_all (\<lambda>(k, v). k \<noteq> [] \<and> v \<noteq> []) (su_Tags c) \<and>
     (case su_Buffer c of None \<Rightarrow> True | Some b \<Rightarrow> buffer_good b) \<and>
     (\<exists>seen out. for_idx validate_process_at 0 (su_Processes c) ({}, []) = Inr (seen, out) \<and>
        c\<lparr>su_Buffer := ?buf, su_Processes := out\<rparr> = d)"
    by (simp add: sup_Validate_rest_def res_bind_Inr_iff validateBuffer_eq tags)
  then show ?thesis unfolding process_loop_iff by blast
qed

text \<open>
  Validation of the supervisor's configuration is exact: it accepts a configuration if and only
  if its ports, CID, tags, buffer budget and processes are valid and the process names are
  distinct, and what it returns is that configuration with the defaults filled in.
\<close>

theorem sup_Validate_exact:
  "sup_Validate c = Inr d \<longleftrightarrow> sup_valid c \<and> d = sup_defaults c"
proof -
  let ?c1 = "if su_LogCID c = 0 then c\<lparr>su_LogCID := DefaultLogCID\<rparr> else c"
  have "sup_Validate c = Inr d \<longleftrightarrow> su_LogPort c \<noteq> 0 \<and> su_LogPort c < sup_vsockPortAny \<and>
      (su_LogCID c = 0 \<or> 3 \<le> su_LogCID c) \<and> sup_Validate_rest ?c1 = Inr d"
  proof -
    have "sup_Validate c =
       (if su_LogPort c = 0 \<or> sup_vsockPortAny \<le> su_LogPort c then Inl (LogPortRange (su_LogPort c))
        else if su_LogCID c \<noteq> 0 \<and> su_LogCID c < 3 then Inl (LogCidReserved (su_LogCID c))
        else sup_Validate_rest ?c1)"
      by (simp only: sup_Validate_def sup_Validate_rest_def Let_def sup_minCID_def)
    then show ?thesis by auto
  qed
  then show ?thesis
    unfolding sup_Validate_rest_eq by (cases "su_LogCID c = 0") (auto simp: sup_valid_def sup_defaults_def)
qed

end
