(* ===== verification/Manager.thy ===== *)
theory Manager
  imports Supervisor_Config Go_Net
begin

text \<open>
  \<open>internal/supervisor/manager.go\<close>: the process manager. Its run loop is single-threaded, so the
  model is a state machine over the events the loop selects: the cancelled context and the exits of
  children. What the operating system decides (whether a process starts, with which pid it runs, how
  it ends, what the clock says) comes with the events.

  A unit is its index in \<open>m_units\<close>. \<open>m_pending\<close> holds one entry for each exit event the loop has yet to
  receive: a started child that is running or whose exit is being reported, or the synthetic exit of a
  failed start. \<open>m_out\<close> lists the lifecycle records given to the sink, \<open>m_signals\<close> the signals sent,
  \<open>m_restarts\<close> the restarts with their times and \<open>m_codes\<close> the codes given to \<open>setExitCode\<close>; no step
  reads these four. The clock the manager reads does not go back (\<open>rs_now\<close>), as Go's monotonic
  clock reading guarantees.
\<close>

section \<open>Restart budget\<close>

record restartBudget =
  bu_max :: int
  bu_window :: int
  bu_history :: "int list"

definition allow :: "int \<Rightarrow> restartBudget \<Rightarrow> bool \<times> restartBudget" where
  "allow now b =
     (let b1 = if bu_window b > 0
               then b\<lparr>bu_history := filter (\<lambda>t. t > now - bu_window b) (bu_history b)\<rparr> else b
      in if int (length (bu_history b1)) \<ge> bu_max b1 then (False, b1)
         else (True, b1\<lparr>bu_history := bu_history b1 @ [now]\<rparr>))"

section \<open>Units and manager\<close>

datatype procState = stateRunning | stateDone | stateAbandoned | stateStopped

record munit =
  u_cfg :: Process
  u_cmd :: bool
  u_pid :: int
  u_state :: procState
  u_budget :: restartBudget
  u_killTimer :: bool

text \<open>What \<open>Wait\<close> reports about a child: a clean exit, an exit status, a signal, or another error.\<close>

datatype wait_status = WaitNil | WaitExit int | WaitSignal nat | WaitOther

datatype pending = Child nat int | FailedStart nat

fun p_unit :: "pending \<Rightarrow> nat" where
  "p_unit (Child i _) = i"
| "p_unit (FailedStart i) = i"

fun is_child :: "pending \<Rightarrow> bool" where
  "is_child (Child _ _) = True"
| "is_child (FailedStart _) = False"

datatype sink_rec = Rec_start bytes int | Rec_exit bytes int int bytes

datatype sent_signal = SIGTERM nat int | SIGKILL nat int

record Manager =
  m_units :: "munit list"
  m_shuttingDown :: bool
  m_exitCode :: int
  m_hasTasks :: bool
  m_pending :: "pending list"
  m_out :: "sink_rec list"
  m_signals :: "sent_signal list"
  m_restarts :: "(nat \<times> int) list"
  m_codes :: "int list"

definition signalExitBase :: int where "signalExitBase = 128"
definition startFailureCode :: int where "startFailureCode = 127"

text \<open>\<open>syscall.Signal.String\<close> on Linux.\<close>

definition signal_names :: "bytes list" where
  "signal_names = [[], ''hangup'', ''interrupt'', ''quit'', ''illegal instruction'',
     ''trace/breakpoint trap'', ''aborted'', ''bus error'', ''floating point exception'', ''killed'',
     ''user defined signal 1'', ''segmentation fault'', ''user defined signal 2'', ''broken pipe'',
     ''alarm clock'', ''terminated'', ''stack fault'', ''child exited'', ''continued'',
     ''stopped (signal)'', ''stopped'', ''stopped (tty input)'', ''stopped (tty output)'',
     ''urgent I/O condition'', ''CPU time limit exceeded'', ''file size limit exceeded'',
     ''virtual timer expired'', ''profiling timer expired'', ''window changed'', ''I/O possible'',
     ''power failure'', ''bad system call'']"

definition signal_string :: "nat \<Rightarrow> bytes" where
  "signal_string n =
     (if n < length signal_names \<and> signal_names ! n \<noteq> [] then signal_names ! n
      else ''signal '' @ digits_of n)"

definition classify :: "wait_status \<Rightarrow> int \<times> bytes" where
  "classify w =
     (case w of
        WaitNil \<Rightarrow> (0, [])
      | WaitSignal n \<Rightarrow> (signalExitBase + int n, signal_string n)
      | WaitExit c \<Rightarrow> (c, [])
      | WaitOther \<Rightarrow> (1, []))"

definition warrantsRestart :: "bytes \<Rightarrow> int \<Rightarrow> bool" where
  "warrantsRestart policy code =
     (if policy = RestartAlways then True
      else if policy = RestartOnFailure then code \<noteq> 0
      else False)"

definition upd_unit :: "nat \<Rightarrow> (munit \<Rightarrow> munit) \<Rightarrow> Manager \<Rightarrow> Manager" where
  "upd_unit i f m = m\<lparr>m_units := (m_units m)[i := f (m_units m ! i)]\<rparr>"

definition new_unit :: "Process \<Rightarrow> munit" where
  "new_unit p =
     \<lparr>u_cfg = p, u_cmd = False, u_pid = 0, u_state = stateRunning,
      u_budget = \<lparr>bu_max = pr_MaxRestarts p, bu_window = pr_RestartWindow p, bu_history = []\<rparr>,
      u_killTimer = False\<rparr>"

definition NewManager :: "Process list \<Rightarrow> Manager" where
  "NewManager ps =
     \<lparr>m_units = map new_unit ps, m_shuttingDown = False, m_exitCode = 0,
      m_hasTasks = list_ex (\<lambda>p. pr_Role p = RoleTask) ps,
      m_pending = [], m_out = [], m_signals = [], m_restarts = [], m_codes = []\<rparr>"

text \<open>The result of starting a process: its pid, or a failure.\<close>

definition startFailed :: "nat \<Rightarrow> Manager \<Rightarrow> Manager" where
  "startFailed i m = m\<lparr>m_pending := m_pending m @ [FailedStart i]\<rparr>"

definition spawn :: "nat \<Rightarrow> int option \<Rightarrow> Manager \<Rightarrow> Manager" where
  "spawn i started m =
     (let m1 = upd_unit i (\<lambda>u. u\<lparr>u_state := stateRunning\<rparr>) m in
      case started of
        None \<Rightarrow> startFailed i m1
      | Some pid \<Rightarrow>
          (let m2 = upd_unit i (\<lambda>u. u\<lparr>u_cmd := True, u_pid := pid\<rparr>) m1 in
           m2\<lparr>m_out := m_out m2 @ [Rec_start (pr_Name (u_cfg (m_units m2 ! i))) pid],
              m_pending := m_pending m2 @ [Child i pid]\<rparr>))"

definition setExitCode :: "int \<Rightarrow> Manager \<Rightarrow> Manager" where
  "setExitCode code m =
     (if m_exitCode m = 0 \<and> code \<noteq> 0 then m\<lparr>m_exitCode := code\<rparr> else m)\<lparr>m_codes := m_codes m @ [code]\<rparr>"

definition allTasksTerminal :: "Manager \<Rightarrow> bool" where
  "allTasksTerminal m =
     list_all (\<lambda>u. \<not> (pr_Role (u_cfg u) = RoleTask \<and> u_state u = stateRunning)) (m_units m)"

definition runningCount :: "Manager \<Rightarrow> nat" where
  "runningCount m = length (filter (\<lambda>u. u_state u = stateRunning) (m_units m))"

text \<open>One round of the loop in \<open>beginShutdown\<close>: SIGTERM now, SIGKILL armed.\<close>

definition terminate_unit :: "nat \<Rightarrow> Manager \<Rightarrow> Manager" where
  "terminate_unit i m =
     (let u = m_units m ! i in
      if u_state u \<noteq> stateRunning \<or> \<not> u_cmd u then m
      else (upd_unit i (\<lambda>u. u\<lparr>u_killTimer := True\<rparr>) m)
             \<lparr>m_signals := m_signals m @ [SIGTERM i (u_pid u)]\<rparr>)"

definition beginShutdown :: "Manager \<Rightarrow> Manager" where
  "beginShutdown m =
     (if m_shuttingDown m then m
      else fold terminate_unit [0..<length (m_units m)] (m\<lparr>m_shuttingDown := True\<rparr>))"

definition applyOnFailure :: "nat \<Rightarrow> int \<Rightarrow> Manager \<Rightarrow> Manager" where
  "applyOnFailure i code m =
     (let cfg = u_cfg (m_units m ! i) in
      if pr_OnFailure cfg = OnFailureContinue then
        if pr_Role cfg = RoleTask
        then setExitCode code (upd_unit i (\<lambda>u. u\<lparr>u_state := stateAbandoned\<rparr>) m)
        else upd_unit i (\<lambda>u. u\<lparr>u_state := stateStopped\<rparr>) m
      else
        beginShutdown (setExitCode code (upd_unit i (\<lambda>u. u\<lparr>u_state := stateStopped\<rparr>) m)))"

text \<open>
  \<open>handleExit\<close>. The event is the pending exit it answers, with the code and signal name; \<open>now\<close> and
  \<open>started\<close> are what the clock and a restart would return.
\<close>

definition handleExit :: "pending \<Rightarrow> int \<Rightarrow> bytes \<Rightarrow> int \<Rightarrow> int option \<Rightarrow> Manager \<Rightarrow> Manager" where
  "handleExit p code sig now started m0 =
     (let i = p_unit p;
          m1 = upd_unit i (\<lambda>u. u\<lparr>u_killTimer := False\<rparr>) m0;
          cfg = u_cfg (m_units m1 ! i);
          m = (case p of
                 Child _ pid \<Rightarrow> m1\<lparr>m_out := m_out m1 @ [Rec_exit (pr_Name cfg) pid code sig]\<rparr>
               | FailedStart _ \<Rightarrow> m1)
      in
      if m_shuttingDown m then upd_unit i (\<lambda>u. u\<lparr>u_state := stateStopped\<rparr>) m
      else if warrantsRestart (pr_Restart cfg) code then
        (case allow now (u_budget (m_units m ! i)) of
           (True, b) \<Rightarrow>
             spawn i started ((upd_unit i (\<lambda>u. u\<lparr>u_budget := b\<rparr>) m)\<lparr>m_restarts := m_restarts m @ [(i, now)]\<rparr>)
         | (False, b) \<Rightarrow> applyOnFailure i code (upd_unit i (\<lambda>u. u\<lparr>u_budget := b\<rparr>) m))
      else if code = 0 then
        if pr_Role cfg = RoleTask then upd_unit i (\<lambda>u. u\<lparr>u_state := stateDone\<rparr>) m
        else upd_unit i (\<lambda>u. u\<lparr>u_state := stateStopped\<rparr>) m
      else applyOnFailure i code m)"

section \<open>The run loop\<close>

text \<open>Code and signal name of an exit event.\<close>

definition exit_info :: "pending \<Rightarrow> wait_status \<Rightarrow> int \<times> bytes" where
  "exit_info p w = (if is_child p then classify w else (startFailureCode, []))"

datatype mgr_event =
    Cancelled
  | Exited pending wait_status int "int option"
  | KillTimerFires nat

record RunState =
  rs_mgr :: Manager
  rs_shutdownCh :: bool
  rs_now :: int
  rs_returned :: "int option"

text \<open>The two tests at the head of the loop.\<close>

definition loop_head :: "RunState \<Rightarrow> RunState" where
  "loop_head r =
     (let m = rs_mgr r;
          m' = if \<not> m_shuttingDown m \<and> m_hasTasks m \<and> allTasksTerminal m then beginShutdown m else m
      in r\<lparr>rs_mgr := m',
           rs_returned := (if m_shuttingDown m' \<and> runningCount m' = 0 then Some (m_exitCode m') else None)\<rparr>)"

text \<open>Initial spawns, with the outcome of each start.\<close>

definition spawn_all :: "int option list \<Rightarrow> Manager \<Rightarrow> Manager" where
  "spawn_all starts m = fold (\<lambda>(i, s). spawn i s) (enumerate 0 starts) m"

definition Run_start :: "int option list \<Rightarrow> int \<Rightarrow> Manager \<Rightarrow> RunState" where
  "Run_start starts now m =
     loop_head \<lparr>rs_mgr = spawn_all starts m, rs_shutdownCh = True, rs_now = now, rs_returned = None\<rparr>"

text \<open>
  One selected event and the tests that follow it. A pending exit is received once. The kill timer
  of a unit is an event of its own and does not pass through the loop.
\<close>

definition Run_select :: "mgr_event \<Rightarrow> RunState \<Rightarrow> RunState option" where
  "Run_select e r =
     (if rs_returned r \<noteq> None then None
      else let m = rs_mgr r in
        case e of
          Cancelled \<Rightarrow>
            if rs_shutdownCh r then
              Some (loop_head (r\<lparr>rs_shutdownCh := False,
                 rs_mgr := (if m_shuttingDown m then m else beginShutdown m)\<rparr>))
            else None
        | Exited p w now started \<Rightarrow>
            if p \<in> set (m_pending m) \<and> rs_now r \<le> now then
              (case exit_info p w of (code, sig) \<Rightarrow>
                 Some (loop_head (r\<lparr>rs_now := now, rs_mgr :=
                   handleExit p code sig now started (m\<lparr>m_pending := remove1 p (m_pending m)\<rparr>)\<rparr>)))
            else None
        | KillTimerFires i \<Rightarrow>
            if i < length (m_units m) \<and> u_killTimer (m_units m ! i) then
              Some (r\<lparr>rs_mgr := m\<lparr>m_signals := m_signals m @ [SIGKILL i (u_pid (m_units m ! i))]\<rparr>\<rparr>)
            else None)"

inductive mgr_step :: "RunState \<Rightarrow> RunState \<Rightarrow> bool" where
  mgr_event [sys_intros]: "Run_select e r = Some r' \<Longrightarrow> mgr_step r r'"

inductive_cases mgr_stepE: "mgr_step r r'"

definition mgr_start :: "RunState \<Rightarrow> bool" where
  "mgr_start r \<longleftrightarrow> (\<exists>ps starts now. length starts = length ps \<and> r = Run_start starts now (NewManager ps))"

abbreviation mgr_reach :: "RunState \<Rightarrow> bool" where
  "mgr_reach \<equiv> reach mgr_start mgr_step"

section \<open>What the operations leave alone\<close>

abbreviation "states m \<equiv> map u_state (m_units m)"
abbreviation "budgets m \<equiv> map u_budget (m_units m)"
abbreviation "configs m \<equiv> map u_cfg (m_units m)"

lemma upd_unit_fields [simp]:
  "m_shuttingDown (upd_unit i f m) = m_shuttingDown m" "m_exitCode (upd_unit i f m) = m_exitCode m"
  "m_hasTasks (upd_unit i f m) = m_hasTasks m" "m_pending (upd_unit i f m) = m_pending m"
  "m_out (upd_unit i f m) = m_out m" "m_signals (upd_unit i f m) = m_signals m"
  "m_restarts (upd_unit i f m) = m_restarts m" "m_codes (upd_unit i f m) = m_codes m"
  "length (m_units (upd_unit i f m)) = length (m_units m)"
  by (simp_all add: upd_unit_def)

lemma upd_unit_map:
  "(\<And>u. g (f u) = g u) \<Longrightarrow> map g (m_units (upd_unit i f m)) = map g (m_units m)"
  by (cases "i < length (m_units m)") (simp_all add: upd_unit_def map_update list_update_beyond list_update_same_conv)

lemma upd_unit_nth:
  "i < length (m_units m) \<Longrightarrow> m_units (upd_unit i f m) ! i = f (m_units m ! i)"
  "j \<noteq> i \<Longrightarrow> m_units (upd_unit i f m) ! j = m_units m ! j"
  by (simp_all add: upd_unit_def)

lemma terminate_unit_fields [simp]:
  "m_shuttingDown (terminate_unit i m) = m_shuttingDown m" "m_exitCode (terminate_unit i m) = m_exitCode m"
  "m_hasTasks (terminate_unit i m) = m_hasTasks m" "m_pending (terminate_unit i m) = m_pending m"
  "m_out (terminate_unit i m) = m_out m" "m_restarts (terminate_unit i m) = m_restarts m"
  "m_codes (terminate_unit i m) = m_codes m" "length (m_units (terminate_unit i m)) = length (m_units m)"
  by (simp_all add: terminate_unit_def Let_def)

lemma terminate_unit_map:
  "(\<And>u. g (u\<lparr>u_killTimer := True\<rparr>) = g u) \<Longrightarrow> map g (m_units (terminate_unit i m)) = map g (m_units m)"
  using upd_unit_map [of g "\<lambda>u. u\<lparr>u_killTimer := True\<rparr>" i m]
  by (simp add: terminate_unit_def Let_def)

text \<open>A fold of steps that each keep a projection keeps it.\<close>

lemma fold_keeps: "(\<And>x s. g (f x s) = g s) \<Longrightarrow> g (fold f xs s) = g s"
  by (induction xs arbitrary: s) auto

lemma beginShutdown_fields [simp]:
  "m_shuttingDown (beginShutdown m)" "m_exitCode (beginShutdown m) = m_exitCode m"
  "m_hasTasks (beginShutdown m) = m_hasTasks m" "m_pending (beginShutdown m) = m_pending m"
  "m_out (beginShutdown m) = m_out m" "m_restarts (beginShutdown m) = m_restarts m"
  "m_codes (beginShutdown m) = m_codes m" "length (m_units (beginShutdown m)) = length (m_units m)"
  by (auto simp: beginShutdown_def fold_keeps [of m_shuttingDown] fold_keeps [of m_exitCode]
      fold_keeps [of m_hasTasks] fold_keeps [of m_pending] fold_keeps [of m_out]
      fold_keeps [of m_restarts] fold_keeps [of m_codes] fold_keeps [of "\<lambda>m. length (m_units m)"])

lemma beginShutdown_map:
  "(\<And>u. g (u\<lparr>u_killTimer := True\<rparr>) = g u) \<Longrightarrow> map g (m_units (beginShutdown m)) = map g (m_units m)"
  using fold_keeps [of "\<lambda>m. map g (m_units m)" terminate_unit, OF terminate_unit_map]
  by (simp add: beginShutdown_def)

lemma beginShutdown_views [simp]:
  "states (beginShutdown m) = states m" "budgets (beginShutdown m) = budgets m"
  "configs (beginShutdown m) = configs m" "map u_cmd (m_units (beginShutdown m)) = map u_cmd (m_units m)"
  "map u_pid (m_units (beginShutdown m)) = map u_pid (m_units m)"
  by (simp_all add: beginShutdown_map)

lemma setExitCode_fields [simp]:
  "m_units (setExitCode c m) = m_units m" "m_shuttingDown (setExitCode c m) = m_shuttingDown m"
  "m_hasTasks (setExitCode c m) = m_hasTasks m" "m_pending (setExitCode c m) = m_pending m"
  "m_out (setExitCode c m) = m_out m" "m_restarts (setExitCode c m) = m_restarts m"
  "m_signals (setExitCode c m) = m_signals m" "m_codes (setExitCode c m) = m_codes m @ [c]"
  by (simp_all add: setExitCode_def)

section \<open>Units and pending exits\<close>

text \<open>
  The bookkeeping is right outside \<open>S\<close>: every unit not in \<open>S\<close> is in the running state exactly when the
  loop has an exit of it to receive, and then one; units in \<open>S\<close> have none.
\<close>

definition pend_except :: "nat set \<Rightarrow> Manager \<Rightarrow> bool" where
  "pend_except S m \<longleftrightarrow>
     (\<forall>p \<in> set (m_pending m). p_unit p < length (m_units m) \<and> p_unit p \<notin> S) \<and>
     (\<forall>i < length (m_units m). i \<notin> S \<longrightarrow>
        length (filter (\<lambda>p. p_unit p = i) (m_pending m)) = (if states m ! i = stateRunning then 1 else 0))"

text \<open>The child behind a pending exit is the one the unit's command refers to.\<close>

definition child_inv :: "Manager \<Rightarrow> bool" where
  "child_inv m \<longleftrightarrow> (\<forall>i pid. Child i pid \<in> set (m_pending m) \<longrightarrow>
     map u_cmd (m_units m) ! i \<and> map u_pid (m_units m) ! i = pid)"

fun starts_of :: "sink_rec list \<Rightarrow> (bytes \<times> int) list" where
  "starts_of [] = []"
| "starts_of (Rec_start n pid # rs) = (n, pid) # starts_of rs"
| "starts_of (Rec_exit _ _ _ _ # rs) = starts_of rs"

fun exits_of :: "sink_rec list \<Rightarrow> (bytes \<times> int) list" where
  "exits_of [] = []"
| "exits_of (Rec_exit n pid _ _ # rs) = (n, pid) # exits_of rs"
| "exits_of (Rec_start _ _ # rs) = exits_of rs"

lemma starts_of_append [simp]: "starts_of (xs @ ys) = starts_of xs @ starts_of ys"
  by (induction xs rule: starts_of.induct) auto

lemma exits_of_append [simp]: "exits_of (xs @ ys) = exits_of xs @ exits_of ys"
  by (induction xs rule: exits_of.induct) auto

definition child_ids :: "Manager \<Rightarrow> (bytes \<times> int) multiset" where
  "child_ids m = mset (map (\<lambda>p. case p of Child i pid \<Rightarrow> (pr_Name (configs m ! i), pid))
     (filter is_child (m_pending m)))"

text \<open>Start records are matched by exit records, except for the children still running.\<close>

definition record_inv :: "Manager \<Rightarrow> bool" where
  "record_inv m \<longleftrightarrow> mset (starts_of (m_out m)) = mset (exits_of (m_out m)) + child_ids m"

lemma pend_except_cong:
  "m_pending m' = m_pending m \<Longrightarrow> states m' = states m \<Longrightarrow> length (m_units m') = length (m_units m)
   \<Longrightarrow> pend_except S m' = pend_except S m"
  by (simp add: pend_except_def)

lemma set_state_pend:
  assumes "pend_except S m" "i \<in> S" "i < length (m_units m)" "st \<noteq> stateRunning"
  shows "pend_except (S - {i}) (upd_unit i (\<lambda>u. u\<lparr>u_state := st\<rparr>) m)"
proof -
  have "filter (\<lambda>p. p_unit p = i) (m_pending m) = []"
    using assms(1,2) by (auto simp: pend_except_def filter_empty_conv)
  then show ?thesis
    using assms by (auto simp: pend_except_def upd_unit_def map_update nth_list_update)
qed

lemma spawn_fields:
  "m_shuttingDown (spawn i s m) = m_shuttingDown m" "m_exitCode (spawn i s m) = m_exitCode m"
  "m_hasTasks (spawn i s m) = m_hasTasks m" "m_signals (spawn i s m) = m_signals m"
  "m_restarts (spawn i s m) = m_restarts m" "m_codes (spawn i s m) = m_codes m"
  "length (m_units (spawn i s m)) = length (m_units m)"
  "budgets (spawn i s m) = budgets m" "configs (spawn i s m) = configs m"
  by (simp_all add: spawn_def startFailed_def Let_def upd_unit_map split: option.split)

lemma spawn_pending:
  "m_pending (spawn i s m) = m_pending m @ [case s of None \<Rightarrow> FailedStart i | Some pid \<Rightarrow> Child i pid]"
  "states (spawn i s m) = (if i < length (m_units m) then (states m)[i := stateRunning] else states m)"
  by (simp_all add: spawn_def startFailed_def Let_def upd_unit_def map_update list_update_beyond
      list_update_overwrite split: option.split)

lemma spawn_pend:
  assumes "pend_except S m" "i \<in> S" "i < length (m_units m)"
  shows "pend_except (S - {i}) (spawn i s m)"
proof -
  have "filter (\<lambda>p. p_unit p = i) (m_pending m) = []"
    using assms(1,2) by (auto simp: pend_except_def filter_empty_conv)
  then show ?thesis
    using assms by (auto simp: pend_except_def spawn_pending spawn_fields nth_list_update split: option.splits)
qed

lemma spawn_child:
  assumes "child_inv m" "i < length (m_units m)" "pend_except S m" "i \<in> S"
  shows "child_inv (spawn i s m)"
proof -
  have "Child i pid \<notin> set (m_pending m)" for pid
    using assms(3,4) by (auto simp: pend_except_def)
  then show ?thesis
    using assms(1,2,3)
    by (auto simp: child_inv_def spawn_def startFailed_def Let_def upd_unit_def map_update
        nth_list_update pend_except_def split: option.splits)
qed

lemma spawn_record:
  assumes "record_inv m" "i < length (m_units m)"
  shows "record_inv (spawn i s m)"
proof -
  have c: "configs (spawn i s m) = configs m" by (rule spawn_fields)
  have "m_out (spawn i s m) = m_out m @ (case s of None \<Rightarrow> [] | Some pid \<Rightarrow> [Rec_start (pr_Name (configs m ! i)) pid])"
    using assms(2) by (simp add: spawn_def startFailed_def Let_def upd_unit_def split: option.split)
  then show ?thesis
    using assms c by (auto simp: record_inv_def child_ids_def spawn_pending split: option.splits)
qed

definition mgr_ok :: "nat set \<Rightarrow> Manager \<Rightarrow> bool" where
  "mgr_ok S m \<longleftrightarrow> pend_except S m \<and> child_inv m \<and> record_inv m"

lemma mgr_ok_cong:
  "\<lbrakk>m_pending m' = m_pending m; m_out m' = m_out m; states m' = states m; configs m' = configs m;
    map u_cmd (m_units m') = map u_cmd (m_units m); map u_pid (m_units m') = map u_pid (m_units m)\<rbrakk>
   \<Longrightarrow> mgr_ok S m' = mgr_ok S m"
  using map_eq_imp_length_eq [of u_state "m_units m'" u_state "m_units m"]
  by (simp add: mgr_ok_def pend_except_def child_inv_def record_inv_def child_ids_def)

lemma set_state_ok:
  assumes "mgr_ok S m" "i \<in> S" "i < length (m_units m)" "st \<noteq> stateRunning"
  shows "mgr_ok (S - {i}) (upd_unit i (\<lambda>u. u\<lparr>u_state := st\<rparr>) m)"
proof -
  have "configs (upd_unit i (\<lambda>u. u\<lparr>u_state := st\<rparr>) m) = configs m"
    "map u_cmd (m_units (upd_unit i (\<lambda>u. u\<lparr>u_state := st\<rparr>) m)) = map u_cmd (m_units m)"
    "map u_pid (m_units (upd_unit i (\<lambda>u. u\<lparr>u_state := st\<rparr>) m)) = map u_pid (m_units m)"
    by (simp_all add: upd_unit_map)
  then show ?thesis
    using assms set_state_pend [of S m i st]
    unfolding mgr_ok_def child_inv_def record_inv_def child_ids_def by (simp del: nth_map)
qed

lemma spawn_ok: "\<lbrakk>mgr_ok S m; i \<in> S; i < length (m_units m)\<rbrakk> \<Longrightarrow> mgr_ok (S - {i}) (spawn i s m)"
  unfolding mgr_ok_def using spawn_pend spawn_child spawn_record by blast

lemma beginShutdown_ok [simp]: "mgr_ok S (beginShutdown m) = mgr_ok S m"
  by (rule mgr_ok_cong) simp_all

lemma setExitCode_ok [simp]: "mgr_ok S (setExitCode c m) = mgr_ok S m"
  by (rule mgr_ok_cong) simp_all

lemma applyOnFailure_ok:
  assumes "mgr_ok {i} m" "i < length (m_units m)"
  shows "mgr_ok {} (applyOnFailure i c m)"
  using assms set_state_ok [of "{i}" m i] by (simp add: applyOnFailure_def Let_def)

text \<open>The first part of \<open>handleExit\<close>: the exit is taken, the timer stopped, the record written.\<close>

definition receive :: "pending \<Rightarrow> int \<Rightarrow> bytes \<Rightarrow> Manager \<Rightarrow> Manager" where
  "receive p code sig m =
     (let m1 = upd_unit (p_unit p) (\<lambda>u. u\<lparr>u_killTimer := False\<rparr>) (m\<lparr>m_pending := remove1 p (m_pending m)\<rparr>)
      in case p of
           Child i pid \<Rightarrow> m1\<lparr>m_out := m_out m1 @ [Rec_exit (pr_Name (u_cfg (m_units m1 ! i))) pid code sig]\<rparr>
         | FailedStart _ \<Rightarrow> m1)"

lemma receive_fields [simp]:
  "m_shuttingDown (receive p c sg m) = m_shuttingDown m" "m_exitCode (receive p c sg m) = m_exitCode m"
  "m_hasTasks (receive p c sg m) = m_hasTasks m" "m_signals (receive p c sg m) = m_signals m"
  "m_restarts (receive p c sg m) = m_restarts m" "m_codes (receive p c sg m) = m_codes m"
  "m_pending (receive p c sg m) = remove1 p (m_pending m)"
  "length (m_units (receive p c sg m)) = length (m_units m)"
  by (simp_all add: receive_def Let_def split: pending.split)

lemma receive_map:
  "(\<And>u. g (u\<lparr>u_killTimer := False\<rparr>) = g u) \<Longrightarrow> map g (m_units (receive p c sg m)) = map g (m_units m)"
  by (cases p) (simp_all add: receive_def Let_def upd_unit_map)

lemma receive_views [simp]:
  "states (receive p c sg m) = states m" "budgets (receive p c sg m) = budgets m"
  "configs (receive p c sg m) = configs m" "map u_cmd (m_units (receive p c sg m)) = map u_cmd (m_units m)"
  "map u_pid (m_units (receive p c sg m)) = map u_pid (m_units m)"
  by (simp_all add: receive_map)

lemma receive_out:
  "m_out (receive p c sg m) = m_out m @
     (case p of Child i pid \<Rightarrow> [Rec_exit (pr_Name (u_cfg (m_units (receive p c sg m) ! i))) pid c sg] | FailedStart _ \<Rightarrow> [])"
  by (simp add: receive_def Let_def split: pending.split)

lemma handleExit_eq:
  "handleExit p code sig now started (m\<lparr>m_pending := remove1 p (m_pending m)\<rparr>) =
     (let i = p_unit p; r = receive p code sig m; cfg = u_cfg (m_units r ! i) in
      if m_shuttingDown r then upd_unit i (\<lambda>u. u\<lparr>u_state := stateStopped\<rparr>) r
      else if warrantsRestart (pr_Restart cfg) code then
        (case allow now (u_budget (m_units r ! i)) of
           (True, b) \<Rightarrow>
             spawn i started ((upd_unit i (\<lambda>u. u\<lparr>u_budget := b\<rparr>) r)\<lparr>m_restarts := m_restarts r @ [(i, now)]\<rparr>)
         | (False, b) \<Rightarrow> applyOnFailure i code (upd_unit i (\<lambda>u. u\<lparr>u_budget := b\<rparr>) r))
      else if code = 0 then
        if pr_Role cfg = RoleTask then upd_unit i (\<lambda>u. u\<lparr>u_state := stateDone\<rparr>) r
        else upd_unit i (\<lambda>u. u\<lparr>u_state := stateStopped\<rparr>) r
      else applyOnFailure i code r)"
  by (cases p) (simp_all add: handleExit_def receive_def Let_def split: prod.split bool.split)

text \<open>The five ways \<open>handleExit\<close> ends, as a rule for properties of its result.\<close>

lemma handleExit_rule:
  assumes r: "r = receive p code sig m" and i: "i = p_unit p"
    and stop: "m_shuttingDown m \<Longrightarrow> Q (upd_unit i (\<lambda>u. u\<lparr>u_state := stateStopped\<rparr>) r)"
    and again: "\<And>b. \<lbrakk>\<not> m_shuttingDown m; allow now (u_budget (m_units r ! i)) = (True, b)\<rbrakk> \<Longrightarrow>
      Q (spawn i started ((upd_unit i (\<lambda>u. u\<lparr>u_budget := b\<rparr>) r)\<lparr>m_restarts := m_restarts r @ [(i, now)]\<rparr>))"
    and give_up: "\<And>b. \<lbrakk>\<not> m_shuttingDown m; allow now (u_budget (m_units r ! i)) = (False, b)\<rbrakk> \<Longrightarrow>
      Q (applyOnFailure i code (upd_unit i (\<lambda>u. u\<lparr>u_budget := b\<rparr>) r))"
    and fine: "\<And>st. \<lbrakk>\<not> m_shuttingDown m; code = 0; st \<in> {stateDone, stateStopped}\<rbrakk> \<Longrightarrow>
      Q (upd_unit i (\<lambda>u. u\<lparr>u_state := st\<rparr>) r)"
    and fail: "\<lbrakk>\<not> m_shuttingDown m; code \<noteq> 0\<rbrakk> \<Longrightarrow> Q (applyOnFailure i code r)"
  shows "Q (handleExit p code sig now started (m\<lparr>m_pending := remove1 p (m_pending m)\<rparr>))"
proof -
  have sd: "m_shuttingDown r = m_shuttingDown m" by (simp add: r)
  obtain ok b where "allow now (u_budget (m_units r ! i)) = (ok, b)" by fastforce
  then show ?thesis
    unfolding handleExit_eq Let_def r [symmetric] i [symmetric] sd
    using assms(3-) by (cases ok) (simp_all split: if_split)
qed

lemma child_ids_receive:
  assumes "p \<in> set (m_pending m)"
  shows "child_ids m = child_ids (receive p c sg m) +
     (case p of Child i pid \<Rightarrow> {#(pr_Name (configs m ! i), pid)#} | FailedStart _ \<Rightarrow> {#})"
proof -
  let ?f = "\<lambda>p. case p of Child i pid \<Rightarrow> (pr_Name (configs m ! i), pid)"
  have "mset (m_pending m) = add_mset p (mset (remove1 p (m_pending m)))"
    using assms by simp
  then have "filter_mset is_child (mset (m_pending m)) =
      filter_mset is_child (mset (remove1 p (m_pending m))) + (if is_child p then {#p#} else {#})"
    by (simp del: mset_remove1)
  then have "image_mset ?f (filter_mset is_child (mset (m_pending m))) =
      image_mset ?f (filter_mset is_child (mset (remove1 p (m_pending m)))) + (if is_child p then {#?f p#} else {#})"
    by (simp del: mset_remove1)
  then show ?thesis
    unfolding child_ids_def receive_views receive_fields mset_map mset_filter
    by (cases p) (simp_all del: mset_remove1)
qed

lemma receive_ok:
  assumes ok: "mgr_ok {} m" and p: "p \<in> set (m_pending m)"
  shows "mgr_ok {p_unit p} (receive p c sg m)" and "p_unit p < length (m_units m)"
proof -
  let ?i = "p_unit p" and ?r = "receive p c sg m"
  let ?on = "\<lambda>i. filter (\<lambda>q. p_unit q = i)"
  show i: "?i < length (m_units m)" using ok p by (auto simp: mgr_ok_def pend_except_def)
  then have one: "length (?on ?i (m_pending m)) \<le> 1"
    using ok by (auto simp: mgr_ok_def pend_except_def split: if_splits)
  have on: "?on j (m_pending ?r) = (if j = ?i then remove1 p (?on j (m_pending m)) else ?on j (m_pending m))" for j
    using p by (simp add: filter_remove1 remove1_idem)
  have "?on ?i (m_pending ?r) = []"
    using one p on [of ?i] by (simp add: length_remove1 flip: length_0_conv)
  then have gone: "q \<in> set (m_pending ?r) \<Longrightarrow> p_unit q \<noteq> ?i" for q
    by (auto simp: filter_empty_conv)
  have "pend_except {?i} ?r"
    using ok gone on unfolding mgr_ok_def pend_except_def receive_views receive_fields
    by (auto dest: in_set_remove1 [THEN iffD1] notin_set_remove1 set_remove1_subset [THEN subsetD])
  moreover have "child_inv ?r"
    using ok unfolding mgr_ok_def child_inv_def receive_views receive_fields
    by (blast dest: set_remove1_subset [THEN subsetD])
  moreover have "record_inv ?r"
  proof -
    have "pr_Name (u_cfg (m_units ?r ! j)) = pr_Name (configs m ! j)" if "j < length (m_units m)" for j
      using that receive_views(3) [of p c sg m] by (metis nth_map receive_fields(8))
    then have "mset (exits_of (m_out ?r)) = mset (exits_of (m_out m)) +
       (case p of Child i pid \<Rightarrow> {#(pr_Name (configs m ! i), pid)#} | FailedStart _ \<Rightarrow> {#})"
      "starts_of (m_out ?r) = starts_of (m_out m)"
      using i by (cases p; simp add: receive_out)+
    then show ?thesis
      using ok child_ids_receive [OF p, of c sg] by (simp add: mgr_ok_def record_inv_def)
  qed
  ultimately show "mgr_ok {?i} ?r" by (simp add: mgr_ok_def)
qed

lemma set_budget_ok [simp]:
  "mgr_ok S (upd_unit i (\<lambda>u. u\<lparr>u_budget := b\<rparr>) m) = mgr_ok S m"
  "mgr_ok S (m\<lparr>m_restarts := rs\<rparr>) = mgr_ok S m"
  by (rule mgr_ok_cong, simp_all add: upd_unit_map)+

lemma handleExit_ok:
  assumes "mgr_ok {} m" "p \<in> set (m_pending m)"
  shows "mgr_ok {} (handleExit p code sig now started (m\<lparr>m_pending := remove1 p (m_pending m)\<rparr>))"
proof -
  define r where "r = receive p code sig m"
  define i where "i = p_unit p"
  have r: "mgr_ok {i} r" "i < length (m_units r)"
    using receive_ok(1) [OF assms, of code sig] receive_ok(2) [OF assms] by (auto simp: r_def i_def)
  have stop: "mgr_ok {} (upd_unit i (\<lambda>u. u\<lparr>u_state := st\<rparr>) r)" if "st \<noteq> stateRunning" for st
    using set_state_ok [OF r(1) _ r(2) that] by simp
  have again: "mgr_ok {} (spawn i started ((upd_unit i (\<lambda>u. u\<lparr>u_budget := b\<rparr>) r)\<lparr>m_restarts := rs\<rparr>))" for b rs
    using r spawn_ok [of "{i}" "(upd_unit i (\<lambda>u. u\<lparr>u_budget := b\<rparr>) r)\<lparr>m_restarts := rs\<rparr>" i] by simp
  show ?thesis
    by (rule handleExit_rule [OF r_def i_def])
      (use r stop again in \<open>auto intro: applyOnFailure_ok\<close>)
qed

lemma spawn_all_ok:
  assumes "mgr_ok {k..<n} m" "length (m_units m) = n" "k + length starts = n"
  shows "mgr_ok {} (fold (\<lambda>(i, s). spawn i s) (enumerate k starts) m)"
  using assms
proof (induction starts arbitrary: k m)
  case Nil
  then show ?case by simp
next
  case (Cons s starts)
  have "{k..<n} - {k} = {Suc k..<n}" by auto
  then have "mgr_ok {Suc k..<n} (spawn k s m)"
    using spawn_ok [OF Cons.prems(1), of k s] Cons.prems(2,3) by simp
  then show ?case using Cons.IH [of "Suc k" "spawn k s m"] Cons.prems by (simp add: spawn_fields)
qed

lemma NewManager_ok: "mgr_ok {0..<length ps} (NewManager ps)"
  by (simp add: mgr_ok_def pend_except_def child_inv_def record_inv_def child_ids_def NewManager_def)

lemma spawn_all_fields:
  "m_shuttingDown (spawn_all ss m) = m_shuttingDown m" "m_exitCode (spawn_all ss m) = m_exitCode m"
  "m_hasTasks (spawn_all ss m) = m_hasTasks m" "m_restarts (spawn_all ss m) = m_restarts m"
  "m_codes (spawn_all ss m) = m_codes m" "budgets (spawn_all ss m) = budgets m"
  "configs (spawn_all ss m) = configs m" "length (m_units (spawn_all ss m)) = length (m_units m)"
  unfolding spawn_all_def by (rule fold_keeps, simp add: spawn_fields split: prod.split)+

section \<open>The restart budget\<close>

text \<open>
  A budget agrees with the restarts it granted: up to what it pruned, its history is those that can
  still matter, and no window of time holds more than the maximum.
\<close>

definition rate_ok :: "int \<Rightarrow> int \<Rightarrow> int list \<Rightarrow> bool" where
  "rate_ok mx w gs \<longleftrightarrow>
     (if w > 0 then \<forall>t. length (filter (\<lambda>g. t - w < g \<and> g \<le> t) gs) \<le> nat mx else length gs \<le> nat mx)"

definition budget_rel :: "int \<Rightarrow> restartBudget \<Rightarrow> int list \<Rightarrow> bool" where
  "budget_rel now b gs \<longleftrightarrow> (\<forall>g \<in> set gs. g \<le> now) \<and> rate_ok (bu_max b) (bu_window b) gs \<and>
     (if bu_window b > 0 then \<exists>cut \<le> now - bu_window b. bu_history b = filter (\<lambda>t. t > cut) gs
      else bu_history b = gs)"

lemma rate_ok_snoc:
  assumes "rate_ok mx w gs" "\<forall>g \<in> set gs. g \<le> now"
    and "int (length (if w > 0 then filter (\<lambda>g. g > now - w) gs else gs)) < mx"
  shows "rate_ok mx w (gs @ [now])"
proof (cases "w > 0")
  case True
  have "length (filter (\<lambda>g. t - w < g \<and> g \<le> t) (gs @ [now])) \<le> nat mx" for t
  proof (cases "t - w < now \<and> now \<le> t")
    case in_win: True
    have "length (filter (\<lambda>g. t - w < g \<and> g \<le> t) gs) \<le> length (filter (\<lambda>g. g > now - w) gs)"
      using in_win by (induction gs) auto
    then show ?thesis using assms(3) True in_win by simp
  next
    case False
    then show ?thesis using assms(1) True by (auto simp: rate_ok_def)
  qed
  then show ?thesis using True by (simp add: rate_ok_def)
next
  case False
  then show ?thesis using assms by (simp add: rate_ok_def)
qed

lemma allow_rel:
  assumes rel: "budget_rel now0 b gs" and "now0 \<le> now" and al: "allow now b = (ok, b')"
  shows "budget_rel now b' (if ok then gs @ [now] else gs)"
    "bu_max b' = bu_max b" "bu_window b' = bu_window b"
proof -
  let ?w = "bu_window b"
  let ?h = "if ?w > 0 then filter (\<lambda>t. t > now - ?w) gs else gs"
  have "(if ?w > 0 then filter (\<lambda>t. t > now - ?w) (bu_history b) else bu_history b) = ?h"
  proof (cases "?w > 0")
    case True
    then obtain cut where "cut \<le> now0 - ?w" "bu_history b = filter (\<lambda>t. t > cut) gs"
      using rel by (auto simp: budget_rel_def)
    moreover have "now - ?w < x \<Longrightarrow> cut < x" for x using calculation(1) assms(2) by linarith
    ultimately show ?thesis using True by (simp add: filter_filter) (rule filter_cong, auto)
  qed (use rel in \<open>simp add: budget_rel_def\<close>)
  then have eq: "allow now b = (if int (length ?h) \<ge> bu_max b then (False, b\<lparr>bu_history := ?h\<rparr>)
      else (True, b\<lparr>bu_history := ?h @ [now]\<rparr>))"
    by (auto simp: allow_def Let_def)
  show "bu_max b' = bu_max b" "bu_window b' = ?w" using al eq by (auto split: if_splits)
  have le: "\<forall>g \<in> set gs. g \<le> now" and rate: "rate_ok (bu_max b) ?w gs"
    using rel assms(2) by (force simp: budget_rel_def)+
  show "budget_rel now b' (if ok then gs @ [now] else gs)"
  proof (cases ok)
    case True
    then have b': "b' = b\<lparr>bu_history := ?h @ [now]\<rparr>" "int (length ?h) < bu_max b"
      using al eq by (auto split: if_splits)
    then show ?thesis
      using True le rate_ok_snoc [OF rate le b'(2)]
      by (auto simp: budget_rel_def intro!: exI [of _ "now - ?w"])
  next
    case False
    then have "b' = b\<lparr>bu_history := ?h\<rparr>" using al eq by (auto split: if_splits)
    then show ?thesis using False le rate by (auto simp: budget_rel_def)
  qed
qed

definition grants :: "nat \<Rightarrow> Manager \<Rightarrow> int list" where
  "grants i m = map snd (filter (\<lambda>r. fst r = i) (m_restarts m))"

definition budget_inv :: "int \<Rightarrow> Manager \<Rightarrow> bool" where
  "budget_inv now m \<longleftrightarrow> (\<forall>i < length (m_units m).
     bu_max (budgets m ! i) = pr_MaxRestarts (configs m ! i) \<and>
     bu_window (budgets m ! i) = pr_RestartWindow (configs m ! i) \<and>
     budget_rel now (budgets m ! i) (grants i m))"

lemma budget_inv_cong:
  "\<lbrakk>budgets m' = budgets m; configs m' = configs m; m_restarts m' = m_restarts m\<rbrakk>
   \<Longrightarrow> budget_inv now m' = budget_inv now m"
  using map_eq_imp_length_eq [of u_budget "m_units m'" u_budget "m_units m"]
  by (simp add: budget_inv_def grants_def)

lemma budget_rel_mono: "budget_rel now b gs \<Longrightarrow> now \<le> now' \<Longrightarrow> budget_rel now' b gs"
  unfolding budget_rel_def by (smt (verit))

lemma budget_inv_mono: "budget_inv now m \<Longrightarrow> now \<le> now' \<Longrightarrow> budget_inv now' m"
  using budget_rel_mono by (auto simp: budget_inv_def)

lemma applyOnFailure_views [simp]:
  "budgets (applyOnFailure i c m) = budgets m" "configs (applyOnFailure i c m) = configs m"
  "m_restarts (applyOnFailure i c m) = m_restarts m" "m_out (applyOnFailure i c m) = m_out m"
  "m_pending (applyOnFailure i c m) = m_pending m" "m_hasTasks (applyOnFailure i c m) = m_hasTasks m"
  by (simp_all add: applyOnFailure_def Let_def upd_unit_map)

lemma set_budget_inv:
  assumes inv: "budget_inv now m" and i: "i < length (m_units m)"
    and b: "bu_max b = bu_max (budgets m ! i)" "bu_window b = bu_window (budgets m ! i)"
    and rel: "budget_rel now b (grants i m @ gs)"
  shows "budget_inv now ((upd_unit i (\<lambda>u. u\<lparr>u_budget := b\<rparr>) m)\<lparr>m_restarts := m_restarts m @ map (Pair i) gs\<rparr>)"
proof -
  let ?m = "(upd_unit i (\<lambda>u. u\<lparr>u_budget := b\<rparr>) m)\<lparr>m_restarts := m_restarts m @ map (Pair i) gs\<rparr>"
  have "budgets ?m = (budgets m)[i := b]" "configs ?m = configs m"
    by (simp_all add: upd_unit_def map_update upd_unit_map)
      (simp add: list_update_same_conv i)
  moreover have "grants j ?m = (if j = i then grants i m @ gs else grants j m)" for j
    by (simp add: grants_def comp_def filter_map)
  ultimately show ?thesis
    using inv i b rel unfolding budget_inv_def by (auto simp: nth_list_update simp del: nth_map)
qed

lemma handleExit_budget:
  assumes inv: "budget_inv now0 m" and "now0 \<le> now" and "p_unit p < length (m_units m)"
  shows "budget_inv now (handleExit p code sig now started (m\<lparr>m_pending := remove1 p (m_pending m)\<rparr>))"
proof -
  define r where "r = receive p code sig m"
  define i where "i = p_unit p"
  have i: "i < length (m_units r)" using assms(3) by (simp add: i_def r_def)
  have inv_r: "budget_inv now0 r" using inv budget_inv_cong [of r m now0] by (simp add: r_def)
  then have inv_now: "budget_inv now r" using assms(2) by (rule budget_inv_mono)
  have st: "budget_inv now (upd_unit i (\<lambda>u. u\<lparr>u_state := x\<rparr>) r)" for x
    using inv_now budget_inv_cong [of "upd_unit i (\<lambda>u. u\<lparr>u_state := x\<rparr>) r" r now]
    by (simp add: upd_unit_map)
  have fail: "budget_inv now (applyOnFailure i code m') = budget_inv now m'" for m'
    by (rule budget_inv_cong) simp_all
  have again: "budget_inv now (spawn i started m') = budget_inv now m'" for m'
    by (rule budget_inv_cong) (simp_all add: spawn_fields)
  have "budget_rel now0 (u_budget (m_units r ! i)) (grants i r)"
    using inv_r i by (simp add: budget_inv_def)
  then have budget: "budget_inv now ((upd_unit i (\<lambda>u. u\<lparr>u_budget := b\<rparr>) r)
      \<lparr>m_restarts := m_restarts r @ map (Pair i) (if ok then [now] else [])\<rparr>)"
    if "allow now (u_budget (m_units r ! i)) = (ok, b)" for ok b
    using allow_rel [OF _ assms(2) that] i by (intro set_budget_inv [OF inv_now i]) (cases ok; simp)+
  have same: "(upd_unit i f r)\<lparr>m_restarts := m_restarts r\<rparr> = upd_unit i f r" for f
    by (simp add: upd_unit_def)
  show ?thesis
    by (rule handleExit_rule [OF r_def i_def])
      (use st inv_now budget [of True] budget [of False] in \<open>simp_all add: fail again same\<close>)
qed

section \<open>Exit code and signals\<close>

definition code_inv :: "Manager \<Rightarrow> bool" where
  "code_inv m \<longleftrightarrow> m_exitCode m = hd (filter (\<lambda>c. c \<noteq> 0) (m_codes m) @ [0])"

definition signal_inv :: "Manager \<Rightarrow> bool" where
  "signal_inv m \<longleftrightarrow> (m_shuttingDown m \<longrightarrow>
     (\<forall>i pid. Child i pid \<in> set (m_pending m) \<longrightarrow> SIGTERM i pid \<in> set (m_signals m)))"

lemma setExitCode_code: "code_inv m \<Longrightarrow> code_inv (setExitCode c m)"
proof -
  have nz: "x \<noteq> 0" if "filter (\<lambda>c. c \<noteq> 0) xs = x # ys" for x ys and xs :: "int list"
    using that by (metis (mono_tags, lifting) Cons_eq_filterD)
  show "code_inv m \<Longrightarrow> code_inv (setExitCode c m)"
  proof (cases "filter (\<lambda>c. c \<noteq> 0) (m_codes m)")
    case (Cons x ys)
    then have "x \<noteq> 0" by (rule nz)
    then show "code_inv m \<Longrightarrow> code_inv (setExitCode c m)" using Cons by (auto simp: code_inv_def setExitCode_def)
  qed (auto simp: code_inv_def setExitCode_def)
qed

lemma code_inv_cong: "m_exitCode m' = m_exitCode m \<Longrightarrow> m_codes m' = m_codes m \<Longrightarrow> code_inv m' = code_inv m"
  by (simp add: code_inv_def)

lemma code_inv_frame [simp]:
  "code_inv (upd_unit i f m) = code_inv m" "code_inv (receive p c sg m) = code_inv m"
  "code_inv (spawn i s m) = code_inv m" "code_inv (m\<lparr>m_restarts := rs\<rparr>) = code_inv m"
  "code_inv (beginShutdown m) = code_inv m"
  by (rule code_inv_cong, simp_all add: spawn_fields)+

lemma applyOnFailure_code: "code_inv m \<Longrightarrow> code_inv (applyOnFailure i c m)"
  by (simp add: applyOnFailure_def Let_def setExitCode_code)

lemma handleExit_code:
  assumes "code_inv m"
  shows "code_inv (handleExit p code sig now started (m\<lparr>m_pending := remove1 p (m_pending m)\<rparr>))"
  by (rule handleExit_rule [OF refl refl]) (use assms in \<open>simp_all add: applyOnFailure_code\<close>)

lemma terminate_signals:
  "set (m_signals m) \<subseteq> set (m_signals (terminate_unit i m))"
  "\<lbrakk>i < length (m_units m); states m ! i = stateRunning; map u_cmd (m_units m) ! i\<rbrakk> \<Longrightarrow>
     SIGTERM i (map u_pid (m_units m) ! i) \<in> set (m_signals (terminate_unit i m))"
  by (auto simp: terminate_unit_def Let_def)

lemma terminate_fold:
  "set (m_signals m) \<subseteq> set (m_signals (fold terminate_unit xs m)) \<and>
   (\<forall>i \<in> set xs. i < length (m_units m) \<longrightarrow> states m ! i = stateRunning \<longrightarrow> map u_cmd (m_units m) ! i \<longrightarrow>
     SIGTERM i (map u_pid (m_units m) ! i) \<in> set (m_signals (fold terminate_unit xs m)))"
proof (induction xs arbitrary: m)
  case Nil
  then show ?case by simp
next
  case (Cons x xs)
  have v: "states (terminate_unit x m) = states m" "map u_cmd (m_units (terminate_unit x m)) = map u_cmd (m_units m)"
    "map u_pid (m_units (terminate_unit x m)) = map u_pid (m_units m)"
    by (simp_all add: terminate_unit_map)
  show ?case
    using Cons.IH [of "terminate_unit x m"] terminate_signals [where m = m and i = x] unfolding v by auto
qed

lemma beginShutdown_signal:
  assumes ok: "mgr_ok {} m" and inv: "signal_inv m"
  shows "signal_inv (beginShutdown m)"
proof (cases "m_shuttingDown m")
  case True
  then show ?thesis using inv by (simp add: beginShutdown_def)
next
  case False
  have "SIGTERM i pid \<in> set (m_signals (beginShutdown m))" if c: "Child i pid \<in> set (m_pending m)" for i pid
  proof -
    have i: "i < length (m_units m)" and cmd: "map u_cmd (m_units m) ! i" "map u_pid (m_units m) ! i = pid"
      using ok c by (force simp: mgr_ok_def pend_except_def child_inv_def)+
    have "filter (\<lambda>p. p_unit p = i) (m_pending m) \<noteq> []" using c by (force simp: filter_empty_conv)
    then have "states m ! i = stateRunning"
      using ok i by (auto simp: mgr_ok_def pend_except_def split: if_splits)
    then show ?thesis
      using terminate_fold [of "m\<lparr>m_shuttingDown := True\<rparr>" "[0..<length (m_units m)]"] i cmd False
      by (auto simp: beginShutdown_def)
  qed
  then show ?thesis by (simp add: signal_inv_def)
qed

lemma handleExit_signal:
  assumes "mgr_ok {} m" "p \<in> set (m_pending m)" "signal_inv m"
  shows "signal_inv (handleExit p code sig now started (m\<lparr>m_pending := remove1 p (m_pending m)\<rparr>))"
proof -
  define r where "r = receive p code sig m"
  define i where "i = p_unit p"
  have r: "mgr_ok {i} r" "i < length (m_units r)" "m_shuttingDown r = m_shuttingDown m"
    using receive_ok(1) [OF assms(1,2), of code sig] receive_ok(2) [OF assms(1,2)] by (auto simp: r_def i_def)
  have sr: "signal_inv r"
    using assms(3) by (auto simp: signal_inv_def r_def dest: set_remove1_subset [THEN subsetD])
  have fail: "signal_inv (applyOnFailure i code m')"
    if "mgr_ok {i} m'" "i < length (m_units m')" "\<not> m_shuttingDown m'" for m'
  proof -
    have "mgr_ok {} (setExitCode code (upd_unit i (\<lambda>u. u\<lparr>u_state := stateStopped\<rparr>) m'))"
      using that set_state_ok [of "{i}" m' i stateStopped] by simp
    then have "signal_inv (beginShutdown (setExitCode code (upd_unit i (\<lambda>u. u\<lparr>u_state := stateStopped\<rparr>) m')))"
      by (rule beginShutdown_signal) (simp add: signal_inv_def that)
    then show ?thesis using that(3) by (simp add: applyOnFailure_def Let_def) (simp add: signal_inv_def)
  qed
  have upd: "signal_inv (upd_unit i f r)" for f using sr by (simp add: signal_inv_def)
  have again: "signal_inv (spawn i started m')" if "\<not> m_shuttingDown m'" for m'
    using that by (simp add: signal_inv_def spawn_fields)
  show ?thesis
    by (rule handleExit_rule [OF r_def i_def]) (use r in \<open>simp_all add: upd again fail\<close>)
qed

section \<open>The invariant of a run\<close>

definition run_inv :: "RunState \<Rightarrow> bool" where
  "run_inv r \<longleftrightarrow> mgr_ok {} (rs_mgr r) \<and> budget_inv (rs_now r) (rs_mgr r) \<and> code_inv (rs_mgr r) \<and>
     signal_inv (rs_mgr r) \<and>
     rs_returned r = (if m_shuttingDown (rs_mgr r) \<and> runningCount (rs_mgr r) = 0
                      then Some (m_exitCode (rs_mgr r)) else None)"

definition mgr_inv :: "int \<Rightarrow> Manager \<Rightarrow> bool" where
  "mgr_inv now m \<longleftrightarrow> mgr_ok {} m \<and> budget_inv now m \<and> code_inv m \<and> signal_inv m"

lemma beginShutdown_inv: "mgr_inv now m \<Longrightarrow> mgr_inv now (beginShutdown m)"
  using beginShutdown_signal budget_inv_cong [of "beginShutdown m" m now]
  by (simp add: mgr_inv_def code_inv_def)

lemma loop_head_inv: "mgr_inv (rs_now r) (rs_mgr r) \<Longrightarrow> run_inv (loop_head r)"
  using beginShutdown_inv [of "rs_now r" "rs_mgr r"]
  by (simp add: loop_head_def run_inv_def mgr_inv_def Let_def)

lemma handleExit_inv:
  assumes "mgr_inv now0 m" "p \<in> set (m_pending m)" "now0 \<le> now"
  shows "mgr_inv now (handleExit p code sig now started (m\<lparr>m_pending := remove1 p (m_pending m)\<rparr>))"
proof -
  have "p_unit p < length (m_units m)" using assms by (intro receive_ok(2)) (simp_all add: mgr_inv_def)
  then show ?thesis
    using assms unfolding mgr_inv_def
    by (blast intro: handleExit_ok handleExit_budget handleExit_code handleExit_signal)
qed

lemma Run_select_inv:
  assumes "Run_select e r = Some r'" "run_inv r"
  shows "run_inv r'"
proof -
  have m: "mgr_inv (rs_now r) (rs_mgr r)" using assms(2) by (simp add: run_inv_def mgr_inv_def)
  show ?thesis
  proof (cases e)
    case Cancelled
    then show ?thesis
      using assms(1) m by (auto simp: Run_select_def Let_def intro!: loop_head_inv beginShutdown_inv split: if_splits)
  next
    case (Exited p w now started)
    then show ?thesis
      using assms(1) handleExit_inv [OF m, of p now]
      by (auto simp: Run_select_def Let_def intro!: loop_head_inv split: if_splits prod.splits)
  next
    case (KillTimerFires i)
    then have m': "rs_mgr r' = (rs_mgr r)\<lparr>m_signals := m_signals (rs_mgr r) @
        [SIGKILL i (u_pid (m_units (rs_mgr r) ! i))]\<rparr>" "rs_now r' = rs_now r" "rs_returned r' = rs_returned r"
      using assms(1) by (auto simp: Run_select_def Let_def split: if_splits)
    have "mgr_ok {} (rs_mgr r') = mgr_ok {} (rs_mgr r)" by (rule mgr_ok_cong) (simp_all add: m')
    moreover have "budget_inv (rs_now r) (rs_mgr r') = budget_inv (rs_now r) (rs_mgr r)"
      by (rule budget_inv_cong) (simp_all add: m')
    ultimately show ?thesis
      using assms(2) by (auto simp: run_inv_def m' code_inv_def signal_inv_def runningCount_def)
  qed
qed

lemma mgr_start_inv: "mgr_start r \<Longrightarrow> run_inv r"
proof -
  assume "mgr_start r"
  then obtain ps starts now where len: "length starts = length ps"
      and r: "r = Run_start starts now (NewManager ps)" by (auto simp: mgr_start_def)
  let ?m = "spawn_all starts (NewManager ps)"
  have "mgr_ok {} ?m"
    unfolding spawn_all_def using NewManager_ok [of ps] len
    by (intro spawn_all_ok [where n = "length ps"]) (simp_all add: NewManager_def)
  moreover have "budget_inv now ?m"
  proof -
    have "budget_inv now (NewManager ps)"
      by (auto simp: budget_inv_def NewManager_def new_unit_def grants_def budget_rel_def rate_ok_def)
    moreover have "budget_inv now ?m = budget_inv now (NewManager ps)"
      by (rule budget_inv_cong) (simp_all add: spawn_all_fields)
    ultimately show ?thesis by simp
  qed
  ultimately show ?thesis
    unfolding r Run_start_def
    by (intro loop_head_inv) (simp add: mgr_inv_def code_inv_def signal_inv_def spawn_all_fields NewManager_def)
qed

interpretation managing: invariant_system mgr_start mgr_step run_inv
  by unfold_locales (auto intro: mgr_start_inv Run_select_inv elim: mgr_stepE)

section \<open>Properties\<close>

text \<open>A unit runs exactly while an exit of it is outstanding.\<close>

lemma running_iff_pending:
  assumes "mgr_ok {} m"
  shows "runningCount m = 0 \<longleftrightarrow> m_pending m = []"
proof
  assume "runningCount m = 0"
  then have "u_state (m_units m ! i) \<noteq> stateRunning" if "i < length (m_units m)" for i
    using that by (auto simp: runningCount_def filter_empty_conv)
  then have "filter (\<lambda>p. p_unit p = i) (m_pending m) = []" if "i < length (m_units m)" for i
    using assms that by (simp add: mgr_ok_def pend_except_def)
  then have "p \<notin> set (m_pending m)" for p
    using assms by (auto simp: mgr_ok_def pend_except_def filter_empty_conv)
  then show "m_pending m = []" by (cases "m_pending m") auto
next
  assume "m_pending m = []"
  then have "u_state (m_units m ! i) \<noteq> stateRunning" if "i < length (m_units m)" for i
    using assms that by (auto simp: mgr_ok_def pend_except_def split: if_splits)
  then show "runningCount m = 0" by (auto simp: runningCount_def filter_empty_conv in_set_conv_nth)
qed

text \<open>
  C32. \<open>Run\<close> returns exactly when it should: it has returned if and only if shutdown has begun and no
  child and no failed start is outstanding. On return every start record has its exit record, the
  value returned is the manager's exit code, and that is the first non-zero code a failure was
  resolved with, or 0.
\<close>

theorem Run_returns_when_drained:
  assumes "mgr_reach r"
  shows "(rs_returned r \<noteq> None \<longleftrightarrow> m_shuttingDown (rs_mgr r) \<and> m_pending (rs_mgr r) = []) \<and>
     (\<forall>code. rs_returned r = Some code \<longrightarrow>
        code = hd (filter (\<lambda>c. c \<noteq> 0) (m_codes (rs_mgr r)) @ [0]) \<and>
        mset (starts_of (m_out (rs_mgr r))) = mset (exits_of (m_out (rs_mgr r))))"
proof -
  have inv: "run_inv r" using assms by (rule managing.invar_reach)
  then have ok: "mgr_ok {} (rs_mgr r)" by (simp add: run_inv_def)
  note run = running_iff_pending [OF ok]
  show ?thesis
    using inv ok by (auto simp: run_inv_def run code_inv_def mgr_ok_def record_inv_def child_ids_def split: if_splits)
qed

text \<open>During shutdown an exit is only recorded.\<close>

lemma shutdown_exit:
  fixes code now :: int and sig :: bytes and started :: "int option"
  assumes "m_shuttingDown m" "p \<in> set (m_pending m)"
  defines "m' \<equiv> handleExit p code sig now started (m\<lparr>m_pending := remove1 p (m_pending m)\<rparr>)"
  shows "m_shuttingDown m'" "m_exitCode m' = m_exitCode m" "m_restarts m' = m_restarts m"
    "starts_of (m_out m') = starts_of (m_out m)" "length (m_pending m') = length (m_pending m) - 1"
proof -
  have "starts_of (m_out (receive p code sig m)) = starts_of (m_out m)"
    by (cases p) (simp_all add: receive_out)
  then show "m_shuttingDown m'" "m_exitCode m' = m_exitCode m" "m_restarts m' = m_restarts m"
    "starts_of (m_out m') = starts_of (m_out m)" "length (m_pending m') = length (m_pending m) - 1"
    using assms(1,2) by (simp_all add: m'_def handleExit_eq Let_def length_remove1)
qed

lemma loop_head_shutdown: "m_shuttingDown (rs_mgr r) \<Longrightarrow> rs_mgr (loop_head r) = rs_mgr r"
  by (simp add: loop_head_def Let_def)

text \<open>
  No restart after shutdown began: from then on a step never starts a process, never changes the
  exit code and never leaves the shutdown, and every exit received is one fewer outstanding.
\<close>

theorem shutdown_never_restarts:
  assumes "m_shuttingDown (rs_mgr r)" "Run_select e r = Some r'"
  shows "m_shuttingDown (rs_mgr r') \<and> m_exitCode (rs_mgr r') = m_exitCode (rs_mgr r) \<and>
     m_restarts (rs_mgr r') = m_restarts (rs_mgr r) \<and>
     starts_of (m_out (rs_mgr r')) = starts_of (m_out (rs_mgr r)) \<and>
     length (m_pending (rs_mgr r')) =
       length (m_pending (rs_mgr r)) - (case e of Exited _ _ _ _ \<Rightarrow> 1 | _ \<Rightarrow> 0)"
proof (cases e)
  case (Exited p w now started)
  obtain code sig where x: "exit_info p w = (code, sig)" by fastforce
  have p: "p \<in> set (m_pending (rs_mgr r))"
    and r': "r' = loop_head (r\<lparr>rs_now := now, rs_mgr := handleExit p code sig now started
        ((rs_mgr r)\<lparr>m_pending := remove1 p (m_pending (rs_mgr r))\<rparr>)\<rparr>)"
    using assms(2) Exited x by (auto simp: Run_select_def Let_def split: if_splits)
  then show ?thesis
    using shutdown_exit [OF assms(1) p] Exited by (simp add: loop_head_shutdown)
qed (use assms in \<open>auto simp: Run_select_def Let_def loop_head_shutdown split: if_splits\<close>)

fun mgr_exec :: "mgr_event list \<Rightarrow> RunState \<Rightarrow> RunState option" where
  "mgr_exec [] r = Some r"
| "mgr_exec (e # es) r = (case Run_select e r of None \<Rightarrow> None | Some r' \<Rightarrow> mgr_exec es r')"

lemma mgr_exec_reach: "mgr_exec es r = Some r' \<Longrightarrow> mgr_reach r \<Longrightarrow> mgr_reach r'"
  by (induction es arbitrary: r) (auto split: option.splits intro: sys_intros)

definition is_exit :: "mgr_event \<Rightarrow> bool" where
  "is_exit e = (case e of Exited _ _ _ _ \<Rightarrow> True | _ \<Rightarrow> False)"

lemma shutdown_run:
  "\<lbrakk>mgr_exec es r = Some r'; m_shuttingDown (rs_mgr r)\<rbrakk> \<Longrightarrow>
   m_shuttingDown (rs_mgr r') \<and> m_exitCode (rs_mgr r') = m_exitCode (rs_mgr r) \<and>
   starts_of (m_out (rs_mgr r')) = starts_of (m_out (rs_mgr r)) \<and>
   length (m_pending (rs_mgr r)) = length (m_pending (rs_mgr r')) + length (filter is_exit es)"
proof (induction es arbitrary: r)
  case (Cons e es)
  then obtain r1 where r1: "Run_select e r = Some r1" "mgr_exec es r1 = Some r'"
    by (auto split: option.splits)
  have "length (m_pending (rs_mgr r)) = Suc (length (m_pending (rs_mgr r)) - 1)" if "is_exit e"
    using r1(1) that length_pos_if_in_set [of _ "m_pending (rs_mgr r)"]
    by (cases e) (fastforce simp: is_exit_def Run_select_def Let_def split: if_splits)+
  then show ?case
    using Cons.IH [OF r1(2)] shutdown_never_restarts [OF Cons.prems(2) r1(1)]
    by (cases e) (simp_all add: is_exit_def)
qed simp

text \<open>
  C33. Shutdown completes. From the moment it has begun, whatever the children do and in whatever order
  the loop selects its events: no process is started any more and the exit code stays; every exit
  received is one fewer outstanding, and \<open>Run\<close> has returned, with the exit code of the moment the
  shutdown began, as soon as as many exits were received as were outstanding then, not before. Until
  it has returned some exit is outstanding, and each of those can be received, however the child ended
  (the clock not going back).
\<close>

theorem shutdown_completes:
  assumes "mgr_reach r" "m_shuttingDown (rs_mgr r)" "mgr_exec es r = Some r'"
  shows "starts_of (m_out (rs_mgr r')) = starts_of (m_out (rs_mgr r)) \<and>
     length (m_pending (rs_mgr r)) = length (m_pending (rs_mgr r')) + length (filter is_exit es) \<and>
     rs_returned r' =
       (if length (filter is_exit es) = length (m_pending (rs_mgr r)) then Some (m_exitCode (rs_mgr r)) else None) \<and>
     (rs_returned r' = None \<longrightarrow> m_pending (rs_mgr r') \<noteq> [] \<and>
        (\<forall>p \<in> set (m_pending (rs_mgr r')). \<forall>w now started. rs_now r' \<le> now \<longrightarrow>
           Run_select (Exited p w now started) r' \<noteq> None))"
proof -
  note run = shutdown_run [OF assms(3,2)]
  have inv: "run_inv r'" using mgr_exec_reach [OF assms(3,1)] by (rule managing.invar_reach)
  then have "runningCount (rs_mgr r') = 0 \<longleftrightarrow> m_pending (rs_mgr r') = []"
    by (simp add: run_inv_def running_iff_pending)
  then have ret: "rs_returned r' = (if m_pending (rs_mgr r') = [] then Some (m_exitCode (rs_mgr r)) else None)"
    using inv run by (simp add: run_inv_def)
  then show ?thesis using run by (auto simp: Run_select_def Let_def split: if_splits prod.split)
qed

text \<open>
  C34. Crash-loop cap: however children exit and the clock advances, a unit is restarted at most
  \<open>max_restarts\<close> times within any interval of length \<open>restart_window\<close> (and at most that often in all
  when no window is set).
\<close>

theorem restart_rate:
  assumes "mgr_reach r" "i < length (m_units (rs_mgr r))"
  defines "cfg \<equiv> u_cfg (m_units (rs_mgr r) ! i)"
  shows "if pr_RestartWindow cfg > 0
     then \<forall>t. length (filter (\<lambda>(j, g). j = i \<and> t - pr_RestartWindow cfg < g \<and> g \<le> t) (m_restarts (rs_mgr r)))
        \<le> nat (pr_MaxRestarts cfg)
     else length (filter (\<lambda>(j, g). j = i) (m_restarts (rs_mgr r))) \<le> nat (pr_MaxRestarts cfg)"
proof -
  have "run_inv r" using assms(1) by (rule managing.invar_reach)
  then have "rate_ok (pr_MaxRestarts cfg) (pr_RestartWindow cfg) (grants i (rs_mgr r))"
    using assms(2) by (auto simp: run_inv_def budget_inv_def budget_rel_def cfg_def)
  then show ?thesis
    by (auto simp: rate_ok_def grants_def filter_map comp_def case_prod_unfold conj_commute cong: conj_cong)
qed

text \<open>
  C35. No child escapes the shutdown: once shutdown has begun, every child still running has been sent
  SIGTERM.
\<close>

theorem shutdown_signals_children:
  assumes "mgr_reach r" "m_shuttingDown (rs_mgr r)" "Child i pid \<in> set (m_pending (rs_mgr r))"
  shows "SIGTERM i pid \<in> set (m_signals (rs_mgr r))"
  using managing.invar_reach [OF assms(1)] assms(2,3) by (simp add: run_inv_def signal_inv_def)

section \<open>A run\<close>

definition sample_task :: Process where
  "sample_task = \<lparr>pr_Name = ''app'', pr_Command = ''/app'', pr_Args = [], pr_Role = RoleTask,
     pr_Restart = RestartAlways, pr_MaxRestarts = 1, pr_RestartWindow = 10, pr_OnFailure = OnFailureContinue\<rparr>"

definition sample_sidecar :: Process where
  "sample_sidecar = \<lparr>pr_Name = ''vsockd'', pr_Command = ''/vsockd'', pr_Args = [], pr_Role = RoleSidecar,
     pr_Restart = RestartOnFailure, pr_MaxRestarts = 0, pr_RestartWindow = 0, pr_OnFailure = OnFailureTerminate\<rparr>"

definition sample_run :: RunState where
  "sample_run = Run_start [Some 100, Some 200] 0 (NewManager [sample_task, sample_sidecar])"

lemma sample_run_reach: "mgr_reach sample_run"
  by (rule reach_start)
    (auto simp: mgr_start_def sample_run_def intro!: exI [of _ "[sample_task, sample_sidecar]"] exI [of _ "[Some 100, Some 200]"])

lemmas mgr_eval = Run_start_def NewManager_def new_unit_def spawn_all_def spawn_def upd_unit_def
  startFailed_def loop_head_def allTasksTerminal_def runningCount_def beginShutdown_def terminate_unit_def
  Run_select_def handleExit_def exit_info_def classify_def warrantsRestart_def allow_def
  applyOnFailure_def setExitCode_def sample_task_def sample_sidecar_def policy_names Let_def

lemma sample_run_exec:
  "\<exists>r. mgr_exec [Exited (Child 0 100) (WaitExit 1) 5 (Some 101), Exited (Child 0 101) WaitNil 6 None] sample_run = Some r \<and>
     m_shuttingDown (rs_mgr r) \<and> m_pending (rs_mgr r) = [Child 1 200] \<and> m_restarts (rs_mgr r) = [(0, 5)] \<and>
     length (m_units (rs_mgr r)) = 2 \<and> u_cfg (m_units (rs_mgr r) ! 0) = sample_task \<and>
     m_signals (rs_mgr r) = [SIGTERM 1 200] \<and> rs_now r = 6 \<and> rs_returned r = None \<and>
     u_state (m_units (rs_mgr r) ! 0) = stateAbandoned \<and> m_exitCode (rs_mgr r) = 0"
  by (simp add: sample_run_def mgr_eval)

definition abandoned_run :: RunState where
  "abandoned_run = the (mgr_exec [Exited (Child 0 100) (WaitExit 1) 5 (Some 101), Exited (Child 0 101) WaitNil 6 None] sample_run)"

lemma abandoned_run:
  "mgr_reach abandoned_run" "m_shuttingDown (rs_mgr abandoned_run)" "m_pending (rs_mgr abandoned_run) = [Child 1 200]"
  "m_restarts (rs_mgr abandoned_run) = [(0, 5)]" "length (m_units (rs_mgr abandoned_run)) = 2"
  "u_cfg (m_units (rs_mgr abandoned_run) ! 0) = sample_task" "rs_returned abandoned_run = None" "rs_now abandoned_run = 6"
  "m_exitCode (rs_mgr abandoned_run) = 0" "u_state (m_units (rs_mgr abandoned_run) ! 0) = stateAbandoned"
proof -
  let ?es = "[Exited (Child 0 100) (WaitExit 1) 5 (Some 101), Exited (Child 0 101) WaitNil 6 None]"
  have ex: "mgr_exec ?es sample_run = Some abandoned_run"
    using sample_run_exec by (auto simp: abandoned_run_def simp del: mgr_exec.simps)
  then show "mgr_reach abandoned_run" using sample_run_reach by (rule mgr_exec_reach)
  from ex sample_run_exec
  show "m_shuttingDown (rs_mgr abandoned_run)" "m_pending (rs_mgr abandoned_run) = [Child 1 200]"
    "m_restarts (rs_mgr abandoned_run) = [(0, 5)]" "length (m_units (rs_mgr abandoned_run)) = 2"
    "u_cfg (m_units (rs_mgr abandoned_run) ! 0) = sample_task" "rs_returned abandoned_run = None"
    "rs_now abandoned_run = 6" "m_exitCode (rs_mgr abandoned_run) = 0"
    "u_state (m_units (rs_mgr abandoned_run) ! 0) = stateAbandoned"
    by (simp_all del: mgr_exec.simps)
qed

definition final_run :: RunState where
  "final_run = the (Run_select (Exited (Child 1 200) (WaitSignal 15) 7 None) abandoned_run)"

lemma final_run:
  "Run_select (Exited (Child 1 200) (WaitSignal 15) 7 None) abandoned_run = Some final_run"
  "rs_returned final_run = Some 0" "mgr_reach final_run"
proof -
  let ?m = "rs_mgr abandoned_run"
  obtain m' where m': "m' = handleExit (Child 1 200) 143 (signal_string 15) 7 None (?m\<lparr>m_pending := remove1 (Child 1 200) (m_pending ?m)\<rparr>)"
    by blast
  have sel: "Run_select (Exited (Child 1 200) (WaitSignal 15) 7 None) abandoned_run =
      Some (loop_head (abandoned_run\<lparr>rs_now := 7, rs_mgr := m'\<rparr>))"
    using abandoned_run(3,7,8) by (simp add: Run_select_def Let_def exit_info_def classify_def signalExitBase_def m')
  then show "Run_select (Exited (Child 1 200) (WaitSignal 15) 7 None) abandoned_run = Some final_run"
    by (simp add: final_run_def)
  then show reach: "mgr_reach final_run" using abandoned_run(1) by (blast intro: sys_intros)
  have f: "final_run = loop_head (abandoned_run\<lparr>rs_now := 7, rs_mgr := m'\<rparr>)" using sel by (simp add: final_run_def)
  have "m_shuttingDown m'" "m_exitCode m' = 0" "m_pending m' = []"
    using shutdown_exit [OF abandoned_run(2), of "Child 1 200" 143 "signal_string 15" 7 None] abandoned_run(3,9)
    by (simp_all add: m')
  moreover from this(1) have "rs_mgr final_run = m'" by (simp add: f loop_head_shutdown)
  moreover have "run_inv final_run" using reach by (rule managing.invar_reach)
  ultimately show "rs_returned final_run = Some 0"
    using running_iff_pending [of m'] by (simp add: run_inv_def)
qed

theorem Run_returns_when_drained_witness:
  "mgr_reach final_run \<and> rs_returned final_run = Some 0 \<and> m_pending (rs_mgr final_run) = [] \<and>
   mset (starts_of (m_out (rs_mgr final_run))) = mset (exits_of (m_out (rs_mgr final_run)))"
  using final_run(2,3) Run_returns_when_drained [OF final_run(3)] by simp

theorem shutdown_never_restarts_witness:
  "m_shuttingDown (rs_mgr abandoned_run) \<and> m_restarts (rs_mgr final_run) = [(0, 5)] \<and>
   length (m_pending (rs_mgr final_run)) = 0"
  using shutdown_never_restarts [OF abandoned_run(2) final_run(1)] abandoned_run by simp

theorem shutdown_completes_witness:
  "mgr_reach abandoned_run \<and> m_shuttingDown (rs_mgr abandoned_run) \<and> rs_returned abandoned_run = None \<and>
   mgr_exec [Exited (Child 1 200) (WaitSignal 15) 7 None] abandoned_run = Some final_run \<and>
   rs_returned final_run = Some 0"
proof -
  have ex: "mgr_exec [Exited (Child 1 200) (WaitSignal 15) 7 None] abandoned_run = Some final_run"
    using final_run(1) by simp
  then show ?thesis
    using shutdown_completes [OF abandoned_run(1,2) ex] abandoned_run by (simp add: is_exit_def del: mgr_exec.simps)
qed

theorem restart_rate_witness:
  "mgr_reach abandoned_run \<and> 0 < length (m_units (rs_mgr abandoned_run)) \<and>
   length (filter (\<lambda>(j, g). j = 0 \<and> 8 - 10 < g \<and> g \<le> 8) [(0 :: nat, 5 :: int)]) \<le> nat 1"
  using restart_rate [OF abandoned_run(1), of 0] abandoned_run(1,4,5,6)
  by (simp add: sample_task_def)

theorem shutdown_signals_children_witness:
  "mgr_reach abandoned_run \<and> m_shuttingDown (rs_mgr abandoned_run) \<and>
   SIGTERM 1 200 \<in> set (m_signals (rs_mgr abandoned_run))"
  using shutdown_signals_children [OF abandoned_run(1,2), of 1 200] abandoned_run by simp

text \<open>
  C40. A task given up under \<open>on_failure=continue\<close> can still leave the supervisor's exit code 0: when its
  restart policy is \<open>always\<close> and it used up its restarts exiting cleanly, the code recorded for the
  abandonment is 0.
\<close>

theorem abandoned_task_exits_zero:
  "\<exists>r i. mgr_reach r \<and> rs_returned r = Some 0 \<and> i < length (m_units (rs_mgr r)) \<and>
     pr_Role (u_cfg (m_units (rs_mgr r) ! i)) = RoleTask \<and> u_state (m_units (rs_mgr r) ! i) = stateAbandoned"
proof -
  have "\<exists>r. mgr_exec [Exited (Child 0 100) (WaitExit 1) 5 (Some 101), Exited (Child 0 101) WaitNil 6 None,
        Exited (Child 1 200) (WaitSignal 15) 7 None] sample_run = Some r \<and> rs_returned r = Some 0 \<and>
      length (m_units (rs_mgr r)) = 2 \<and> pr_Role (u_cfg (m_units (rs_mgr r) ! 0)) = RoleTask \<and>
      u_state (m_units (rs_mgr r) ! 0) = stateAbandoned"
    by (simp add: sample_run_def mgr_eval)
  then obtain r where "mgr_exec [Exited (Child 0 100) (WaitExit 1) 5 (Some 101), Exited (Child 0 101) WaitNil 6 None,
        Exited (Child 1 200) (WaitSignal 15) 7 None] sample_run = Some r" and r: "rs_returned r = Some 0"
      "length (m_units (rs_mgr r)) = 2" "pr_Role (u_cfg (m_units (rs_mgr r) ! 0)) = RoleTask"
      "u_state (m_units (rs_mgr r) ! 0) = stateAbandoned"
    by blast
  then have "mgr_reach r" using sample_run_reach by (blast intro: mgr_exec_reach)
  with r show ?thesis by (intro exI [of _ r] exI [of _ 0]) simp
qed

end
