(* ===== verification/Accept_Loop.thy ===== *)
theory Accept_Loop
  imports Prelude
begin

text \<open>
  The accept loops, \<open>listener.run\<close> of \<open>internal/inbound/server.go\<close> and of \<open>internal/outbound/server.go\<close>. The two differ
  in what makes them return and in what they do with a connection, which are the arguments of \<open>run_loop\<close>; what
  \<open>Accept\<close> returns, call after call, is a list. Delays are \<open>time.Duration\<close> values, in nanoseconds.
\<close>

section \<open>The loop\<close>

datatype ('c, 'r) accept = Accepted 'c | Failed 'r

datatype 'h loop_event = Spawn 'h | Inline 'h | CountAccept | WaitRetry int

definition firstDelay :: int where "firstDelay = 5000000"
definition maxDelay :: int where "maxDelay = 1000000000"

definition next_delay :: "int \<Rightarrow> int" where
  "next_delay tempDelay =
     (let d = (if tempDelay = 0 then firstDelay else int64_wrap (tempDelay * 2)) in if d > maxDelay then maxDelay else d)"

text \<open>The events of a run and whether it has returned; otherwise it waits in the next \<open>Accept\<close>.\<close>

fun run_loop ::
  "('r \<Rightarrow> bool) \<Rightarrow> ('r \<Rightarrow> bool) \<Rightarrow> 'h loop_event list \<Rightarrow> ('c \<Rightarrow> 'h loop_event) \<Rightarrow> int \<Rightarrow> ('c, 'r) accept list \<Rightarrow>
   'h loop_event list \<times> bool" where
  "run_loop stop woken report serve tempDelay [] = ([], False)"
| "run_loop stop woken report serve tempDelay (Failed r # outs) =
     (if stop r then ([], True)
      else
        let d = next_delay tempDelay in
        if woken r then (report @ [WaitRetry d], True)
        else case run_loop stop woken report serve d outs of (evs, ret) \<Rightarrow> (report @ [WaitRetry d] @ evs, ret))"
| "run_loop stop woken report serve tempDelay (Accepted c # outs) =
     (case run_loop stop woken report serve 0 outs of (evs, ret) \<Rightarrow> (serve c # evs, ret))"

text \<open>
  What the loop looks at after a failed \<open>Accept\<close>: whether the error is \<open>net.ErrClosed\<close>, whether the server's context is
  done, and whether it is interrupted while it waits.
\<close>

record refusal =
  rf_closed :: bool
  rf_ctx :: bool
  rf_woken :: bool

text \<open>The failures that end the loop.\<close>

fun ends :: "('r \<Rightarrow> bool) \<Rightarrow> ('r \<Rightarrow> bool) \<Rightarrow> ('c, 'r) accept \<Rightarrow> bool" where
  "ends stop woken (Failed r) = (stop r \<or> woken r)"
| "ends stop woken (Accepted c) = False"

section \<open>Back-off\<close>

definition delay_after :: "nat \<Rightarrow> int" where
  "delay_after k = (if k = 0 then 0 else min (firstDelay * 2 ^ (k - 1)) maxDelay)"

lemma delay_bounds: "0 < k \<Longrightarrow> firstDelay \<le> delay_after k \<and> delay_after k \<le> maxDelay"
  by (simp add: delay_after_def firstDelay_def maxDelay_def)

lemma next_delay_after: "next_delay (delay_after k) = delay_after (Suc k)"
proof (cases k)
  case 0
  then show ?thesis by (simp add: next_delay_def delay_after_def firstDelay_def maxDelay_def)
next
  case (Suc j)
  have b: "0 < delay_after k" "delay_after k \<le> maxDelay"
    using delay_bounds [of k] Suc by (simp_all add: firstDelay_def)
  define x where "x = firstDelay * 2 ^ j"
  have x: "delay_after k = min x maxDelay" "delay_after (Suc k) = min (x * 2) maxDelay"
    using Suc by (simp_all add: delay_after_def x_def)
  have w: "int64_wrap (delay_after k * 2) = delay_after k * 2"
    using b by (intro int64_wrap_id) (simp_all add: maxDelay_def)
  have "next_delay (delay_after k) = (if delay_after k * 2 > maxDelay then maxDelay else delay_after k * 2)"
    using b w by (simp add: next_delay_def)
  also have "\<dots> = delay_after (Suc k)"
    using b unfolding x by (simp add: min_def maxDelay_def)
  finally show ?thesis .
qed

definition waits :: "'h loop_event list \<Rightarrow> int list" where
  "waits evs = concat (map (\<lambda>e. case e of WaitRetry d \<Rightarrow> [d] | _ \<Rightarrow> []) evs)"

lemma waits_simps [simp]:
  "waits [] = []" "waits (WaitRetry d # evs) = d # waits evs" "waits (CountAccept # evs) = waits evs"
  "waits (Spawn h # evs) = waits evs" "waits (Inline h # evs) = waits evs" "waits (evs @ evs') = waits evs @ waits evs'"
  by (simp_all add: waits_def)

text \<open>The waits of a run, counting the failures since the last connection.\<close>

fun backoff :: "('r \<Rightarrow> bool) \<Rightarrow> ('r \<Rightarrow> bool) \<Rightarrow> nat \<Rightarrow> ('c, 'r) accept list \<Rightarrow> int list" where
  "backoff stop woken k [] = []"
| "backoff stop woken k (Failed r # outs) =
     (if stop r then [] else delay_after (Suc k) # (if woken r then [] else backoff stop woken (Suc k) outs))"
| "backoff stop woken k (Accepted c # outs) = backoff stop woken 0 outs"

lemma run_loop_waits:
  assumes "waits report = []" "\<forall>c. waits [serve c] = []"
  shows "waits (fst (run_loop stop woken report serve (delay_after k) outs)) = backoff stop woken k outs"
proof (induction stop woken k outs rule: backoff.induct)
  case (2 stop woken k r outs)
  then show ?case
    using assms(1) by (auto simp: next_delay_after Let_def case_prod_unfold)
next
  case (3 stop woken k c outs)
  have "waits (serve c # evs) = waits evs" for evs
    using assms(2) [rule_format, of c] by (cases "serve c") (simp_all add: waits_def)
  then show ?case
    using 3 by (simp add: delay_after_def [of 0] case_prod_unfold)
qed simp

text \<open>The waits after \<open>n\<close> failures in a row: 5 ms, doubled each time, capped at 1 s.\<close>

definition doubling :: "nat \<Rightarrow> int list" where
  "doubling n = map (\<lambda>k. min (5000000 * 2 ^ k) 1000000000) [0..<n]"

text \<open>A connection starts the count afresh.\<close>

lemma backoff_reset:
  "\<forall>a \<in> set outs. \<not> ends stop woken a \<Longrightarrow>
   backoff stop woken k (outs @ Accepted c # outs') = backoff stop woken k outs @ backoff stop woken 0 outs'"
  by (induction stop woken k outs rule: backoff.induct) auto

lemma backoff_bounds: "d \<in> set (backoff stop woken k outs) \<Longrightarrow> firstDelay \<le> d \<and> d \<le> maxDelay"
  using delay_bounds by (induction stop woken k outs rule: backoff.induct) (auto split: if_splits)

section \<open>Serving\<close>

text \<open>The connections among the results of \<open>Accept\<close>.\<close>

definition accepted :: "('c, 'r) accept list \<Rightarrow> 'c list" where
  "accepted outs = concat (map (\<lambda>a. case a of Accepted c \<Rightarrow> [c] | Failed _ \<Rightarrow> []) outs)"

definition served_by :: "'h loop_event list \<Rightarrow> 'h loop_event list" where
  "served_by evs = filter (\<lambda>e. case e of Spawn _ \<Rightarrow> True | Inline _ \<Rightarrow> True | _ \<Rightarrow> False) evs"

lemma run_loop_serves:
  assumes "served_by report = []" "\<forall>c. served_by [serve c] = [serve c]"
  shows "served_by (fst (run_loop stop woken report serve d outs)) =
       map serve (accepted (takeWhile (\<lambda>a. \<not> ends stop woken a) outs)) \<and>
     (snd (run_loop stop woken report serve d outs) \<longleftrightarrow> (\<exists>a \<in> set outs. ends stop woken a))"
proof (induction outs arbitrary: d)
  case (Cons a outs)
  have s: "served_by (serve c # evs) = serve c # served_by evs" for c evs
    using assms(2) by (auto simp: served_by_def split: if_splits)
  show ?case
  proof (cases a)
    case (Accepted c)
    then show ?thesis using Cons.IH [of 0] s by (auto simp: accepted_def split: prod.splits)
  next
    case (Failed r)
    then show ?thesis
      using Cons.IH [of "next_delay d"] assms(1) by (auto simp: accepted_def served_by_def Let_def split: prod.splits)
  qed
qed (simp add: served_by_def accepted_def)

end
