(* ===== verification/Staged_Reload.thy ===== *)
theory Staged_Reload
  imports Prelude "HOL-Library.AList"
begin

text \<open>
  The contract of a subsystem that takes part in a two-phase reload: \<open>prepare\<close> stages a configuration,
  then exactly one of \<open>commit\<close> and \<open>abort\<close> follows. The inbound and the outbound server provide it and
  \<open>app.Reload\<close> relies on it.
\<close>

locale stager =
  fixes running :: "'srv \<Rightarrow> 'w \<Rightarrow> bool"
    and serves :: "'srv \<Rightarrow> 'w \<Rightarrow> 'view"
    and resources :: "'w \<Rightarrow> 'res"
    and valid :: "'cfg \<Rightarrow> bool"
    and wants :: "'cfg \<Rightarrow> 'view"
    and prepare :: "'env \<Rightarrow> 'cfg \<Rightarrow> 'srv \<Rightarrow> 'w \<Rightarrow> ('e + 'plan) \<times> 'w"
    and commit :: "'plan \<Rightarrow> 'srv \<Rightarrow> 'w \<Rightarrow> 'srv \<times> 'w"
    and abort :: "'plan \<Rightarrow> 'w \<Rightarrow> 'w"
  assumes prepare_fails: "\<lbrakk>running s w; prepare env c s w = (Inl e, w')\<rbrakk> \<Longrightarrow>
      running s w' \<and> serves s w' = serves s w \<and> resources w' = resources w"
    and abort_undoes: "\<lbrakk>running s w; prepare env c s w = (Inr p, w')\<rbrakk> \<Longrightarrow>
      running s (abort p w') \<and> serves s (abort p w') = serves s w \<and> resources (abort p w') = resources w"
    and commit_publishes: "\<lbrakk>running s w; valid c; prepare env c s w = (Inr p, w')\<rbrakk> \<Longrightarrow>
      (case commit p s w' of (s'', w'') \<Rightarrow> running s'' w'' \<and> serves s'' w'' = wants c)"
begin

text \<open>A reload that stages and then commits or gives up.\<close>

definition reload :: "'env \<Rightarrow> 'cfg \<Rightarrow> 'srv \<Rightarrow> 'w \<Rightarrow> 'srv \<times> 'w \<times> bool" where
  "reload env c s w =
     (case prepare env c s w of
        (Inl e, w') \<Rightarrow> (s, w', False)
      | (Inr p, w') \<Rightarrow> (case commit p s w' of (s'', w'') \<Rightarrow> (s'', w'', True)))"

lemma reload_keeps_running:
  "\<lbrakk>running s w; valid c; reload env c s w = (s', w', ok)\<rbrakk> \<Longrightarrow>
     running s' w' \<and> (if ok then serves s' w' = wants c else s' = s \<and> serves s' w' = serves s w \<and> resources w' = resources w)"
  using prepare_fails [of s w env c] commit_publishes [of s w c env]
  by (auto simp: reload_def split: prod.splits sum.splits)

text \<open>Any sequence of reloads leaves a running server that serves the last configuration that took.\<close>

fun reloads :: "('env \<times> 'cfg) list \<Rightarrow> 'srv \<Rightarrow> 'w \<Rightarrow> 'srv \<times> 'w \<times> 'cfg option" where
  "reloads [] s w = (s, w, None)"
| "reloads ((env, c) # cs) s w =
     (case reload env c s w of (s', w', ok) \<Rightarrow>
        case reloads cs s' w' of (s'', w'', taken) \<Rightarrow>
          (s'', w'', case taken of Some c' \<Rightarrow> Some c' | None \<Rightarrow> if ok then Some c else None))"

lemma reloads_serve_last:
  "\<lbrakk>running s w; \<forall>(env, c) \<in> set cs. valid c; reloads cs s w = (s', w', taken)\<rbrakk> \<Longrightarrow>
     running s' w' \<and> serves s' w' = (case taken of Some c \<Rightarrow> wants c | None \<Rightarrow> serves s w)"
proof (induction cs arbitrary: s w s' w' taken)
  case (Cons x cs)
  obtain env c where x: "x = (env, c)" by fastforce
  obtain s1 w1 ok where r1: "reload env c s w = (s1, w1, ok)" by (metis prod_cases3)
  obtain s2 w2 last2 where r2: "reloads cs s1 w1 = (s2, w2, last2)" by (metis prod_cases3)
  have k: "running s1 w1" "serves s1 w1 = (if ok then wants c else serves s w)"
    using reload_keeps_running [OF Cons.prems(1) _ r1] Cons.prems(2) x by (auto split: if_splits)
  have "running s2 w2 \<and> serves s2 w2 = (case last2 of Some c \<Rightarrow> wants c | None \<Rightarrow> serves s1 w1)"
    using Cons.IH [OF k(1) _ r2] Cons.prems(2) by auto
  then show ?case using Cons.prems(3) x r1 r2 k(2) by (auto split: option.splits)
qed simp

end

section \<open>Facts both servers use\<close>

text \<open>The index a reload builds from its listeners, by a key that is distinct.\<close>

lemma index_distinct:
  assumes "distinct (map f rs)"
  shows "fold (\<lambda>r m. AList.update (f r) r m) rs [] = map (\<lambda>r. (f r, r)) rs"
proof -
  have upd: "k \<notin> fst ` set al \<Longrightarrow> AList.update k v al = al @ [(k, v)]" for k v al by (induction al) auto
  have "fold (\<lambda>r m. AList.update (f r) r m) rs al = al @ map (\<lambda>r. (f r, r)) rs"
    if "distinct (map f rs)" "\<forall>r \<in> set rs. f r \<notin> fst ` set al" for al
    using that
  proof (induction rs arbitrary: al)
    case (Cons r rs)
    then have "\<forall>q \<in> set rs. f q \<notin> fst ` set (al @ [(f r, r)])" by (auto simp: image_iff)
    then show ?case using Cons.IH [of "al @ [(f r, r)]"] Cons.prems by (simp add: upd)
  qed simp
  from this [of "[]"] assms show ?thesis by simp
qed

text \<open>
  The old listeners \<open>L\<close> have their resources below \<open>n\<close> and the new ones \<open>N\<close> theirs from \<open>n\<close> on. A
  selection \<open>X\<close> of both has distinct resources, and closing the old ones outside it leaves those of \<open>X\<close>.
\<close>

lemma inj_old_new:
  fixes f g :: "nat \<Rightarrow> nat"
  assumes "inj_on f L" "\<forall>r \<in> L. f r < n" "inj_on g N" "\<forall>r \<in> N. n \<le> g r" "\<forall>r \<in> L. g r = f r" "X \<subseteq> L \<union> N"
  shows "inj_on g X"
proof (rule inj_onI)
  fix q r assume a: "q \<in> X" "r \<in> X" "g q = g r"
  have "q \<in> L \<longleftrightarrow> g q < n" if "q \<in> X" for q using that assms(2,4,5,6) by fastforce
  then have "q \<in> L \<longleftrightarrow> r \<in> L" using a by simp
  then show "q = r"
    using a assms(5,6) inj_onD [OF assms(1), of q r] inj_onD [OF assms(3), of q r] by (cases "q \<in> L") auto
qed

lemma open_after:
  fixes f g :: "nat \<Rightarrow> nat"
  assumes "inj_on f L" "\<forall>r \<in> L. f r < n" "\<forall>r \<in> N. n \<le> g r" "\<forall>r \<in> L. g r = f r" "X = (L \<inter> X) \<union> N"
  shows "(f ` L \<union> g ` N) - f ` (L - X) = g ` X"
proof -
  have "f ` L - f ` (L - X) = f ` (L \<inter> X)"
    using inj_on_image_set_diff [OF assms(1), of L "L - X"] by (simp add: Diff_Diff_Int)
  moreover have "g ` N \<inter> f ` (L - X) = {}" using assms(2,3) by force
  moreover have "f ` (L \<inter> X) = g ` (L \<inter> X)" using assms(4) by (auto intro!: image_cong)
  ultimately have "(f ` L \<union> g ` N) - f ` (L - X) = g ` ((L \<inter> X) \<union> N)"
    unfolding image_Un by auto
  then show ?thesis using assms(5) by simp
qed

end
