(* ===== verification/Inbound.thy ===== *)
theory Inbound
  imports Config_Valid Sni Staged_Reload "HOL-Library.AList"
begin

text \<open>
  \<open>internal/inbound/server.go\<close> and \<open>tcp.go\<close>: the TCP side. A listener is an object in a store, the
  server and a pending reload refer to listeners by address, and the open sockets and the started
  accept loops are part of the state, so that leaks and premature closes are visible.

  Whether \<open>net.Listen\<close> succeeds is decided by the argument \<open>listen\<close>, a predicate on the state and the
  address, which the theorems leave arbitrary. A Go map from which the code only reads is an
  association list; the order in which \<open>CommitApply\<close> ranges over \<open>existing\<close> does not matter because it
  only closes sockets.
\<close>

section \<open>Listeners\<close>

definition modeTCPToVsock :: bytes where "modeTCPToVsock = ''tcp_to_vsock''"

type_synonym route_map = "(bytes \<times> Route) list"

record listener =
  li_bindAddr :: bytes
  li_port :: int
  li_mode :: bytes
  li_tcp :: "nat option"
  li_routes :: "route_map option"
  li_targetCID :: uint32
  li_targetPort :: uint32

datatype in_error =
    UnknownMode bytes
  | InSection bytes nat in_error
  | BeforeStart
  | TargetChange bytes nat bytes
  | ModeChange bytes nat bytes bytes bytes
  | ListenFailed bytes

definition buildRouteMap :: "Route list \<Rightarrow> route_map" where
  "buildRouteMap rs = fold (\<lambda>r out. AList.update (ToLower (r_Hostname r)) r out) rs []"

definition newHTTPListener :: "InboundListener \<Rightarrow> in_error + listener" where
  "newHTTPListener cfg =
     (if il_Mode cfg \<noteq> ModeHTTPHost \<and> il_Mode cfg \<noteq> ModeTLSSNI then Inl (UnknownMode (il_Mode cfg))
      else Inr \<lparr>li_bindAddr = il_Bind cfg, li_port = il_Port cfg, li_mode = il_Mode cfg, li_tcp = None,
                li_routes = Some (buildRouteMap (il_Routes cfg)), li_targetCID = 0, li_targetPort = 0\<rparr>)"

definition newTCPToVsockListener :: "TCPToVsockListener \<Rightarrow> in_error + listener" where
  "newTCPToVsockListener cfg =
     Inr \<lparr>li_bindAddr = tv_Bind cfg, li_port = tv_Port cfg, li_mode = modeTCPToVsock, li_tcp = None,
          li_routes = None, li_targetCID = tv_VsockCID cfg, li_targetPort = tv_VsockPort cfg\<rparr>"

definition routesSnapshot :: "listener \<Rightarrow> route_map" where
  "routesSnapshot l = (case li_routes l of None \<Rightarrow> [] | Some m \<Rightarrow> m)"

definition replaceRoutes :: "route_map \<Rightarrow> listener \<Rightarrow> listener" where
  "replaceRoutes rm l = l\<lparr>li_routes := Some rm\<rparr>"

definition addr :: "listener \<Rightarrow> bytes" where
  "addr l = JoinHostPort (li_bindAddr l) (Itoa (li_port l))"

definition key :: "listener \<Rightarrow> bytes" where
  "key l = addr l @ ''|'' @ li_mode l"

section \<open>The store\<close>

record world =
  w_heap :: "nat \<Rightarrow> listener"
  w_fresh :: nat
  w_open :: "nat set"
  w_sock :: nat
  w_running :: "nat list"

definition alloc :: "listener \<Rightarrow> world \<Rightarrow> nat \<times> world" where
  "alloc l w = (w_fresh w, w\<lparr>w_heap := (w_heap w)(w_fresh w := l), w_fresh := Suc (w_fresh w)\<rparr>)"

definition bind :: "(world \<Rightarrow> bytes \<Rightarrow> bool) \<Rightarrow> nat \<Rightarrow> world \<Rightarrow> in_error + world" where
  "bind listen r w =
     (let l = w_heap w r in
      if listen w (addr l)
      then Inr (w\<lparr>w_heap := (w_heap w)(r := l\<lparr>li_tcp := Some (w_sock w)\<rparr>),
                  w_open := insert (w_sock w) (w_open w), w_sock := Suc (w_sock w)\<rparr>)
      else Inl (ListenFailed (addr l)))"

definition close :: "nat \<Rightarrow> world \<Rightarrow> world" where
  "close r w =
     (case li_tcp (w_heap w r) of None \<Rightarrow> w | Some s \<Rightarrow> w\<lparr>w_open := w_open w - {s}\<rparr>)"

definition start_loop :: "nat \<Rightarrow> world \<Rightarrow> world" where
  "start_loop r w = w\<lparr>w_running := w_running w @ [r]\<rparr>"

section \<open>Server construction and start\<close>

record Server =
  sv_listeners :: "nat list"
  sv_ctx :: bool

fun alloc_all :: "listener list \<Rightarrow> world \<Rightarrow> nat list \<times> world" where
  "alloc_all [] w = ([], w)"
| "alloc_all (l # ls) w =
     (case alloc l w of (r, w1) \<Rightarrow> case alloc_all ls w1 of (rs, w2) \<Rightarrow> (r # rs, w2))"

definition add_listener ::
  "bytes \<Rightarrow> ('c \<Rightarrow> in_error + listener) \<Rightarrow> nat \<Rightarrow> 'c \<Rightarrow> listener list \<Rightarrow> in_error + listener list" where
  "add_listener section new i cfg ls =
     (case new cfg of Inl e \<Rightarrow> Inl (InSection section i e) | Inr l \<Rightarrow> Inr (ls @ [l]))"

definition NewServer ::
  "InboundListener list \<Rightarrow> TCPToVsockListener list \<Rightarrow> world \<Rightarrow> in_error + Server \<times> world" where
  "NewServer inb tcps w =
     res_bind (for_idx (add_listener ''inbound'' newHTTPListener) 0 inb []) (\<lambda>ls1.
     res_bind (for_idx (add_listener ''tcp_to_vsock'' newTCPToVsockListener) 0 tcps ls1) (\<lambda>ls.
     case alloc_all ls w of (rs, w') \<Rightarrow> Inr (\<lparr>sv_listeners = rs, sv_ctx = False\<rparr>, w')))"

fun bind_all :: "(world \<Rightarrow> bytes \<Rightarrow> bool) \<Rightarrow> nat list \<Rightarrow> world \<Rightarrow> (in_error + unit) \<times> world" where
  "bind_all listen [] w = (Inr (), w)"
| "bind_all listen (r # rs) w =
     (case bind listen r w of Inl e \<Rightarrow> (Inl e, w) | Inr w' \<Rightarrow> bind_all listen rs w')"

definition Start :: "(world \<Rightarrow> bytes \<Rightarrow> bool) \<Rightarrow> Server \<Rightarrow> world \<Rightarrow> (in_error + unit) \<times> Server \<times> world" where
  "Start listen s w =
     (let s' = s\<lparr>sv_ctx := True\<rparr> in
      case bind_all listen (sv_listeners s) w of
        (Inl e, w1) \<Rightarrow> (Inl e, s', fold close (sv_listeners s) w1)
      | (Inr _, w1) \<Rightarrow> (Inr (), s', fold start_loop (sv_listeners s) w1))"

definition ListenerKeys :: "Server \<Rightarrow> world \<Rightarrow> bytes list" where
  "ListenerKeys s w = map (\<lambda>r. addr (w_heap w r)) (sv_listeners s)"

section \<open>Reload\<close>

record ApplyPlan =
  ap_next :: "nat list"
  ap_newBinds :: "nat list"
  ap_swaps :: "(nat \<times> route_map) list"
  ap_existing :: "(bytes \<times> nat) list"
  ap_kept :: "bytes list"
  ap_committed :: bool
  ap_aborted :: bool

text \<open>The local variables of \<open>PrepareApply\<close> that its closure \<open>apply\<close> updates, with the world.\<close>

record prep =
  pp_world :: world
  pp_kept :: "bytes list"
  pp_next :: "nat list"
  pp_swaps :: "(nat \<times> route_map) list"
  pp_newBinds :: "nat list"

definition index_by :: "(listener \<Rightarrow> bytes) \<Rightarrow> nat list \<Rightarrow> world \<Rightarrow> (bytes \<times> nat) list" where
  "index_by f rs w = fold (\<lambda>r m. AList.update (f (w_heap w r)) r m) rs []"

text \<open>The closure \<open>apply\<close>, for a listener just allocated at \<open>r\<close>.\<close>

definition apply_listener ::
  "(world \<Rightarrow> bytes \<Rightarrow> bool) \<Rightarrow> (bytes \<times> nat) list \<Rightarrow> (bytes \<times> nat) list \<Rightarrow> bytes \<Rightarrow> nat \<Rightarrow> nat \<Rightarrow> prep
     \<Rightarrow> in_error + prep" where
  "apply_listener listen existing byAddr section i r p =
     (let w = pp_world p; newLn = w_heap w r; k = key newLn in
      case map_of existing k of
        Some cur \<Rightarrow>
          if li_mode newLn = modeTCPToVsock \<and>
             (li_targetCID (w_heap w cur) \<noteq> li_targetCID newLn \<or>
              li_targetPort (w_heap w cur) \<noteq> li_targetPort newLn)
          then Inl (TargetChange section i (addr newLn))
          else Inr (p\<lparr>pp_swaps := pp_swaps p @ [(cur, routesSnapshot newLn)], pp_kept := k # pp_kept p,
                     pp_next := pp_next p @ [cur]\<rparr>)
      | None \<Rightarrow>
          (case map_of byAddr (addr newLn) of
             Some cur \<Rightarrow> Inl (ModeChange section i (addr newLn) (li_mode (w_heap w cur)) (li_mode newLn))
           | None \<Rightarrow>
               res_bind (bind listen r w) (\<lambda>w'.
                 Inr (p\<lparr>pp_world := w', pp_newBinds := pp_newBinds p @ [r], pp_next := pp_next p @ [r]\<rparr>))))"

text \<open>One round of the loops over the configuration; a failure keeps the state for the clean-up.\<close>

definition prepare_one ::
  "(world \<Rightarrow> bytes \<Rightarrow> bool) \<Rightarrow> (bytes \<times> nat) list \<Rightarrow> (bytes \<times> nat) list \<Rightarrow> bytes
     \<Rightarrow> ('c \<Rightarrow> in_error + listener) \<Rightarrow> nat \<Rightarrow> 'c \<Rightarrow> prep \<Rightarrow> (in_error \<times> prep) + prep" where
  "prepare_one listen existing byAddr section new i cfg p =
     (case new cfg of
        Inl e \<Rightarrow> Inl (InSection section i e, p)
      | Inr l \<Rightarrow>
          (case alloc l (pp_world p) of (r, w) \<Rightarrow>
             let p1 = p\<lparr>pp_world := w\<rparr> in
             case apply_listener listen existing byAddr section i r p1 of
               Inl e \<Rightarrow> Inl (e, p1)
             | Inr p2 \<Rightarrow> Inr p2))"

definition cleanup :: "prep \<Rightarrow> world" where
  "cleanup p = fold close (pp_newBinds p) (pp_world p)"

definition PrepareApply ::
  "(world \<Rightarrow> bytes \<Rightarrow> bool) \<Rightarrow> InboundListener list \<Rightarrow> TCPToVsockListener list \<Rightarrow> Server \<Rightarrow> world
     \<Rightarrow> (in_error + ApplyPlan) \<times> world" where
  "PrepareApply listen inb tcps s w =
     (if \<not> sv_ctx s then (Inl BeforeStart, w)
      else
        let existing = index_by key (sv_listeners s) w;
            byAddr = index_by addr (sv_listeners s) w;
            p0 = \<lparr>pp_world = w, pp_kept = [], pp_next = [], pp_swaps = [], pp_newBinds = []\<rparr>
        in case res_bind (for_idx (prepare_one listen existing byAddr ''inbound'' newHTTPListener) 0 inb p0)
             (for_idx (prepare_one listen existing byAddr ''tcp_to_vsock'' newTCPToVsockListener) 0 tcps) of
             Inl (e, p) \<Rightarrow> (Inl e, cleanup p)
           | Inr p \<Rightarrow>
               (Inr \<lparr>ap_next = pp_next p, ap_newBinds = pp_newBinds p, ap_swaps = pp_swaps p,
                     ap_existing = existing, ap_kept = pp_kept p, ap_committed = False, ap_aborted = False\<rparr>,
                pp_world p))"

definition swap_routes :: "nat \<times> route_map \<Rightarrow> world \<Rightarrow> world" where
  "swap_routes sw w = w\<lparr>w_heap := (w_heap w)(fst sw := replaceRoutes (snd sw) (w_heap w (fst sw)))\<rparr>"

definition CommitApply :: "ApplyPlan \<Rightarrow> Server \<Rightarrow> world \<Rightarrow> ApplyPlan \<times> Server \<times> world" where
  "CommitApply p s w =
     (if ap_committed p \<or> ap_aborted p then (p, s, w)
      else
        let w1 = fold swap_routes (ap_swaps p) w;
            w2 = fold start_loop (ap_newBinds p) w1;
            w3 = fold (\<lambda>(k, r) w. if k \<in> set (ap_kept p) then w else close r w) (ap_existing p) w2
        in (p\<lparr>ap_committed := True\<rparr>, s\<lparr>sv_listeners := ap_next p\<rparr>, w3))"

definition AbortApply :: "ApplyPlan \<Rightarrow> world \<Rightarrow> ApplyPlan \<times> world" where
  "AbortApply p w =
     (if ap_committed p \<or> ap_aborted p then (p, w)
      else (p\<lparr>ap_aborted := True\<rparr>, fold close (ap_newBinds p) w))"

definition Apply ::
  "(world \<Rightarrow> bytes \<Rightarrow> bool) \<Rightarrow> InboundListener list \<Rightarrow> TCPToVsockListener list \<Rightarrow> Server \<Rightarrow> world
     \<Rightarrow> (in_error + unit) \<times> Server \<times> world" where
  "Apply listen inb tcps s w =
     (case PrepareApply listen inb tcps s w of
        (Inl e, w') \<Rightarrow> (Inl e, s, w')
      | (Inr plan, w') \<Rightarrow> (case CommitApply plan s w' of (_, s', w'') \<Rightarrow> (Inr (), s', w'')))"

text \<open>\<open>Shutdown\<close> closes every listener; what follows waits for the connections.\<close>

definition Shutdown_close :: "Server \<Rightarrow> world \<Rightarrow> world" where
  "Shutdown_close s w = fold close (sv_listeners s) w"

section \<open>Keys and addresses\<close>

definition mode_ok :: "listener \<Rightarrow> bool" where
  "mode_ok l \<longleftrightarrow> li_mode l \<in> {ModeHTTPHost, ModeTLSSNI, modeTCPToVsock} \<and>
     (if li_mode l = modeTCPToVsock then routesSnapshot l = [] else li_targetCID l = 0 \<and> li_targetPort l = 0)"

lemma addr_inj: "addr l = addr l' \<Longrightarrow> li_bindAddr l = li_bindAddr l' \<and> li_port l = li_port l'"
  using JoinHostPort_inj [of "li_bindAddr l" "Itoa (li_port l)" "li_bindAddr l'" "Itoa (li_port l')"]
    Itoa_inj [of "li_port l" "li_port l'"]
  by (simp add: addr_def)

lemma last_sep_unique:
  assumes "a @ c # x = b @ c # y" "c \<notin> set x" "c \<notin> set y"
  shows "a = b \<and> x = y"
proof -
  from assms(1) obtain us where "a = b @ us \<and> us @ c # x = c # y \<or> a @ us = b \<and> c # x = us @ c # y"
    by (auto simp: append_eq_append_conv2)
  then show ?thesis
    using assms(2,3) by (cases us) auto
qed

lemma key_inj:
  assumes "mode_ok l" "mode_ok l'" "key l = key l'"
  shows "addr l = addr l' \<and> li_mode l = li_mode l'"
proof -
  have "CHR ''|'' \<notin> set (li_mode l)" "CHR ''|'' \<notin> set (li_mode l')"
    using assms(1,2) by (auto simp: mode_ok_def modeTCPToVsock_def)
  then show ?thesis
    using last_sep_unique [of "addr l" "CHR ''|''" "li_mode l" "addr l'" "li_mode l'"] assms(3)
    by (simp add: key_def)
qed

lemma newHTTPListener_Inr:
  "newHTTPListener cfg = Inr l \<Longrightarrow> mode_ok l \<and> li_tcp l = None"
  by (auto simp: newHTTPListener_def mode_ok_def modeTCPToVsock_def split: if_splits)

lemma newTCPToVsockListener_Inr:
  "newTCPToVsockListener cfg = Inr l \<Longrightarrow> mode_ok l \<and> li_tcp l = None"
  by (auto simp: newTCPToVsockListener_def mode_ok_def routesSnapshot_def)

section \<open>The server invariant\<close>

abbreviation sock_of :: "world \<Rightarrow> nat \<Rightarrow> nat" where
  "sock_of w r \<equiv> the (li_tcp (w_heap w r))"

text \<open>
  A running server: its listeners are distinct objects on distinct addresses, each bound to a socket of
  its own with an accept loop, and these sockets are all that is open.
\<close>

definition srv_inv :: "Server \<Rightarrow> world \<Rightarrow> bool" where
  "srv_inv s w \<longleftrightarrow> sv_ctx s \<and>
     (\<forall>r \<in> set (sv_listeners s). r < w_fresh w \<and> li_tcp (w_heap w r) \<noteq> None \<and>
        sock_of w r < w_sock w \<and> mode_ok (w_heap w r) \<and> r \<in> set (w_running w)) \<and>
     distinct (map (sock_of w) (sv_listeners s)) \<and>
     w_open w = sock_of w ` set (sv_listeners s) \<and>
     distinct (map (\<lambda>r. addr (w_heap w r)) (sv_listeners s))"

lemma index_by_distinct:
  assumes "distinct (map (\<lambda>r. f (w_heap w r)) rs)"
  shows "index_by f rs w = map (\<lambda>r. (f (w_heap w r), r)) rs"
  using index_distinct [OF assms] by (simp add: index_by_def)

lemma srv_keys_distinct:
  assumes "srv_inv s w"
  shows "distinct (map (\<lambda>r. key (w_heap w r)) (sv_listeners s))"
proof -
  have "inj_on (\<lambda>r. addr (w_heap w r)) (set (sv_listeners s))" "distinct (sv_listeners s)"
    using assms by (auto simp: srv_inv_def distinct_map)
  moreover have "inj_on (\<lambda>r. key (w_heap w r)) (set (sv_listeners s))"
    using calculation(1) key_inj assms by (auto simp: inj_on_def srv_inv_def)
  ultimately show ?thesis by (simp add: distinct_map)
qed

text \<open>What the reload finds under a key or an address.\<close>

lemma existing_iff:
  assumes "srv_inv s w"
  shows "map_of (index_by key (sv_listeners s) w) k = Some r \<longleftrightarrow>
     r \<in> set (sv_listeners s) \<and> key (w_heap w r) = k"
    and "map_of (index_by addr (sv_listeners s) w) a = Some r \<longleftrightarrow>
     r \<in> set (sv_listeners s) \<and> addr (w_heap w r) = a"
  using srv_keys_distinct [OF assms] assms
  by (auto simp: index_by_distinct srv_inv_def comp_def distinct_map intro!: map_of_is_SomeI dest!: map_of_SomeD)

section \<open>Staging\<close>

text \<open>
  What staging does to the store, whether or not it succeeds: the objects of the running server are
  untouched, and the only sockets opened are those of the new listeners.
\<close>

definition store_inv :: "world \<Rightarrow> world \<Rightarrow> nat list \<Rightarrow> bool" where
  "store_inv w0 w news \<longleftrightarrow>
     (\<forall>r < w_fresh w0. w_heap w r = w_heap w0 r) \<and> w_fresh w0 \<le> w_fresh w \<and> w_sock w0 \<le> w_sock w \<and>
     w_running w = w_running w0 \<and>
     (\<forall>r \<in> set news. w_fresh w0 \<le> r \<and> r < w_fresh w \<and> li_tcp (w_heap w r) \<noteq> None \<and>
        w_sock w0 \<le> sock_of w r \<and> sock_of w r < w_sock w) \<and>
     distinct (map (sock_of w) news) \<and>
     w_open w = w_open w0 \<union> sock_of w ` set news"

definition same_store :: "world \<Rightarrow> world \<Rightarrow> bool" where
  "same_store w0 w \<longleftrightarrow> (\<forall>r < w_fresh w0. w_heap w r = w_heap w0 r) \<and> w_fresh w0 \<le> w_fresh w \<and>
     w_sock w0 \<le> w_sock w \<and> w_running w = w_running w0 \<and> w_open w = w_open w0"

lemma fold_close:
  "fold close rs w = w\<lparr>w_open := w_open w - (\<Union>r \<in> set rs. set_option (li_tcp (w_heap w r)))\<rparr>"
  by (induction rs arbitrary: w) (auto simp: close_def Diff_insert2 [symmetric] insert_is_Un [of _ "\<Union> _"] Diff_eq
      split: option.splits intro!: arg_cong [of _ _ "\<lambda>x. w_open_update (\<lambda>_. x) _"])

lemma close_news_same:
  assumes "store_inv w0 w news" "\<forall>k \<in> w_open w0. k < w_sock w0"
  shows "same_store w0 (fold close news w)"
proof -
  have "(\<Union>r \<in> set news. set_option (li_tcp (w_heap w r))) = sock_of w ` set news"
    using assms(1) by (force simp: store_inv_def)
  moreover have "w_open w0 \<inter> sock_of w ` set news = {}"
    using assms by (force simp: store_inv_def)
  ultimately show ?thesis
    using assms(1) by (auto simp: fold_close same_store_def store_inv_def)
qed

lemma srv_open_bound: "srv_inv s w \<Longrightarrow> \<forall>k \<in> w_open w. k < w_sock w"
  by (auto simp: srv_inv_def)

lemma same_store_srv: "srv_inv s w0 \<Longrightarrow> same_store w0 w \<Longrightarrow> srv_inv s w"
proof -
  assume a: "srv_inv s w0" "same_store w0 w"
  then have h: "w_heap w r = w_heap w0 r" if "r \<in> set (sv_listeners s)" for r
    using that by (auto simp: srv_inv_def same_store_def)
  then have "map (sock_of w) (sv_listeners s) = map (sock_of w0) (sv_listeners s)"
    "map (\<lambda>r. addr (w_heap w r)) (sv_listeners s) = map (\<lambda>r. addr (w_heap w0 r)) (sv_listeners s)"
    "sock_of w ` set (sv_listeners s) = sock_of w0 ` set (sv_listeners s)"
    by (simp_all cong: image_cong)
  then show "srv_inv s w"
    using a h unfolding srv_inv_def same_store_def by (auto simp del: map_eq_conv)
qed

lemma alloc_store:
  assumes "store_inv w0 w news"
  shows "store_inv w0 (snd (alloc l w)) news"
proof -
  have old: "w_heap (snd (alloc l w)) q = w_heap w q" if "q \<in> set news" for q
    using that assms by (auto simp: store_inv_def alloc_def)
  then have m: "map (sock_of (snd (alloc l w))) news = map (sock_of w) news"
    "sock_of (snd (alloc l w)) ` set news = sock_of w ` set news"
    by (simp_all cong: image_cong)
  have "\<forall>r < w_fresh w0. w_heap (snd (alloc l w)) r = w_heap w0 r"
    using assms by (simp add: store_inv_def alloc_def)
  moreover have "w_fresh (snd (alloc l w)) = Suc (w_fresh w)" "w_sock (snd (alloc l w)) = w_sock w"
    "w_running (snd (alloc l w)) = w_running w" "w_open (snd (alloc l w)) = w_open w"
    by (simp_all add: alloc_def)
  ultimately show ?thesis
    using assms old unfolding store_inv_def m by force
qed

lemma bind_store:
  assumes inv: "store_inv w0 w news" and "bind listen r w = Inr w'"
    and r: "w_fresh w0 \<le> r" "r < w_fresh w" "r \<notin> set news"
  shows "store_inv w0 w' (news @ [r])" "w_heap w' r = (w_heap w r)\<lparr>li_tcp := Some (w_sock w)\<rparr>"
    "\<forall>q. q \<noteq> r \<longrightarrow> w_heap w' q = w_heap w q" "w_fresh w' = w_fresh w"
proof -
  have w': "w' = w\<lparr>w_heap := (w_heap w)(r := (w_heap w r)\<lparr>li_tcp := Some (w_sock w)\<rparr>),
                  w_open := insert (w_sock w) (w_open w), w_sock := Suc (w_sock w)\<rparr>"
    using assms(2) by (simp add: bind_def Let_def split: if_splits)
  then show "w_heap w' r = (w_heap w r)\<lparr>li_tcp := Some (w_sock w)\<rparr>"
    and other: "\<forall>q. q \<noteq> r \<longrightarrow> w_heap w' q = w_heap w q" and "w_fresh w' = w_fresh w" by simp_all
  have old: "w_heap w' q = w_heap w q" if "q \<in> set news" for q
    using that r(3) other by metis
  then have m: "map (sock_of w') news = map (sock_of w) news"
    "sock_of w' ` set news = sock_of w ` set news"
    by (simp_all cong: image_cong)
  have sock: "sock_of w' r = w_sock w" "w_sock w' = Suc (w_sock w)" "w_open w' = insert (w_sock w) (w_open w)"
    "w_running w' = w_running w"
    by (simp_all add: w')
  have "w_sock w \<notin> sock_of w ` set news" using inv by (auto simp: store_inv_def)
  moreover have "\<forall>q < w_fresh w0. w_heap w' q = w_heap w0 q"
    using inv r(1) other by (auto simp: store_inv_def)
  ultimately show "store_inv w0 w' (news @ [r])"
    using inv r old \<open>w_fresh w' = w_fresh w\<close> \<open>w_heap w' r = _\<close>
    unfolding store_inv_def map_append distinct_append set_append image_Un m sock
    by (auto simp: sock simp del: map_eq_conv)
qed

abbreviation "old_at s w0 k \<equiv> map_of (index_by key (sv_listeners s) w0) k"
abbreviation "old_addr s w0 a \<equiv> map_of (index_by addr (sv_listeners s) w0) a"

text \<open>How a configured listener \<open>l\<close> is staged as \<open>r\<close>: as the running listener with its key, or as a new one.\<close>

definition staged :: "Server \<Rightarrow> world \<Rightarrow> world \<Rightarrow> nat \<Rightarrow> listener \<Rightarrow> bool" where
  "staged s w0 w r l \<longleftrightarrow>
     (case old_at s w0 (key l) of
        Some cur \<Rightarrow> r = cur \<and> (li_mode l = modeTCPToVsock \<longrightarrow>
           li_targetCID (w_heap w0 cur) = li_targetCID l \<and> li_targetPort (w_heap w0 cur) = li_targetPort l)
      | None \<Rightarrow> old_addr s w0 (addr l) = None \<and> w_fresh w0 \<le> r \<and> r < w_fresh w \<and>
          (\<exists>k. w_heap w r = l\<lparr>li_tcp := Some k\<rparr>))"

definition swaps_of :: "Server \<Rightarrow> world \<Rightarrow> listener list \<Rightarrow> (nat \<times> route_map) list" where
  "swaps_of s w0 ls =
     List.map_filter (\<lambda>l. map_option (\<lambda>cur. (cur, routesSnapshot l)) (old_at s w0 (key l))) ls"

lemma swaps_of_snoc:
  "swaps_of s w0 (ls @ [l]) = swaps_of s w0 ls @
     (case old_at s w0 (key l) of Some cur \<Rightarrow> [(cur, routesSnapshot l)] | None \<Rightarrow> [])"
  by (simp add: swaps_of_def List.map_filter_def split: option.split)

definition plan_inv :: "Server \<Rightarrow> world \<Rightarrow> listener list \<Rightarrow> prep \<Rightarrow> bool" where
  "plan_inv s w0 ls p \<longleftrightarrow>
     store_inv w0 (pp_world p) (pp_newBinds p) \<and>
     list_all2 (staged s w0 (pp_world p)) (pp_next p) ls \<and>
     pp_swaps p = swaps_of s w0 ls \<and>
     set (pp_kept p) = {k \<in> key ` set ls. old_at s w0 k \<noteq> None} \<and>
     pp_newBinds p = filter (\<lambda>r. w_fresh w0 \<le> r) (pp_next p)"

lemma staged_mono:
  "\<lbrakk>staged s w0 w r l; \<forall>q < w_fresh w. w_heap w' q = w_heap w q; w_fresh w \<le> w_fresh w'\<rbrakk> \<Longrightarrow> staged s w0 w' r l"
  by (auto simp: staged_def split: option.splits)

lemma prepare_one_inv:
  assumes srv: "srv_inv s w0" and inv: "plan_inv s w0 ls p" and new: "new cfg = Inr l"
    and step: "prepare_one listen (index_by key (sv_listeners s) w0) (index_by addr (sv_listeners s) w0)
      sec new i cfg p = Inr p'"
  shows "plan_inv s w0 (ls @ [l]) p'"
proof -
  let ?w = "pp_world p"
  define r where "r = w_fresh ?w"
  define w1 where "w1 = snd (alloc l ?w)"
  have al: "alloc l ?w = (r, w1)" by (simp add: w1_def r_def alloc_def)
  have w1: "w_heap w1 r = l" "w_fresh w1 = Suc r" "\<forall>q < w_fresh ?w. w_heap w1 q = w_heap ?w q"
    by (simp_all add: w1_def alloc_def r_def)
  have st0: "store_inv w0 ?w (pp_newBinds p)" using inv unfolding plan_inv_def by (elim conjE)
  have st1: "store_inv w0 w1 (pp_newBinds p)"
    unfolding w1_def by (rule alloc_store) (rule st0)
  have r0: "w_fresh w0 \<le> r" "r \<notin> set (pp_newBinds p)"
    using st0 by (auto simp: store_inv_def r_def)
  have prev: "list_all2 (staged s w0 w') (pp_next p) ls"
    if "\<forall>q < w_fresh ?w. w_heap w' q = w_heap ?w q" "w_fresh ?w \<le> w_fresh w'" for w'
    using inv that unfolding plan_inv_def by (auto elim!: list_all2_mono intro: staged_mono)
  have ap: "apply_listener listen (index_by key (sv_listeners s) w0) (index_by addr (sv_listeners s) w0)
      sec i r (p\<lparr>pp_world := w1\<rparr>) = Inr p'"
    using step new al by (simp add: prepare_one_def Let_def split: sum.splits)
  show ?thesis
  proof (cases "old_at s w0 (key l)")
    case (Some cur)
    then have cur: "cur < w_fresh w0" using existing_iff(1) [OF srv] srv by (auto simp: srv_inv_def)
    then have hc: "w_heap w1 cur = w_heap w0 cur" using st1 by (simp add: store_inv_def)
    have p': "p' = p\<lparr>pp_world := w1, pp_swaps := pp_swaps p @ [(cur, routesSnapshot l)],
        pp_kept := key l # pp_kept p, pp_next := pp_next p @ [cur]\<rparr>"
      and "li_mode l = modeTCPToVsock \<longrightarrow>
        li_targetCID (w_heap w0 cur) = li_targetCID l \<and> li_targetPort (w_heap w0 cur) = li_targetPort l"
      using ap Some w1(1) hc by (auto simp: apply_listener_def Let_def split: if_splits)
    then have "staged s w0 w1 cur l" using Some by (simp add: staged_def)
    then show ?thesis
      using inv st1 prev [of w1] w1 Some cur r_def
      by (auto simp: p' plan_inv_def swaps_of_snoc list_all2_appendI)
  next
    case None
    then obtain w2 where addr: "old_addr s w0 (addr l) = None" and b: "bind listen r w1 = Inr w2"
      and p': "p' = p\<lparr>pp_world := w2, pp_newBinds := pp_newBinds p @ [r], pp_next := pp_next p @ [r]\<rparr>"
      using ap w1(1) by (auto simp: apply_listener_def Let_def res_bind_Inr_iff split: option.splits)
    note bs = bind_store [OF st1 b r0(1) _ r0(2)]
    have "staged s w0 w2 r l" using None addr r0(1) bs w1 by (auto simp: staged_def)
    moreover have "\<forall>q < w_fresh ?w. w_heap w2 q = w_heap ?w q" "w_fresh ?w \<le> w_fresh w2"
      using bs w1 by (auto simp: r_def)
    ultimately show ?thesis
      using inv bs(1) prev [of w2] w1 None r0(1)
      by (auto simp: p' plan_inv_def swaps_of_snoc list_all2_appendI)
  qed
qed

lemma prepare_one_fail:
  assumes "store_inv w0 (pp_world p) (pp_newBinds p)"
    and "prepare_one listen ex ba sec new i cfg p = Inl (e, p')"
  shows "store_inv w0 (pp_world p') (pp_newBinds p')"
proof (cases "new cfg")
  case (Inl e')
  then show ?thesis using assms by (simp add: prepare_one_def)
next
  case (Inr l)
  then have "p' = p\<lparr>pp_world := snd (alloc l (pp_world p))\<rparr>"
    using assms(2) by (auto simp: prepare_one_def Let_def split: sum.splits prod.splits)
  then show ?thesis using alloc_store [OF assms(1), of l] by simp
qed

lemma prepare_loop:
  fixes listen :: "world \<Rightarrow> bytes \<Rightarrow> bool" and sec :: bytes and new :: "'c \<Rightarrow> in_error + listener"
  assumes srv: "srv_inv s w0" and inv: "plan_inv s w0 ls p"
  defines "body \<equiv> prepare_one listen (index_by key (sv_listeners s) w0) (index_by addr (sv_listeners s) w0) sec new"
  shows "case for_idx body i cfgs p of
       Inl (e, p') \<Rightarrow> store_inv w0 (pp_world p') (pp_newBinds p')
     | Inr p' \<Rightarrow> \<exists>ls'. map new cfgs = map Inr ls' \<and> plan_inv s w0 (ls @ ls') p'"
  using inv
proof (induction cfgs arbitrary: i p ls)
  case Nil
  then show ?case by simp
next
  case (Cons cfg cfgs)
  show ?case
  proof (cases "body i cfg p")
    case (Inl ep)
    then obtain e p' where "body i cfg p = Inl (e, p')" by (cases ep) auto
    then show ?thesis
      using Cons.prems prepare_one_fail by (fastforce simp: body_def plan_inv_def)
  next
    case (Inr p1)
    then obtain l where l: "new cfg = Inr l" by (auto simp: body_def prepare_one_def split: sum.splits)
    have "plan_inv s w0 (ls @ [l]) p1"
      by (rule prepare_one_inv [where new = new and cfg = cfg, OF srv Cons.prems l Inr [unfolded body_def]])
    note IH = Cons.IH [OF this, of "Suc i"]
    show ?thesis
    proof (cases "for_idx body (Suc i) cfgs p1")
      case e: (Inl ep)
      then show ?thesis using IH Inr by (simp split: prod.splits)
    next
      case p2: (Inr p2)
      then obtain ls' where "map new cfgs = map Inr ls'" "plan_inv s w0 ((ls @ [l]) @ ls') p2"
        using IH by auto
      then have "\<exists>ls'. map new (cfg # cfgs) = map Inr ls' \<and> plan_inv s w0 (ls @ ls') p2"
        using l by (intro exI [of _ "l # ls'"]) simp
      then show ?thesis using Inr p2 by simp
    qed
  qed
qed

text \<open>The two loops of \<open>PrepareApply\<close>.\<close>

definition new_listeners :: "InboundListener list \<Rightarrow> TCPToVsockListener list \<Rightarrow> listener list" where
  "new_listeners inb tcps = map projr (map newHTTPListener inb @ map newTCPToVsockListener tcps)"

lemma PrepareApply_cases:
  assumes srv: "srv_inv s w0"
  shows "case PrepareApply listen inb tcps s w0 of
       (Inl e, w) \<Rightarrow> same_store w0 w
     | (Inr plan, w) \<Rightarrow> \<exists>p. w = pp_world p \<and> plan_inv s w0 (new_listeners inb tcps) p \<and>
         list_all (is_ok \<circ> newHTTPListener) inb \<and>
         plan = \<lparr>ap_next = pp_next p, ap_newBinds = pp_newBinds p, ap_swaps = pp_swaps p,
                 ap_existing = index_by key (sv_listeners s) w0, ap_kept = pp_kept p,
                 ap_committed = False, ap_aborted = False\<rparr>"
proof -
  let ?ex = "index_by key (sv_listeners s) w0" and ?ba = "index_by addr (sv_listeners s) w0"
  let ?b1 = "prepare_one listen ?ex ?ba ''inbound'' newHTTPListener"
  let ?b2 = "prepare_one listen ?ex ?ba ''tcp_to_vsock'' newTCPToVsockListener"
  let ?p0 = "\<lparr>pp_world = w0, pp_kept = [], pp_next = [], pp_swaps = [], pp_newBinds = []\<rparr>"
  have ctx: "sv_ctx s" and bound: "\<forall>k \<in> w_open w0. k < w_sock w0"
    using srv srv_open_bound by (auto simp: srv_inv_def)
  have i0: "plan_inv s w0 [] ?p0"
    by (simp add: plan_inv_def store_inv_def swaps_of_def map_filter_simps)
  note l1 = prepare_loop [OF srv i0, where listen = listen and sec = "''inbound''" and new = newHTTPListener and
      i = 0 and cfgs = inb]
  have fail: "same_store w0 (cleanup p)" if "store_inv w0 (pp_world p) (pp_newBinds p)" for p
    unfolding cleanup_def using that bound by (rule close_news_same)
  show ?thesis
  proof (cases "for_idx ?b1 0 inb ?p0")
    case (Inl ep)
    then show ?thesis using l1 ctx fail by (auto simp: PrepareApply_def Let_def split: prod.splits)
  next
    case (Inr p1)
    then obtain ls1 where ls1: "map newHTTPListener inb = map Inr ls1" and i1: "plan_inv s w0 ls1 p1"
      using l1 by auto
    note l2 = prepare_loop [OF srv i1, where listen = listen and sec = "''tcp_to_vsock''" and
        new = newTCPToVsockListener and i = 0 and cfgs = tcps]
    show ?thesis
    proof (cases "for_idx ?b2 0 tcps p1")
      case (Inl ep)
      then show ?thesis using l2 Inr ctx fail by (auto simp: PrepareApply_def Let_def split: prod.splits)
    next
      case 2: (Inr p2)
      then obtain ls2 where ls2: "map newTCPToVsockListener tcps = map Inr ls2" and i2: "plan_inv s w0 (ls1 @ ls2) p2"
        using l2 by auto
      have "new_listeners inb tcps = ls1 @ ls2"
        unfolding new_listeners_def ls1 ls2 map_append by (simp add: comp_def)
      moreover have "list_all (is_ok \<circ> newHTTPListener) inb"
        unfolding list_all_length using ls1 by (auto simp: is_ok_iff list_eq_iff_nth_eq)
      ultimately show ?thesis using 2 Inr i2 ctx by (auto simp: PrepareApply_def Let_def)
    qed
  qed
qed

section \<open>Commit\<close>

text \<open>What a listener does with a connection, apart from its socket.\<close>

definition behaviour :: "listener \<Rightarrow> bytes \<times> int \<times> bytes \<times> route_map \<times> uint32 \<times> uint32" where
  "behaviour l = (li_bindAddr l, li_port l, li_mode l, routesSnapshot l, li_targetCID l, li_targetPort l)"

lemma fold_swap_routes:
  "distinct (map fst sws) \<Longrightarrow> fold swap_routes sws w = w\<lparr>w_heap :=
     (\<lambda>r. case map_of sws r of Some m \<Rightarrow> replaceRoutes m (w_heap w r) | None \<Rightarrow> w_heap w r)\<rparr>"
proof (induction sws arbitrary: w)
  case (Cons sw sws)
  obtain r m where sw: "sw = (r, m)" by fastforce
  have "map_of sws r = None" using Cons.prems sw by (simp add: map_of_eq_None_iff)
  then have "(\<lambda>q. case map_of sws q of Some m' \<Rightarrow> replaceRoutes m' (w_heap (swap_routes sw w) q)
        | None \<Rightarrow> w_heap (swap_routes sw w) q) =
      (\<lambda>q. case map_of (sw # sws) q of Some m' \<Rightarrow> replaceRoutes m' (w_heap w q) | None \<Rightarrow> w_heap w q)"
    by (auto simp: sw swap_routes_def fun_eq_iff split: option.split)
  then show ?case using Cons.IH [of "swap_routes sw w"] Cons.prems by (simp add: swap_routes_def)
qed simp

lemma fold_start_loop: "fold start_loop rs w = w\<lparr>w_running := w_running w @ rs\<rparr>"
  by (induction rs arbitrary: w) (auto simp: start_loop_def)

lemma fold_close_unkept:
  "fold (\<lambda>(k, r) w. if k \<in> K then w else close r w) ex w =
     w\<lparr>w_open := w_open w - (\<Union>(k, r) \<in> {x \<in> set ex. fst x \<notin> K}. set_option (li_tcp (w_heap w r)))\<rparr>"
proof (induction ex arbitrary: w)
  case (Cons x ex)
  obtain k r where x: "x = (k, r)" by fastforce
  have "{y \<in> set (x # ex). fst y \<notin> K} = (if k \<in> K then {} else {x}) \<union> {y \<in> set ex. fst y \<notin> K}"
    using x by auto
  moreover have "w_heap (close r w) = w_heap w" "w_open (close r w) = w_open w - set_option (li_tcp (w_heap w r))"
    by (auto simp: close_def split: option.split)
  moreover have "close r w = w\<lparr>w_open := w_open w - set_option (li_tcp (w_heap w r))\<rparr>"
    by (auto simp: close_def split: option.split)
  ultimately show ?case using Cons.IH [of w] Cons.IH [of "close r w"] x by (simp add: Diff_Un Diff_eq Int_assoc)
qed simp

lemma addr_tcp [simp]: "addr (l\<lparr>li_tcp := k\<rparr>) = addr l" "key (l\<lparr>li_tcp := k\<rparr>) = key l"
  "addr (replaceRoutes m l) = addr l" "mode_ok (l\<lparr>li_tcp := k\<rparr>) = mode_ok l"
  "routesSnapshot (l\<lparr>li_tcp := k\<rparr>) = routesSnapshot l" "routesSnapshot (replaceRoutes m l) = m"
  "li_tcp (replaceRoutes m l) = li_tcp l"
  by (simp_all add: addr_def key_def replaceRoutes_def mode_ok_def routesSnapshot_def)

lemma staged_addr:
  assumes srv: "srv_inv s w0" and st: "store_inv w0 w news" and "staged s w0 w r l" "mode_ok l"
  shows "addr (w_heap w r) = addr l \<and> li_mode (w_heap w r) = li_mode l"
proof (cases "old_at s w0 (key l)")
  case (Some cur)
  then have "r = cur" using assms(3) by (simp add: staged_def)
  then have "r \<in> set (sv_listeners s)" "key (w_heap w0 r) = key l"
    using Some existing_iff(1) [OF srv, of "key l" cur] by auto
  moreover from this have "mode_ok (w_heap w0 r)" "w_heap w r = w_heap w0 r"
    using srv st by (auto simp: srv_inv_def store_inv_def)
  ultimately show ?thesis using key_inj [of "w_heap w0 r" l] assms(4) by simp
next
  case None
  then show ?thesis using assms(3) by (auto simp: staged_def)
qed

lemma staged_kept:
  assumes srv: "srv_inv s w0" and "staged s w0 w r l"
  shows "r < w_fresh w0 \<longleftrightarrow> old_at s w0 (key l) = Some r" and "r < w_fresh w0 \<Longrightarrow> r \<in> set (sv_listeners s)"
proof -
  have "r < w_fresh w0 \<and> r \<in> set (sv_listeners s)" if "old_at s w0 (key l) = Some r"
    using that srv existing_iff(1) [OF srv, of "key l" r] by (auto simp: srv_inv_def)
  then show "r < w_fresh w0 \<longleftrightarrow> old_at s w0 (key l) = Some r" "r < w_fresh w0 \<Longrightarrow> r \<in> set (sv_listeners s)"
    using assms(2) by (auto simp: staged_def split: option.splits)
qed

lemma swaps_of_zip:
  assumes srv: "srv_inv s w0" and "list_all2 (staged s w0 w) nx ls"
  shows "swaps_of s w0 ls = map (\<lambda>(r, l). (r, routesSnapshot l)) (filter (\<lambda>(r, l). r < w_fresh w0) (zip nx ls))"
  using assms(2)
proof (induction rule: list_all2_induct)
  case Nil
  then show ?case by (simp add: swaps_of_def List.map_filter_def)
next
  case (Cons r rs l ls)
  have "swaps_of s w0 (l # ls) =
     (case old_at s w0 (key l) of Some cur \<Rightarrow> [(cur, routesSnapshot l)] | None \<Rightarrow> []) @ swaps_of s w0 ls"
    by (simp add: swaps_of_def List.map_filter_def split: option.split)
  moreover have "old_at s w0 (key l) \<noteq> None \<Longrightarrow> old_at s w0 (key l) = Some r"
    using Cons.hyps(1) by (auto simp: staged_def split: option.splits)
  ultimately show ?case
    using Cons.IH staged_kept(1) [OF srv Cons.hyps(1)] by (cases "old_at s w0 (key l)") simp_all
qed

text \<open>The sockets of a staged plan.\<close>

lemma plan_sockets:
  assumes srv: "srv_inv s w0" and st: "store_inv w0 w news" and d: "distinct nx"
    and nx: "\<forall>r \<in> set nx. r < w_fresh w0 \<longrightarrow> r \<in> set (sv_listeners s)"
    and news: "news = filter (\<lambda>r. w_fresh w0 \<le> r) nx"
  shows "\<forall>r \<in> set nx. r < w_fresh w \<and> li_tcp (w_heap w r) \<noteq> None \<and> sock_of w r < w_sock w \<and>
      (r < w_fresh w0 \<longleftrightarrow> sock_of w r < w_sock w0)"
    "distinct (map (sock_of w) nx)"
proof -
  have old: "w_heap w r = w_heap w0 r" "r \<in> set (sv_listeners s)" "sock_of w0 r < w_sock w0"
      "li_tcp (w_heap w0 r) \<noteq> None" if "r \<in> set nx" "r < w_fresh w0" for r
  proof -
    show r: "r \<in> set (sv_listeners s)" using that nx by blast
    show "w_heap w r = w_heap w0 r" using that(2) st by (simp add: store_inv_def)
    show "sock_of w0 r < w_sock w0" "li_tcp (w_heap w0 r) \<noteq> None"
      using r srv unfolding srv_inv_def by blast+
  qed
  have new: "r \<in> set news" if "r \<in> set nx" "\<not> r < w_fresh w0" for r using that news by simp
  show each: "\<forall>r \<in> set nx. r < w_fresh w \<and> li_tcp (w_heap w r) \<noteq> None \<and> sock_of w r < w_sock w \<and>
      (r < w_fresh w0 \<longleftrightarrow> sock_of w r < w_sock w0)"
  proof
    fix r assume r: "r \<in> set nx"
    show "r < w_fresh w \<and> li_tcp (w_heap w r) \<noteq> None \<and> sock_of w r < w_sock w \<and>
      (r < w_fresh w0 \<longleftrightarrow> sock_of w r < w_sock w0)"
    proof (cases "r < w_fresh w0")
      case True
      then show ?thesis using old [OF r True] st by (simp add: store_inv_def)
    next
      case False
      then show ?thesis using new [OF r False] st by (force simp: store_inv_def)
    qed
  qed
  have i0: "inj_on (sock_of w0) (set (sv_listeners s))" and i1: "inj_on (sock_of w) (set news)"
    using srv st by (simp_all add: srv_inv_def store_inv_def distinct_map)
  have "inj_on (sock_of w) (set nx)"
  proof (rule inj_old_new [OF i0 _ i1])
    show "\<forall>r \<in> set (sv_listeners s). sock_of w0 r < w_sock w0" using srv unfolding srv_inv_def by blast
    show "\<forall>r \<in> set news. w_sock w0 \<le> sock_of w r" using st unfolding store_inv_def by blast
    show "\<forall>r \<in> set (sv_listeners s). sock_of w r = sock_of w0 r" using srv st unfolding srv_inv_def store_inv_def by simp
    show "set nx \<subseteq> set (sv_listeners s) \<union> set news" using nx new by blast
  qed
  then show "distinct (map (sock_of w) nx)" using d by (simp add: distinct_map)
qed

text \<open>A committed plan: the server runs exactly the configured listeners, and nothing else is open.\<close>

definition commit_world :: "Server \<Rightarrow> world \<Rightarrow> prep \<Rightarrow> world" where
  "commit_world s w0 p =
     fold (\<lambda>(k, r) w. if k \<in> set (pp_kept p) then w else close r w) (index_by key (sv_listeners s) w0)
       (fold start_loop (pp_newBinds p) (fold swap_routes (pp_swaps p) (pp_world p)))"

lemma commit_facts:
  assumes srv: "srv_inv s w0" and inv: "plan_inv s w0 ls p"
    and ls: "distinct (map addr ls)" "\<forall>l \<in> set ls. mode_ok l"
  defines "w \<equiv> pp_world p" and "nx \<equiv> pp_next p" and "w' \<equiv> commit_world s w0 p"
  shows "map (\<lambda>r. addr (w_heap w r)) nx = map addr ls" "distinct nx"
    "i < length ls \<Longrightarrow> w_heap w' (nx ! i) =
       (if nx ! i < w_fresh w0 then replaceRoutes (routesSnapshot (ls ! i)) (w_heap w0 (nx ! i)) else w_heap w (nx ! i))"
    "\<forall>r. li_tcp (w_heap w' r) = li_tcp (w_heap w r)"
    "w_open w' = w_open w - sock_of w0 ` (set (sv_listeners s) - set nx)"
    "w_running w' = w_running w0 @ pp_newBinds p" "w_fresh w' = w_fresh w" "w_sock w' = w_sock w"
proof -
  have st: "store_inv w0 w (pp_newBinds p)" and stg: "list_all2 (staged s w0 w) nx ls"
    and sw: "pp_swaps p = swaps_of s w0 ls" and kept: "set (pp_kept p) = {k \<in> key ` set ls. old_at s w0 k \<noteq> None}"
    using inv unfolding plan_inv_def w_def nx_def by blast+
  have len: "length nx = length ls" using stg by (rule list_all2_lengthD)
  have nth: "staged s w0 w (nx ! i) (ls ! i)" "ls ! i \<in> set ls" if "i < length ls" for i
    using stg that by (auto simp: list_all2_conv_all_nth)
  show ad: "map (\<lambda>r. addr (w_heap w r)) nx = map addr ls"
  proof (rule nth_equalityI)
    fix i assume "i < length (map (\<lambda>r. addr (w_heap w r)) nx)"
    then show "map (\<lambda>r. addr (w_heap w r)) nx ! i = map addr ls ! i"
      using len ls(2) staged_addr [OF srv st nth(1) [of i]] nth(2) [of i] by simp
  qed (simp add: len)
  then show d: "distinct nx" using ls(1) by (metis distinct_map)
  let ?z = "filter (\<lambda>(r, l). r < w_fresh w0) (zip nx ls)"
  have z: "pp_swaps p = map (\<lambda>(r, l). (r, routesSnapshot l)) ?z"
    unfolding sw by (rule swaps_of_zip [OF srv stg])
  have "map fst (pp_swaps p) = map fst ?z" unfolding z by (simp add: comp_def case_prod_unfold)
  then have dsw: "distinct (map fst (pp_swaps p))"
    using d len by (simp add: distinct_map_filter)
  have map_sw: "map_of (pp_swaps p) (nx ! i) = (if nx ! i < w_fresh w0 then Some (routesSnapshot (ls ! i)) else None)"
    if "i < length ls" for i
  proof (cases "nx ! i < w_fresh w0")
    case True
    have "(nx ! i, ls ! i) \<in> set (zip nx ls)" using that len by (auto simp: set_zip)
    then have "(nx ! i, routesSnapshot (ls ! i)) \<in> set (pp_swaps p)" using True by (force simp: z)
    then show ?thesis using True dsw by (simp add: map_of_is_SomeI)
  next
    case False
    then show ?thesis by (auto simp: z map_of_eq_None_iff)
  qed
  have heap: "w_heap w' = (\<lambda>r. case map_of (pp_swaps p) r of Some m \<Rightarrow> replaceRoutes m (w_heap w r) | None \<Rightarrow> w_heap w r)"
    unfolding w'_def commit_world_def w_def
    by (simp add: fold_close_unkept fold_start_loop fold_swap_routes [OF dsw])
  show "w_heap w' (nx ! i) = (if nx ! i < w_fresh w0 then replaceRoutes (routesSnapshot (ls ! i)) (w_heap w0 (nx ! i)) else w_heap w (nx ! i))"
    if "i < length ls"
    using map_sw [OF that] st by (auto simp: heap store_inv_def)
  show tcp: "\<forall>r. li_tcp (w_heap w' r) = li_tcp (w_heap w r)" by (auto simp: heap split: option.split)
  show "w_running w' = w_running w0 @ pp_newBinds p" "w_fresh w' = w_fresh w" "w_sock w' = w_sock w"
    using st by (simp_all add: w'_def commit_world_def fold_close_unkept fold_start_loop fold_swap_routes [OF dsw] w_def store_inv_def)
  have ex: "index_by key (sv_listeners s) w0 = map (\<lambda>r. (key (w_heap w0 r), r)) (sv_listeners s)"
    using srv_keys_distinct [OF srv] by (rule index_by_distinct)
  have kept_iff: "key (w_heap w0 r) \<in> set (pp_kept p) \<longleftrightarrow> r \<in> set nx" if r: "r \<in> set (sv_listeners s)" for r
  proof
    assume "key (w_heap w0 r) \<in> set (pp_kept p)"
    then obtain l where "l \<in> set ls" "key l = key (w_heap w0 r)" using kept by auto
    then obtain i where i: "i < length ls" "key (ls ! i) = key (w_heap w0 r)" by (auto simp: in_set_conv_nth)
    then have "old_at s w0 (key (ls ! i)) = Some r" using r existing_iff(1) [OF srv] by simp
    then have "nx ! i = r" using nth(1) [OF i(1)] by (simp add: staged_def)
    then show "r \<in> set nx" using i(1) len by (metis nth_mem)
  next
    assume "r \<in> set nx"
    then obtain i where i: "i < length ls" "nx ! i = r" using len by (auto simp: in_set_conv_nth)
    have "r < w_fresh w0" using r srv by (auto simp: srv_inv_def)
    then have o: "old_at s w0 (key (ls ! i)) = Some r" using staged_kept(1) [OF srv nth(1) [OF i(1)]] i(2) by simp
    then have "key (w_heap w0 r) = key (ls ! i)" using existing_iff(1) [OF srv] by simp
    then show "key (w_heap w0 r) \<in> set (pp_kept p)" using o nth(2) [OF i(1)] kept by auto
  qed
  have u: "(\<Union>(k, r) \<in> {x \<in> set (index_by key (sv_listeners s) w0). fst x \<notin> set (pp_kept p)}. set_option (li_tcp (w_heap w r)))
      = sock_of w0 ` (set (sv_listeners s) - set nx)"
  proof -
    have "set_option (li_tcp (w_heap w r)) = {sock_of w0 r}" if "r \<in> set (sv_listeners s)" for r
    proof -
      have "r < w_fresh w0" "li_tcp (w_heap w0 r) \<noteq> None" using that srv unfolding srv_inv_def by blast+
      then show ?thesis using st by (auto simp: store_inv_def)
    qed
    moreover have "{x \<in> set (index_by key (sv_listeners s) w0). fst x \<notin> set (pp_kept p)} =
        (\<lambda>r. (key (w_heap w0 r), r)) ` (set (sv_listeners s) - set nx)"
      using kept_iff unfolding ex by auto
    ultimately show ?thesis by auto
  qed
  show "w_open w' = w_open w - sock_of w0 ` (set (sv_listeners s) - set nx)"
  proof -
    let ?u = "fold start_loop (pp_newBinds p) (fold swap_routes (pp_swaps p) (pp_world p))"
    have "w_open ?u = w_open w" "\<forall>r. li_tcp (w_heap ?u r) = li_tcp (w_heap w r)"
      by (auto simp: fold_start_loop fold_swap_routes [OF dsw] w_def split: option.split)
    then show ?thesis
      using u by (simp add: w'_def commit_world_def fold_close_unkept)
  qed
qed

lemma commit_ok:
  assumes srv: "srv_inv s w0" and inv: "plan_inv s w0 ls p"
    and ls: "distinct (map addr ls)" "\<forall>l \<in> set ls. mode_ok l"
  shows "srv_inv (s\<lparr>sv_listeners := pp_next p\<rparr>) (commit_world s w0 p)"
    "map (\<lambda>r. behaviour (w_heap (commit_world s w0 p) r)) (pp_next p) = map behaviour ls"
proof -
  define w w' nx where "w = pp_world p" and "w' = commit_world s w0 p" and "nx = pp_next p"
  note f = commit_facts [OF srv inv ls, folded w_def w'_def nx_def]
  have st: "store_inv w0 w (pp_newBinds p)" and stg: "list_all2 (staged s w0 w) nx ls"
    and news: "pp_newBinds p = filter (\<lambda>r. w_fresh w0 \<le> r) nx"
    using inv unfolding plan_inv_def w_def nx_def by blast+
  have len: "length nx = length ls" using stg by (rule list_all2_lengthD)
  have nth: "staged s w0 w (nx ! i) (ls ! i)" "ls ! i \<in> set ls" if "i < length ls" for i
    using stg that by (auto simp: list_all2_conv_all_nth)
  have old: "r \<in> set (sv_listeners s)" if "r \<in> set nx" "r < w_fresh w0" for r
    using that len nth(1) staged_kept(2) [OF srv] by (metis in_set_conv_nth)
  have beh: "behaviour (w_heap w' (nx ! i)) = behaviour (ls ! i) \<and> mode_ok (w_heap w' (nx ! i))"
    if i: "i < length ls" for i
  proof (cases "nx ! i < w_fresh w0")
    case True
    let ?r = "nx ! i" and ?l = "ls ! i"
    have h: "w_heap w' ?r = replaceRoutes (routesSnapshot ?l) (w_heap w0 ?r)" using f(3) [OF i] True by simp
    have "?r \<in> set (sv_listeners s)" using old [of ?r] True i len by simp
    then have m0: "mode_ok (w_heap w0 ?r)" "w_heap w ?r = w_heap w0 ?r"
      using srv st True unfolding srv_inv_def store_inv_def by blast+
    have m: "mode_ok ?l" using ls(2) nth(2) [OF i] by blast
    have a: "addr (w_heap w0 ?r) = addr ?l" "li_mode (w_heap w0 ?r) = li_mode ?l"
      using staged_addr [OF srv st nth(1) [OF i] m] m0(2) by auto
    have "old_at s w0 (key ?l) = Some ?r" using staged_kept(1) [OF srv nth(1) [OF i]] True by simp
    then have "li_mode ?l = modeTCPToVsock \<longrightarrow> li_targetCID (w_heap w0 ?r) = li_targetCID ?l \<and>
        li_targetPort (w_heap w0 ?r) = li_targetPort ?l"
      using nth(1) [OF i] by (simp add: staged_def)
    then show ?thesis
      using m m0(1) a addr_inj [OF a(1)]
      by (auto simp: h behaviour_def mode_ok_def replaceRoutes_def routesSnapshot_def split: if_splits)
  next
    case False
    then have "old_at s w0 (key (ls ! i)) = None"
      using nth(1) [OF i] staged_kept(1) [OF srv nth(1) [OF i]] by (auto simp: staged_def split: option.splits)
    then obtain k where "w_heap w' (nx ! i) = (ls ! i)\<lparr>li_tcp := Some k\<rparr>"
      using nth(1) [OF i] f(3) [OF i] False by (auto simp: staged_def)
    then show ?thesis using ls(2) nth(2) [OF i] by (simp add: behaviour_def)
  qed
  show "map (\<lambda>r. behaviour (w_heap (commit_world s w0 p) r)) (pp_next p) = map behaviour ls"
    unfolding w'_def [symmetric] nx_def [symmetric] using len beh by (auto intro!: nth_equalityI)
  have addr': "map (\<lambda>r. addr (w_heap w' r)) nx = map addr ls"
    using len beh by (auto intro!: nth_equalityI simp: behaviour_def addr_def)
  have sk: "map (sock_of w') nx = map (sock_of w) nx" "sock_of w' ` set nx = sock_of w ` set nx"
    using f(4) by simp_all
  have sock: "\<forall>r \<in> set nx. r < w_fresh w \<and> li_tcp (w_heap w r) \<noteq> None \<and> sock_of w r < w_sock w"
    "distinct (map (sock_of w) nx)"
    using plan_sockets [OF srv st f(2) _ news] old by blast+
  have open': "w_open w' = sock_of w ` set nx"
  proof -
    have L: "inj_on (sock_of w0) (set (sv_listeners s))" "\<forall>r \<in> set (sv_listeners s). sock_of w0 r < w_sock w0"
      using srv by (simp_all add: srv_inv_def distinct_map)
    have N: "\<forall>r \<in> set (pp_newBinds p). w_sock w0 \<le> sock_of w r" using st by (simp add: store_inv_def)
    have same: "\<forall>r \<in> set (sv_listeners s). sock_of w r = sock_of w0 r"
      using srv st by (simp add: srv_inv_def store_inv_def)
    have X: "set nx = (set (sv_listeners s) \<inter> set nx) \<union> set (pp_newBinds p)"
      unfolding news using old by auto (meson not_le)
    have "w_open w = sock_of w0 ` set (sv_listeners s) \<union> sock_of w ` set (pp_newBinds p)"
      using srv st by (simp add: srv_inv_def store_inv_def)
    then show ?thesis unfolding f(5) using open_after [OF L N same X] by simp
  qed
  have run: "r \<in> set (w_running w')" if "r \<in> set nx" for r
    using that old [OF that] srv news by (cases "r < w_fresh w0") (auto simp: f(6) srv_inv_def)
  have mode: "mode_ok (w_heap w' r)" if "r \<in> set nx" for r
    using that beh len by (auto simp: in_set_conv_nth)
  have "sv_ctx s" using srv by (simp add: srv_inv_def)
  then show "srv_inv (s\<lparr>sv_listeners := pp_next p\<rparr>) (commit_world s w0 p)"
    unfolding srv_inv_def w'_def [symmetric] nx_def [symmetric] Server.simps
    using sock f(4,7,8) open' run mode addr' ls(1) sk by auto
qed

section \<open>The reload contract\<close>

text \<open>What a configuration asks of the inbound server.\<close>

definition http_behaviour :: "InboundListener \<Rightarrow> bytes \<times> int \<times> bytes \<times> route_map \<times> uint32 \<times> uint32" where
  "http_behaviour c = (il_Bind c, il_Port c, il_Mode c, buildRouteMap (il_Routes c), 0, 0)"

definition tcp_behaviour :: "TCPToVsockListener \<Rightarrow> bytes \<times> int \<times> bytes \<times> route_map \<times> uint32 \<times> uint32" where
  "tcp_behaviour c = (tv_Bind c, tv_Port c, modeTCPToVsock, [], tv_VsockCID c, tv_VsockPort c)"

definition in_wants :: "Config \<Rightarrow> (bytes \<times> int \<times> bytes \<times> route_map \<times> uint32 \<times> uint32) list" where
  "in_wants c = map http_behaviour (c_Inbound c) @ map tcp_behaviour (c_TCPToVsock c)"

definition in_serves :: "Server \<Rightarrow> world \<Rightarrow> (bytes \<times> int \<times> bytes \<times> route_map \<times> uint32 \<times> uint32) list" where
  "in_serves s w = map (\<lambda>r. behaviour (w_heap w r)) (sv_listeners s)"

definition in_prepare :: "(world \<Rightarrow> bytes \<Rightarrow> bool) \<Rightarrow> Config \<Rightarrow> Server \<Rightarrow> world \<Rightarrow> (in_error + ApplyPlan) \<times> world" where
  "in_prepare listen c = PrepareApply listen (c_Inbound c) (c_TCPToVsock c)"

lemma new_listeners_facts:
  assumes "list_all (is_ok \<circ> newHTTPListener) inb"
  shows "map behaviour (new_listeners inb tcps) = map http_behaviour inb @ map tcp_behaviour tcps"
    "\<forall>l \<in> set (new_listeners inb tcps). mode_ok l"
    "map (\<lambda>l. (li_bindAddr l, li_port l)) (new_listeners inb tcps) =
       map (\<lambda>c. (il_Bind c, il_Port c)) inb @ map (\<lambda>c. (tv_Bind c, tv_Port c)) tcps"
proof -
  have h: "behaviour (projr (newHTTPListener c)) = http_behaviour c \<and> mode_ok (projr (newHTTPListener c)) \<and>
      li_bindAddr (projr (newHTTPListener c)) = il_Bind c \<and> li_port (projr (newHTTPListener c)) = il_Port c"
    if "c \<in> set inb" for c
    using that assms newHTTPListener_Inr [of c]
    by (auto simp: list_all_iff is_ok_iff newHTTPListener_def behaviour_def http_behaviour_def routesSnapshot_def
        split: if_splits)
  have t: "behaviour (projr (newTCPToVsockListener c)) = tcp_behaviour c \<and> mode_ok (projr (newTCPToVsockListener c)) \<and>
      li_bindAddr (projr (newTCPToVsockListener c)) = tv_Bind c \<and> li_port (projr (newTCPToVsockListener c)) = tv_Port c" for c
    using newTCPToVsockListener_Inr [of c]
    by (auto simp: newTCPToVsockListener_def behaviour_def tcp_behaviour_def routesSnapshot_def)
  show "map behaviour (new_listeners inb tcps) = map http_behaviour inb @ map tcp_behaviour tcps"
    "\<forall>l \<in> set (new_listeners inb tcps). mode_ok l"
    "map (\<lambda>l. (li_bindAddr l, li_port l)) (new_listeners inb tcps) =
       map (\<lambda>c. (il_Bind c, il_Port c)) inb @ map (\<lambda>c. (tv_Bind c, tv_Port c)) tcps"
    using h t by (auto simp: new_listeners_def)
qed

lemma distinct_addr:
  assumes "distinct (map (\<lambda>l. (li_bindAddr l, li_port l)) ls)"
  shows "distinct (map addr ls)"
proof -
  have "inj_on addr (set ls)"
  proof (rule inj_onI)
    fix l l' assume "l \<in> set ls" "l' \<in> set ls" "addr l = addr l'"
    then show "l = l'" using addr_inj [of l l'] assms by (simp add: distinct_map inj_on_def)
  qed
  then show ?thesis using assms by (simp add: distinct_map)
qed

lemma PrepareApply_plan:
  assumes "srv_inv s w0" "PrepareApply listen inb tcps s w0 = (Inr plan, w)"
  obtains p where "w = pp_world p" "plan_inv s w0 (new_listeners inb tcps) p"
    "list_all (is_ok \<circ> newHTTPListener) inb"
    "plan = \<lparr>ap_next = pp_next p, ap_newBinds = pp_newBinds p, ap_swaps = pp_swaps p,
             ap_existing = index_by key (sv_listeners s) w0, ap_kept = pp_kept p,
             ap_committed = False, ap_aborted = False\<rparr>"
  using PrepareApply_cases [OF assms(1), where listen = listen and inb = inb and tcps = tcps] assms(2) by auto

lemma same_serves: "srv_inv s w0 \<Longrightarrow> same_store w0 w \<Longrightarrow> in_serves s w = in_serves s w0 \<and> w_open w = w_open w0"
  by (auto simp: in_serves_def srv_inv_def same_store_def)

lemma in_prepare_fails:
  assumes srv: "srv_inv s w0" and prep: "in_prepare listen c s w0 = (Inl e, w)"
  shows "srv_inv s w \<and> in_serves s w = in_serves s w0 \<and> w_open w = w_open w0"
proof -
  have "same_store w0 w"
    using PrepareApply_cases [OF srv, where listen = listen and inb = "c_Inbound c" and tcps = "c_TCPToVsock c"] prep
    by (simp add: in_prepare_def)
  then show ?thesis using srv same_store_srv same_serves by blast
qed

lemma in_abort_undoes:
  assumes srv: "srv_inv s w0" and prep: "in_prepare listen c s w0 = (Inr plan, w)"
  defines "w' \<equiv> snd (AbortApply plan w)"
  shows "srv_inv s w' \<and> in_serves s w' = in_serves s w0 \<and> w_open w' = w_open w0"
proof -
  obtain p where p: "w = pp_world p" "plan_inv s w0 (new_listeners (c_Inbound c) (c_TCPToVsock c)) p"
      "ap_newBinds plan = pp_newBinds p" "\<not> ap_committed plan" "\<not> ap_aborted plan"
    by (rule PrepareApply_plan [OF srv prep [unfolded in_prepare_def]]) simp
  have "store_inv w0 w (pp_newBinds p)" using p(1,2) unfolding plan_inv_def by blast
  then have "same_store w0 w'"
    using close_news_same [OF _ srv_open_bound [OF srv]] p(3-5) by (simp add: AbortApply_def w'_def)
  then show ?thesis using srv same_store_srv same_serves by blast
qed

lemma in_commit_publishes:
  assumes srv: "srv_inv s w0" and valid: "valid_config c" and prep: "in_prepare listen c s w0 = (Inr plan, w)"
  shows "case snd (CommitApply plan s w) of (s'', w'') \<Rightarrow> srv_inv s'' w'' \<and> in_serves s'' w'' = in_wants c"
proof -
  obtain p where p: "w = pp_world p" "plan_inv s w0 (new_listeners (c_Inbound c) (c_TCPToVsock c)) p"
      "list_all (is_ok \<circ> newHTTPListener) (c_Inbound c)"
      "plan = \<lparr>ap_next = pp_next p, ap_newBinds = pp_newBinds p, ap_swaps = pp_swaps p,
             ap_existing = index_by key (sv_listeners s) w0, ap_kept = pp_kept p,
             ap_committed = False, ap_aborted = False\<rparr>"
    by (rule PrepareApply_plan [OF srv prep [unfolded in_prepare_def]])
  note nl = new_listeners_facts [OF p(3), of "c_TCPToVsock c"]
  have "distinct (map addr (new_listeners (c_Inbound c) (c_TCPToVsock c)))"
    using valid nl(3) by (intro distinct_addr) (simp add: valid_config_def binds_of_def)
  from commit_ok [OF srv p(2) this nl(2)] show ?thesis
    using nl(1) by (simp add: CommitApply_def p(1,4) Let_def commit_world_def in_serves_def in_wants_def)
qed

interpretation inbound: stager srv_inv in_serves w_open valid_config in_wants in_prepare
  "\<lambda>p s w. snd (CommitApply p s w)" "\<lambda>p w. snd (AbortApply p w)"
  by unfold_locales (rule in_prepare_fails in_abort_undoes in_commit_publishes; assumption)+

section \<open>Start\<close>

lemma alloc_all_store:
  assumes "alloc_all ls w = (rs, w')" "store_inv w0 w []"
  shows "store_inv w0 w' [] \<and> rs = [w_fresh w ..< w_fresh w'] \<and> w_fresh w' = w_fresh w + length ls \<and>
     map (w_heap w') rs = ls \<and> (\<forall>r < w_fresh w. w_heap w' r = w_heap w r)"
  using assms
proof (induction ls arbitrary: w rs)
  case (Cons l ls)
  obtain w1 rs1 where w1: "alloc l w = (w_fresh w, w1)" "w_fresh w1 = Suc (w_fresh w)" "w_heap w1 (w_fresh w) = l"
      "\<forall>r < w_fresh w. w_heap w1 r = w_heap w r" and r1: "alloc_all ls w1 = (rs1, w')" "rs = w_fresh w # rs1"
    using Cons.prems(1) by (auto simp: alloc_def split: prod.splits)
  have "store_inv w0 w1 []" using alloc_store [OF Cons.prems(2), of l] w1(1) by simp
  note IH = Cons.IH [OF r1(1) this]
  then have "w_fresh w < w_fresh w'" "w_heap w' (w_fresh w) = l" using w1 by simp_all
  moreover have "rs = [w_fresh w ..< w_fresh w']"
    using IH w1(2) r1(2) calculation(1) upt_conv_Cons [of "w_fresh w" "w_fresh w'"] by metis
  moreover have "map (w_heap w') rs = l # ls" using IH r1(2) calculation(2) list.map(2) by metis
  moreover have "w_fresh w' = w_fresh w + length (l # ls)" using IH w1(2) by simp
  ultimately show ?case using IH w1(2,4) by (metis less_SucI)
qed simp

text \<open>Binding in order stops at the first failure; what was bound up to there is the prefix.\<close>

lemma bind_all_store:
  assumes "store_inv w0 w news" "distinct (news @ rs)"
    "\<forall>r \<in> set rs. w_fresh w0 \<le> r \<and> r < w_fresh w \<and> li_tcp (w_heap w r) = None"
  shows "case bind_all listen rs w of
      (Inl e, w1) \<Rightarrow> \<exists>bound rest. news @ rs = bound @ rest \<and> store_inv w0 w1 bound \<and>
        (\<forall>r \<in> set rest. li_tcp (w_heap w1 r) = None)
    | (Inr _, w1) \<Rightarrow> store_inv w0 w1 (news @ rs) \<and> (\<forall>q. q \<notin> set rs \<longrightarrow> w_heap w1 q = w_heap w q) \<and>
        (\<forall>r \<in> set rs. \<exists>k. w_heap w1 r = (w_heap w r)\<lparr>li_tcp := Some k\<rparr>)"
  using assms
proof (induction rs arbitrary: w news)
  case (Cons r rs)
  show ?case
  proof (cases "bind listen r w")
    case (Inl e)
    have "\<exists>bound rest. news @ r # rs = bound @ rest \<and> store_inv w0 w bound \<and> (\<forall>r \<in> set rest. li_tcp (w_heap w r) = None)"
      using Cons.prems by (intro exI [of _ news] exI [of _ "r # rs"]) simp
    then show ?thesis using Inl by simp
  next
    case (Inr w1)
    have r: "w_fresh w0 \<le> r" "r < w_fresh w" "r \<notin> set news" "r \<notin> set rs" using Cons.prems by auto
    note b = bind_store [OF Cons.prems(1) Inr r(1-3)]
    have "\<forall>q \<in> set rs. w_fresh w0 \<le> q \<and> q < w_fresh w1 \<and> li_tcp (w_heap w1 q) = None"
      using Cons.prems(3) b(3,4) r(4) by (metis list.set_intros(2))
    note IH = Cons.IH [OF b(1) _ this]
    show ?thesis
    proof (cases "bind_all listen rs w1")
      case (Pair res w2)
      have d: "distinct ((news @ [r]) @ rs)" using Cons.prems(2) by simp
      show ?thesis
      proof (cases res)
        case e: (Inl e)
        then show ?thesis using IH [OF d] Pair Inr by simp
      next
        case u: (Inr u)
        then have *: "store_inv w0 w2 (news @ r # rs)" "\<forall>q. q \<notin> set rs \<longrightarrow> w_heap w2 q = w_heap w1 q"
          "\<forall>q \<in> set rs. \<exists>k. w_heap w2 q = (w_heap w1 q)\<lparr>li_tcp := Some k\<rparr>"
          using IH [OF d] Pair by auto
        have "\<forall>q \<in> set (r # rs). \<exists>k. w_heap w2 q = (w_heap w q)\<lparr>li_tcp := Some k\<rparr>"
          using *(2,3) b(2,3) r(4) by (metis set_ConsD)
        moreover have "\<forall>q. q \<notin> set (r # rs) \<longrightarrow> w_heap w2 q = w_heap w q"
          using *(2) b(3) by simp
        ultimately show ?thesis using *(1) Pair Inr u by simp
      qed
    qed
  qed
qed simp

lemma build_listeners:
  assumes "list_all (is_ok \<circ> new) cfgs"
  shows "for_idx (add_listener sec new) i cfgs ls = Inr (ls @ map (projr \<circ> new) cfgs)"
  using assms
  by (induction cfgs arbitrary: i ls) (auto simp: add_listener_def is_ok_iff split: sum.splits)

definition fresh_world :: world where
  "fresh_world = \<lparr>w_heap = (\<lambda>_. \<lparr>li_bindAddr = [], li_port = 0, li_mode = [], li_tcp = None, li_routes = None,
     li_targetCID = 0, li_targetPort = 0\<rparr>), w_fresh = 0, w_open = {}, w_sock = 0, w_running = []\<rparr>"

lemma store_inv_refl: "store_inv w w []"
  by (simp add: store_inv_def)

lemma valid_modes: "valid_config c \<Longrightarrow> list_all (is_ok \<circ> newHTTPListener) (c_Inbound c)"
  by (auto simp: valid_config_def inbound_good_def list_all_iff newHTTPListener_def is_ok_iff)

lemma NewServer_ok:
  assumes "valid_config c"
  obtains rs w where "NewServer (c_Inbound c) (c_TCPToVsock c) w0 = Inr (\<lparr>sv_listeners = rs, sv_ctx = False\<rparr>, w)"
    "alloc_all (new_listeners (c_Inbound c) (c_TCPToVsock c)) w0 = (rs, w)"
proof -
  have t: "list_all (is_ok \<circ> newTCPToVsockListener) (c_TCPToVsock c)"
    by (simp add: list_all_iff newTCPToVsockListener_def is_ok_iff)
  obtain rs w where "alloc_all (new_listeners (c_Inbound c) (c_TCPToVsock c)) w0 = (rs, w)" by fastforce
  then show thesis
    using that build_listeners [OF valid_modes [OF assms]] build_listeners [OF t]
    by (simp add: NewServer_def new_listeners_def)
qed

lemma new_listener_unbound: "l \<in> set (new_listeners inb tcps) \<Longrightarrow> list_all (is_ok \<circ> newHTTPListener) inb \<Longrightarrow> li_tcp l = None"
  using newHTTPListener_Inr newTCPToVsockListener_Inr
  by (fastforce simp: new_listeners_def list_all_iff is_ok_iff newTCPToVsockListener_def)

lemma Start_cases:
  assumes w0: "w_open w0 = {}" and alloc: "alloc_all ls w0 = (rs, w)"
    and ls: "distinct (map addr ls)" "\<forall>l \<in> set ls. mode_ok l \<and> li_tcp l = None"
  shows "case Start listen \<lparr>sv_listeners = rs, sv_ctx = False\<rparr> w of
      (Inl e, s', w') \<Rightarrow> w_open w' = {} \<and> w_running w' = w_running w0
    | (Inr _, s', w') \<Rightarrow> srv_inv s' w' \<and> in_serves s' w' = map behaviour ls"
proof -
  have a: "store_inv w0 w []" "rs = [w_fresh w0 ..< w_fresh w]" "map (w_heap w) rs = ls"
    using alloc_all_store [OF alloc store_inv_refl] by blast+
  have rs: "\<forall>r \<in> set rs. w_fresh w0 \<le> r \<and> r < w_fresh w \<and> w_heap w r \<in> set ls" "distinct rs"
    using a(2,3) by auto
  have unbound: "\<forall>r \<in> set rs. w_fresh w0 \<le> r \<and> r < w_fresh w \<and> li_tcp (w_heap w r) = None"
    using rs(1) ls(2) by blast
  obtain res w1 where b: "bind_all listen rs w = (res, w1)" by fastforce
  have bas: "case (res, w1) of
      (Inl e, w1) \<Rightarrow> \<exists>bound rest. [] @ rs = bound @ rest \<and> store_inv w0 w1 bound \<and>
        (\<forall>r \<in> set rest. li_tcp (w_heap w1 r) = None)
    | (Inr _, w1) \<Rightarrow> store_inv w0 w1 ([] @ rs) \<and> (\<forall>q. q \<notin> set rs \<longrightarrow> w_heap w1 q = w_heap w q) \<and>
        (\<forall>r \<in> set rs. \<exists>k. w_heap w1 r = (w_heap w r)\<lparr>li_tcp := Some k\<rparr>)"
    using bind_all_store [OF a(1), of rs listen] rs(2) unbound unfolding b [symmetric] by simp
  show ?thesis
  proof (cases res)
    case (Inl e)
    then obtain bound rest where br: "rs = bound @ rest" "store_inv w0 w1 bound"
        "\<forall>r \<in> set rest. li_tcp (w_heap w1 r) = None"
      using bas by auto
    then have "w_open w1 \<subseteq> (\<Union>r \<in> set rs. set_option (li_tcp (w_heap w1 r)))"
      using w0 by (force simp: store_inv_def)
    then have "w_open (fold close rs w1) = {}" "w_running (fold close rs w1) = w_running w0"
      using br(2) by (auto simp: fold_close store_inv_def)
    then show ?thesis using b Inl by (simp add: Start_def)
  next
    case (Inr u)
    then have st: "store_inv w0 w1 rs" and h: "\<forall>r \<in> set rs. \<exists>k. w_heap w1 r = (w_heap w r)\<lparr>li_tcp := Some k\<rparr>"
      using bas by auto
    let ?w = "w1\<lparr>w_running := w_running w1 @ rs\<rparr>"
    have eq: "behaviour (w_heap w1 r) = behaviour (w_heap w r) \<and> addr (w_heap w1 r) = addr (w_heap w r) \<and>
        mode_ok (w_heap w1 r)" if "r \<in> set rs" for r
      using that h ls(2) rs(1) by (force simp: behaviour_def)
    then have beh: "map (\<lambda>r. behaviour (w_heap w1 r)) rs = map behaviour ls"
      "map (\<lambda>r. addr (w_heap w1 r)) rs = map addr ls"
      using a(3) by (auto simp flip: a(3))
    have "srv_inv \<lparr>sv_listeners = rs, sv_ctx = True\<rparr> ?w"
      using st w0 eq beh(2) ls(1) by (simp add: srv_inv_def store_inv_def)
    then show ?thesis
      using b Inr beh(1) by (simp add: Start_def in_serves_def fold_start_loop)
  qed
qed

lemma Start_publishes:
  assumes "valid_config c" "w_open w0 = {}"
  shows "\<exists>s w. NewServer (c_Inbound c) (c_TCPToVsock c) w0 = Inr (s, w) \<and>
     (case Start listen s w of
        (Inl e, s', w') \<Rightarrow> w_open w' = {} \<and> w_running w' = w_running w0
      | (Inr _, s', w') \<Rightarrow> srv_inv s' w' \<and> in_serves s' w' = in_wants c)"
proof -
  obtain rs w where n: "NewServer (c_Inbound c) (c_TCPToVsock c) w0 = Inr (\<lparr>sv_listeners = rs, sv_ctx = False\<rparr>, w)"
    "alloc_all (new_listeners (c_Inbound c) (c_TCPToVsock c)) w0 = (rs, w)"
    by (rule NewServer_ok [OF assms(1)])
  note nl = new_listeners_facts [OF valid_modes [OF assms(1)], of "c_TCPToVsock c"]
  have d: "distinct (map addr (new_listeners (c_Inbound c) (c_TCPToVsock c)))"
    using assms(1) nl(3) by (intro distinct_addr) (simp add: valid_config_def binds_of_def)
  have "\<forall>l \<in> set (new_listeners (c_Inbound c) (c_TCPToVsock c)). mode_ok l \<and> li_tcp l = None"
    using nl(2) new_listener_unbound valid_modes [OF assms(1)] by blast
  from Start_cases [OF assms(2) n(2) d this, of listen] n(1) nl(1) show ?thesis
    by (auto simp: in_wants_def split: prod.splits sum.splits)
qed

section \<open>Properties of the inbound server\<close>

text \<open>
  Start is all or nothing: on a validated configuration \<open>NewServer\<close> never fails, and then \<open>Start\<close>
  either leaves a running server that serves exactly the configured listeners, in order, or, when some
  address cannot be bound, returns the error with every socket it had opened closed again and no accept
  loop started.
\<close>

theorem Start_all_or_nothing:
  assumes "valid_config c" "w_open w0 = {}"
  shows "\<exists>s w. NewServer (c_Inbound c) (c_TCPToVsock c) w0 = Inr (s, w) \<and>
     (case Start listen s w of
        (Inl e, s', w') \<Rightarrow> w_open w' = {} \<and> w_running w' = w_running w0
      | (Inr _, s', w') \<Rightarrow> srv_inv s' w' \<and> in_serves s' w' = in_wants c)"
  using Start_publishes [OF assms] .

text \<open>
  C4. A reload of the inbound server is atomic: on a running server and a validated configuration \<open>Apply\<close>
  either publishes exactly that configuration, listener by listener (routes swapped in place on kept
  addresses, new addresses bound and accepting, dropped ones closed, nothing else open), or returns an
  error and leaves every listener, route and open socket as it was.
\<close>

theorem Apply_atomic:
  assumes "srv_inv s w" "valid_config c"
    and "Apply listen (c_Inbound c) (c_TCPToVsock c) s w = (r, s', w')"
  shows "srv_inv s' w' \<and>
     (case r of
        Inr _ \<Rightarrow> in_serves s' w' = in_wants c
      | Inl _ \<Rightarrow> s' = s \<and> in_serves s' w' = in_serves s w \<and> w_open w' = w_open w)"
proof -
  have "inbound.reload listen c s w = (s', w', is_ok r)"
    using assms(3) by (auto simp: inbound.reload_def Apply_def in_prepare_def is_ok_iff split: prod.splits sum.splits)
  from inbound.reload_keeps_running [OF assms(1,2) this] show ?thesis
    by (auto simp: is_ok_iff split: if_splits sum.splits)
qed

section \<open>Witnesses\<close>

definition sample_started :: "Server \<times> world" where
  "sample_started =
     (case NewServer (c_Inbound sample_config) (c_TCPToVsock sample_config) fresh_world of
        Inr (s, w) \<Rightarrow> snd (Start (\<lambda>_ _. True) s w)
      | Inl _ \<Rightarrow> (\<lparr>sv_listeners = [], sv_ctx = False\<rparr>, fresh_world))"

theorem Start_all_or_nothing_witness:
  "valid_config sample_config \<and> w_open fresh_world = {} \<and>
   (\<exists>s w. NewServer (c_Inbound sample_config) (c_TCPToVsock sample_config) fresh_world = Inr (s, w) \<and>
     (case Start (\<lambda>_ _. True) s w of
        (Inl e, s', w') \<Rightarrow> w_open w' = {} \<and> w_running w' = w_running fresh_world
      | (Inr _, s', w') \<Rightarrow> srv_inv s' w' \<and> in_serves s' w' = in_wants sample_config))"
  using Start_all_or_nothing [OF sample_config_valid, of fresh_world "\<lambda>_ _. True"] sample_config_valid
  by (simp add: fresh_world_def)

lemma bind_all_ok: "\<exists>w'. bind_all (\<lambda>_ _. True) rs w = (Inr (), w')"
  by (induction rs arbitrary: w) (auto simp: bind_def Let_def)

lemma sample_started_inv: "case sample_started of (s, w) \<Rightarrow> srv_inv s w \<and> in_serves s w = in_wants sample_config"
proof -
  obtain rs w where n: "NewServer (c_Inbound sample_config) (c_TCPToVsock sample_config) fresh_world =
      Inr (\<lparr>sv_listeners = rs, sv_ctx = False\<rparr>, w)"
    by (rule NewServer_ok [OF sample_config_valid])
  obtain w' where "bind_all (\<lambda>_ _. True) rs w = (Inr (), w')" using bind_all_ok by blast
  then have "fst (Start (\<lambda>_ _. True) \<lparr>sv_listeners = rs, sv_ctx = False\<rparr> w) = Inr ()" by (simp add: Start_def)
  then show ?thesis
    using Start_publishes [OF sample_config_valid, of fresh_world "\<lambda>_ _. True"] n
    by (auto simp: sample_started_def fresh_world_def split: prod.splits)
qed

theorem Apply_atomic_witness:
  "case sample_started of (s, w) \<Rightarrow> srv_inv s w \<and>
     (case Apply (\<lambda>_ _. False) [] (c_TCPToVsock sample_config) s w of (r, s', w') \<Rightarrow> srv_inv s' w' \<and>
       (case r of
          Inr _ \<Rightarrow> in_serves s' w' = in_wants (sample_config\<lparr>c_Inbound := []\<rparr>)
        | Inl _ \<Rightarrow> s' = s \<and> in_serves s' w' = in_serves s w \<and> w_open w' = w_open w))"
proof -
  have v: "valid_config (sample_config\<lparr>c_Inbound := []\<rparr>)"
    using sample_config_valid by (simp add: valid_config_def sample_config_def binds_of_def cids_of_def vsock_ports_of_def)
  obtain s w where sw: "sample_started = (s, w)" by fastforce
  have "srv_inv s w" using sample_started_inv unfolding sw by (simp add: case_prod_beta)
  moreover obtain r s' w' where a: "Apply (\<lambda>_ _. False) [] (c_TCPToVsock sample_config) s w = (r, s', w')"
    by (metis prod_cases3)
  ultimately show ?thesis
    unfolding sw prod.case a using Apply_atomic [OF _ v, of s w "\<lambda>_ _. False" r s' w'] a by simp
qed

end
