(* ===== verification/Inbound_Conn.thy ===== *)
theory Inbound_Conn
  imports Inbound HttpHost
begin

text \<open>
  \<open>internal/inbound/server.go\<close> and \<open>tcp.go\<close>: what an inbound listener does with one connection, as the sequence of its
  visible actions in the order the code performs them, deferred calls included. What the client sends, which of dial and
  shutdown comes first, and how far the copies get is the argument \<open>env\<close>; the interleaving of the two
  copies is the subject of \<open>Proxy\<close> and \<open>Shuttle\<close>.
\<close>

section \<open>Actions\<close>

datatype in_peer = InClient | InUpstream

datatype in_action =
    InTrack in_peer
  | InUntrack in_peer
  | InClose in_peer
  | SetReadDeadline bool
  | CountInError bytes bytes
  | CountInConn bytes
  | CountInBytes bytes bytes nat
  | DialVsock uint32 uint32
  | CloseLate
  | WriteUpstream bytes
  | CopyToUpstream bytes
  | CopyToClient nat
  | InHalfClose in_peer
  | CountTCPConn
  | CountTCPError bytes
  | CountTCPBytes bytes nat

text \<open>
  The race in \<open>dialUpstream\<close>: the dial returns first, or \<open>dialCtx\<close> is cancelled first and the dial returns later, with a
  connection or not.
\<close>

datatype dial_race = Dialled bool | Cancelled bool

record in_env =
  ie_chunks :: "bytes list"
  ie_end :: read_error
  ie_shutdown :: bool
  ie_dial :: "uint32 \<Rightarrow> uint32 \<Rightarrow> dial_race"
  ie_replayed :: "nat option"
  ie_up :: "nat \<times> bool"
  ie_down :: "nat \<times> bool"
  ie_shuttle :: "nat \<times> nat \<times> bool"

definition routeLabelUnknown :: bytes where "routeLabelUnknown = ''unknown''"
definition InboundErrorSniff :: bytes where "InboundErrorSniff = ''sniff''"
definition InboundErrorRoute :: bytes where "InboundErrorRoute = ''route''"
definition InboundErrorDial :: bytes where "InboundErrorDial = ''dial''"
definition InboundErrorCopy :: bytes where "InboundErrorCopy = ''copy''"
definition InDirectionIn :: bytes where "InDirectionIn = ''in''"
definition InDirectionOut :: bytes where "InDirectionOut = ''out''"
definition DirectionUp :: bytes where "DirectionUp = ''up''"
definition DirectionDown :: bytes where "DirectionDown = ''down''"
definition TCPErrorDial :: bytes where "TCPErrorDial = ''dial_fail''"
definition TCPErrorCopy :: bytes where "TCPErrorCopy = ''copy_error''"

section \<open>Sniffing and dialling\<close>

text \<open>The host and the bytes consumed, if the listener's protocol was recognised, and what the client has still to say.\<close>

definition sniff :: "listener \<Rightarrow> bytes list \<Rightarrow> read_error \<Rightarrow> (bytes \<times> bytes) option \<times> bytes" where
  "sniff l chunks e =
     (if li_mode l = ModeHTTPHost then
        (case SniffHost chunks e of
           (Inr host, buffered, rest) \<Rightarrow> (Some (host, buffered), concat rest)
         | (Inl _, _, rest) \<Rightarrow> (None, concat rest))
      else if li_mode l = ModeTLSSNI then
        (case SniffSNI (concat chunks) of
           (Inr (host, buffered), rest) \<Rightarrow> (Some (host, buffered), rest)
         | (Inl _, rest) \<Rightarrow> (None, rest))
      else (None, concat chunks))"

text \<open>Whether there is a connection; one that arrives after the cancellation is closed.\<close>

definition dialUpstream :: "dial_race \<Rightarrow> bool \<times> in_action list" where
  "dialUpstream r = (case r of Dialled ok \<Rightarrow> (ok, []) | Cancelled late \<Rightarrow> (False, if late then [CloseLate] else []))"

section \<open>The handlers\<close>

definition proxy_actions :: "in_env \<Rightarrow> bytes \<Rightarrow> bytes \<Rightarrow> in_action list" where
  "proxy_actions env rest label =
     (let up = take (fst (ie_up env)) rest in
      [CopyToUpstream up, CountInBytes label InDirectionIn (length up)] @
      (if snd (ie_up env) then [CountInError label InboundErrorCopy] else []) @ [InHalfClose InUpstream] @
      [CopyToClient (fst (ie_down env)), CountInBytes label InDirectionOut (fst (ie_down env))] @
      (if snd (ie_down env) then [CountInError label InboundErrorCopy] else []) @ [InHalfClose InClient])"

definition in_with_upstream :: "in_action list \<Rightarrow> in_action list" where
  "in_with_upstream acts = [InTrack InUpstream] @ acts @ [InUntrack InUpstream, InClose InUpstream]"

definition in_handle :: "in_env \<Rightarrow> listener \<Rightarrow> in_action list" where
  "in_handle env l =
     [InTrack InClient, SetReadDeadline True, SetReadDeadline False] @
     (case sniff l (ie_chunks env) (ie_end env) of
        (None, _) \<Rightarrow> [CountInError routeLabelUnknown InboundErrorSniff]
      | (Some (host, buffered), rest) \<Rightarrow>
          (case map_of (routesSnapshot l) host of
             None \<Rightarrow> [CountInError routeLabelUnknown InboundErrorRoute]
           | Some route \<Rightarrow>
               let label = r_Hostname route in
               [CountInConn label, DialVsock (r_CID route) (r_VsockPort route)] @
               (case dialUpstream (ie_dial env (r_CID route) (r_VsockPort route)) of
                  (False, acts) \<Rightarrow> CountInError label InboundErrorDial # acts
                | (True, acts) \<Rightarrow>
                    acts @ in_with_upstream
                      (case ie_replayed env of
                         Some k \<Rightarrow> [WriteUpstream (take k buffered), CountInError label InboundErrorCopy]
                       | None \<Rightarrow>
                           [WriteUpstream buffered, CountInBytes label InDirectionIn (length buffered)] @
                           proxy_actions env rest label)))) @
     [InUntrack InClient, InClose InClient]"

text \<open>
  \<open>handleTCP\<close>: no sniffing and one target; a failed dial is not counted as an error once \<open>dialCtx\<close> is done, which a
  cancelled dial shows and \<open>ie_shutdown\<close> says of any other.
\<close>

definition in_handleTCP :: "in_env \<Rightarrow> listener \<Rightarrow> in_action list" where
  "in_handleTCP env l =
     [InTrack InClient, CountTCPConn, DialVsock (li_targetCID l) (li_targetPort l)] @
     (let race = ie_dial env (li_targetCID l) (li_targetPort l) in
      case dialUpstream race of
        (False, acts) \<Rightarrow>
          (if ie_shutdown env \<or> race \<in> {Cancelled True, Cancelled False} then [] else [CountTCPError TCPErrorDial]) @ acts
      | (True, acts) \<Rightarrow>
          acts @ in_with_upstream
            (case ie_shuttle env of (up, down, copyErrored) \<Rightarrow>
               let moved = take up (concat (ie_chunks env)) in
               [CopyToUpstream moved, CopyToClient down,
                CountTCPBytes DirectionUp (length moved), CountTCPBytes DirectionDown down] @
               (if copyErrored then [CountTCPError TCPErrorCopy] else []))) @
     [InUntrack InClient, InClose InClient]"

text \<open>The accept loop's dispatch.\<close>

definition in_serve :: "in_env \<Rightarrow> listener \<Rightarrow> in_action list" where
  "in_serve env l = (if li_mode l = modeTCPToVsock then in_handleTCP env l else in_handle env l)"

section \<open>Lemmas\<close>

lemma buildRouteMap_Some:
  assumes "map_of (buildRouteMap rs) h = Some r"
  shows "r \<in> set rs \<and> ToLower (r_Hostname r) = h"
proof -
  have "map_of (fold (\<lambda>r out. AList.update (ToLower (r_Hostname r)) r out) rs m) h = Some r \<Longrightarrow>
      map_of m h = Some r \<or> r \<in> set rs \<and> ToLower (r_Hostname r) = h" for m
  proof (induction rs arbitrary: m)
    case (Cons x rs)
    then show ?case by (fastforce simp: update_conv' split: if_splits)
  qed simp
  then show ?thesis using assms by (fastforce simp: buildRouteMap_def)
qed

lemma buildRouteMap_find:
  assumes "distinct (map (ToLower \<circ> r_Hostname) rs)" "r \<in> set rs"
  shows "map_of (buildRouteMap rs) (ToLower (r_Hostname r)) = Some r"
proof -
  have keep: "h \<notin> (ToLower \<circ> r_Hostname) ` set rs \<Longrightarrow>
      map_of (fold (\<lambda>r out. AList.update (ToLower (r_Hostname r)) r out) rs m) h = map_of m h" for h m rs
    by (induction rs arbitrary: m) (auto simp: update_conv')
  have "map_of (fold (\<lambda>r out. AList.update (ToLower (r_Hostname r)) r out) rs m) (ToLower (r_Hostname r)) = Some r" for m
    using assms
  proof (induction rs arbitrary: m)
    case (Cons x rs)
    show ?case
    proof (cases "x = r")
      case True
      then show ?thesis using Cons.prems(1) keep [of "ToLower (r_Hostname r)" rs] by (simp add: update_conv')
    next
      case False
      then show ?thesis using Cons by simp
    qed
  qed simp
  then show ?thesis by (simp add: buildRouteMap_def)
qed

text \<open>What the client sent is what was sniffed and what is left, whichever way the listener sniffs.\<close>

lemma sniff_replay:
  assumes "e \<noteq> ErrBufferFull" "sniff l chunks e = (Some (host, buffered), rest)"
  shows "buffered @ rest = concat chunks"
proof (cases "li_mode l = ModeHTTPHost")
  case True
  obtain r b rs where s: "SniffHost chunks e = (r, b, rs)" by (metis prod_cases3)
  then show ?thesis
    using assms(2) True SniffHost_stream [OF assms(1) s] by (cases r) (auto simp: sniff_def)
next
  case False
  then have m: "li_mode l = ModeTLSSNI" using assms(2) by (auto simp: sniff_def split: if_splits)
  obtain r rs where s: "SniffSNI (concat chunks) = (r, rs)" by fastforce
  then have "r = Inr (host, buffered)" "rs = rest"
    using assms(2) m False by (auto simp: sniff_def split: sum.splits)
  then show ?thesis using SniffSNI_replay s by blast
qed

section \<open>Observations on a run of the handler\<close>

definition lifecycle :: "in_peer \<Rightarrow> in_action list \<Rightarrow> in_action list" where
  "lifecycle p acts = filter (\<lambda>a. a \<in> {InTrack p, InUntrack p, InClose p}) acts"

fun upstream_part :: "in_action \<Rightarrow> bytes" where
  "upstream_part (WriteUpstream b) = b"
| "upstream_part (CopyToUpstream b) = b"
| "upstream_part _ = []"

definition upstream_bytes :: "in_action list \<Rightarrow> bytes" where
  "upstream_bytes acts = concat (map upstream_part acts)"



lemmas label_defs = InboundErrorSniff_def InboundErrorRoute_def InboundErrorDial_def InboundErrorCopy_def
  InDirectionIn_def InDirectionOut_def DirectionUp_def DirectionDown_def

lemmas observe_defs = lifecycle_def upstream_bytes_def label_defs

lemma dialUpstream_acts:
  "dialUpstream r = (ok, acts) \<Longrightarrow> acts = [] \<or> \<not> ok \<and> acts = [CloseLate]"
  by (auto simp: dialUpstream_def split: dial_race.splits if_splits)

text \<open>The four ways an http-host or tls-sni connection can go.\<close>

lemma in_handle_cases:
  obtains (unsniffed) rest where "sniff l (ie_chunks env) (ie_end env) = (None, rest)"
      "in_handle env l = [InTrack InClient, SetReadDeadline True, SetReadDeadline False,
         CountInError routeLabelUnknown InboundErrorSniff, InUntrack InClient, InClose InClient]"
  | (unrouted) host buffered rest where "sniff l (ie_chunks env) (ie_end env) = (Some (host, buffered), rest)"
      "map_of (routesSnapshot l) host = None"
      "in_handle env l = [InTrack InClient, SetReadDeadline True, SetReadDeadline False,
         CountInError routeLabelUnknown InboundErrorRoute, InUntrack InClient, InClose InClient]"
  | (routed) host buffered rest route acts tail where
      "sniff l (ie_chunks env) (ie_end env) = (Some (host, buffered), rest)"
      "map_of (routesSnapshot l) host = Some route"
      "in_handle env l = [InTrack InClient, SetReadDeadline True, SetReadDeadline False,
         CountInConn (r_Hostname route), DialVsock (r_CID route) (r_VsockPort route)] @ acts @ tail @
         [InUntrack InClient, InClose InClient]"
      "acts = [CountInError (r_Hostname route) InboundErrorDial] \<and> tail \<in> {[], [CloseLate]} \<or>
       acts = [] \<and> (\<exists>k. ie_replayed env = Some k \<and>
         tail = in_with_upstream [WriteUpstream (take k buffered), CountInError (r_Hostname route) InboundErrorCopy]) \<or>
       acts = [] \<and> ie_replayed env = None \<and>
         tail = in_with_upstream ([WriteUpstream buffered, CountInBytes (r_Hostname route) InDirectionIn (length buffered)] @
           proxy_actions env rest (r_Hostname route))"
proof -
  obtain s rest where s: "sniff l (ie_chunks env) (ie_end env) = (s, rest)" by fastforce
  show thesis
  proof (cases s)
    case None
    then show thesis using s by (intro unsniffed) (simp_all add: in_handle_def)
  next
    case (Some hb)
    obtain host buffered where hb: "hb = (host, buffered)" by fastforce
    show thesis
    proof (cases "map_of (routesSnapshot l) host")
      case None
      then show thesis using s Some hb by (intro unrouted) (simp_all add: in_handle_def)
    next
      case route: (Some route)
      let ?r = "ie_dial env (r_CID route) (r_VsockPort route)"
      obtain ok acts where d: "dialUpstream ?r = (ok, acts)" by fastforce
      show thesis
      proof (cases ok)
        case False
        then show thesis
          using s Some hb route d dialUpstream_acts [OF d]
          by (intro routed [of host buffered rest route "[CountInError (r_Hostname route) InboundErrorDial]" acts])
            (auto simp: in_handle_def Let_def)
      next
        case True
        then have "acts = []" using dialUpstream_acts [OF d] by simp
        then show thesis
          using True s Some hb route d
          by (cases "ie_replayed env"; intro routed [of host buffered rest route "[]"]) (auto simp: in_handle_def Let_def)
      qed
    qed
  qed
qed

lemma in_handleTCP_cases:
  obtains (undialled) acts where "acts \<in> {[], [CountTCPError TCPErrorDial], [CloseLate]}"
      "in_handleTCP env l = [InTrack InClient, CountTCPConn, DialVsock (li_targetCID l) (li_targetPort l)] @ acts @
         [InUntrack InClient, InClose InClient]"
  | (shuttled) moved down acts where "prefix moved (concat (ie_chunks env))" "acts \<in> {[], [CountTCPError TCPErrorCopy]}"
      "in_handleTCP env l = [InTrack InClient, CountTCPConn, DialVsock (li_targetCID l) (li_targetPort l)] @
         in_with_upstream ([CopyToUpstream moved, CopyToClient down, CountTCPBytes DirectionUp (length moved),
           CountTCPBytes DirectionDown down] @ acts) @ [InUntrack InClient, InClose InClient]"
proof -
  let ?r = "ie_dial env (li_targetCID l) (li_targetPort l)"
  obtain ok acts where d: "dialUpstream ?r = (ok, acts)" by fastforce
  show thesis
  proof (cases ok)
    case False
    let ?acts = "(if ie_shutdown env \<or> ?r \<in> {Cancelled True, Cancelled False} then [] else [CountTCPError TCPErrorDial]) @ acts"
    have "?acts \<in> {[], [CountTCPError TCPErrorDial], [CloseLate]}"
      using d by (auto simp: dialUpstream_def split: dial_race.splits if_splits)
    then show thesis
      by (rule undialled) (use False d in \<open>simp add: in_handleTCP_def Let_def\<close>)
  next
    case True
    then have a: "acts = []" using dialUpstream_acts [OF d] by simp
    obtain up down copyErrored where sh: "ie_shuttle env = (up, down, copyErrored)" by (metis prod_cases3)
    show thesis
      by (rule shuttled [of "take up (concat (ie_chunks env))" "if copyErrored then [CountTCPError TCPErrorCopy] else []" down])
        (use True a d sh in \<open>simp_all add: in_handleTCP_def take_is_prefix Let_def\<close>)
  qed
qed

section \<open>Routing\<close>

lemma routesSnapshot_new:
  "newHTTPListener il = Inr l \<Longrightarrow> routesSnapshot l = buildRouteMap (il_Routes il) \<and> li_mode l = il_Mode il"
  by (auto simp: newHTTPListener_def routesSnapshot_def split: if_splits)

lemma valid_listener:
  assumes "valid_config c" "il \<in> set (c_Inbound c)"
  obtains l where "newHTTPListener il = Inr l" "li_mode l \<noteq> modeTCPToVsock"
    "routesSnapshot l = buildRouteMap (il_Routes il)" "distinct (map (ToLower \<circ> r_Hostname) (il_Routes il))"
proof -
  have g: "inbound_good il" using assms by (auto simp: valid_config_def list_all_iff)
  then obtain l where l: "newHTTPListener il = Inr l" by (auto simp: inbound_good_def newHTTPListener_def)
  moreover have "li_mode l \<noteq> modeTCPToVsock"
    using routesSnapshot_new [OF l] g by (auto simp: inbound_good_def modeTCPToVsock_def)
  ultimately show thesis using that routesSnapshot_new [OF l] g by (simp add: inbound_good_def)
qed

definition dials :: "in_action list \<Rightarrow> (uint32 \<times> uint32) list" where
  "dials acts = concat (map (\<lambda>a. case a of DialVsock cid port \<Rightarrow> [(cid, port)] | _ \<Rightarrow> []) acts)"

lemma dials_handle:
  "dials (in_handle env l) =
     (case sniff l (ie_chunks env) (ie_end env) of
        (None, _) \<Rightarrow> []
      | (Some (host, _), _) \<Rightarrow>
          (case map_of (routesSnapshot l) host of None \<Rightarrow> [] | Some r \<Rightarrow> [(r_CID r, r_VsockPort r)]))"
  by (cases rule: in_handle_cases [of l env])
    (auto simp: dials_def in_with_upstream_def proxy_actions_def Let_def)

lemma upstream_bytes_append [simp]: "upstream_bytes (xs @ ys) = upstream_bytes xs @ upstream_bytes ys"
  by (simp add: upstream_bytes_def)

lemma upstream_bytes_Nil [simp]: "upstream_bytes [] = []"
  by (simp add: upstream_bytes_def)

lemma upstream_bytes_Cons [simp]: "upstream_bytes (x # xs) = upstream_part x @ upstream_bytes xs"
  by (simp add: upstream_bytes_def)

lemma upstream_bytes_handle:
  assumes "ie_end env \<noteq> ErrBufferFull"
  shows "prefix (upstream_bytes (in_handle env l)) (concat (ie_chunks env))"
proof (cases rule: in_handle_cases [of l env])
  case (routed host buffered rest route acts tail)
  have b: "buffered @ rest = concat (ie_chunks env)" using sniff_replay [OF assms routed(1)] .
  have "prefix (upstream_bytes tail) (buffered @ rest)"
    using routed(4)
    by (auto simp: in_with_upstream_def proxy_actions_def Let_def take_is_prefix intro: prefix_prefix)
  moreover have "upstream_bytes acts = []" using routed(4) by auto
  ultimately show ?thesis using routed(3) b by simp
qed simp_all

lemma upstream_bytes_handleTCP: "prefix (upstream_bytes (in_handleTCP env l)) (concat (ie_chunks env))"
proof (cases rule: in_handleTCP_cases [of env l])
  case (undialled acts)
  have "upstream_bytes acts = []" using undialled(1) by auto
  then show ?thesis using undialled(2) by simp
next
  case (shuttled moved down acts)
  have "upstream_bytes acts = []" using shuttled(2) by auto
  then show ?thesis using shuttled(1,3) by (simp add: in_with_upstream_def)
qed


section \<open>Properties\<close>

text \<open>
  C2. Routing: for every inbound listener of a valid configuration the server dials at most one vsock target per
  connection, and it is the target of a configured route exactly when the sniffed host is that route's hostname in
  lower case; whatever happens, the bytes the upstream receives are an initial part of what the client sent, sniffed
  bytes included.
\<close>

theorem inbound_routed:
  assumes "valid_config c" "il \<in> set (c_Inbound c)" "ie_end env \<noteq> ErrBufferFull"
  shows "\<exists>l. newHTTPListener il = Inr l \<and> length (dials (in_serve env l)) \<le> 1 \<and>
     (\<forall>cid port. (cid, port) \<in> set (dials (in_serve env l)) \<longleftrightarrow>
        (\<exists>r buffered rest. r \<in> set (il_Routes il) \<and> r_CID r = cid \<and> r_VsockPort r = port \<and>
           sniff l (ie_chunks env) (ie_end env) = (Some (ToLower (r_Hostname r), buffered), rest))) \<and>
     prefix (upstream_bytes (in_serve env l)) (concat (ie_chunks env))"
proof -
  obtain l where l: "newHTTPListener il = Inr l" "li_mode l \<noteq> modeTCPToVsock"
      "routesSnapshot l = buildRouteMap (il_Routes il)" "distinct (map (ToLower \<circ> r_Hostname) (il_Routes il))"
    using valid_listener [OF assms(1,2)] .
  obtain s rest where s: "sniff l (ie_chunks env) (ie_end env) = (s, rest)" by fastforce
  have "length (dials (in_handle env l)) \<le> 1 \<and>
     (\<forall>cid port. (cid, port) \<in> set (dials (in_handle env l)) \<longleftrightarrow>
        (\<exists>r buffered rest. r \<in> set (il_Routes il) \<and> r_CID r = cid \<and> r_VsockPort r = port \<and>
           sniff l (ie_chunks env) (ie_end env) = (Some (ToLower (r_Hostname r), buffered), rest)))"
    using buildRouteMap_find [OF l(4)] s
    by (auto simp: dials_handle l(3) split: option.splits dest: buildRouteMap_Some)
  then show ?thesis
    using l upstream_bytes_handle [OF assms(3), of l] by (intro exI [of _ l]) (simp add: in_serve_def)
qed



definition http_listener :: InboundListener where
  "http_listener = \<lparr>il_Bind = ''0.0.0.0'', il_Port = 80, il_Mode = ''http-host'',
     il_Routes = [\<lparr>r_Hostname = ''Api.test'', r_CID = 16, r_VsockPort = 8443\<rparr>]\<rparr>"

definition http_config :: Config where
  "http_config = sample_config\<lparr>c_Inbound := [http_listener]\<rparr>"

definition http_env :: in_env where
  "http_env = \<lparr>ie_chunks = [take 3 sample_request, drop 3 sample_request @ ''body''], ie_end = EOF, ie_shutdown = False,
     ie_dial = (\<lambda>_ _. Dialled True), ie_replayed = None, ie_up = (4, False), ie_down = (0, False), ie_shuttle = (0, 0, False)\<rparr>"

lemma http_config_valid: "valid_config http_config"
  using sample_config_valid
  by (simp add: http_config_def http_listener_def valid_config_def sample_config_def binds_of_def inbound_good_def route_good_def
      cids_of_def vsock_ports_of_def minCID_def vsock_port_bad_def vsockPortAny_def)

lemma http_chunks:
  "concat (ie_chunks http_env) = request_text ''GET'' ''/'' ''HTTP/1.1'' sample_fields @ ''body''"
  by (simp add: http_env_def sample_request_def [symmetric] append_assoc [symmetric] del: append_assoc)

lemma http_sniffs:
  assumes "li_mode l = ModeHTTPHost"
  obtains buffered rest where "sniff l (ie_chunks http_env) (ie_end http_env) = (Some (ToLower ''Api.test'', buffered), rest)"
proof -
  have "fst (SniffHost (ie_chunks http_env) EOF) = Inr (ToLower (stripPort (TrimSpace ''Api.test:80'')))"
    using sample_request_good(2) sample_host
    by (intro SniffHost_request [OF _ http_chunks sample_request_good(1) _ sample_value]) (simp_all add: sample_request_def)
  then obtain b rs where "SniffHost (ie_chunks http_env) EOF = (Inr (ToLower ''Api.test''), b, rs)"
    using sample_host by (cases "SniffHost (ie_chunks http_env) EOF") auto
  moreover have "ie_end http_env = EOF" by (simp add: http_env_def)
  ultimately show thesis using assms by (intro that [of b "concat rs"]) (simp add: sniff_def)
qed

theorem inbound_routed_witness:
  "valid_config http_config \<and>
   (\<exists>l. newHTTPListener http_listener = Inr l \<and> (16, 8443) \<in> set (dials (in_serve http_env l)) \<and>
      length (dials (in_serve http_env l)) \<le> 1 \<and>
      prefix (upstream_bytes (in_serve http_env l)) (sample_request @ ''body''))"
proof -
  have "http_listener \<in> set (c_Inbound http_config)" "ie_end http_env \<noteq> ErrBufferFull"
    by (simp_all add: http_config_def http_env_def)
  then obtain l where l: "newHTTPListener http_listener = Inr l" "length (dials (in_serve http_env l)) \<le> 1"
      "\<forall>cid port. (cid, port) \<in> set (dials (in_serve http_env l)) \<longleftrightarrow>
        (\<exists>r buffered rest. r \<in> set (il_Routes http_listener) \<and> r_CID r = cid \<and> r_VsockPort r = port \<and>
           sniff l (ie_chunks http_env) (ie_end http_env) = (Some (ToLower (r_Hostname r), buffered), rest))"
      "prefix (upstream_bytes (in_serve http_env l)) (concat (ie_chunks http_env))"
    using inbound_routed [OF http_config_valid] by blast
  have "li_mode l = ModeHTTPHost" using routesSnapshot_new [OF l(1)] by (simp add: http_listener_def)
  then obtain b rest where "sniff l (ie_chunks http_env) (ie_end http_env) = (Some (ToLower ''Api.test'', b), rest)"
    by (rule http_sniffs)
  moreover have "il_Routes http_listener = [\<lparr>r_Hostname = ''Api.test'', r_CID = 16, r_VsockPort = 8443\<rparr>]"
    by (simp add: http_listener_def)
  ultimately have "(16, 8443) \<in> set (dials (in_serve http_env l))" using l(3) by auto
  then show ?thesis
    using http_config_valid l(1,2,4) http_chunks by (intro conjI exI [of _ l]) (simp_all add: sample_request_def)
qed


end
