(* ===== verification/Outbound_Conn.thy ===== *)
theory Outbound_Conn
  imports Go_Http Allowlist
begin

text \<open>
  \<open>internal/outbound/server.go\<close>: what an HTTP-proxy listener does with one connection. A handler returns the
  sequence of its visible actions (dials, writes, metric updates, closes) in the order the code performs
  them, deferred calls included. What the network answers is the argument \<open>env\<close>: the outcome of
  \<open>http.ReadRequest\<close>, whether a dial succeeds, how many bytes a copy moves; the theorems hold for all of them.
\<close>

section \<open>Actions\<close>

datatype peer = Client | Upstream

datatype out_action =
    Track peer
  | Untrack peer
  | CloseConn peer
  | CountConn bytes bytes
  | CountBytes bytes bytes nat
  | WriteClient bytes
  | Dial bytes
  | WriteRequest Request
  | WriteResponse Response
  | CopyUp bytes
  | CopyDown nat
  | HalfClose peer

record out_env =
  oe_request :: "Request option"
  oe_dial :: "bytes \<Rightarrow> bool"
  oe_established :: bool
  oe_buffered :: bytes
  oe_rest :: bytes
  oe_copyUp :: nat
  oe_copyDown :: nat
  oe_reqWrite :: "nat \<times> bool"
  oe_response :: "Response option"
  oe_respWrite :: "nat \<times> bool"

definition OutboundResultAllowed :: bytes where "OutboundResultAllowed = ''allowed''"
definition OutboundResultDenied :: bytes where "OutboundResultDenied = ''denied''"
definition OutboundResultError :: bytes where "OutboundResultError = ''error''"
definition CIDLabelUnauthorized :: bytes where "CIDLabelUnauthorized = ''unauthorized''"
definition DirectionIn :: bytes where "DirectionIn = ''in''"
definition DirectionOut :: bytes where "DirectionOut = ''out''"

definition FormatCID :: "uint32 \<Rightarrow> bytes" where
  "FormatCID cid = FormatUint cid"

abbreviation crlf :: bytes where "crlf \<equiv> [CHR 0x0D, CHR 0x0A]"

definition writeStatusLine :: "int \<Rightarrow> bytes \<Rightarrow> out_action" where
  "writeStatusLine code txt =
     WriteClient (''HTTP/1.1 '' @ Itoa code @ '' '' @ txt @ crlf @ ''Connection: close'' @ crlf
                  @ ''Content-Length: 0'' @ crlf @ crlf)"

definition established :: bytes where
  "established = ''HTTP/1.1 200 Connection Established'' @ crlf @ crlf"

section \<open>Headers of one hop\<close>

definition hopByHop :: "bytes list" where
  "hopByHop = [''Proxy-Connection'', ''Proxy-Authenticate'', ''Proxy-Authorization'', ''Keep-Alive'', ''TE'',
     ''Trailer'', ''Upgrade'']"

definition del_named :: "bytes \<Rightarrow> Header \<Rightarrow> Header" where
  "del_named f h = (let name = TrimSpace f in if name \<noteq> [] then Header_Del h name else h)"

definition stripHopByHop :: "Header \<Rightarrow> Header" where
  "stripHopByHop h =
     (let h1 = fold (\<lambda>v. fold del_named (Split v (CHR '',''))) (Header_Values h ''Connection'') h;
          h2 = Header_Del h1 ''Connection''
      in fold (\<lambda>name h. Header_Del h name) hopByHop h2)"

section \<open>The handlers\<close>

text \<open>\<open>mergeBuffered\<close>: the bytes the tunnel reads from the client.\<close>

definition mergeBuffered :: "bytes \<Rightarrow> bytes \<Rightarrow> bytes" where
  "mergeBuffered buf rest = (if length buf = 0 then rest else buf @ rest)"

text \<open>The two copies of \<open>tunnel\<close> run concurrently; their actions are listed one direction after the other.\<close>

definition tunnel :: "out_env \<Rightarrow> bytes \<Rightarrow> bytes \<Rightarrow> out_action list" where
  "tunnel env clientReader cidLabel =
     (let up = take (oe_copyUp env) clientReader in
      [CopyUp up, CountBytes cidLabel DirectionOut (length up), HalfClose Upstream,
       CopyDown (oe_copyDown env), CountBytes cidLabel DirectionIn (oe_copyDown env), HalfClose Client])"

text \<open>What is deferred after a successful dial.\<close>

definition with_upstream :: "out_action list \<Rightarrow> out_action list" where
  "with_upstream acts = [Track Upstream] @ acts @ [Untrack Upstream, CloseConn Upstream]"

definition bad_request :: "bytes \<Rightarrow> out_action list" where
  "bad_request cidLabel = [writeStatusLine 400 ''Bad Request'', CountConn cidLabel OutboundResultError]"

definition handleConnect :: "out_env \<Rightarrow> Request \<Rightarrow> Matcher \<Rightarrow> bytes \<Rightarrow> out_action list" where
  "handleConnect env req matcher cidLabel =
     (case SplitHostPort (u_Host (rq_URL req)) of
        Inl _ \<Rightarrow> bad_request cidLabel
      | Inr (host, portStr) \<Rightarrow>
          (case Atoi portStr of
             Inl _ \<Rightarrow> bad_request cidLabel
           | Inr port \<Rightarrow>
               if port < 1 \<or> port > 65535 then bad_request cidLabel
               else if \<not> Allow (Some matcher) host port then
                 [writeStatusLine 403 ''Forbidden'', CountConn cidLabel OutboundResultDenied]
               else
                 let a = JoinHostPort host portStr in
                 if \<not> oe_dial env a then
                   [Dial a, writeStatusLine 502 ''Bad Gateway'', CountConn cidLabel OutboundResultError]
                 else
                   Dial a # with_upstream
                     (WriteClient established #
                      (if \<not> oe_established env then [CountConn cidLabel OutboundResultError]
                       else CountConn cidLabel OutboundResultAllowed #
                              tunnel env (mergeBuffered (oe_buffered env) (oe_rest env)) cidLabel))))"

text \<open>The request as it goes out: origin form, the URL's own host, no hop-by-hop headers, one request per connection.\<close>

definition origin_form :: "Request \<Rightarrow> Request" where
  "origin_form req =
     (let u = rq_URL req in
      req\<lparr>rq_Host := u_Host u,
          rq_URL := \<lparr>u_Scheme = [], u_Opaque = [], u_Host = [], u_Path = u_Path u, u_RawPath = u_RawPath u,
                     u_RawQuery = u_RawQuery u, u_Fragment = []\<rparr>,
          rq_RequestURI := [], rq_Header := stripHopByHop (rq_Header req), rq_Close := True\<rparr>)"

definition handleProxy :: "out_env \<Rightarrow> Request \<Rightarrow> Matcher \<Rightarrow> bytes \<Rightarrow> out_action list" where
  "handleProxy env req matcher cidLabel =
     (if u_Scheme (rq_URL req) \<noteq> ''http'' then bad_request cidLabel
      else
        let host = Hostname (rq_URL req);
            portStr = (if Port (rq_URL req) = [] then ''80'' else Port (rq_URL req))
        in case Atoi portStr of
             Inl _ \<Rightarrow> bad_request cidLabel
           | Inr port \<Rightarrow>
               if port < 1 \<or> port > 65535 then bad_request cidLabel
               else if \<not> Allow (Some matcher) host port then
                 [writeStatusLine 403 ''Forbidden'', CountConn cidLabel OutboundResultDenied]
               else
                 let a = JoinHostPort host portStr in
                 if \<not> oe_dial env a then
                   [Dial a, writeStatusLine 502 ''Bad Gateway'', CountConn cidLabel OutboundResultError]
                 else
                   Dial a # with_upstream
                     (case oe_reqWrite env of (n, ok) \<Rightarrow>
                        WriteRequest (origin_form req) #
                        (if \<not> ok then [CountConn cidLabel OutboundResultError, CountBytes cidLabel DirectionOut n]
                         else
                           CountBytes cidLabel DirectionOut n #
                           (case oe_response env of
                              None \<Rightarrow> [CountConn cidLabel OutboundResultError]
                            | Some resp \<Rightarrow>
                                (case oe_respWrite env of (k, wok) \<Rightarrow>
                                   [WriteResponse (resp\<lparr>rs_Header := stripHopByHop (rs_Header resp), rs_Close := True\<rparr>),
                                    CountBytes cidLabel DirectionIn k,
                                    CountConn cidLabel (if wok then OutboundResultAllowed else OutboundResultError)])))))"

definition handle :: "out_env \<Rightarrow> (uint32 \<times> Matcher) list \<Rightarrow> uint32 \<Rightarrow> out_action list" where
  "handle env matchers cid =
     [Track Client] @
     (case map_of matchers cid of
        None \<Rightarrow> [CountConn CIDLabelUnauthorized OutboundResultDenied]
      | Some matcher \<Rightarrow>
          let cidLabel = FormatCID cid in
          (case oe_request env of
             None \<Rightarrow> bad_request cidLabel
           | Some req \<Rightarrow>
               if rq_Method req = ''CONNECT'' then handleConnect env req matcher cidLabel
               else if u_Scheme (rq_URL req) \<noteq> [] \<and> u_Host (rq_URL req) \<noteq> []
                 then handleProxy env req matcher cidLabel
               else bad_request cidLabel)) @
     [Untrack Client, CloseConn Client]"

section \<open>Lemmas\<close>

lemmas action_defs = bad_request_def with_upstream_def tunnel_def writeStatusLine_def

lemma fold_Header_Del: "fold (\<lambda>n h. Header_Del h n) ns h = filter (\<lambda>(k, _). k \<notin> CanonicalHeaderKey ` set ns) h"
  by (induction ns arbitrary: h) (auto simp: Header_Del_filter case_prod_unfold intro!: filter_cong)

text \<open>The headers one \<open>Connection\<close> value names.\<close>

definition named_in :: "bytes \<Rightarrow> bytes set" where
  "named_in v = {CanonicalHeaderKey (TrimSpace f) | f. f \<in> set (Split v (CHR '','')) \<and> TrimSpace f \<noteq> []}"

lemma fold_del_named:
  "fold del_named fs h = filter (\<lambda>(k, _). k \<notin> {CanonicalHeaderKey (TrimSpace f) | f. f \<in> set fs \<and> TrimSpace f \<noteq> []}) h"
  by (induction fs arbitrary: h) (auto simp: del_named_def Let_def Header_Del_filter case_prod_unfold intro!: filter_cong)

lemma fold_del_values:
  "fold (\<lambda>v. fold del_named (Split v (CHR '',''))) vs h = filter (\<lambda>(k, _). k \<notin> (\<Union>v \<in> set vs. named_in v)) h"
  by (induction vs arbitrary: h) (auto simp: fold_del_named named_in_def case_prod_unfold intro!: filter_cong)

definition hop_keys :: "Header \<Rightarrow> bytes set" where
  "hop_keys h = (\<Union>v \<in> set (Header_Values h ''Connection''). named_in v)
     \<union> insert (CanonicalHeaderKey ''Connection'') (CanonicalHeaderKey ` set hopByHop)"

lemma stripHopByHop_filter: "stripHopByHop h = filter (\<lambda>(k, _). k \<notin> hop_keys h) h"
  unfolding stripHopByHop_def Let_def fold_del_values fold_Header_Del
  by (auto simp: Header_Del_filter hop_keys_def case_prod_unfold intro!: filter_cong)

definition is_dial :: "out_action \<Rightarrow> bool" where
  "is_dial a = (case a of Dial _ \<Rightarrow> True | _ \<Rightarrow> False)"

definition is_count :: "out_action \<Rightarrow> bool" where
  "is_count a = (case a of CountConn _ _ \<Rightarrow> True | _ \<Rightarrow> False)"

text \<open>The four ways through either handler: a bad request, a denied destination, a failed dial, a served one.\<close>

definition denied :: "bytes \<Rightarrow> out_action list" where
  "denied l = [writeStatusLine 403 ''Forbidden'', CountConn l OutboundResultDenied]"

definition dial_failed :: "bytes \<Rightarrow> bytes \<Rightarrow> out_action list" where
  "dial_failed a l = [Dial a, writeStatusLine 502 ''Bad Gateway'', CountConn l OutboundResultError]"

definition served :: "out_action list \<Rightarrow> bool" where
  "served acts \<longleftrightarrow> length (filter is_count acts) = 1 \<and> (\<forall>a \<in> set acts. \<not> is_dial a \<and>
     (\<forall>p. a \<noteq> Track p \<and> a \<noteq> Untrack p \<and> a \<noteq> CloseConn p))"

definition dialled :: "out_env \<Rightarrow> out_action \<Rightarrow> bool" where
  "dialled env a = (case a of Dial x \<Rightarrow> oe_dial env x | _ \<Rightarrow> False)"

lemma served_facts:
  assumes "served body"
  shows "Dial x \<notin> set body" "count_list body (Track p) = 0" "count_list body (Untrack p) = 0"
    "count_list body (CloseConn p) = 0" "filter (dialled env) body = []" "length (filter is_count body) = 1"
proof -
  show d: "Dial x \<notin> set body" for x using assms by (auto simp: served_def is_dial_def)
  show "count_list body (Track p) = 0" "count_list body (Untrack p) = 0" "count_list body (CloseConn p) = 0"
    "length (filter is_count body) = 1"
    using assms unfolding served_def count_list_0_iff by blast+
  have "\<exists>x. a = Dial x" if "dialled env a" for a using that by (cases a) (simp_all add: dialled_def)
  then have "\<not> dialled env a" if "a \<in> set body" for a using that d by blast
  then show "filter (dialled env) body = []" by (simp add: filter_empty_conv)
qed

definition through :: "out_env \<Rightarrow> Matcher \<Rightarrow> bytes \<Rightarrow> out_action list \<Rightarrow> bool" where
  "through env m l acts \<longleftrightarrow> acts = bad_request l \<or> acts = denied l \<or>
     (\<exists>host portStr port a. a = JoinHostPort host portStr \<and> Atoi portStr = Inr port \<and> Allow (Some m) host port \<and>
        (\<not> oe_dial env a \<and> acts = dial_failed a l \<or>
         oe_dial env a \<and> (\<exists>body. served body \<and> acts = Dial a # with_upstream body)))"

lemma throughI:
  assumes "Atoi portStr = Inr port" "Allow (Some m) host port" "served body"
  shows "through env m l (let a = JoinHostPort host portStr in
     if \<not> oe_dial env a then [Dial a, writeStatusLine 502 ''Bad Gateway'', CountConn l OutboundResultError]
     else Dial a # with_upstream body)"
  unfolding through_def dial_failed_def Let_def using assms by (cases "oe_dial env (JoinHostPort host portStr)") auto

lemma handleConnect_through: "through env m l (handleConnect env req m l)"
proof (cases "SplitHostPort (u_Host (rq_URL req))")
  case (Inl e)
  then show ?thesis by (simp add: handleConnect_def through_def)
next
  case (Inr hp)
  obtain host portStr where hp: "hp = (host, portStr)" by fastforce
  show ?thesis
  proof (cases "Atoi portStr")
    case p: (Inr port)
    have "served (WriteClient established # (if \<not> oe_established env then [CountConn l OutboundResultError]
        else CountConn l OutboundResultAllowed # tunnel env (mergeBuffered (oe_buffered env) (oe_rest env)) l))"
      by (auto simp: served_def tunnel_def is_count_def is_dial_def Let_def)
    from throughI [OF p _ this, of m host] show ?thesis
      using Inr hp p by (auto simp: handleConnect_def through_def denied_def)
  qed (simp add: handleConnect_def Inr hp through_def)
qed

lemma handleProxy_through: "through env m l (handleProxy env req m l)"
proof (cases "u_Scheme (rq_URL req) = ''http''")
  case True
  define portStr where "portStr = (if Port (rq_URL req) = [] then ''80'' else Port (rq_URL req))"
  show ?thesis
  proof (cases "Atoi portStr")
    case p: (Inr port)
    let ?body = "case oe_reqWrite env of (n, ok) \<Rightarrow>
      WriteRequest (origin_form req) #
      (if \<not> ok then [CountConn l OutboundResultError, CountBytes l DirectionOut n]
       else CountBytes l DirectionOut n #
         (case oe_response env of
            None \<Rightarrow> [CountConn l OutboundResultError]
          | Some resp \<Rightarrow>
              (case oe_respWrite env of (k, wok) \<Rightarrow>
                 [WriteResponse (resp\<lparr>rs_Header := stripHopByHop (rs_Header resp), rs_Close := True\<rparr>),
                  CountBytes l DirectionIn k,
                  CountConn l (if wok then OutboundResultAllowed else OutboundResultError)])))"
    have "served ?body"
      by (auto simp: served_def is_count_def is_dial_def split: prod.split option.split)
    from throughI [OF p _ this, of m "Hostname (rq_URL req)"] show ?thesis
      using True p unfolding handleProxy_def portStr_def [symmetric] Let_def
      by (auto simp: through_def denied_def)
  qed (simp add: handleProxy_def True through_def flip: portStr_def)
qed (simp add: handleProxy_def through_def)

text \<open>So every authorised connection goes one of these ways.\<close>

lemma handle_through:
  "map_of ms cid = Some m \<Longrightarrow> \<exists>acts. through env m (FormatCID cid) acts \<and>
     handle env ms cid = [Track Client] @ acts @ [Untrack Client, CloseConn Client]"
  using handleConnect_through handleProxy_through
  by (auto simp: handle_def Let_def through_def split: option.split)

lemma handle_dial:
  assumes "Dial a \<in> set (handle env ms cid)"
  obtains m host portStr port where "map_of ms cid = Some m" "a = JoinHostPort host portStr" "Atoi portStr = Inr port"
    "Allow (Some m) host port"
proof (cases "map_of ms cid")
  case None
  then show ?thesis using assms by (simp add: handle_def)
next
  case (Some m)
  obtain acts where "through env m (FormatCID cid) acts" "Dial a \<in> set acts"
    using handle_through [OF Some, of env] assms by auto
  then obtain host portStr port where "a = JoinHostPort host portStr" "Atoi portStr = Inr port" "Allow (Some m) host port"
    by (auto simp: through_def action_defs denied_def dial_failed_def served_facts(1))
  then show ?thesis using that Some by blast
qed

section \<open>Properties of the forward proxy\<close>

text \<open>
  Hop-by-hop headers: \<open>stripHopByHop\<close> removes exactly the headers named in a \<open>Connection\<close> value (trimmed and
  in canonical spelling), \<open>Connection\<close> itself and the fixed list, and keeps every other header with its
  values and in order.
\<close>

theorem stripHopByHop_exact: "stripHopByHop h = filter (\<lambda>(k, _). k \<notin> hop_keys h) h"
  by (rule stripHopByHop_filter)

text \<open>
  C21. Every connection to the forward proxy is counted exactly once in \<open>outbound_connections_total\<close>, on every
  path, and every connection it opens is untracked and closed again: the accepted one always, the upstream
  one if and only if its dial succeeded.
\<close>

theorem handle_accounts:
  "length (filter is_count (handle env ms cid)) = 1 \<and>
   (\<forall>p. count_list (handle env ms cid) (CloseConn p) = count_list (handle env ms cid) (Track p) \<and>
        count_list (handle env ms cid) (Untrack p) = count_list (handle env ms cid) (Track p)) \<and>
   count_list (handle env ms cid) (Track Client) = 1 \<and>
   count_list (handle env ms cid) (Track Upstream) = length (filter (dialled env) (handle env ms cid))"
proof (cases "map_of ms cid")
  case None
  then show ?thesis by (auto simp: handle_def is_count_def dialled_def)
next
  case (Some m)
  obtain acts where h: "through env m (FormatCID cid) acts"
      "handle env ms cid = [Track Client] @ acts @ [Untrack Client, CloseConn Client]"
    using handle_through [OF Some] by blast
  have p: "p = Client \<or> p = Upstream" for p by (cases p) auto
  from h(1) consider "acts = bad_request (FormatCID cid)" | "acts = denied (FormatCID cid)"
    | a where "\<not> oe_dial env a" "acts = dial_failed a (FormatCID cid)"
    | a body where "oe_dial env a" "served body" "acts = Dial a # with_upstream body"
    unfolding through_def by blast
  then show ?thesis
    unfolding h(2)
  proof cases
    case (4 a body)
    note sf = served_facts(2-6) [OF 4(2)]
    show "length (filter is_count ([Track Client] @ acts @ [Untrack Client, CloseConn Client])) = 1 \<and>
       (\<forall>p. count_list ([Track Client] @ acts @ [Untrack Client, CloseConn Client]) (CloseConn p) =
            count_list ([Track Client] @ acts @ [Untrack Client, CloseConn Client]) (Track p) \<and>
          count_list ([Track Client] @ acts @ [Untrack Client, CloseConn Client]) (Untrack p) =
            count_list ([Track Client] @ acts @ [Untrack Client, CloseConn Client]) (Track p)) \<and>
       count_list ([Track Client] @ acts @ [Untrack Client, CloseConn Client]) (Track Client) = 1 \<and>
       count_list ([Track Client] @ acts @ [Untrack Client, CloseConn Client]) (Track Upstream) =
         length (filter (dialled env) ([Track Client] @ acts @ [Untrack Client, CloseConn Client]))"
      using 4(1) by (simp add: 4(3) with_upstream_def sf is_count_def dialled_def [of env "Dial a"] dialled_def [of env "Track _"]
          dialled_def [of env "Untrack _"] dialled_def [of env "CloseConn _"])
  qed (auto simp: bad_request_def denied_def dial_failed_def writeStatusLine_def is_count_def dialled_def)
qed

end
