(* ===== verification/Relay_Sink.thy ===== *)
theory Relay_Sink
  imports Prelude
begin

text \<open>
  The reference-counted sink of \<open>logrelay.go\<close> under concurrency: connection handlers load the listener's
  current state, try to acquire its sink, relay and release, while reloads swap the sink and teardown
  drops it. A step is an atomic load, an acquire, or a release (the critical section of \<open>refSink.mu\<close> and the \<open>Close\<close> that
  follows it); a swap and the release of the old sink after it are one step as well. The two merged pairs are coarser than
  the code, which can be interrupted between their halves: the old sink may be closed later than the model says, when the
  interrupted goroutine resumes. Other goroutines see no more of that than a sink which is no longer offered, or whose count
  is zero and which \<open>acquire\<close> refuses.
\<close>

section \<open>The reference count\<close>

text \<open>A destination: an opened file or the process's standard output.\<close>

datatype sink = FileSink bytes | StdoutSink

record refSink =
  rf_sink :: sink
  rf_n :: int

definition newRefSink :: "sink \<Rightarrow> refSink" where
  "newRefSink s = \<lparr>rf_sink = s, rf_n = 1\<rparr>"

definition acquire :: "refSink \<Rightarrow> sink option \<times> refSink" where
  "acquire r = (if rf_n r = 0 then (None, r) else (Some (rf_sink r), r\<lparr>rf_n := rf_n r + 1\<rparr>))"

text \<open>The second component says whether the underlying sink is closed.\<close>

definition release :: "refSink \<Rightarrow> refSink \<times> bool" where
  "release r = (let r' = r\<lparr>rf_n := rf_n r - 1\<rparr> in (r', rf_n r' = 0))"

section \<open>Handlers and reloads\<close>

datatype handler_pc = Idle | Loaded nat | Holding nat

text \<open>\<open>sk_ref\<close> maps the addresses of the \<open>refSink\<close>s allocated so far, \<open>sk_closes\<close> counts the \<open>Close\<close> calls on each.\<close>

record sink_state =
  sk_ref :: "nat \<Rightarrow> refSink"
  sk_fresh :: nat
  sk_closes :: "nat \<Rightarrow> nat"
  sk_cur :: "nat option"
  sk_pc :: "nat \<Rightarrow> handler_pc"

definition do_release :: "nat \<Rightarrow> sink_state \<Rightarrow> sink_state" where
  "do_release a s =
     (case release (sk_ref s a) of (r, closed) \<Rightarrow>
        s\<lparr>sk_ref := (sk_ref s)(a := r),
          sk_closes := (if closed then (sk_closes s)(a := Suc (sk_closes s a)) else sk_closes s)\<rparr>)"

text \<open>\<open>l.relay.Load()\<close> of handler \<open>h\<close>; without a state the handler returns.\<close>

definition load :: "nat \<Rightarrow> sink_state \<Rightarrow> sink_state" where
  "load h s = (case sk_cur s of None \<Rightarrow> s | Some a \<Rightarrow> s\<lparr>sk_pc := (sk_pc s)(h := Loaded a)\<rparr>)"

text \<open>\<open>st.sink.acquire()\<close>; on failure the handler goes back to the load.\<close>

definition try_acquire :: "nat \<Rightarrow> nat \<Rightarrow> sink_state \<Rightarrow> sink_state" where
  "try_acquire h a s =
     (case acquire (sk_ref s a) of
        (None, _) \<Rightarrow> s\<lparr>sk_pc := (sk_pc s)(h := Idle)\<rparr>
      | (Some _, r) \<Rightarrow> s\<lparr>sk_ref := (sk_ref s)(a := r), sk_pc := (sk_pc s)(h := Holding a)\<rparr>)"

text \<open>The deferred \<open>st.sink.release()\<close> when the handler returns.\<close>

definition finish :: "nat \<Rightarrow> nat \<Rightarrow> sink_state \<Rightarrow> sink_state" where
  "finish h a s = do_release a (s\<lparr>sk_pc := (sk_pc s)(h := Idle)\<rparr>)"

text \<open>\<open>CommitApply\<close> on a log_relay listener: swap in a fresh sink, then release the listener's reference to the old one.\<close>

definition swap_sink :: "sink \<Rightarrow> sink_state \<Rightarrow> sink_state" where
  "swap_sink fd s =
     (let s1 = s\<lparr>sk_ref := (sk_ref s)(sk_fresh s := newRefSink fd), sk_fresh := Suc (sk_fresh s), sk_cur := Some (sk_fresh s)\<rparr>
      in case sk_cur s of None \<Rightarrow> s1 | Some a \<Rightarrow> do_release a s1)"

definition closeSink :: "sink_state \<Rightarrow> sink_state" where
  "closeSink s = (case sk_cur s of None \<Rightarrow> s | Some a \<Rightarrow> do_release a (s\<lparr>sk_cur := None\<rparr>))"

inductive sink_step :: "sink_state \<Rightarrow> sink_state \<Rightarrow> bool" where
  sink_load [sys_intros]: "sk_pc s h = Idle \<Longrightarrow> sink_step s (load h s)"
| sink_acquire [sys_intros]: "sk_pc s h = Loaded a \<Longrightarrow> sink_step s (try_acquire h a s)"
| sink_finish [sys_intros]: "sk_pc s h = Holding a \<Longrightarrow> sink_step s (finish h a s)"
| sink_swap [sys_intros]: "sink_step s (swap_sink fd s)"
| sink_close [sys_intros]: "sink_step s (closeSink s)"

inductive_cases sink_stepE: "sink_step s t"

text \<open>A listener just built by \<open>newLogRelayListener\<close>: one sink, held by the listener, no connection yet.\<close>

definition sink_start :: "sink_state \<Rightarrow> bool" where
  "sink_start s \<longleftrightarrow> (\<exists>fd. sk_ref s 0 = newRefSink fd) \<and> sk_fresh s = 1 \<and> sk_closes s = (\<lambda>_. 0) \<and>
     sk_cur s = Some 0 \<and> sk_pc s = (\<lambda>_. Idle)"

section \<open>The invariant\<close>

definition holders :: "sink_state \<Rightarrow> nat \<Rightarrow> nat set" where
  "holders s a = {h. sk_pc s h = Holding a}"

definition refs :: "sink_state \<Rightarrow> nat \<Rightarrow> nat" where
  "refs s a = card (holders s a) + (if sk_cur s = Some a then 1 else 0)"

text \<open>The count of every sink is the number of its references and it is closed, once, when there is none.\<close>

definition counted :: "sink_state \<Rightarrow> nat \<Rightarrow> bool" where
  "counted s a \<longleftrightarrow> rf_n (sk_ref s a) = int (refs s a) \<and> sk_closes s a = (if refs s a = 0 then 1 else 0)"

definition sink_shape :: "sink_state \<Rightarrow> bool" where
  "sink_shape s \<longleftrightarrow> finite {h. sk_pc s h \<noteq> Idle} \<and>
     (\<forall>a. sk_cur s = Some a \<longrightarrow> a < sk_fresh s) \<and>
     (\<forall>h a. sk_pc s h = Loaded a \<or> sk_pc s h = Holding a \<longrightarrow> a < sk_fresh s) \<and>
     (\<forall>a \<ge> sk_fresh s. sk_closes s a = 0)"

definition sink_inv :: "sink_state \<Rightarrow> bool" where
  "sink_inv s \<longleftrightarrow> sink_shape s \<and> (\<forall>a < sk_fresh s. counted s a)"

lemma finite_holders: "sink_shape s \<Longrightarrow> finite (holders s a)"
  unfolding sink_shape_def holders_def by (elim conjE) (rule rev_finite_subset, auto)

lemma do_release_inv:
  assumes "sink_shape s" "a < sk_fresh s" "\<forall>b < sk_fresh s. b \<noteq> a \<longrightarrow> counted s b"
    "rf_n (sk_ref s a) = int (refs s a) + 1" "sk_closes s a = 0"
  shows "sink_inv (do_release a s)"
proof -
  let ?t = "do_release a s"
  have t: "sk_fresh ?t = sk_fresh s" "sk_cur ?t = sk_cur s" "sk_pc ?t = sk_pc s" "rf_n (sk_ref ?t a) = int (refs s a)"
    "sk_closes ?t a = (if refs s a = 0 then 1 else 0)" "b \<noteq> a \<Longrightarrow> sk_ref ?t b = sk_ref s b" "b \<noteq> a \<Longrightarrow> sk_closes ?t b = sk_closes s b" for b
    using assms(4,5) by (auto simp: do_release_def release_def Let_def)
  have r: "refs ?t b = refs s b" for b by (simp add: refs_def holders_def t)
  have "counted ?t b" if "b < sk_fresh s" for b
    using assms(3) that t r by (cases "b = a") (auto simp: counted_def)
  moreover have "sink_shape ?t" using assms(1,2) t by (auto simp: sink_shape_def)
  ultimately show ?thesis by (simp add: sink_inv_def t(1))
qed

lemma finite_pc: "finite {x. sk_pc s x \<noteq> Idle} \<Longrightarrow> finite {x. ((sk_pc s)(h := p)) x \<noteq> Idle}"
  by (rule rev_finite_subset [of "insert h {x. sk_pc s x \<noteq> Idle}"]) auto

text \<open>A handler that holds nothing may move between the load and the acquire.\<close>

lemma set_pc_inv:
  assumes "sink_inv s" "\<forall>a. sk_pc s h \<noteq> Holding a" "p = Idle \<or> (\<exists>a < sk_fresh s. p = Loaded a)"
  shows "sink_inv (s\<lparr>sk_pc := (sk_pc s)(h := p)\<rparr>)" (is "sink_inv ?t")
proof -
  have "holders ?t b = holders s b" for b using assms(2,3) by (auto simp: holders_def)
  then have "counted ?t b = counted s b" for b by (simp add: counted_def refs_def)
  moreover have "sink_shape ?t" using assms(1,3) finite_pc [of s h p] by (auto simp: sink_inv_def sink_shape_def)
  ultimately show ?thesis using assms(1) by (simp add: sink_inv_def)
qed

lemma sink_inv_step:
  assumes inv: "sink_inv s" and "sink_step s t"
  shows "sink_inv t"
  using assms(2)
proof cases
  case (sink_load h)
  show ?thesis
  proof (cases "sk_cur s")
    case None
    then show ?thesis using inv sink_load by (simp add: load_def)
  next
    case (Some a)
    then have "a < sk_fresh s" using inv by (simp add: sink_inv_def sink_shape_def)
    then show ?thesis using set_pc_inv [OF inv, of h "Loaded a"] sink_load Some by (simp add: load_def)
  qed
next
  case (sink_acquire h a)
  have a: "a < sk_fresh s" "counted s a" "finite (holders s a)"
    using inv sink_acquire(2) finite_holders by (auto simp: sink_inv_def sink_shape_def)
  show ?thesis
  proof (cases "refs s a = 0")
    case True
    then have "t = s\<lparr>sk_pc := (sk_pc s)(h := Idle)\<rparr>"
      using sink_acquire a(2) by (simp add: try_acquire_def acquire_def counted_def)
    then show ?thesis using set_pc_inv [OF inv, of h Idle] sink_acquire(2) by simp
  next
    case False
    have t: "sk_pc t = (sk_pc s)(h := Holding a)" "sk_ref t = (sk_ref s)(a := (sk_ref s a)\<lparr>rf_n := rf_n (sk_ref s a) + 1\<rparr>)"
      "sk_cur t = sk_cur s" "sk_closes t = sk_closes s" "sk_fresh t = sk_fresh s"
      using sink_acquire False a(2) by (auto simp: try_acquire_def acquire_def counted_def)
    have h: "holders t a = insert h (holders s a)" "h \<notin> holders s a" "b \<noteq> a \<Longrightarrow> holders t b = holders s b" for b
      using t(1) sink_acquire(2) by (auto simp: holders_def)
    then have "refs t a = Suc (refs s a)" "b \<noteq> a \<Longrightarrow> refs t b = refs s b" for b
      using a(3) t(3) by (auto simp: refs_def)
    then have "\<forall>b < sk_fresh t. counted t b"
      using inv False t a(2) by (auto simp: sink_inv_def counted_def)
    moreover have "sink_shape t"
      using inv a(1) t finite_pc [of s h "Holding a"] by (auto simp: sink_inv_def sink_shape_def)
    ultimately show ?thesis by (simp add: sink_inv_def)
  qed
next
  case (sink_finish h a)
  let ?s = "s\<lparr>sk_pc := (sk_pc s)(h := Idle)\<rparr>"
  have a: "a < sk_fresh s" "counted s a" "finite (holders s a)"
    using inv sink_finish(2) finite_holders by (auto simp: sink_inv_def sink_shape_def)
  have h: "holders s a = insert h (holders ?s a)" "h \<notin> holders ?s a" "b \<noteq> a \<Longrightarrow> holders ?s b = holders s b" for b
    using sink_finish(2) by (auto simp: holders_def)
  then have r: "refs s a = Suc (refs ?s a)" "b \<noteq> a \<Longrightarrow> refs ?s b = refs s b" for b
    using a(3) by (auto simp: refs_def)
  have "sink_shape ?s" using inv finite_pc [of s h Idle] by (auto simp: sink_inv_def sink_shape_def)
  then have "sink_inv (do_release a ?s)"
    using a r inv by (intro do_release_inv) (auto simp: sink_inv_def counted_def)
  then show ?thesis using sink_finish by (simp add: finish_def)
next
  case (sink_swap fd)
  let ?s = "s\<lparr>sk_ref := (sk_ref s)(sk_fresh s := newRefSink fd), sk_fresh := Suc (sk_fresh s), sk_cur := Some (sk_fresh s)\<rparr>"
  have sh: "sink_shape ?s" using inv by (auto simp: sink_inv_def sink_shape_def less_Suc_eq)
  have h0: "holders s (sk_fresh s) = {}" using inv by (force simp: sink_inv_def sink_shape_def holders_def)
  have hs: "holders ?s b = holders s b" for b by (simp add: holders_def)
  have new: "counted ?s (sk_fresh s)"
    using inv h0 hs by (simp add: sink_inv_def sink_shape_def counted_def refs_def newRefSink_def)
  have others: "counted ?s b" if "b < sk_fresh s" "sk_cur s \<noteq> Some b" for b
    using inv that hs by (auto simp: sink_inv_def counted_def refs_def)
  show ?thesis
  proof (cases "sk_cur s")
    case None
    then show ?thesis
      using sink_swap sh new others by (auto simp: swap_sink_def sink_inv_def less_Suc_eq)
  next
    case (Some a)
    have a: "a < sk_fresh s" "counted s a" using inv Some by (auto simp: sink_inv_def sink_shape_def)
    have "refs s a = Suc (refs ?s a)" using Some a(1) hs by (simp add: refs_def)
    then have "sink_inv (do_release a ?s)"
      using sh a new others Some by (intro do_release_inv) (auto simp: counted_def less_Suc_eq)
    then show ?thesis using sink_swap Some by (simp add: swap_sink_def)
  qed
next
  case sink_close
  show ?thesis
  proof (cases "sk_cur s")
    case None
    then show ?thesis using sink_close inv by (simp add: closeSink_def)
  next
    case (Some a)
    let ?s = "s\<lparr>sk_cur := None\<rparr>"
    have a: "a < sk_fresh s" "counted s a" using inv Some by (auto simp: sink_inv_def sink_shape_def)
    have hs: "holders ?s b = holders s b" for b by (simp add: holders_def)
    have r: "refs s a = Suc (refs ?s a)" "b \<noteq> a \<Longrightarrow> refs ?s b = refs s b" for b using Some hs by (auto simp: refs_def)
    have "sink_shape ?s" using inv by (auto simp: sink_inv_def sink_shape_def)
    then have "sink_inv (do_release a ?s)"
      using a r inv by (intro do_release_inv) (auto simp: sink_inv_def counted_def)
    then show ?thesis using sink_close Some by (simp add: closeSink_def)
  qed
qed

lemma sink_inv_start: "sink_start s \<Longrightarrow> sink_inv s"
  by (auto simp: sink_start_def sink_inv_def sink_shape_def counted_def refs_def holders_def newRefSink_def)

interpretation sinking: invariant_system sink_start sink_step sink_inv
  by unfold_locales (fact sink_inv_start, fact sink_inv_step)

section \<open>Properties\<close>

text \<open>
  C17. A log sink is closed exactly once, when its last user is gone, and never under a relay that writes to
  it: in every state that any interleaving of connections, reloads and teardown reaches, a sink some handler
  holds or the listener offers has not been closed, and a sink that neither holds has been closed once.
\<close>

theorem sink_closed_once:
  assumes "reach sink_start sink_step s" "a < sk_fresh s"
  shows "sk_closes s a = (if sk_cur s = Some a \<or> (\<exists>h. sk_pc s h = Holding a) then 0 else 1)"
proof -
  have inv: "sink_inv s" using sinking.invar_reach [OF assms(1)] .
  then have "counted s a" "finite (holders s a)" using assms(2) finite_holders by (auto simp: sink_inv_def)
  then show ?thesis by (auto simp: counted_def refs_def holders_def)
qed

definition sample_sink :: sink_state where
  "sample_sink = \<lparr>sk_ref = (\<lambda>_. newRefSink StdoutSink), sk_fresh = 1, sk_closes = (\<lambda>_. 0), sk_cur = Some 0, sk_pc = (\<lambda>_. Idle)\<rparr>"

theorem sink_closed_once_witness:
  "reach sink_start sink_step (closeSink sample_sink) \<and> 0 < sk_fresh (closeSink sample_sink) \<and>
   sk_closes (closeSink sample_sink) 0 = 1"
proof -
  have r: "reach sink_start sink_step (closeSink sample_sink)"
  proof (rule reach_step [of sink_start sink_step sample_sink])
    show "reach sink_start sink_step sample_sink" by (rule reach_start) (auto simp: sink_start_def sample_sink_def)
  qed (rule sink_close)
  moreover have f: "0 < sk_fresh (closeSink sample_sink)"
    by (simp add: closeSink_def sample_sink_def do_release_def release_def newRefSink_def Let_def)
  moreover have "sk_cur (closeSink sample_sink) = None" "\<forall>h. sk_pc (closeSink sample_sink) h = Idle"
    by (simp_all add: closeSink_def sample_sink_def do_release_def release_def newRefSink_def Let_def)
  ultimately show ?thesis using sink_closed_once [OF r f] by simp
qed

end
