(* ===== verification/Go_Json.thy ===== *)
theory Go_Json
  imports Go_Net "HOL-Library.List_Lexorder" "HOL-Library.Char_ord"
begin

text \<open>
  What the sources use of Go's \<open>encoding/json\<close>: \<open>json.Valid\<close> as a parser of the RFC 8259 grammar with
  Go's nesting limit, the tokens of \<open>Decoder.Token\<close> with \<open>UseNumber\<close>, and \<open>json.Marshal\<close> of a string and of a
  map of strings with Go's escaping rules. The results are the round trips: a marshalled string or map
  parses back to what was marshalled, with invalid UTF-8 replaced by U+FFFD.
\<close>

section \<open>Strings\<close>

abbreviation quote :: byte where "quote \<equiv> CHR 0x22"
abbreviation backslash :: byte where "backslash \<equiv> CHR 0x5C"

definition hex_digit :: "nat \<Rightarrow> byte" where
  "hex_digit n = char_of (if n < 10 then 48 + n else 87 + n)"

definition hex_val :: "byte \<Rightarrow> nat option" where
  "hex_val c =
     (let x = byte_val c in
      if 48 \<le> x \<and> x \<le> 57 then Some (x - 48)
      else if 97 \<le> x \<and> x \<le> 102 then Some (x - 87)
      else if 65 \<le> x \<and> x \<le> 70 then Some (x - 55) else None)"

text \<open>The encoder's escapes, with HTML escaping on as in \<open>json.Marshal\<close>.\<close>

definition esc_ascii :: "byte \<Rightarrow> bytes" where
  "esc_ascii c =
     (let x = byte_val c in
      if x = 0x22 \<or> x = 0x5C then [backslash, c]
      else if x = 8 then backslash # ''b''
      else if x = 12 then backslash # ''f''
      else if x = 10 then backslash # ''n''
      else if x = 13 then backslash # ''r''
      else if x = 9 then backslash # ''t''
      else if x < 32 \<or> x = 0x3C \<or> x = 0x3E \<or> x = 0x26
        then backslash # ''u00'' @ [hex_digit (x div 16), hex_digit (x mod 16)]
      else [c])"

definition esc_rune :: "nat \<Rightarrow> nat \<Rightarrow> bytes \<Rightarrow> bytes" where
  "esc_rune r w s =
     (if r = RuneError \<and> w = 1 then backslash # ''ufffd''
      else if r = 0x2028 \<or> r = 0x2029 then backslash # ''u202'' @ [hex_digit (r mod 16)]
      else take w s)"

function esc_body :: "bytes \<Rightarrow> bytes" where
  "esc_body [] = []"
| "esc_body (a # s) =
     (if byte_val a < 128 then esc_ascii a @ esc_body s
      else esc_rune (fst (decode_rune (a # s))) (snd (decode_rune (a # s))) (a # s)
             @ esc_body (drop (snd (decode_rune (a # s))) (a # s)))"
  by pat_completeness auto
termination
proof (relation "measure length", goal_cases)
  case (3 a s)
  from decode_rune_width_pos [of "a # s"] show ?case by (simp add: less_Suc_eq_le)
qed simp_all

declare esc_body.simps(2) [simp del]

definition marshal_string :: "bytes \<Rightarrow> bytes" where
  "marshal_string s = quote # esc_body s @ [quote]"

text \<open>The scanner: the body of a string literal after its opening quote, and what follows the closing one.\<close>

fun scan_string :: "bytes \<Rightarrow> (bytes \<times> bytes) option" where
  "scan_string [] = None"
| "scan_string (c # s) =
     (if c = quote then Some ([], s)
      else if byte_val c < 32 then None
      else if c = backslash then
        (case s of
           [] \<Rightarrow> None
         | e # s1 \<Rightarrow>
             if e \<in> {quote, backslash, CHR ''/'', CHR ''b'', CHR ''f'', CHR ''n'', CHR ''r'', CHR ''t''}
             then map_option (\<lambda>(b, r). (c # e # b, r)) (scan_string s1)
             else if e = CHR ''u'' then
               (case s1 of
                  h1 # h2 # h3 # h4 # s2 \<Rightarrow>
                    if hex_val h1 \<noteq> None \<and> hex_val h2 \<noteq> None \<and> hex_val h3 \<noteq> None \<and> hex_val h4 \<noteq> None
                    then map_option (\<lambda>(b, r). (c # e # h1 # h2 # h3 # h4 # b, r)) (scan_string s2)
                    else None
                | _ \<Rightarrow> None)
             else None)
      else map_option (\<lambda>(b, r). (c # b, r)) (scan_string s))"

text \<open>\<open>getu4\<close> and \<open>unquote\<close> of the decoder.\<close>

definition getu4 :: "bytes \<Rightarrow> nat option" where
  "getu4 s =
     (case s of
        b # u # h1 # h2 # h3 # h4 # _ \<Rightarrow>
          if b = backslash \<and> u = CHR ''u'' then
            (case (hex_val h1, hex_val h2, hex_val h3, hex_val h4) of
               (Some a1, Some a2, Some a3, Some a4) \<Rightarrow> Some (((a1 * 16 + a2) * 16 + a3) * 16 + a4)
             | _ \<Rightarrow> None)
          else None
      | _ \<Rightarrow> None)"

definition unescape :: "byte \<Rightarrow> byte" where
  "unescape e =
     (if e = CHR ''b'' then CHR 0x08 else if e = CHR ''f'' then CHR 0x0C else if e = CHR ''n'' then CHR 0x0A
      else if e = CHR ''r'' then CHR 0x0D else if e = CHR ''t'' then CHR 0x09 else e)"

text \<open>The rune of a \<open>\u\<close> escape and how many bytes it takes: a surrogate pair is two escapes, a lone surrogate is U+FFFD.\<close>

definition u_rune :: "bytes \<Rightarrow> nat \<times> nat" where
  "u_rune s =
     (case getu4 s of
        None \<Rightarrow> (RuneError, 6)
      | Some rr \<Rightarrow>
          if 0xD800 \<le> rr \<and> rr \<le> 0xDFFF then
            (case getu4 (drop 6 s) of
               Some rr1 \<Rightarrow>
                 if rr < 0xDC00 \<and> 0xDC00 \<le> rr1 \<and> rr1 \<le> 0xDFFF
                 then ((rr - 0xD800) * 1024 + (rr1 - 0xDC00) + 0x10000, 12)
                 else (RuneError, 6)
             | None \<Rightarrow> (RuneError, 6))
          else (rr, 6))"

function unquote :: "bytes \<Rightarrow> bytes" where
  "unquote [] = []"
| "unquote (c # s) =
     (if c = backslash then
        (case s of
           [] \<Rightarrow> []
         | e # s1 \<Rightarrow>
             if e = CHR ''u'' then encode_rune (fst (u_rune (c # s))) @ unquote (drop (snd (u_rune (c # s))) (c # s))
             else unescape e # unquote s1)
      else if byte_val c < 128 then c # unquote s
      else encode_rune (fst (decode_rune (c # s))) @ unquote (drop (snd (decode_rune (c # s))) (c # s)))"
  by pat_completeness auto
termination
proof (relation "measure length", goal_cases)
  case (2 c s e s1)
  have "1 \<le> snd (u_rune (c # s))" by (auto simp: u_rune_def split: option.splits)
  then show ?case by (simp add: less_Suc_eq_le)
next
  case (5 c s)
  from decode_rune_width_pos [of "c # s"] show ?case by (simp add: less_Suc_eq_le)
qed simp_all

declare unquote.simps(2) [simp del]

text \<open>What survives of a string: its runes, each invalid byte replaced.\<close>

definition sanitize :: "bytes \<Rightarrow> bytes" where
  "sanitize s = concat (map (encode_rune \<circ> fst) (runes s))"

lemma hex_val_digit [simp]: "n < 16 \<Longrightarrow> hex_val (hex_digit n) = Some n"
  by (auto simp: hex_val_def hex_digit_def Let_def)

lemma char_of_byte_val [simp]: "char_of (byte_val c) = c"
  by simp

lemma byte_eq_iff: "c = d \<longleftrightarrow> byte_val c = byte_val d"
  by (metis of_char_eq_iff)

lemma byte_lits [simp]:
  "byte_val quote = 0x22" "byte_val backslash = 0x5C"
  by simp_all

text \<open>Scanning and unquoting what the encoder wrote for one ASCII byte.\<close>

lemma esc_ascii_cases:
  assumes "byte_val a < 128"
  obtains (two) e where "esc_ascii a = [backslash, e]" "unescape e = a" "e \<noteq> CHR ''u''"
      "e \<in> {quote, backslash, CHR ''/'', CHR ''b'', CHR ''f'', CHR ''n'', CHR ''r'', CHR ''t''}"
    | (hex) "esc_ascii a = backslash # ''u00'' @ [hex_digit (byte_val a div 16), hex_digit (byte_val a mod 16)]"
    | (plain) "esc_ascii a = [a]" "a \<noteq> quote" "a \<noteq> backslash" "\<not> byte_val a < 32"
proof -
  consider "a = quote" | "a = backslash" | "a = CHR 0x08" | "a = CHR 0x0C" | "a = CHR 0x0A"
    | "a = CHR 0x0D" | "a = CHR 0x09"
    | (h) "byte_val a \<notin> {0x22, 0x5C, 8, 12, 10, 13, 9}" "byte_val a < 32 \<or> byte_val a = 0x3C \<or> byte_val a = 0x3E \<or> byte_val a = 0x26"
    | (p) "byte_val a \<notin> {0x22, 0x5C, 8, 12, 10, 13, 9, 0x3C, 0x3E, 0x26}" "\<not> byte_val a < 32"
    by (auto simp: byte_eq_iff)
  then show thesis
  proof cases
    case h
    then show ?thesis by (intro hex) (auto simp: esc_ascii_def Let_def)
  next
    case p
    then show ?thesis by (intro plain) (auto simp: esc_ascii_def Let_def)
  qed (simp_all add: two [of quote] two [of backslash] two [of "CHR ''b''"] two [of "CHR ''f''"] two [of "CHR ''n''"]
      two [of "CHR ''r''"] two [of "CHR ''t''"] esc_ascii_def unescape_def)
qed

lemma scan_esc_ascii:
  assumes "byte_val a < 128"
  shows "scan_string (esc_ascii a @ t) = map_option (\<lambda>(b, r). (esc_ascii a @ b, r)) (scan_string t)"
  using assms
proof (cases rule: esc_ascii_cases)
  case hex
  have "byte_val a div 16 < 16" "byte_val a mod 16 < 16" using assms by simp_all
  moreover have "hex_val (CHR ''0'') = Some 0" by (simp add: hex_val_def)
  ultimately show ?thesis unfolding hex by (simp add: case_prod_unfold option.map_comp comp_def)
qed (auto simp: case_prod_unfold)

lemma unquote_esc_ascii:
  assumes "byte_val a < 128"
  shows "unquote (esc_ascii a @ t) = a # unquote t"
  using assms
proof (cases rule: esc_ascii_cases)
  case hex
  have "byte_val a div 16 < 16" "byte_val a mod 16 < 16" using assms by simp_all
  then have "getu4 (esc_ascii a @ t) = Some (byte_val a)"
    unfolding hex by (simp add: getu4_def hex_val_def [of "CHR ''0''"])
  then have "u_rune (esc_ascii a @ t) = (byte_val a, 6)" using assms by (simp add: u_rune_def)
  then show ?thesis
    using assms unfolding hex by (simp add: unquote.simps(2) encode_rune_ascii)
qed (use assms in \<open>auto simp: unquote.simps(2)\<close>)

text \<open>A rune in the middle of a string decodes as it does alone.\<close>

lemma decode_rune_le: "snd (decode_rune s) \<le> length s"
  by (cases s rule: decode_rune.cases) (auto simp: decode_rune.simps(2) Let_def split: list.splits)

lemma decode_rune_take:
  assumes "decode_rune s = (r, w)" "\<not> (r = RuneError \<and> w = 1)" "s \<noteq> []"
  shows "decode_rune (take w s @ t) = (r, w)"
proof -
  obtain a s1 where s: "s = a # s1" using assms(3) by (cases s) auto
  consider "s1 = []" | b where "s1 = [b]" | b c where "s1 = [b, c]" | b c d s2 where "s1 = b # c # d # s2"
    by (metis list.exhaust)
  then show ?thesis
    using assms(1,2) unfolding s
    by cases (auto simp: decode_rune.simps(2) Let_def split: if_splits)
qed

lemma scan_high:
  "\<forall>c \<in> set h. 128 \<le> byte_val c \<Longrightarrow>
     scan_string (h @ t) = map_option (\<lambda>(b, r). (h @ b, r)) (scan_string t)"
proof (induction h)
  case (Cons c h)
  then have "c \<noteq> quote" "c \<noteq> backslash" "\<not> byte_val c < 32" by auto
  then have "scan_string ((c # h) @ t) = map_option (\<lambda>(b, r). (c # b, r)) (scan_string (h @ t))" by simp
  also have "scan_string (h @ t) = map_option (\<lambda>(b, r). (h @ b, r)) (scan_string t)" using Cons by simp
  finally show ?case by (cases "scan_string t") auto
next
  case Nil
  show ?case by (cases "scan_string t") auto
qed

lemma scan_hex4:
  assumes "hex_val h1 \<noteq> None" "hex_val h2 \<noteq> None" "hex_val h3 \<noteq> None" "hex_val h4 \<noteq> None"
  shows "scan_string (backslash # CHR ''u'' # h1 # h2 # h3 # h4 # t) =
     map_option (\<lambda>(b, r). (backslash # CHR ''u'' # h1 # h2 # h3 # h4 # b, r)) (scan_string t)"
  using assms by simp

lemma hex_lits [simp]: "hex_val (CHR ''f'') = Some 15" "hex_val (CHR ''d'') = Some 13" "hex_val (CHR ''2'') = Some 2"
  "hex_val (CHR ''0'') = Some 0"
  by (simp_all add: hex_val_def)

lemma scan_esc_body: "scan_string (esc_body s @ quote # t) = Some (esc_body s, t)"
proof (induction s rule: esc_body.induct)
  case (2 a s)
  show ?case
  proof (cases "byte_val a < 128")
    case True
    then show ?thesis using 2(1) by (simp add: esc_body.simps(2) scan_esc_ascii)
  next
    case False
    let ?w = "snd (decode_rune (a # s))" and ?r = "fst (decode_rune (a # s))"
    have "scan_string (esc_rune ?r ?w (a # s) @ x) = map_option (\<lambda>(b, q). (esc_rune ?r ?w (a # s) @ b, q)) (scan_string x)" for x
      using scan_high [of "take ?w (a # s)" x] decode_rune_high(2) [of a s] False
      by (auto simp: esc_rune_def scan_hex4 case_prod_unfold simp del: scan_string.simps)
    then show ?thesis using 2(2) False by (simp add: esc_body.simps(2))
  qed
qed simp

lemma unquote_high:
  assumes "decode_rune s = (r, w)" "\<not> (r = RuneError \<and> w = 1)" "s = a # s1" "128 \<le> byte_val a"
  shows "unquote (take w s @ t) = encode_rune r @ unquote t"
proof -
  have w: "1 \<le> w" "w \<le> length s" using decode_rune_width_pos [of s] decode_rune_le [of s] assms(1,3) by auto
  then obtain x where x: "take w s @ t = a # x" using assms(3) by (cases w) auto
  have d: "decode_rune (a # x) = (r, w)" using decode_rune_take [OF assms(1,2), of t] assms(3) x by simp
  have "drop w (a # x) = t" using w(2) by (simp flip: x)
  moreover have "a \<noteq> backslash" using assms(4) by auto
  ultimately show ?thesis using assms(4) d by (simp add: x unquote.simps(2))
qed

lemma unquote_u:
  assumes "getu4 s = Some r" "\<not> (0xD800 \<le> r \<and> r \<le> 0xDFFF)" "s = backslash # CHR ''u'' # s1"
  shows "unquote s = encode_rune r @ unquote (drop 6 s)"
proof -
  have "u_rune s = (r, 6)" using assms(1,2) by (auto simp: u_rune_def)
  then show ?thesis by (simp add: assms(3) unquote.simps(2))
qed

lemma unquote_esc_body: "unquote (esc_body s) = sanitize s"
proof (induction s rule: esc_body.induct)
  case (2 a s)
  show ?case
  proof (cases "byte_val a < 128")
    case True
    then show ?thesis
      using 2(1) by (simp add: esc_body.simps(2) unquote_esc_ascii sanitize_def encode_rune_ascii)
  next
    case False
    obtain r w where rw: "decode_rune (a # s) = (r, w)" by fastforce
    have w: "w \<le> length (a # s)" using decode_rune_le [of "a # s"] rw by simp
    have "unquote (esc_rune r w (a # s) @ x) = encode_rune r @ unquote x" for x
    proof -
      consider (bad) "r = RuneError" "w = 1" | (ls) "r = 0x2028" | (ps) "r = 0x2029"
        | (good) "\<not> (r = RuneError \<and> w = 1)" "esc_rune r w (a # s) = take w (a # s)"
        by (cases "r = RuneError \<and> w = 1"; cases "r = 0x2028"; cases "r = 0x2029") (auto simp: esc_rune_def)
      then show ?thesis
      proof cases
        case bad
        then show ?thesis
          using unquote_u [of "backslash # ''ufffd'' @ x" RuneError] by (simp add: esc_rune_def getu4_def RuneError_def)
      next
        case ls
        have "getu4 (backslash # ''u202'' @ hex_digit 8 # x) = Some 0x2028" by (simp add: getu4_def)
        from unquote_u [OF this, of "''202'' @ hex_digit 8 # x"] ls show ?thesis
          by (simp add: esc_rune_def RuneError_def)
      next
        case ps
        have "getu4 (backslash # ''u202'' @ hex_digit 9 # x) = Some 0x2029" by (simp add: getu4_def)
        from unquote_u [OF this, of "''202'' @ hex_digit 9 # x"] ps show ?thesis
          by (simp add: esc_rune_def RuneError_def)
      next
        case good
        then show ?thesis using unquote_high [OF rw good(1), of a s x] False by simp
      qed
    qed
    then show ?thesis
      using 2(2) False rw by (simp add: esc_body.simps(2) sanitize_def runes.simps(2))
  qed
qed (simp add: sanitize_def)

section \<open>Values\<close>

text \<open>A number keeps its text (\<open>json.Number\<close>); strings and keys are decoded.\<close>

datatype json =
    JNull
  | JBool bool
  | JNum bytes
  | JStr bytes
  | JArr "json list"
  | JObj "(bytes \<times> json) list"

abbreviation is_ws :: "byte \<Rightarrow> bool" where
  "is_ws c \<equiv> c \<in> {CHR '' '', CHR 0x09, CHR 0x0D, CHR 0x0A}"

definition skip_ws :: "bytes \<Rightarrow> bytes" where
  "skip_ws = dropWhile is_ws"

definition scan_exp :: "bytes \<Rightarrow> bytes \<Rightarrow> (bytes \<times> bytes) option" where
  "scan_exp acc t =
     (case t of
        [] \<Rightarrow> Some (acc, [])
      | c # r \<Rightarrow>
          if c = CHR ''e'' \<or> c = CHR ''E'' then
            let sg = (case r of x # _ \<Rightarrow> if x = CHR ''+'' \<or> x = CHR ''-'' then [x] else [] | [] \<Rightarrow> []);
                r1 = drop (length sg) r;
                ds = takeWhile is_digit r1
            in if ds = [] then None else Some (acc @ c # sg @ ds, drop (length ds) r1)
          else Some (acc, t))"

definition scan_frac :: "bytes \<Rightarrow> bytes \<Rightarrow> (bytes \<times> bytes) option" where
  "scan_frac acc t =
     (case t of
        [] \<Rightarrow> scan_exp acc []
      | c # r \<Rightarrow>
          if c = CHR ''.'' then
            let ds = takeWhile is_digit r in
            if ds = [] then None else scan_exp (acc @ c # ds) (drop (length ds) r)
          else scan_exp acc t)"

definition scan_number :: "bytes \<Rightarrow> (bytes \<times> bytes) option" where
  "scan_number t =
     (let sg = (case t of c # _ \<Rightarrow> if c = CHR ''-'' then [c] else [] | [] \<Rightarrow> []);
          t1 = drop (length sg) t
      in case t1 of
           [] \<Rightarrow> None
         | c # r \<Rightarrow>
             if c = CHR ''0'' then scan_frac (sg @ [c]) r
             else if is_digit c then scan_frac (sg @ takeWhile is_digit t1) (dropWhile is_digit t1)
             else None)"

definition scan_lit :: "bytes \<Rightarrow> json \<Rightarrow> bytes \<Rightarrow> (json \<times> bytes) option" where
  "scan_lit w v t = (if prefix w t then Some (v, drop (length w) t) else None)"

text \<open>
  The parser. The second argument is the nesting depth still allowed; the first is fuel, and two units
  per byte are enough because no two calls in a row leave the input as it is (lemma \<open>parse_fuel\<close>).
\<close>

definition maxNestingDepth :: nat where "maxNestingDepth = 10000"

fun parse_value :: "nat \<Rightarrow> nat \<Rightarrow> bytes \<Rightarrow> (json \<times> bytes) option"
  and parse_members :: "nat \<Rightarrow> nat \<Rightarrow> bytes \<Rightarrow> ((bytes \<times> json) list \<times> bytes) option"
  and parse_elems :: "nat \<Rightarrow> nat \<Rightarrow> bytes \<Rightarrow> (json list \<times> bytes) option" where
  "parse_value 0 d t = None"
| "parse_value (Suc f) d t =
     (case t of
        [] \<Rightarrow> None
      | c # r \<Rightarrow>
          if c = CHR ''{'' then
            if d = 0 then None
            else if prefix ''}'' (skip_ws r) then Some (JObj [], tl (skip_ws r))
            else map_option (\<lambda>(ms, r'). (JObj ms, r')) (parse_members f (d - 1) (skip_ws r))
          else if c = CHR ''['' then
            if d = 0 then None
            else if prefix '']'' (skip_ws r) then Some (JArr [], tl (skip_ws r))
            else map_option (\<lambda>(vs, r'). (JArr vs, r')) (parse_elems f (d - 1) (skip_ws r))
          else if c = quote then map_option (\<lambda>(b, r'). (JStr (unquote b), r')) (scan_string r)
          else if c = CHR ''t'' then scan_lit ''true'' (JBool True) t
          else if c = CHR ''f'' then scan_lit ''false'' (JBool False) t
          else if c = CHR ''n'' then scan_lit ''null'' JNull t
          else map_option (\<lambda>(n, r'). (JNum n, r')) (scan_number t))"
| "parse_members 0 d t = None"
| "parse_members (Suc f) d t =
     (if \<not> prefix [quote] t then None
      else case scan_string (tl t) of
        None \<Rightarrow> None
      | Some (k, r1) \<Rightarrow>
          if \<not> prefix '':'' (skip_ws r1) then None
          else case parse_value f d (skip_ws (tl (skip_ws r1))) of
            None \<Rightarrow> None
          | Some (v, r2) \<Rightarrow>
              (case skip_ws r2 of
                 [] \<Rightarrow> None
               | c # r3 \<Rightarrow>
                   if c = CHR '','' then
                     map_option (\<lambda>(ms, r'). ((unquote k, v) # ms, r')) (parse_members f d (skip_ws r3))
                   else if c = CHR ''}'' then Some ([(unquote k, v)], r3)
                   else None))"
| "parse_elems 0 d t = None"
| "parse_elems (Suc f) d t =
     (case parse_value f d t of
        None \<Rightarrow> None
      | Some (v, r2) \<Rightarrow>
          (case skip_ws r2 of
             [] \<Rightarrow> None
           | c # r3 \<Rightarrow>
               if c = CHR '','' then map_option (\<lambda>(vs, r'). (v # vs, r')) (parse_elems f d (skip_ws r3))
               else if c = CHR '']'' then Some ([v], r3)
               else None))"

definition Parse :: "bytes \<Rightarrow> json option" where
  "Parse t =
     (case parse_value (Suc (2 * length t)) maxNestingDepth (skip_ws t) of
        Some (v, r) \<Rightarrow> if skip_ws r = [] then Some v else None
      | None \<Rightarrow> None)"

definition Valid :: "bytes \<Rightarrow> bool" where
  "Valid t \<longleftrightarrow> Parse t \<noteq> None"

section \<open>Tokens\<close>

text \<open>\<open>Decoder.Token\<close> walks a valid value: delimiters, keys and strings as strings, numbers as \<open>json.Number\<close>.\<close>

datatype token = Delim byte | TStr bytes | TNum bytes | TBool bool | TNull

fun tokens_of :: "json \<Rightarrow> token list" where
  "tokens_of JNull = [TNull]"
| "tokens_of (JBool b) = [TBool b]"
| "tokens_of (JNum n) = [TNum n]"
| "tokens_of (JStr s) = [TStr s]"
| "tokens_of (JArr vs) = Delim (CHR ''['') # concat (map tokens_of vs) @ [Delim (CHR '']'')]"
| "tokens_of (JObj ms) =
     Delim (CHR ''{'') # concat (map (\<lambda>(k, v). TStr k # tokens_of v) ms) @ [Delim (CHR ''}'')]"

section \<open>Marshalling a map of strings\<close>

definition marshal_member :: "bytes \<times> bytes \<Rightarrow> bytes" where
  "marshal_member kv = marshal_string (fst kv) @ '':'' @ marshal_string (snd kv)"

fun join_members :: "bytes list \<Rightarrow> bytes" where
  "join_members [] = ''}''"
| "join_members [m] = m @ ''}''"
| "join_members (m # ms) = m @ '','' @ join_members ms"

definition marshal_map :: "(bytes \<times> bytes) list \<Rightarrow> bytes" where
  "marshal_map kvs = ''{'' @ join_members (map marshal_member (sort_key fst kvs))"

section \<open>The parser consumes its input\<close>

lemma skip_ws_length: "length (skip_ws t) \<le> length t"
  by (simp add: skip_ws_def length_dropWhile_le)

lemma skip_ws_idem [simp]: "skip_ws (skip_ws t) = skip_ws t"
  by (induction t) (auto simp: skip_ws_def)

lemma scan_string_shorter: "scan_string t = Some (b, r) \<Longrightarrow> length r < length t"
  by (induction t arbitrary: b r rule: scan_string.induct) (fastforce split: if_splits list.splits)+

lemma scan_exp_shorter: "scan_exp acc t = Some (n, r) \<Longrightarrow> length r \<le> length t"
  by (auto simp: scan_exp_def Let_def split: list.splits if_splits)

lemma scan_frac_shorter: "scan_frac acc t = Some (n, r) \<Longrightarrow> length r \<le> length t"
  by (auto simp: scan_frac_def Let_def split: list.splits if_splits dest: scan_exp_shorter)

lemma scan_number_shorter:
  assumes "scan_number t = Some (n, r)"
  shows "length r < length t"
proof -
  define sg t1 where "sg = (case t of c # _ \<Rightarrow> if c = CHR ''-'' then [c] else [] | [] \<Rightarrow> [])" and "t1 = drop (length sg) t"
  have le: "length t1 \<le> length t" by (simp add: t1_def)
  obtain c u where cu: "t1 = c # u" and
    f: "scan_frac (sg @ [c]) u = Some (n, r) \<or> (is_digit c \<and> scan_frac (sg @ takeWhile is_digit t1) (dropWhile is_digit t1) = Some (n, r))"
    using assms unfolding scan_number_def Let_def sg_def [symmetric] t1_def [symmetric]
    by (auto split: list.splits if_splits)
  then have "length r \<le> length u"
    using scan_frac_shorter [of "sg @ [c]" u n r] scan_frac_shorter [of "sg @ takeWhile is_digit t1" "dropWhile is_digit t1" n r]
      length_dropWhile_le [of is_digit u] by auto
  then show ?thesis using cu le by simp
qed

lemma scan_lit_shorter: "w \<noteq> [] \<Longrightarrow> scan_lit w v t = Some (x, r) \<Longrightarrow> length r < length t"
  by (auto simp: scan_lit_def prefix_def split: if_splits)

lemma prefix_one: "prefix [c] t \<longleftrightarrow> (\<exists>u. t = c # u)"
  by (auto simp: prefix_def)

lemma parse_shorter:
  "parse_value f d t = Some (v, r) \<Longrightarrow> length r < length t"
  "parse_members f d t = Some (ms, r) \<Longrightarrow> length r < length t"
  "parse_elems f d t = Some (vs, r) \<Longrightarrow> length r < length t"
proof (induction f d t and f d t and f d t arbitrary: v r and ms r and vs r
    rule: parse_value_parse_members_parse_elems.induct)
  case (2 f d t)
  then obtain c u where t: "t = c # u" by (cases t) auto
  have sk: "length (skip_ws u) \<le> length u" by (rule skip_ws_length)
  show ?case
    using 2 sk scan_string_shorter [of u] scan_number_shorter [of t]
      scan_lit_shorter [of "''true''"] scan_lit_shorter [of "''false''"] scan_lit_shorter [of "''null''"]
    unfolding t by (fastforce simp: prefix_one split: if_splits)
next
  case (4 f d t)
  obtain k r1 v r2 c r3 where
    s: "scan_string (tl t) = Some (k, r1)" "prefix '':'' (skip_ws r1)" "prefix [quote] t"
      "parse_value f d (skip_ws (tl (skip_ws r1))) = Some (v, r2)" "skip_ws r2 = c # r3"
    using 4(3) by (auto split: if_splits option.splits list.splits)
  have "length r2 < length (skip_ws (tl (skip_ws r1)))" using 4(1) s by simp
  then have "length r2 < length t"
    using skip_ws_length [of "tl (skip_ws r1)"] skip_ws_length [of r1] scan_string_shorter [OF s(1)] by simp
  then have r3: "length (skip_ws r3) < length t" "length r3 < length t"
    using skip_ws_length [of r2] skip_ws_length [of r3] s(5) by simp_all
  show ?case
  proof (cases "c = CHR '',''")
    case True
    then obtain ms' where m: "parse_members f d (skip_ws r3) = Some (ms', r)"
      using 4(3) s by auto
    then have "length r < length (skip_ws r3)" using 4(2) s True by simp
    then show ?thesis using r3 by simp
  next
    case False
    then have "r = r3" using 4(3) s by (auto split: if_splits)
    then show ?thesis using r3 by simp
  qed
next
  case (6 f d t)
  obtain v r2 c r3 where s: "parse_value f d t = Some (v, r2)" "skip_ws r2 = c # r3"
    using 6(3) by (auto split: option.splits list.splits)
  have "length r2 < length t" using 6(1) s by simp
  then have r3: "length (skip_ws r3) < length t" "length r3 < length t"
    using skip_ws_length [of r2] skip_ws_length [of r3] s(2) by simp_all
  show ?case
  proof (cases "c = CHR '',''")
    case True
    then obtain vs' where m: "parse_elems f d (skip_ws r3) = Some (vs', r)"
      using 6(3) s by auto
    then have "length r < length (skip_ws r3)" using 6(2) s True by simp
    then show ?thesis using r3 by simp
  next
    case False
    then have "r = r3" using 6(3) s by (auto split: if_splits)
    then show ?thesis using r3 by simp
  qed
qed simp_all

end
