(* ===== verification/Json_Roundtrip.thy ===== *)
theory Json_Roundtrip
  imports Go_Json
begin

text \<open>
  Properties of the JSON model: fuel is never short, what \<open>json.Marshal\<close> writes parses back, and fields
  can be put in front of the members of an object without disturbing the rest.
\<close>

text \<open>Enough fuel is enough: more never changes the result.\<close>

lemma parse_fuel:
  "2 * length t < f \<Longrightarrow> f \<le> g \<Longrightarrow> parse_value g d t = parse_value f d t"
  "2 * length t < f \<Longrightarrow> f \<le> g \<Longrightarrow> parse_members g d t = parse_members f d t"
  "Suc (2 * length t) < f \<Longrightarrow> f \<le> g \<Longrightarrow> parse_elems g d t = parse_elems f d t"
proof (induction f arbitrary: g d t)
  case (Suc f)
  {
    case 1
    then obtain h where g: "g = Suc h" "f \<le> h" by (cases g) auto
    show ?case
    proof (cases t)
      case (Cons c u)
      have l: "Suc (2 * length (skip_ws u)) < f" using skip_ws_length [of u] 1(1) Cons by simp
      have "parse_members h (d - 1) (skip_ws u) = parse_members f (d - 1) (skip_ws u)"
        "parse_elems h (d - 1) (skip_ws u) = parse_elems f (d - 1) (skip_ws u)"
        using l g(2) by (intro Suc.IH; simp)+
      then show ?thesis by (simp only: g(1) Cons parse_value.simps list.case)
    qed (simp add: g)
  next
    case 2
    then obtain h where g: "g = Suc h" "f \<le> h" by (cases g) auto
    have v: "parse_value h d x = parse_value f d x" "parse_members h d x = parse_members f d x" if "length x < length t" for x
      using that 2(1) g(2) by (intro Suc.IH; simp)+
    show ?case
    proof (cases "scan_string (tl t)")
      case (Some kr)
      then obtain k r1 where s: "scan_string (tl t) = Some (k, r1)" by (cases kr) auto
      let ?t = "skip_ws (tl (skip_ws r1))"
      have l: "length ?t < length t"
        using skip_ws_length [of "tl (skip_ws r1)"] skip_ws_length [of r1] scan_string_shorter [OF s] by simp
      have "length (skip_ws r3) < length t" if "parse_value f d ?t = Some (x, r2)" "skip_ws r2 = c # r3" for x r2 c r3
        using parse_shorter(1) [OF that(1)] l skip_ws_length [of r2] skip_ws_length [of r3] that(2) by simp
      then show ?thesis
        unfolding g(1) parse_members.simps s option.case prod.case v(1) [OF l]
        by (auto simp: v(2) split: option.split list.split)
    qed (simp add: g(1))
  next
    case 3
    then obtain h where g: "g = Suc h" "f \<le> h" by (cases g) auto
    have v: "parse_value h d t = parse_value f d t" using 3(1) g(2) by (intro Suc.IH; simp)
    have e: "parse_elems h d x = parse_elems f d x" if "length x < length t" for x
      using that 3(1) g(2) by (intro Suc.IH; simp)
    have "length (skip_ws r3) < length t" if "parse_value f d t = Some (x, r2)" "skip_ws r2 = c # r3" for x r2 c r3
      using parse_shorter(1) [OF that(1)] skip_ws_length [of r2] skip_ws_length [of r3] that(2) by simp
    then show ?case
      unfolding g(1) parse_elems.simps v by (auto simp: e split: option.split list.split)
  }
qed simp_all

section \<open>Texts of one value and of one member\<close>

text \<open>
  \<open>value_text d x v\<close>: in front of a comma, a closing brace or a space, the text \<open>x\<close> is read as exactly the value \<open>v\<close>.
\<close>

definition follows :: "byte \<Rightarrow> bool" where
  "follows c \<longleftrightarrow> c = CHR '','' \<or> c = CHR ''}'' \<or> is_ws c"

definition value_text :: "nat \<Rightarrow> bytes \<Rightarrow> json \<Rightarrow> bool" where
  "value_text d x v \<longleftrightarrow> skip_ws x = x \<and> x \<noteq> [] \<and>
     (\<forall>f c r. 2 * length x < f \<and> follows c \<longrightarrow> parse_value f d (x @ c # r) = Some (v, c # r))"

definition member_text :: "nat \<Rightarrow> bytes \<Rightarrow> bytes \<times> json \<Rightarrow> bool" where
  "member_text d m kv \<longleftrightarrow> prefix [quote] m \<and>
     (\<forall>f r. 2 * length m < f \<longrightarrow>
        parse_members f d (m @ CHR '','' # r) =
          map_option (\<lambda>(ms, r'). (kv # ms, r')) (parse_members (f - 1) d (skip_ws r)) \<and>
        (\<forall>w. list_all is_ws w \<longrightarrow> parse_members f d (m @ w @ CHR ''}'' # r) = Some ([kv], r)))"

lemma skip_ws_append: "skip_ws x = x \<Longrightarrow> x \<noteq> [] \<Longrightarrow> skip_ws (x @ y) = x @ y"
  unfolding skip_ws_def dropWhile_eq_self_iff by simp

lemma skip_ws_Cons: "\<not> is_ws c \<Longrightarrow> skip_ws (c # t) = c # t"
  by (simp add: skip_ws_def)

lemma skip_ws_all: "list_all is_ws w \<Longrightarrow> skip_ws (w @ t) = skip_ws t"
  by (auto simp: skip_ws_def list_all_iff dropWhile_append)

lemma is_brace_not_ws: "\<not> is_ws (CHR ''}'')"
  by simp

lemma member_text_intro:
  assumes "value_text d x v"
  shows "member_text d (marshal_string k @ CHR '':'' # x) (sanitize k, v)"
proof -
  let ?m = "marshal_string k @ CHR '':'' # x"
  have step: "parse_members (Suc g) d (?m @ c # r) =
      (case skip_ws (c # r) of
         [] \<Rightarrow> None
       | b # r3 \<Rightarrow>
           if b = CHR '','' then map_option (\<lambda>(ms, r'). ((sanitize k, v) # ms, r')) (parse_members g d (skip_ws r3))
           else if b = CHR ''}'' then Some ([(sanitize k, v)], r3) else None)"
    if "2 * length ?m < Suc g" "follows c" for g c r
  proof -
    have g: "2 * length x < g" using that(1) by simp
    have "skip_ws (x @ c # r) = x @ c # r" "parse_value g d (x @ c # r) = Some (v, c # r)"
      using assms g that(2) skip_ws_append unfolding value_text_def by blast+
    moreover have "scan_string (esc_body k @ quote # CHR '':'' # y) = Some (esc_body k, CHR '':'' # y)" for y
      by (rule scan_esc_body)
    ultimately show ?thesis by (simp add: marshal_string_def skip_ws_Cons unquote_esc_body split: list.split)
  qed
  show ?thesis
    unfolding member_text_def
  proof (intro conjI allI impI)
    show "prefix [quote] ?m" by (simp add: marshal_string_def)
  next
    fix f r assume f: "2 * length ?m < f"
    then show "parse_members f d (?m @ CHR '','' # r) =
        map_option (\<lambda>(ms, r'). ((sanitize k, v) # ms, r')) (parse_members (f - 1) d (skip_ws r))"
      using step [of "f - 1" "CHR '',''" r] by (simp add: follows_def skip_ws_Cons)
  next
    fix f r w assume f: "2 * length ?m < f" and w: "list_all is_ws w"
    obtain c r' where c: "w @ CHR ''}'' # r = c # r'" "follows c" using w by (cases w) (auto simp: follows_def)
    have "skip_ws (c # r') = CHR ''}'' # r" using skip_ws_all [OF w] c(1) by (metis skip_ws_Cons is_brace_not_ws)
    then show "parse_members f d (?m @ w @ CHR ''}'' # r) = Some ([(sanitize k, v)], r)"
      using step [of "f - 1" c r'] f c by simp
  qed
qed

lemma string_text: "value_text d (marshal_string s) (JStr (sanitize s))"
  unfolding value_text_def
proof (intro conjI allI impI)
  fix f c r assume "2 * length (marshal_string s) < f \<and> follows c"
  then obtain g where g: "f = Suc g" by (cases f) auto
  show "parse_value f d (marshal_string s @ c # r) = Some (JStr (sanitize s), c # r)"
    by (simp add: g marshal_string_def scan_esc_body unquote_esc_body)
qed (simp_all add: marshal_string_def skip_ws_def)

lemma true_text: "value_text d ''true'' (JBool True)"
  unfolding value_text_def
proof (intro conjI allI impI)
  fix f c r assume "2 * length ''true'' < f \<and> follows c"
  then obtain g where g: "f = Suc g" by (cases f) auto
  show "parse_value f d (''true'' @ c # r) = Some (JBool True, c # r)"
    by (simp add: g scan_lit_def)
qed (simp_all add: skip_ws_def)

lemma digits_of_leading_zero: "digits_of n = c # r \<Longrightarrow> c = CHR ''0'' \<Longrightarrow> n = 0"
proof (induction n arbitrary: r rule: digits_of.induct)
  case (1 n)
  show ?case
  proof (cases "n < 10")
    case True
    then have "char_of (48 + n) = CHR ''0''" using 1(2,3) by (simp add: digits_of.simps [of n])
    then have "byte_val (char_of (48 + n) :: char) = 48" by simp
    then show ?thesis using True by (simp add: take_bit_nat_eq_self)
  next
    case False
    then obtain r' where "digits_of (n div 10) = c # r'"
      using 1(2) by (cases "digits_of (n div 10)") (auto simp: digits_of.simps [of n])
    then show ?thesis using 1(1) False 1(3) by (simp add: div_eq_0_iff)
  qed
qed

lemma scan_number_digits:
  assumes "follows c"
  shows "scan_number (digits_of n @ c # r) = Some (digits_of n, c # r)"
proof -
  have c: "\<not> is_digit c" "c \<noteq> CHR ''.''" "c \<noteq> CHR ''e''" "c \<noteq> CHR ''E''" using assms by (auto simp: is_digit_def follows_def)
  then have frac: "scan_frac acc (c # r) = Some (acc, c # r)" for acc by (simp add: scan_frac_def scan_exp_def)
  obtain a u where d: "digits_of n = a # u" by (cases "digits_of n") auto
  have ds: "\<forall>x \<in> set (a # u). is_digit x" using digits_of_digits [of n] by (simp add: d list_all_iff)
  then have "a \<noteq> CHR ''-''" "is_digit a" by (auto simp: is_digit_def)
  moreover have "takeWhile is_digit ((a # u) @ c # r) = a # u" "dropWhile is_digit ((a # u) @ c # r) = c # r"
    using ds c(1) by (simp_all add: takeWhile_append dropWhile_append)
  moreover have "u = []" if "a = CHR ''0''"
    using digits_of_leading_zero [OF d that] d by (simp add: digits_of.simps)
  ultimately show ?thesis unfolding d scan_number_def Let_def by (auto simp: frac)
qed

lemma number_text: "value_text d (digits_of n) (JNum (digits_of n))"
proof -
  obtain a u where d: "digits_of n = a # u" by (cases "digits_of n") auto
  then have a: "is_digit a" using digits_of_digits [of n] by simp
  then have nc: "a \<notin> {CHR ''{'', CHR ''['', quote, CHR ''t'', CHR ''f'', CHR ''n''}" "\<not> is_ws a"
    by (auto simp: is_digit_def)
  have "parse_value f e (digits_of n @ c # r) = Some (JNum (digits_of n), c # r)"
    if "2 * length (digits_of n) < f" "follows c" for f e c r
    using that(1) nc(1) scan_number_digits [OF that(2), of n r] d by (cases f) auto
  then show ?thesis unfolding value_text_def using nc(2) by (auto simp: d skip_ws_Cons)
qed

section \<open>Objects\<close>

text \<open>The members of an object, separated by commas and closed by a brace.\<close>

lemma members_text:
  assumes "list_all2 (member_text d) ms kvs" "ms \<noteq> []" "2 * length (join_members ms) < f"
  shows "parse_members f d (join_members ms @ r) = Some (kvs, r)"
  using assms
proof (induction arbitrary: f rule: list_all2_induct)
  case (Cons m ms kv kvs)
  show ?case
  proof (cases ms)
    case Nil
    then have "2 * length m < f" "kvs = []" using Cons by simp_all
    then show ?thesis using Cons.hyps(1) Nil unfolding member_text_def by (metis append_Cons append_Nil append_assoc join_members.simps(2) list.pred_inject(1))
  next
    case (Cons m' ms')
    have q: "skip_ws (join_members ms @ r) = join_members ms @ r"
    proof -
      have "prefix [quote] m'" using Cons.hyps(2) Cons by (auto simp: list_all2_Cons1 member_text_def)
      then obtain y where "join_members ms = quote # y" by (cases ms') (auto simp: Cons prefix_one)
      then show ?thesis by (simp add: skip_ws_Cons)
    qed
    have f: "2 * length m < f" "2 * length (join_members ms) < f - 1" using Cons.prems Cons by simp_all
    have "parse_members (f - 1) d (join_members ms @ r) = Some (kvs, r)" using Cons.IH Cons f(2) by simp
    then show ?thesis using Cons.hyps(1) f(1) q Cons by (simp add: member_text_def)
  qed
qed simp

lemma map_text:
  "value_text (Suc d) (marshal_map kvs) (JObj (map (\<lambda>(k, v). (sanitize k, JStr (sanitize v))) (sort_key fst kvs)))"
proof -
  let ?ks = "sort_key fst kvs" and ?v = "\<lambda>(k, v). (sanitize k, JStr (sanitize v))"
  have m: "list_all2 (member_text d) (map marshal_member ?ks) (map ?v ?ks)"
    using member_text_intro [OF string_text]
    by (auto simp: list_all2_conv_all_nth marshal_member_def case_prod_unfold)
  have "parse_value f (Suc d) (marshal_map kvs @ c # r) = Some (JObj (map ?v ?ks), c # r)"
    if f: "2 * length (marshal_map kvs) < f" for f c r
  proof -
    obtain g where g: "f = Suc g" "2 * length (join_members (map marshal_member ?ks)) < g"
      using f by (cases f) (auto simp: marshal_map_def)
    show ?thesis
    proof (cases "?ks")
      case Nil
      then show ?thesis by (simp add: g(1) marshal_map_def skip_ws_Cons)
    next
      case (Cons kv ks)
      then obtain y where y: "join_members (map marshal_member ?ks) = quote # y"
        by (cases ks) (auto simp: marshal_member_def marshal_string_def)
      have "parse_members g d (join_members (map marshal_member ?ks) @ c # r) = Some (map ?v ?ks, c # r)"
        using members_text [OF m _ g(2)] Cons by simp
      then show ?thesis unfolding marshal_map_def y by (simp add: g(1) skip_ws_Cons)
    qed
  qed
  then show ?thesis unfolding value_text_def by (simp add: marshal_map_def skip_ws_Cons)
qed

text \<open>A whole object written out.\<close>

lemma Parse_object:
  assumes "list_all2 (member_text (maxNestingDepth - 1)) ms kvs"
  shows "Parse (CHR ''{'' # join_members ms) = Some (JObj kvs)"
proof (cases ms)
  case Nil
  have "parse_value (Suc f) maxNestingDepth ''{}'' = Some (JObj [], [])" for f
    by (simp add: maxNestingDepth_def skip_ws_Cons)
  from this [of 4] show ?thesis using assms Nil by (simp add: Parse_def skip_ws_Cons) (simp add: skip_ws_def)
next
  case (Cons m ms')
  have "prefix [quote] m" using assms Cons by (auto simp: list_all2_Cons1 member_text_def)
  then obtain y where y: "join_members ms = quote # y" by (cases ms') (auto simp: Cons prefix_one)
  let ?f = "2 * length (CHR ''{'' # join_members ms)"
  have "parse_members ?f (maxNestingDepth - 1) (join_members ms @ []) = Some (kvs, [])"
    using assms Cons by (intro members_text) simp_all
  then have "parse_value (Suc ?f) maxNestingDepth (CHR ''{'' # join_members ms) = Some (JObj kvs, [])"
    unfolding y by (simp add: skip_ws_Cons maxNestingDepth_def)
  then show ?thesis unfolding Parse_def by (simp add: skip_ws_Cons) (simp add: skip_ws_def)
qed

text \<open>Members, each followed by a comma, in front of more members.\<close>

definition comma_all :: "bytes list \<Rightarrow> bytes" where
  "comma_all ms = concat (map (\<lambda>m. m @ '','') ms)"

lemma members_prefix:
  assumes "list_all2 (member_text d) ms kvs" "2 * length (comma_all ms) < f"
  shows "parse_members f d (skip_ws (comma_all ms @ t)) =
     map_option (\<lambda>(xs, r). (kvs @ xs, r)) (parse_members (f - length ms) d (skip_ws t))"
  using assms
proof (induction arbitrary: f rule: list_all2_induct)
  case Nil
  show ?case by (cases "parse_members f d (skip_ws t)") (auto simp: comma_all_def)
next
  case (Cons m ms kv kvs)
  obtain y where "m = quote # y" using Cons.hyps(1) by (auto simp: member_text_def prefix_one)
  then have "skip_ws (comma_all (m # ms) @ t) = m @ CHR '','' # comma_all ms @ t"
    by (simp add: comma_all_def skip_ws_Cons)
  moreover have "2 * length m < f" "2 * length (comma_all ms) < f - 1" using Cons.prems by (simp_all add: comma_all_def)
  ultimately have "parse_members f d (skip_ws (comma_all (m # ms) @ t)) =
      map_option (\<lambda>(ms, r'). (kv # ms, r')) (parse_members (f - 1) d (skip_ws (comma_all ms @ t)))"
    using Cons.hyps(1) by (simp add: member_text_def)
  also have "parse_members (f - 1) d (skip_ws (comma_all ms @ t)) =
      map_option (\<lambda>(xs, r). (kvs @ xs, r)) (parse_members (f - 1 - length ms) d (skip_ws t))"
    using Cons.IH \<open>2 * length (comma_all ms) < f - 1\<close> by blast
  finally show ?case by (simp add: option.map_comp comp_def case_prod_unfold)
qed

lemma comma_all_length: "length ms \<le> length (comma_all ms)"
  by (induction ms) (auto simp: comma_all_def)

section \<open>Putting fields in front of an object\<close>

lemma Parse_brace:
  assumes "list_all is_ws w"
  shows "Parse (w @ CHR ''{'' # t) = Some (JObj kvs) \<longleftrightarrow>
     (\<exists>r. skip_ws r = [] \<and>
        (if prefix ''}'' (skip_ws t) then kvs = [] \<and> r = tl (skip_ws t)
         else parse_members (2 * length (w @ CHR ''{'' # t)) (maxNestingDepth - 1) (skip_ws t) = Some (kvs, r)))"
proof -
  have "skip_ws (w @ CHR ''{'' # t) = CHR ''{'' # t" using skip_ws_all [OF assms] by (simp add: skip_ws_Cons)
  moreover have "maxNestingDepth \<noteq> 0" by (simp add: maxNestingDepth_def)
  ultimately show ?thesis
    by (auto simp: Parse_def split: option.splits if_splits)
qed

lemma skip_ws_split: "\<exists>w. list_all is_ws w \<and> t = w @ skip_ws t"
  by (intro exI [of _ "takeWhile is_ws t"]) (auto simp: skip_ws_def list_all_iff dest: set_takeWhileD)

lemma butlast_comma_all: "butlast (comma_all (ms @ [m])) = comma_all ms @ m"
  by (simp add: comma_all_def butlast_append)

lemma Parse_splice:
  assumes line: "Parse (w @ CHR ''{'' # rest) = Some (JObj kvs)" and w: "list_all is_ws w"
    and ms: "list_all2 (member_text (maxNestingDepth - 1)) ms hs" "ms \<noteq> []"
  shows "Parse (w @ CHR ''{'' # (if prefix ''}'' (skip_ws rest) then butlast (comma_all ms) else comma_all ms) @ rest)
     = Some (JObj (hs @ kvs))"
proof (cases "prefix ''}'' (skip_ws rest)")
  case True
  obtain r where r: "skip_ws rest = CHR ''}'' # r" "skip_ws r = []" "kvs = []"
    using line True unfolding Parse_brace [OF w] by (auto simp: prefix_one)
  obtain w2 where w2: "list_all is_ws w2" "rest = w2 @ CHR ''}'' # r" using skip_ws_split [of rest] r(1) by auto
  obtain ms0 m where m: "ms = ms0 @ [m]" using ms(2) by (cases ms rule: rev_cases) auto
  then obtain hs0 h where h: "hs = hs0 @ [h]" "list_all2 (member_text (maxNestingDepth - 1)) ms0 hs0"
      "member_text (maxNestingDepth - 1) m h"
    using ms(1) by (auto simp: list_all2_append1 list_all2_Cons1)
  obtain y where y: "m = quote # y" using h(3) by (auto simp: member_text_def prefix_one)
  let ?t = "comma_all ms0 @ m @ rest"
  have np: "\<not> prefix ''}'' (skip_ws ?t)"
  proof (cases ms0)
    case Nil
    then show ?thesis using y by (simp add: comma_all_def skip_ws_Cons)
  next
    case (Cons m0 ms1)
    then obtain z where "m0 = quote # z" using h(2) by (auto simp: list_all2_Cons1 member_text_def prefix_one)
    then show ?thesis using Cons by (simp add: comma_all_def skip_ws_Cons)
  qed
  let ?f = "2 * length (w @ CHR ''{'' # ?t)"
  have f: "2 * length (comma_all ms0) < ?f" "2 * length m < ?f - length ms0"
    using comma_all_length [of ms0] by simp_all
  have "parse_members (?f - length ms0) (maxNestingDepth - 1) (m @ w2 @ CHR ''}'' # r) = Some ([h], r)"
    using h(3) f(2) w2(1) unfolding member_text_def by blast
  moreover have "skip_ws (m @ rest) = m @ w2 @ CHR ''}'' # r" using y w2(2) by (simp add: skip_ws_Cons)
  ultimately have "parse_members ?f (maxNestingDepth - 1) (skip_ws ?t) = Some (hs, r)"
    using members_prefix [OF h(2) f(1), of "m @ rest"] h(1) by simp
  then have "Parse (w @ CHR ''{'' # ?t) = Some (JObj hs)"
    unfolding Parse_brace [OF w] using np r(2) by auto
  then show ?thesis using True m r(3) by (simp add: butlast_comma_all)
next
  case False
  obtain r where r: "skip_ws r = []"
      "parse_members (2 * length (w @ CHR ''{'' # rest)) (maxNestingDepth - 1) (skip_ws rest) = Some (kvs, r)"
    using line False unfolding Parse_brace [OF w] by auto
  let ?t = "comma_all ms @ rest"
  obtain m0 ms1 where m0: "ms = m0 # ms1" using ms(2) by (cases ms) auto
  then obtain z where "m0 = quote # z" using ms(1) by (auto simp: list_all2_Cons1 member_text_def prefix_one)
  then have np: "\<not> prefix ''}'' (skip_ws ?t)" using m0 by (simp add: comma_all_def skip_ws_Cons)
  let ?f = "2 * length (w @ CHR ''{'' # ?t)" and ?d = "maxNestingDepth - 1"
  have f: "2 * length (comma_all ms) < ?f" by simp
  have l: "2 * length (skip_ws rest) < 2 * length (w @ CHR ''{'' # rest)" "2 * length (w @ CHR ''{'' # rest) \<le> ?f - length ms"
    using skip_ws_length [of rest] comma_all_length [of ms] by simp_all
  have "parse_members (?f - length ms) ?d (skip_ws rest) = Some (kvs, r)"
    using parse_fuel(2) [OF l] r(2) by simp
  then have "parse_members ?f ?d (skip_ws ?t) = Some (hs @ kvs, r)"
    using members_prefix [OF ms(1) f, of rest] by simp
  then have "Parse (w @ CHR ''{'' # ?t) = Some (JObj (hs @ kvs))"
    unfolding Parse_brace [OF w] using np r(1) by auto
  then show ?thesis using False by simp
qed

lemma sanitize_ascii: "is_ascii s \<Longrightarrow> sanitize s = s"
  by (induction s) (auto simp: sanitize_def is_ascii_def encode_rune_ascii)

end
