(* ===== verification/LogRelay.thy ===== *)
theory LogRelay
  imports Json_Roundtrip Go_Bufio Config_Valid
begin

text \<open>
  \<open>internal/outbound/logrelay.go\<close>: enrichment of NDJSON records, the reference-counted sink, and the read
  loop of a log_relay connection.
\<close>

section \<open>Enrichment\<close>

definition defaultLogRelayMaxLine :: nat where "defaultLogRelayMaxLine = 2 ^ 20"
definition logRelayDefaultHostKey :: bytes where "logRelayDefaultHostKey = ''host''"

record enrichConfig =
  ec_cid :: bool
  ec_hostKeyJSON :: bytes
  ec_hostObjJSON :: bytes
  ec_reserved :: "bytes set"

text \<open>\<open>json.Marshal\<close> of a string and of a map of strings cannot fail, so neither can this.\<close>

definition newEnrichConfig :: "LogRelayEnrich option \<Rightarrow> enrichConfig option" where
  "newEnrichConfig eo =
     (case eo of
        None \<Rightarrow> None
      | Some e \<Rightarrow>
          let hostKey = (if le_HostKey e = [] then logRelayDefaultHostKey else le_HostKey e);
              reserved = (if le_CID e then {''cid''} else {});
              ec = \<lparr>ec_cid = le_CID e, ec_hostKeyJSON = marshal_string hostKey, ec_hostObjJSON = [], ec_reserved = reserved\<rparr>
          in Some (if le_Tags e \<noteq> []
                   then ec\<lparr>ec_hostObjJSON := marshal_map (le_Tags e), ec_reserved := insert hostKey reserved\<rparr>
                   else ec))"

abbreviation quoted :: "bytes \<Rightarrow> bytes" where
  "quoted s \<equiv> quote # s @ [quote]"

definition buildPrefix :: "enrichConfig \<Rightarrow> uint32 \<Rightarrow> bytes" where
  "buildPrefix ec cid =
     (if ec_cid ec then quoted ''cid'' @ '':'' @ FormatUint cid @ '','' else [])
     @ (if ec_hostObjJSON ec \<noteq> [] then ec_hostKeyJSON ec @ '':'' @ ec_hostObjJSON ec @ '','' else [])"

record enricher =
  en_active :: bool
  en_prefix :: bytes
  en_reserved :: "bytes set"

definition newEnricher :: "enrichConfig option \<Rightarrow> uint32 \<Rightarrow> enricher" where
  "newEnricher eco cid =
     (case eco of
        None \<Rightarrow> \<lparr>en_active = False, en_prefix = [], en_reserved = {}\<rparr>
      | Some ec \<Rightarrow> \<lparr>en_active = True, en_prefix = buildPrefix ec cid, en_reserved = ec_reserved ec\<rparr>)"

text \<open>
  The loop of \<open>hasReservedTopLevelKey\<close> over what \<open>Decoder.Token\<close> returns: the opening brace has been
  consumed, \<open>depth\<close> counts open braces and brackets, \<open>expectKey\<close> says whether a key comes next. The end of
  the list is \<open>Token\<close>'s error.
\<close>

fun key_scan :: "token list \<Rightarrow> nat \<Rightarrow> bool \<Rightarrow> bytes set \<Rightarrow> bool" where
  "key_scan [] depth expectKey reserved = False"
| "key_scan (tok # toks) depth expectKey reserved =
     (case tok of
        Delim d \<Rightarrow>
          if d = CHR ''{'' \<or> d = CHR ''['' then key_scan toks (depth + 1) False reserved
          else if d = CHR ''}'' \<or> d = CHR '']'' then
            if depth - 1 = 0 then False else key_scan toks (depth - 1) (depth - 1 = 1) reserved
          else key_scan toks depth expectKey reserved
      | _ \<Rightarrow>
          if depth \<noteq> 1 then key_scan toks depth expectKey reserved
          else if expectKey then
            (case tok of
               TStr s \<Rightarrow> if s \<in> reserved then True else key_scan toks depth False reserved
             | _ \<Rightarrow> key_scan toks depth False reserved)
          else key_scan toks depth True reserved)"

definition hasReservedTopLevelKey :: "token list \<Rightarrow> bytes set \<Rightarrow> bool" where
  "hasReservedTopLevelKey toks reserved =
     (case toks of [] \<Rightarrow> False | _ # toks' \<Rightarrow> key_scan toks' 1 True reserved)"

definition Tokens :: "bytes \<Rightarrow> token list" where
  "Tokens line = (case Parse line of None \<Rightarrow> [] | Some v \<Rightarrow> tokens_of v)"

definition isJSONObject :: "bytes \<Rightarrow> bool" where
  "isJSONObject line = (case skip_ws line of [] \<Rightarrow> False | c # _ \<Rightarrow> c = CHR ''{'' \<and> Valid line)"

definition spliceObject :: "bytes \<Rightarrow> bytes \<Rightarrow> bytes" where
  "spliceObject pre line =
     (if pre = [] then line
      else
        let n = (case IndexByte line (CHR ''{'') of None \<Rightarrow> 0 | Some i \<Rightarrow> Suc i);
            rest = drop n line
        in take n line @ (if prefix ''}'' (skip_ws rest) then butlast pre else pre) @ rest)"

definition wrapRaw :: "bytes \<Rightarrow> bytes \<Rightarrow> bool \<Rightarrow> bytes" where
  "wrapRaw pre line truncated =
     ''{'' @ pre @ quoted ''type'' @ '':'' @ quoted ''raw'' @ '','' @ quoted ''msg'' @ '':''
       @ marshal_string line
       @ (if truncated then '','' @ quoted ''truncated'' @ '':true'' else []) @ ''}''"

definition emit :: "enricher \<Rightarrow> bytes \<Rightarrow> bool \<Rightarrow> bytes" where
  "emit e line truncated =
     (if truncated then wrapRaw (en_prefix e) line True
      else if \<not> en_active e then line
      else if isJSONObject line then
        if en_reserved e \<noteq> {} \<and> hasReservedTopLevelKey (Tokens line) (en_reserved e)
        then wrapRaw (en_prefix e) line False
        else spliceObject (en_prefix e) line
      else wrapRaw (en_prefix e) line False)"

definition dropNewline :: "bytes \<Rightarrow> bytes" where
  "dropNewline b =
     (if b \<noteq> [] \<and> last b = CHR 0x0A
      then let b1 = butlast b in if b1 \<noteq> [] \<and> last b1 = CHR 0x0D then butlast b1 else b1
      else b)"

section \<open>Reserved keys\<close>

lemma key_scan_skip:
  assumes "\<forall>x \<in> set xs. \<forall>e. \<exists>e'. \<forall>ts. key_scan (g x @ ts) d e R = key_scan ts d e' R"
  shows "\<exists>e'. \<forall>ts. key_scan (concat (map g xs) @ ts) d e R = key_scan ts d e' R"
  using assms
proof (induction xs arbitrary: e)
  case (Cons x xs)
  obtain e1 where e1: "\<forall>ts. key_scan (g x @ ts) d e R = key_scan ts d e1 R"
    using Cons.prems by (meson list.set_intros(1))
  obtain e2 where "\<forall>ts. key_scan (concat (map g xs) @ ts) d e1 R = key_scan ts d e2 R"
    using Cons.IH [of e1] Cons.prems by (meson list.set_intros(2))
  then show ?case using e1 by (intro exI [of _ e2]) simp
qed auto

text \<open>A value below the top level is passed over whatever it holds.\<close>

lemma key_scan_nested: "2 \<le> d \<Longrightarrow> \<exists>e'. \<forall>ts. key_scan (tokens_of v @ ts) d e R = key_scan ts d e' R"
proof (induction v arbitrary: d e rule: tokens_of.induct)
  case (5 vs)
  obtain e' where "\<forall>ts. key_scan (concat (map tokens_of vs) @ ts) (Suc d) False R = key_scan ts (Suc d) e' R"
    using key_scan_skip [of vs tokens_of "Suc d" R False] 5 by auto
  then show ?case using 5(2) by (intro exI [of _ False]) simp
next
  case (6 ms)
  let ?g = "\<lambda>(k, v). TStr k # tokens_of v"
  have "\<forall>x \<in> set ms. \<forall>e. \<exists>e'. \<forall>ts. key_scan (?g x @ ts) (Suc d) e R = key_scan ts (Suc d) e' R"
    using 6 by fastforce
  from key_scan_skip [OF this, of False]
  obtain e' where "\<forall>ts. key_scan (concat (map ?g ms) @ ts) (Suc d) False R = key_scan ts (Suc d) e' R" by auto
  then show ?case using 6(2) by (intro exI [of _ False]) simp
qed auto

text \<open>A value at the top level leaves the scan waiting for the next key.\<close>

lemma key_scan_value: "key_scan (tokens_of v @ ts) 1 False R = key_scan ts 1 True R"
proof (cases v)
  case (JArr vs)
  obtain e' where "\<forall>ts. key_scan (concat (map tokens_of vs) @ ts) 2 False R = key_scan ts 2 e' R"
    using key_scan_skip [of vs tokens_of 2 R False] key_scan_nested [of 2 _ _ R] by auto
  then show ?thesis by (simp add: JArr numeral_2_eq_2)
next
  case (JObj ms)
  let ?g = "\<lambda>(k, v). TStr k # tokens_of v"
  have "\<forall>x \<in> set ms. \<forall>e. \<exists>e'. \<forall>ts. key_scan (?g x @ ts) 2 e R = key_scan ts 2 e' R"
    using key_scan_nested [of 2 _ _ R] by fastforce
  from key_scan_skip [OF this, of False]
  obtain e' where "\<forall>ts. key_scan (concat (map ?g ms) @ ts) 2 False R = key_scan ts 2 e' R" by auto
  then show ?thesis by (simp add: JObj numeral_2_eq_2)
qed simp_all

lemma key_scan_members:
  "key_scan (concat (map (\<lambda>(k, v). TStr k # tokens_of v) ms) @ [Delim (CHR ''}'')]) 1 True R \<longleftrightarrow>
     (\<exists>k v. (k, v) \<in> set ms \<and> k \<in> R)"
proof (induction ms)
  case (Cons m ms)
  then show ?case by (cases m) (auto simp: key_scan_value [unfolded One_nat_def])
qed simp

section \<open>What an enriched line says\<close>

text \<open>The fields the host adds for an enrich block, and the fields of a raw record.\<close>

definition host_fields :: "LogRelayEnrich \<Rightarrow> uint32 \<Rightarrow> (bytes \<times> json) list" where
  "host_fields e cid =
     (if le_CID e then [(''cid'', JNum (FormatUint cid))] else [])
     @ (if le_Tags e \<noteq> []
        then [(sanitize (host_key_of e), JObj (map (\<lambda>(k, v). (sanitize k, JStr (sanitize v))) (sort_key fst (le_Tags e))))]
        else [])"

definition host_keys :: "LogRelayEnrich \<Rightarrow> bytes set" where
  "host_keys e = (if le_CID e then {''cid''} else {}) \<union> (if le_Tags e \<noteq> [] then {host_key_of e} else {})"

definition raw_fields :: "bytes \<Rightarrow> bool \<Rightarrow> (bytes \<times> json) list" where
  "raw_fields line truncated =
     [(''type'', JStr ''raw''), (''msg'', JStr (sanitize line))] @ (if truncated then [(''truncated'', JBool True)] else [])"

definition record_fields :: "LogRelayEnrich \<Rightarrow> bytes \<Rightarrow> bool \<Rightarrow> (bytes \<times> json) list" where
  "record_fields e line truncated =
     (case Parse line of
        Some (JObj ms) \<Rightarrow>
          if truncated \<or> (\<exists>k \<in> fst ` set ms. k \<in> host_keys e) then raw_fields line truncated else ms
      | _ \<Rightarrow> raw_fields line truncated)"

definition host_members :: "LogRelayEnrich \<Rightarrow> uint32 \<Rightarrow> bytes list" where
  "host_members e cid =
     (if le_CID e then [marshal_string ''cid'' @ CHR '':'' # FormatUint cid] else [])
     @ (if le_Tags e \<noteq> [] then [marshal_string (host_key_of e) @ CHR '':'' # marshal_map (le_Tags e)] else [])"

lemma marshal_lits [simp]:
  "marshal_string ''cid'' = quoted ''cid''" "marshal_string ''type'' = quoted ''type''"
  "marshal_string ''raw'' = quoted ''raw''" "marshal_string ''msg'' = quoted ''msg''"
  "marshal_string ''truncated'' = quoted ''truncated''"
  by (simp_all add: marshal_string_def esc_body.simps(2) esc_ascii_def)

lemma sanitize_lits [simp]:
  "sanitize ''cid'' = ''cid''" "sanitize ''type'' = ''type''" "sanitize ''raw'' = ''raw''" "sanitize ''msg'' = ''msg''"
  "sanitize ''truncated'' = ''truncated''"
  by (simp_all add: sanitize_ascii is_ascii_def)

lemma newEnricher_fields:
  "newEnricher (newEnrichConfig (Some e)) cid =
     \<lparr>en_active = True, en_prefix = comma_all (host_members e cid), en_reserved = host_keys e\<rparr>"
  by (auto simp: newEnricher_def newEnrichConfig_def buildPrefix_def Let_def host_members_def host_keys_def comma_all_def
      host_key_of_def logRelayDefaultHostKey_def defaultHostKey_def marshal_map_def)

lemma host_members_text: "list_all2 (member_text (maxNestingDepth - 1)) (host_members e cid) (host_fields e cid)"
proof -
  have "maxNestingDepth - 1 = Suc (maxNestingDepth - 2)" by (simp add: maxNestingDepth_def)
  then show ?thesis
    using member_text_intro [OF number_text, of "maxNestingDepth - 1" "''cid''" "unat cid"]
      member_text_intro [OF map_text, of "maxNestingDepth - 2" "host_key_of e" "le_Tags e"]
    by (auto simp: host_members_def host_fields_def FormatUint_def)
qed

lemma raw_members_text:
  "list_all2 (member_text d)
     ([marshal_string ''type'' @ CHR '':'' # marshal_string ''raw'', marshal_string ''msg'' @ CHR '':'' # marshal_string line]
      @ (if truncated then [marshal_string ''truncated'' @ CHR '':'' # ''true''] else []))
     (raw_fields line truncated)"
  using member_text_intro [OF string_text, of d "''type''" "''raw''"] member_text_intro [OF string_text, of d "''msg''" line]
    member_text_intro [OF true_text, of d "''truncated''"]
  by (auto simp: raw_fields_def)

lemma join_comma_all: "ms \<noteq> [] \<Longrightarrow> comma_all hs @ join_members ms = join_members (hs @ ms)"
proof (induction hs)
  case (Cons h hs)
  then show ?case by (cases "hs @ ms") (auto simp: comma_all_def)
qed (simp add: comma_all_def)

lemma Parse_wrapRaw:
  "Parse (wrapRaw (comma_all (host_members e cid)) line truncated) = Some (JObj (host_fields e cid @ raw_fields line truncated))"
proof -
  let ?ms = "[marshal_string ''type'' @ CHR '':'' # marshal_string ''raw'', marshal_string ''msg'' @ CHR '':'' # marshal_string line]
      @ (if truncated then [marshal_string ''truncated'' @ CHR '':'' # ''true''] else [])"
  have "wrapRaw (comma_all (host_members e cid)) line truncated = CHR ''{'' # join_members (host_members e cid @ ?ms)"
    by (subst join_comma_all [symmetric]) (auto simp: wrapRaw_def)
  moreover have "list_all2 (member_text (maxNestingDepth - 1)) (host_members e cid @ ?ms) (host_fields e cid @ raw_fields line truncated)"
    using host_members_text raw_members_text by (intro list_all2_appendI)
  ultimately show ?thesis using Parse_object by simp
qed

lemma parse_value_JObj: "parse_value f d t = Some (JObj ms, r) \<Longrightarrow> \<exists>u. t = CHR ''{'' # u"
  by (cases f; cases t) (auto simp: scan_lit_def split: if_splits)

lemma isJSONObject_iff: "isJSONObject line \<longleftrightarrow> (\<exists>ms. Parse line = Some (JObj ms))"
proof
  assume "isJSONObject line"
  then obtain u v r where u: "skip_ws line = CHR ''{'' # u" and
    v: "parse_value (Suc (2 * length line)) maxNestingDepth (CHR ''{'' # u) = Some (v, r)" "Parse line = Some v"
    by (auto simp: isJSONObject_def Valid_def Parse_def split: list.splits option.splits if_splits)
  then show "\<exists>ms. Parse line = Some (JObj ms)" by (auto split: if_splits)
next
  assume "\<exists>ms. Parse line = Some (JObj ms)"
  then obtain ms r where "parse_value (Suc (2 * length line)) maxNestingDepth (skip_ws line) = Some (JObj ms, r)" "Valid line"
    by (auto simp: Valid_def Parse_def split: option.splits if_splits)
  then show "isJSONObject line" using parse_value_JObj by (fastforce simp: isJSONObject_def)
qed

lemma hasReserved_iff:
  "Parse line = Some (JObj ms) \<Longrightarrow> hasReservedTopLevelKey (Tokens line) R \<longleftrightarrow> (\<exists>k \<in> fst ` set ms. k \<in> R)"
  using key_scan_members [of ms R]
  by (force simp: hasReservedTopLevelKey_def Tokens_def image_iff)

lemma Parse_spliceObject:
  assumes "Parse line = Some (JObj ms)"
  shows "Parse (spliceObject (comma_all (host_members e cid)) line) = Some (JObj (host_fields e cid @ ms))"
proof (cases "host_members e cid = []")
  case True
  then have "host_fields e cid = []" using host_members_text [of e cid] by simp
  then show ?thesis using assms True by (simp add: spliceObject_def comma_all_def)
next
  case False
  obtain u where u: "skip_ws line = CHR ''{'' # u"
    using assms isJSONObject_iff [of line] by (auto simp: isJSONObject_def split: list.splits)
  obtain w where w: "list_all is_ws w" "line = w @ CHR ''{'' # u" using skip_ws_split [of line] u by auto
  have "CHR ''{'' \<notin> set w" using w(1) by (auto simp: list_all_iff)
  then have "IndexByte line (CHR ''{'') = Some (length w)" using w(2) IndexByte_append by simp
  moreover have "comma_all (host_members e cid) \<noteq> []"
    using False comma_all_length [of "host_members e cid"] by (cases "comma_all (host_members e cid)") auto
  ultimately show ?thesis
    using Parse_splice [OF assms [unfolded w(2)] w(1) host_members_text False] w(2) by (simp add: spliceObject_def)
qed

lemma emit_fields:
  "Parse (emit (newEnricher (newEnrichConfig (Some e)) cid) line truncated) =
     Some (JObj (host_fields e cid @ record_fields e line truncated))"
proof (cases "\<not> truncated \<and> (\<exists>ms. Parse line = Some (JObj ms))")
  case True
  then obtain ms where ms: "Parse line = Some (JObj ms)" by blast
  have "(host_keys e \<noteq> {} \<and> hasReservedTopLevelKey (Tokens line) (host_keys e)) = (\<exists>k \<in> fst ` set ms. k \<in> host_keys e)"
    using hasReserved_iff [OF ms, of "host_keys e"] by auto
  then show ?thesis
    using True ms isJSONObject_iff [of line] Parse_wrapRaw [of e cid line False] Parse_spliceObject [OF ms, of e cid]
    by (simp add: emit_def newEnricher_fields record_fields_def)
next
  case False
  then have "record_fields e line truncated = raw_fields line truncated"
    by (auto simp: record_fields_def split: option.splits json.splits)
  moreover have "emit (newEnricher (newEnrichConfig (Some e)) cid) line truncated =
      wrapRaw (comma_all (host_members e cid)) line truncated"
    using False isJSONObject_iff [of line] by (auto simp: emit_def newEnricher_fields)
  ultimately show ?thesis using Parse_wrapRaw by simp
qed

lemma sanitize_ascii_inv: "is_ascii (sanitize s) \<Longrightarrow> sanitize s = s"
proof (cases "is_ascii s")
  case False
  assume "is_ascii (sanitize s)"
  moreover have "\<not> is_ascii (sanitize s)"
    using False
  proof (induction s)
    case (Cons a s)
    show ?case
    proof (cases "byte_val a < 128")
      case True
      then show ?thesis using Cons by (simp add: sanitize_def is_ascii_def encode_rune_ascii)
    next
      case False
      have "128 \<le> fst (decode_rune (a # s))" using decode_rune_high(1) [of a s] False by simp
      from encode_rune_high [OF this] obtain c where "c \<in> set (encode_rune (fst (decode_rune (a # s))))" "128 \<le> byte_val c"
        by (metis encode_rune_nonempty hd_in_set)
      then show ?thesis by (auto simp: sanitize_def is_ascii_def runes.simps(2) list_all_iff intro!: bexI [of _ c])
    qed
  qed (simp add: is_ascii_def)
  ultimately show ?thesis by blast
qed (simp add: sanitize_ascii)

section \<open>Properties of the enrichment\<close>

text \<open>
  C25. The key scan is exact: on a JSON object \<open>hasReservedTopLevelKey\<close> returns true if and only if some
  top-level key, after unescaping, is reserved. Keys nested in values, keys that look like values and
  values that look like keys do not matter.
\<close>

theorem hasReservedTopLevelKey_exact:
  "Parse line = Some (JObj ms) \<Longrightarrow>
     hasReservedTopLevelKey (Tokens line) R \<longleftrightarrow> (\<exists>k \<in> fst ` set ms. k \<in> R)"
  by (rule hasReserved_iff)

definition sample_line :: bytes where
  "sample_line = ''{'' @ quoted ''a'' @ '':{'' @ quoted ''cid'' @ '':1}}''"

lemma sample_line_parse: "Parse sample_line = Some (JObj [(''a'', JObj [(''cid'', JNum ''1'')])])"
  by code_simp

theorem hasReservedTopLevelKey_exact_witness:
  "Parse sample_line = Some (JObj [(''a'', JObj [(''cid'', JNum ''1'')])]) \<and>
   (hasReservedTopLevelKey (Tokens sample_line) {''cid''} \<longleftrightarrow> ''a'' \<in> {''cid''})"
  using hasReservedTopLevelKey_exact [OF sample_line_parse, of "{''cid''}"] sample_line_parse by simp

text \<open>
  Every line a listener with an enrich block emits is one valid JSON object, whatever bytes the enclave
  sent: the host's fields first, followed by the enclave's own members when its line is an object with none
  of the host's keys, and otherwise by a raw record with the line (invalid UTF-8 replaced) as its message.
\<close>

theorem emit_exact:
  "Parse (emit (newEnricher (newEnrichConfig (Some e)) cid) line truncated) =
     Some (JObj (host_fields e cid @ record_fields e line truncated))"
  by (rule emit_fields)

text \<open>
  C3. The peer's context id cannot be spoofed: with \<open>enrich.cid\<close> on, the emitted object has exactly one member
  called \<open>cid\<close> and it is the number the vsock layer reported, for every line an enclave can send.
\<close>

theorem cid_unspoofable:
  assumes "enrich_good e" "le_CID e"
  shows "\<exists>ms. Parse (emit (newEnricher (newEnrichConfig (Some e)) cid) line truncated) = Some (JObj ms) \<and>
     filter (\<lambda>(k, v). k = ''cid'') ms = [(''cid'', JNum (FormatUint cid))]"
proof -
  have "sanitize (host_key_of e) \<noteq> ''cid''" if "le_Tags e \<noteq> []"
  proof
    assume *: "sanitize (host_key_of e) = ''cid''"
    then have "sanitize (host_key_of e) = host_key_of e" by (intro sanitize_ascii_inv) (simp add: is_ascii_def)
    then show False using * that assms by (simp add: enrich_good_def)
  qed
  then have "filter (\<lambda>(k, v). k = ''cid'') (host_fields e cid) = [(''cid'', JNum (FormatUint cid))]"
    using assms(2) by (simp add: host_fields_def)
  moreover have "''cid'' \<in> host_keys e" using assms(2) by (simp add: host_keys_def)
  then have "filter (\<lambda>(k, v). k = ''cid'') (record_fields e line truncated) = []"
    by (force simp: record_fields_def raw_fields_def filter_empty_conv split: option.splits json.splits)
  ultimately show ?thesis using emit_fields [of e cid line truncated] by simp
qed

definition sample_enrich :: LogRelayEnrich where
  "sample_enrich = \<lparr>le_CID = True, le_Tags = [(''region'', ''eu'')], le_HostKey = []\<rparr>"

theorem cid_unspoofable_witness:
  "enrich_good sample_enrich \<and> le_CID sample_enrich \<and>
   (\<exists>ms. Parse (emit (newEnricher (newEnrichConfig (Some sample_enrich)) 16) (''{'' @ quoted ''cid'' @ '':99}'') False) = Some (JObj ms) \<and>
     filter (\<lambda>(k, v). k = ''cid'') ms = [(''cid'', JNum (FormatUint 16))])"
proof -
  have "enrich_good sample_enrich" "le_CID sample_enrich"
    by (simp_all add: sample_enrich_def enrich_good_def host_key_of_def defaultHostKey_def relayReservedKeys_def)
  then show ?thesis
    using cid_unspoofable [of sample_enrich 16 "''{'' @ quoted ''cid'' @ '':99}''" False] by blast
qed

end
