(* ===== verification/Outbound.thy ===== *)
theory Outbound
  imports Outbound_Conn Relay_Sink LogRelay Staged_Reload
begin

text \<open>
  \<open>internal/outbound/server.go\<close>: the vsock side. As on the inbound side a listener is an object in a store and
  open sockets and started loops are part of the state; in addition the reference-counted log sinks are
  objects of their own, and \<open>ow_files\<close> holds those whose \<open>Close\<close> has not been called. \<open>ow_held\<close> says how
  many references the connection handlers in flight hold on each; the server's operations do not touch it.

  Whether \<open>listenFunc\<close> and \<open>os.OpenFile\<close> succeed is decided by the two components of \<open>env\<close>.
\<close>

section \<open>Listeners and the store\<close>

definition modeHTTPProxy :: bytes where "modeHTTPProxy = []"
definition modeVsockToTCP :: bytes where "modeVsockToTCP = ''vsock_to_tcp''"
definition modeLogRelay :: bytes where "modeLogRelay = ''log_relay''"

record relayState =
  rl_sink :: nat
  rl_enrich :: "enrichConfig option"
  rl_maxLineBytes :: int

record listener =
  lo_port :: uint32
  lo_mode :: bytes
  lo_ln :: "nat option"
  lo_done :: bool
  lo_matchers :: "(uint32 \<times> Matcher) list option"
  lo_upstream :: "bytes option"
  lo_relay :: "relayState option"

record world =
  ow_heap :: "nat \<Rightarrow> listener"
  ow_fresh :: nat
  ow_open :: "nat set"
  ow_sock :: nat
  ow_running :: "nat list"
  ow_sinks :: "nat \<Rightarrow> refSink"
  ow_sfresh :: nat
  ow_files :: "nat set"
  ow_held :: "nat \<Rightarrow> nat"
  ow_sinkErrors :: nat

record Server =
  so_listeners :: "nat list"
  so_ctx :: bool

datatype out_error =
    NoCIDs uint32
  | DuplicateCID uint32 uint32
  | MatcherError uint32 uint32 allow_error
  | UnknownOutput bytes
  | OpenFailed bytes
  | ListenVsockFailed uint32
  | OutSection bytes nat out_error
  | OutBeforeStart
  | OutModeChange bytes nat uint32 bytes bytes

type_synonym out_env2 = "(world \<Rightarrow> uint32 \<Rightarrow> bool) \<times> (world \<Rightarrow> bytes \<Rightarrow> bool)"

section \<open>Construction\<close>

definition add_cid :: "uint32 \<Rightarrow> nat \<Rightarrow> OutboundCID \<Rightarrow> (uint32 \<times> Matcher) list \<Rightarrow> out_error + (uint32 \<times> Matcher) list" where
  "add_cid port i oc ms =
     (if map_of ms (oc_CID oc) \<noteq> None then Inl (DuplicateCID port (oc_CID oc))
      else case New_matcher (oc_AllowedHosts oc) of
        Inl e \<Rightarrow> Inl (MatcherError port (oc_CID oc) e)
      | Inr m \<Rightarrow> Inr (ms @ [(oc_CID oc, m)]))"

definition newHTTPListener :: "OutboundListener \<Rightarrow> out_error + listener" where
  "newHTTPListener cfg =
     (if ol_CIDs cfg = [] then Inl (NoCIDs (ol_Port cfg))
      else case for_idx (add_cid (ol_Port cfg)) 0 (ol_CIDs cfg) [] of
        Inl e \<Rightarrow> Inl e
      | Inr ms \<Rightarrow>
          Inr \<lparr>lo_port = ol_Port cfg, lo_mode = modeHTTPProxy, lo_ln = None, lo_done = False, lo_matchers = Some ms,
               lo_upstream = None, lo_relay = None\<rparr>)"

definition newVsockToTCPListener :: "VsockToTCPListener \<Rightarrow> out_error + listener" where
  "newVsockToTCPListener cfg =
     Inr \<lparr>lo_port = vt_Port cfg, lo_mode = modeVsockToTCP, lo_ln = None, lo_done = False, lo_matchers = None,
          lo_upstream = Some (vt_Upstream cfg), lo_relay = None\<rparr>"

definition openSink :: "(world \<Rightarrow> bytes \<Rightarrow> bool) \<Rightarrow> LogRelayListener \<Rightarrow> world \<Rightarrow> out_error + sink" where
  "openSink openFile cfg w =
     (if lr_Output cfg = LogRelayOutputFile then
        if openFile w (lr_Path cfg) then Inr (FileSink (lr_Path cfg)) else Inl (OpenFailed (lr_Path cfg))
      else if lr_Output cfg = LogRelayOutputStdout then Inr StdoutSink
      else Inl (UnknownOutput (lr_Output cfg)))"

definition alloc_sink :: "sink \<Rightarrow> world \<Rightarrow> nat \<times> world" where
  "alloc_sink sk w =
     (ow_sfresh w, w\<lparr>ow_sinks := (ow_sinks w)(ow_sfresh w := newRefSink sk), ow_sfresh := Suc (ow_sfresh w),
                     ow_files := insert (ow_sfresh w) (ow_files w)\<rparr>)"

definition newLogRelayListener ::
  "(world \<Rightarrow> bytes \<Rightarrow> bool) \<Rightarrow> LogRelayListener \<Rightarrow> world \<Rightarrow> (out_error + listener) \<times> world" where
  "newLogRelayListener openFile cfg w =
     (let maxLine = (if lr_MaxLineBytes cfg \<le> 0 then int defaultLogRelayMaxLine else lr_MaxLineBytes cfg);
          ec = newEnrichConfig (lr_Enrich cfg)
      in case openSink openFile cfg w of
           Inl e \<Rightarrow> (Inl e, w\<lparr>ow_sinkErrors := Suc (ow_sinkErrors w)\<rparr>)
         | Inr sk \<Rightarrow>
             (case alloc_sink sk w of (a, w') \<Rightarrow>
                (Inr \<lparr>lo_port = lr_Port cfg, lo_mode = modeLogRelay, lo_ln = None, lo_done = False, lo_matchers = None,
                      lo_upstream = None, lo_relay = Some \<lparr>rl_sink = a, rl_enrich = ec, rl_maxLineBytes = maxLine\<rparr>\<rparr>, w')))"

definition matchersSnapshot :: "listener \<Rightarrow> (uint32 \<times> Matcher) list" where
  "matchersSnapshot l = (case lo_matchers l of None \<Rightarrow> [] | Some m \<Rightarrow> m)"

definition replaceMatchers :: "(uint32 \<times> Matcher) list \<Rightarrow> listener \<Rightarrow> listener" where
  "replaceMatchers m l = l\<lparr>lo_matchers := Some m\<rparr>"

definition upstreamSnapshot :: "listener \<Rightarrow> bytes" where
  "upstreamSnapshot l = (case lo_upstream l of None \<Rightarrow> [] | Some u \<Rightarrow> u)"

definition replaceUpstream :: "bytes \<Rightarrow> listener \<Rightarrow> listener" where
  "replaceUpstream u l = l\<lparr>lo_upstream := Some u\<rparr>"

definition displayMode :: "bytes \<Rightarrow> bytes" where
  "displayMode m = (if m = modeHTTPProxy then ''outbound'' else m)"

text \<open>\<open>release\<close> on the sink at address \<open>a\<close>.\<close>

definition release_sink :: "nat \<Rightarrow> world \<Rightarrow> world" where
  "release_sink a w =
     (case release (ow_sinks w a) of (r, closed) \<Rightarrow>
        w\<lparr>ow_sinks := (ow_sinks w)(a := r), ow_files := (if closed then ow_files w - {a} else ow_files w)\<rparr>)"

definition closeSink :: "nat \<Rightarrow> world \<Rightarrow> world" where
  "closeSink r w =
     (case lo_relay (ow_heap w r) of
        None \<Rightarrow> w
      | Some st \<Rightarrow> release_sink (rl_sink st) (w\<lparr>ow_heap := (ow_heap w)(r := (ow_heap w r)\<lparr>lo_relay := None\<rparr>)\<rparr>))"

definition bind :: "out_env2 \<Rightarrow> nat \<Rightarrow> world \<Rightarrow> out_error + world" where
  "bind env r w =
     (let l = ow_heap w r in
      if fst env w (lo_port l)
      then Inr (w\<lparr>ow_heap := (ow_heap w)(r := l\<lparr>lo_ln := Some (ow_sock w)\<rparr>),
                  ow_open := insert (ow_sock w) (ow_open w), ow_sock := Suc (ow_sock w)\<rparr>)
      else Inl (ListenVsockFailed (lo_port l)))"

definition close :: "nat \<Rightarrow> world \<Rightarrow> world" where
  "close r w =
     (let l = ow_heap w r in
      if lo_done l then w
      else closeSink r (w\<lparr>ow_heap := (ow_heap w)(r := l\<lparr>lo_done := True\<rparr>),
                           ow_open := (case lo_ln l of None \<Rightarrow> ow_open w | Some k \<Rightarrow> ow_open w - {k})\<rparr>))"

definition start_loop :: "nat \<Rightarrow> world \<Rightarrow> world" where
  "start_loop r w = w\<lparr>ow_running := ow_running w @ [r]\<rparr>"

definition alloc :: "listener \<Rightarrow> world \<Rightarrow> nat \<times> world" where
  "alloc l w = (ow_fresh w, w\<lparr>ow_heap := (ow_heap w)(ow_fresh w := l), ow_fresh := Suc (ow_fresh w)\<rparr>)"

text \<open>One round of the loops of \<open>NewServer\<close> and of \<open>PrepareApply\<close> builds a listener; the log_relay one also opens its sink.\<close>

definition pure_new :: "('c \<Rightarrow> out_error + listener) \<Rightarrow> 'c \<Rightarrow> world \<Rightarrow> (out_error + listener) \<times> world" where
  "pure_new new cfg w = (new cfg, w)"

definition build :: "('c \<Rightarrow> world \<Rightarrow> (out_error + listener) \<times> world) \<Rightarrow> bytes \<Rightarrow> nat \<Rightarrow> 'c \<Rightarrow> nat list \<times> world
    \<Rightarrow> (out_error \<times> nat list \<times> world) + nat list \<times> world" where
  "build new sec i cfg st =
     (case st of (rs, w) \<Rightarrow>
        (case new cfg w of
           (Inl e, w1) \<Rightarrow> Inl (OutSection sec i e, rs, w1)
         | (Inr l, w1) \<Rightarrow> (case alloc l w1 of (r, w2) \<Rightarrow> Inr (rs @ [r], w2))))"

definition closeLogRelaySinks :: "nat list \<Rightarrow> world \<Rightarrow> world" where
  "closeLogRelaySinks rs w = fold (\<lambda>r w. if lo_mode (ow_heap w r) = modeLogRelay then closeSink r w else w) rs w"

definition NewServer ::
  "out_env2 \<Rightarrow> OutboundListener list \<Rightarrow> VsockToTCPListener list \<Rightarrow> LogRelayListener list \<Rightarrow> world
     \<Rightarrow> (out_error + Server) \<times> world" where
  "NewServer env https tcps relays w =
     (case res_bind (for_idx (build (pure_new newHTTPListener) ''outbound'') 0 https ([], w))
             (for_idx (build (pure_new newVsockToTCPListener) ''vsock_to_tcp'') 0 tcps) of
        Inl (e, rs, w1) \<Rightarrow> (Inl e, w1)
      | Inr (rs1, w1) \<Rightarrow>
          (case for_idx (build (newLogRelayListener (snd env)) ''log_relay'') 0 relays (rs1, w1) of
             Inl (e, rs, w2) \<Rightarrow> (Inl e, closeLogRelaySinks rs w2)
           | Inr (rs, w2) \<Rightarrow> (Inr \<lparr>so_listeners = rs, so_ctx = False\<rparr>, w2)))"

fun bind_all :: "out_env2 \<Rightarrow> nat list \<Rightarrow> world \<Rightarrow> (out_error + unit) \<times> world" where
  "bind_all env [] w = (Inr (), w)"
| "bind_all env (r # rs) w =
     (case bind env r w of Inl e \<Rightarrow> (Inl e, w) | Inr w' \<Rightarrow> bind_all env rs w')"

definition Start :: "out_env2 \<Rightarrow> Server \<Rightarrow> world \<Rightarrow> (out_error + unit) \<times> Server \<times> world" where
  "Start env s w =
     (let s' = s\<lparr>so_ctx := True\<rparr> in
      case bind_all env (so_listeners s) w of
        (Inl e, w1) \<Rightarrow> (Inl e, s', fold close (so_listeners s) w1)
      | (Inr _, w1) \<Rightarrow> (Inr (), s', fold start_loop (so_listeners s) w1))"

definition ListenerPorts :: "Server \<Rightarrow> world \<Rightarrow> uint32 list" where
  "ListenerPorts s w = map (\<lambda>r. lo_port (ow_heap w r)) (so_listeners s)"

section \<open>Reload\<close>

record applySwap =
  as_matchers :: "(uint32 \<times> Matcher) list"
  as_upstream :: "bytes option"
  as_relay :: "relayState option"

record ApplyPlan =
  op_next :: "nat list"
  op_newBinds :: "nat list"
  op_swaps :: "(nat \<times> applySwap) list"
  op_existing :: "(uint32 \<times> nat) list"
  op_kept :: "uint32 list"
  op_committed :: bool
  op_aborted :: bool

record prep =
  po_world :: world
  po_kept :: "uint32 list"
  po_next :: "nat list"
  po_swaps :: "(nat \<times> applySwap) list"
  po_newBinds :: "nat list"

definition release_relay :: "nat \<times> applySwap \<Rightarrow> world \<Rightarrow> world" where
  "release_relay sw w = (case as_relay (snd sw) of None \<Rightarrow> w | Some st \<Rightarrow> release_sink (rl_sink st) w)"

text \<open>\<open>cleanup\<close>, and the body of \<open>AbortApply\<close>.\<close>

definition undo :: "nat list \<Rightarrow> (nat \<times> applySwap) list \<Rightarrow> world \<Rightarrow> world" where
  "undo newBinds swaps w = fold release_relay swaps (fold close newBinds w)"

definition swap_for :: "listener \<Rightarrow> applySwap" where
  "swap_for newLn =
     \<lparr>as_matchers = matchersSnapshot newLn,
      as_upstream = (if lo_mode newLn = modeVsockToTCP then Some (upstreamSnapshot newLn) else None),
      as_relay = (if lo_mode newLn = modeLogRelay then lo_relay newLn else None)\<rparr>"

definition apply_listener ::
  "out_env2 \<Rightarrow> (uint32 \<times> nat) list \<Rightarrow> bytes \<Rightarrow> nat \<Rightarrow> nat \<Rightarrow> prep \<Rightarrow> out_error + prep" where
  "apply_listener env existing sec i r p =
     (let w = po_world p; newLn = ow_heap w r in
      case map_of existing (lo_port newLn) of
        Some cur \<Rightarrow>
          if lo_mode (ow_heap w cur) \<noteq> lo_mode newLn
          then Inl (OutModeChange sec i (lo_port newLn) (displayMode (lo_mode (ow_heap w cur))) (displayMode (lo_mode newLn)))
          else Inr (p\<lparr>po_swaps := po_swaps p @ [(cur, swap_for newLn)], po_kept := lo_port newLn # po_kept p,
                     po_next := po_next p @ [cur]\<rparr>)
      | None \<Rightarrow>
          res_bind (bind env r w) (\<lambda>w'.
            Inr (p\<lparr>po_world := w', po_newBinds := po_newBinds p @ [r], po_next := po_next p @ [r]\<rparr>)))"

text \<open>
  One round of a loop of \<open>PrepareApply\<close>. A failed round returns the world after \<open>cleanup\<close>, and for the log_relay
  loop after the new listener's own \<open>closeSink\<close>, which does nothing for the other two.
\<close>

definition prepare_one ::
  "out_env2 \<Rightarrow> (uint32 \<times> nat) list \<Rightarrow> ('c \<Rightarrow> world \<Rightarrow> (out_error + listener) \<times> world) \<Rightarrow> bytes \<Rightarrow> nat \<Rightarrow> 'c \<Rightarrow> prep
     \<Rightarrow> (out_error \<times> world) + prep" where
  "prepare_one env existing new sec i cfg p =
     (case new cfg (po_world p) of
        (Inl e, w1) \<Rightarrow> Inl (OutSection sec i e, undo (po_newBinds p) (po_swaps p) w1)
      | (Inr l, w1) \<Rightarrow>
          (case alloc l w1 of (r, w2) \<Rightarrow>
             let p1 = p\<lparr>po_world := w2\<rparr> in
             case apply_listener env existing sec i r p1 of
               Inl e \<Rightarrow> Inl (e, closeSink r (undo (po_newBinds p1) (po_swaps p1) w2))
             | Inr p2 \<Rightarrow> Inr p2))"

definition index_ports :: "nat list \<Rightarrow> world \<Rightarrow> (uint32 \<times> nat) list" where
  "index_ports rs w = fold (\<lambda>r m. AList.update (lo_port (ow_heap w r)) r m) rs []"

definition PrepareApply ::
  "out_env2 \<Rightarrow> OutboundListener list \<Rightarrow> VsockToTCPListener list \<Rightarrow> LogRelayListener list \<Rightarrow> Server \<Rightarrow> world
     \<Rightarrow> (out_error + ApplyPlan) \<times> world" where
  "PrepareApply env https tcps relays s w =
     (if \<not> so_ctx s then (Inl OutBeforeStart, w)
      else
        let existing = index_ports (so_listeners s) w;
            p0 = \<lparr>po_world = w, po_kept = [], po_next = [], po_swaps = [], po_newBinds = []\<rparr>
        in case res_bind (for_idx (prepare_one env existing (pure_new newHTTPListener) ''outbound'') 0 https p0) (\<lambda>p1.
                res_bind (for_idx (prepare_one env existing (pure_new newVsockToTCPListener) ''vsock_to_tcp'') 0 tcps p1)
                  (for_idx (prepare_one env existing (newLogRelayListener (snd env)) ''log_relay'') 0 relays)) of
             Inl (e, w') \<Rightarrow> (Inl e, w')
           | Inr p \<Rightarrow>
               (Inr \<lparr>op_next = po_next p, op_newBinds = po_newBinds p, op_swaps = po_swaps p, op_existing = existing,
                     op_kept = po_kept p, op_committed = False, op_aborted = False\<rparr>, po_world p))"

definition swap_listener :: "applySwap \<Rightarrow> listener \<Rightarrow> listener" where
  "swap_listener sd l =
     (let l1 = replaceMatchers (as_matchers sd) l;
          l2 = (case as_upstream sd of None \<Rightarrow> l1 | Some u \<Rightarrow> replaceUpstream u l1)
      in case as_relay sd of None \<Rightarrow> l2 | Some st \<Rightarrow> l2\<lparr>lo_relay := Some st\<rparr>)"

text \<open>The swap of one listener in \<open>CommitApply\<close>, with the release of the sink it replaces.\<close>

definition commit_swap :: "nat \<times> applySwap \<Rightarrow> world \<Rightarrow> world" where
  "commit_swap sw w =
     (let r = fst sw; sd = snd sw; l = ow_heap w r;
          w1 = w\<lparr>ow_heap := (ow_heap w)(r := swap_listener sd l)\<rparr>
      in case as_relay sd of
           None \<Rightarrow> w1
         | Some _ \<Rightarrow> (case lo_relay l of None \<Rightarrow> w1 | Some old \<Rightarrow> release_sink (rl_sink old) w1))"

definition CommitApply :: "ApplyPlan \<Rightarrow> Server \<Rightarrow> world \<Rightarrow> ApplyPlan \<times> Server \<times> world" where
  "CommitApply p s w =
     (if op_committed p \<or> op_aborted p then (p, s, w)
      else
        let w1 = fold commit_swap (op_swaps p) w;
            w2 = fold start_loop (op_newBinds p) w1;
            w3 = fold (\<lambda>(port, r) w. if port \<in> set (op_kept p) then w else close r w) (op_existing p) w2
        in (p\<lparr>op_committed := True\<rparr>, s\<lparr>so_listeners := op_next p\<rparr>, w3))"

definition AbortApply :: "ApplyPlan \<Rightarrow> world \<Rightarrow> ApplyPlan \<times> world" where
  "AbortApply p w =
     (if op_committed p \<or> op_aborted p then (p, w)
      else (p\<lparr>op_aborted := True\<rparr>, undo (op_newBinds p) (op_swaps p) w))"

definition Apply ::
  "out_env2 \<Rightarrow> OutboundListener list \<Rightarrow> VsockToTCPListener list \<Rightarrow> LogRelayListener list \<Rightarrow> Server \<Rightarrow> world
     \<Rightarrow> (out_error + unit) \<times> Server \<times> world" where
  "Apply env https tcps relays s w =
     (case PrepareApply env https tcps relays s w of
        (Inl e, w') \<Rightarrow> (Inl e, s, w')
      | (Inr plan, w') \<Rightarrow> (case CommitApply plan s w' of (_, s', w'') \<Rightarrow> (Inr (), s', w'')))"

text \<open>\<open>Shutdown\<close> closes every listener; what follows waits for the connections.\<close>

definition Shutdown_close :: "Server \<Rightarrow> world \<Rightarrow> world" where
  "Shutdown_close s w = fold close (so_listeners s) w"

end
