(* ===== verification/Outbound_TCP.thy ===== *)
theory Outbound_TCP
  imports Outbound
begin

text \<open>
  \<open>handleTCP\<close> of \<open>internal/outbound/tcp.go\<close>: a vsock connection forwarded to one fixed TCP upstream, as the sequence of
  its visible actions. Its actions are those of \<open>Outbound_Conn\<close> and its own three metrics; what the peer sent,
  whether the dial succeeds and how far \<open>shuttleTCP\<close> (theory \<open>Shuttle\<close>) gets is the argument \<open>env\<close>.
\<close>

datatype tcp_action =
    Conn_act out_action
  | CountTCPConn
  | CountTCPError bytes
  | CountTCPBytes bytes nat

record tcp_env =
  te_sent :: bytes
  te_shutdown :: bool
  te_dial :: "bytes \<Rightarrow> bool"
  te_shuttle :: "nat \<times> nat \<times> bool"

definition DirectionUp :: bytes where "DirectionUp = ''up''"
definition DirectionDown :: bytes where "DirectionDown = ''down''"
definition TCPErrorDial :: bytes where "TCPErrorDial = ''dial_fail''"
definition TCPErrorCopy :: bytes where "TCPErrorCopy = ''copy_error''"

definition tcp_with_upstream :: "tcp_action list \<Rightarrow> tcp_action list" where
  "tcp_with_upstream acts =
     [Conn_act (Track Upstream)] @ acts @ [Conn_act (Untrack Upstream), Conn_act (CloseConn Upstream)]"

definition handleTCP :: "tcp_env \<Rightarrow> bytes \<Rightarrow> tcp_action list" where
  "handleTCP env upstreamAddr =
     [Conn_act (Track Client), CountTCPConn, Conn_act (Dial upstreamAddr)] @
     (if \<not> te_dial env upstreamAddr then (if te_shutdown env then [] else [CountTCPError TCPErrorDial])
      else
        tcp_with_upstream
          (case te_shuttle env of (up, down, copyErrored) \<Rightarrow>
             let moved = take up (te_sent env) in
             [Conn_act (CopyUp moved), Conn_act (CopyDown down),
              CountTCPBytes DirectionUp (length moved), CountTCPBytes DirectionDown down] @
             (if copyErrored then [CountTCPError TCPErrorCopy] else []))) @
     [Conn_act (Untrack Client), Conn_act (CloseConn Client)]"

section \<open>Observations\<close>

definition tcp_dials :: "tcp_action list \<Rightarrow> bytes list" where
  "tcp_dials acts = concat (map (\<lambda>a. case a of Conn_act (Dial x) \<Rightarrow> [x] | _ \<Rightarrow> []) acts)"

definition tcp_sent_up :: "tcp_action list \<Rightarrow> bytes" where
  "tcp_sent_up acts = concat (map (\<lambda>a. case a of Conn_act (CopyUp b) \<Rightarrow> b | _ \<Rightarrow> []) acts)"

definition tcp_counted_up :: "tcp_action list \<Rightarrow> nat" where
  "tcp_counted_up acts = sum_list (map (\<lambda>a. case a of CountTCPBytes d n \<Rightarrow> if d = DirectionUp then n else 0 | _ \<Rightarrow> 0) acts)"

definition tcp_errors :: "tcp_action list \<Rightarrow> nat" where
  "tcp_errors acts = length (filter (\<lambda>a. case a of CountTCPError _ \<Rightarrow> True | _ \<Rightarrow> False) acts)"

definition tcp_lifecycle :: "peer \<Rightarrow> tcp_action list \<Rightarrow> tcp_action list" where
  "tcp_lifecycle p acts = filter (\<lambda>a. a \<in> Conn_act ` {Track p, Untrack p, CloseConn p}) acts"

lemmas tcp_observe = tcp_dials_def tcp_sent_up_def tcp_counted_up_def tcp_errors_def tcp_lifecycle_def

lemma handleTCP_facts:
  "tcp_dials (handleTCP env a) = [a]"
  "prefix (tcp_sent_up (handleTCP env a)) (te_sent env)"
  "tcp_counted_up (handleTCP env a) = length (tcp_sent_up (handleTCP env a))"
  "tcp_lifecycle Client (handleTCP env a) = map Conn_act [Track Client, Untrack Client, CloseConn Client]"
  "tcp_lifecycle Upstream (handleTCP env a) =
     (if te_dial env a then map Conn_act [Track Upstream, Untrack Upstream, CloseConn Upstream] else [])"
  "tcp_errors (handleTCP env a) = (if te_dial env a then of_bool (snd (snd (te_shuttle env))) else of_bool (\<not> te_shutdown env))"
  by (auto simp: handleTCP_def tcp_with_upstream_def tcp_observe DirectionUp_def DirectionDown_def take_is_prefix Let_def
      split: prod.split)

end
