(* ===== verification/Server_Loops.thy ===== *)
theory Server_Loops
  imports Accept_Loop Inbound_Conn Outbound_TCP
begin

text \<open>
  The accept loops of the two servers, with the handler each gives a connection. In the outbound loop a connection comes
  with the contents its listener had when \<open>run\<close>, after \<open>Accept\<close> returned, read the upstream of a vsock_to_tcp listener;
  the other handlers read the listener when they run. \<open>Accept\<close> and this read are two steps: \<open>timeline\<close> interleaves them
  with the reloads that replace the upstream.
\<close>

section \<open>Inbound\<close>

datatype 'c in_call = InHandle 'c | InHandleTCP 'c

definition inbound_dispatch :: "Inbound.listener \<Rightarrow> 'c \<Rightarrow> 'c in_call loop_event" where
  "inbound_dispatch l c = Spawn (if li_mode l = modeTCPToVsock then InHandleTCP c else InHandle c)"

definition inbound_run :: "Inbound.listener \<Rightarrow> ('c, refusal) accept list \<Rightarrow> 'c in_call loop_event list \<times> bool" where
  "inbound_run l outs =
     run_loop (\<lambda>r. rf_ctx r \<or> rf_closed r) rf_woken [CountAccept] (inbound_dispatch l) 0 outs"

section \<open>Outbound\<close>

record out_refusal = refusal +
  rf_done :: bool

datatype 'c out_call = HandleLogRelay 'c | HandleTCP 'c bytes | HandleHTTP 'c

definition outbound_dispatch :: "Outbound.listener \<times> 'c \<Rightarrow> 'c out_call loop_event" where
  "outbound_dispatch lc =
     (case lc of (l, c) \<Rightarrow>
        let tcpUpstream = (if lo_mode l = modeVsockToTCP then upstreamSnapshot l else []) in
        if lo_mode l = modeLogRelay then Inline (HandleLogRelay c)
        else Spawn (if lo_mode l = modeVsockToTCP then HandleTCP c tcpUpstream else HandleHTTP c))"

definition outbound_run :: "(Outbound.listener \<times> 'c, out_refusal) accept list \<Rightarrow> 'c out_call loop_event list \<times> bool" where
  "outbound_run outs =
     run_loop (\<lambda>r. rf_done r \<or> rf_ctx r \<or> rf_closed r) rf_woken [] outbound_dispatch 0 outs"

text \<open>
  What happens at one vsock_to_tcp listener, in order: a reload stores a new upstream, \<open>Accept\<close> returns a connection or
  fails, and \<open>run\<close> captures the upstream for the connection it has in hand, before it calls \<open>Accept\<close> again. A sequence
  counts as far as it follows this order.
\<close>

datatype 'c tick = Reloads bytes | Accepts 'c | Refuses out_refusal | Captures

fun timeline :: "Outbound.listener \<Rightarrow> 'c option \<Rightarrow> 'c tick list \<Rightarrow> (Outbound.listener \<times> 'c, out_refusal) accept list" where
  "timeline l inHand (Reloads u # ts) = timeline (replaceUpstream u l) inHand ts"
| "timeline l None (Accepts c # ts) = timeline l (Some c) ts"
| "timeline l None (Refuses r # ts) = Failed r # timeline l None ts"
| "timeline l (Some c) (Captures # ts) = Accepted (l, c) # timeline l None ts"
| "timeline l inHand ts = []"

text \<open>The upstream stored after a sequence of ticks.\<close>

fun stored :: "bytes \<Rightarrow> 'c tick list \<Rightarrow> bytes" where
  "stored u [] = u"
| "stored u (Reloads v # ts) = stored v ts"
| "stored u (t # ts) = stored u ts"

definition is_reload :: "'c tick \<Rightarrow> bool" where
  "is_reload t = (case t of Reloads _ \<Rightarrow> True | _ \<Rightarrow> False)"

section \<open>Lemmas\<close>

lemma replaceUpstream_simps [simp]:
  "upstreamSnapshot (replaceUpstream u l) = u" "lo_mode (replaceUpstream u l) = lo_mode l"
  by (simp_all add: upstreamSnapshot_def replaceUpstream_def)

lemma stored_append: "stored u (ts @ ts') = stored (stored u ts) ts'"
  by (induction u ts rule: stored.induct) simp_all

lemma stored_reloads:
  "list_all is_reload ts \<Longrightarrow> stored u ts = (if ts = [] then u else (case last ts of Reloads v \<Rightarrow> v))"
  by (induction u ts rule: stored.induct) (auto simp: is_reload_def)

text \<open>When a connection of a timeline was accepted, when its upstream was captured, and what came between.\<close>

definition captured :: "bytes \<Rightarrow> 'c option \<Rightarrow> 'c tick list \<Rightarrow> 'c \<Rightarrow> bytes \<Rightarrow> bool" where
  "captured u inHand ts c a \<longleftrightarrow>
     (\<exists>before between after. list_all is_reload between \<and> a = stored (stored u before) between \<and>
        (ts = before @ Accepts c # between @ Captures # after \<or>
         inHand = Some c \<and> before = [] \<and> ts = between @ Captures # after))"

lemma captured_later:
  assumes "captured (stored u [t]) None ts c a"
  shows "captured u g (t # ts) c a"
proof -
  obtain before between after where b: "list_all is_reload between" "a = stored (stored (stored u [t]) before) between"
      "ts = before @ Accepts c # between @ Captures # after"
    using assms by (auto simp: captured_def)
  have "a = stored (stored u (t # before)) between" using b(2) stored_append [of u "[t]" before] by simp
  then show ?thesis
    unfolding captured_def
    by (rule_tac exI [of _ "t # before"], rule_tac exI [of _ between], rule_tac exI [of _ after]) (simp add: b(1,3))
qed

lemma captured_reload:
  assumes "captured v g ts c a"
  shows "captured u g (Reloads v # ts) c a"
proof -
  obtain before between after where b: "list_all is_reload between" "a = stored (stored v before) between"
      "ts = before @ Accepts c # between @ Captures # after \<or> g = Some c \<and> before = [] \<and> ts = between @ Captures # after"
    using assms by (auto simp: captured_def)
  from b(3) show ?thesis
  proof (elim disjE conjE)
    assume "ts = before @ Accepts c # between @ Captures # after"
    then have "captured (stored u [Reloads v]) None ts c a" using b unfolding captured_def by auto
    then show ?thesis by (rule captured_later)
  next
    assume "g = Some c" "before = []" "ts = between @ Captures # after"
    then show ?thesis
      unfolding captured_def
      by (rule_tac exI [of _ "[]"], rule_tac exI [of _ "Reloads v # between"], rule_tac exI [of _ after])
        (simp add: b(1,2) is_reload_def)
  qed
qed

lemma captured_accept:
  assumes "captured u (Some d) ts c a"
  shows "captured u None (Accepts d # ts) c a"
proof -
  obtain before between after where b: "list_all is_reload between" "a = stored (stored u before) between"
      "ts = before @ Accepts c # between @ Captures # after \<or> d = c \<and> before = [] \<and> ts = between @ Captures # after"
    using assms by (auto simp: captured_def)
  from b(3) show ?thesis
  proof (elim disjE conjE)
    assume "ts = before @ Accepts c # between @ Captures # after"
    then have "captured (stored u [Accepts d]) None ts c a" using b unfolding captured_def by auto
    then show ?thesis by (rule captured_later)
  next
    assume "d = c" "before = []" "ts = between @ Captures # after"
    then show ?thesis
      unfolding captured_def
      by (rule_tac exI [of _ "[]"], rule_tac exI [of _ between], rule_tac exI [of _ after]) (simp add: b(1,2))
  qed
qed

lemma captured_now: "captured u (Some c) (Captures # ts) c u"
  unfolding captured_def
  by (rule exI [of _ "[]"], rule exI [of _ "[]"], rule exI [of _ ts]) simp

lemma timeline_captured:
  "Accepted (l', c) \<in> set (timeline l g ts) \<Longrightarrow>
   lo_mode l' = lo_mode l \<and> captured (upstreamSnapshot l) g ts c (upstreamSnapshot l')"
  by (induction l g ts rule: timeline.induct) (auto intro: captured_reload captured_accept captured_now captured_later)

lemma dispatch_quiet:
  "waits [inbound_dispatch l c] = []" "waits [outbound_dispatch lc] = []"
  "served_by [inbound_dispatch l c] = [inbound_dispatch l c]" "served_by [outbound_dispatch lc] = [outbound_dispatch lc]"
  by (simp_all add: inbound_dispatch_def outbound_dispatch_def served_by_def Let_def split: prod.split)

lemma delay_zero: "delay_after 0 = 0"
  by (simp add: delay_after_def)

lemma inbound_waits:
  "waits (fst (inbound_run l outs)) = backoff (\<lambda>r. rf_ctx r \<or> rf_closed r) rf_woken 0 outs"
  unfolding inbound_run_def
  by (rule run_loop_waits [where k = 0, unfolded delay_zero]) (simp_all add: dispatch_quiet)

lemma outbound_waits:
  "waits (fst (outbound_run outs)) = backoff (\<lambda>r. rf_done r \<or> rf_ctx r \<or> rf_closed r) rf_woken 0 outs"
  unfolding outbound_run_def
  by (rule run_loop_waits [where k = 0, unfolded delay_zero]) (simp_all add: dispatch_quiet)

lemma backoff_failures:
  "\<forall>r \<in> set fs. \<not> stop r \<and> \<not> woken r \<Longrightarrow> backoff stop woken k (map Failed fs) = map delay_after [Suc k..<Suc (k + length fs)]"
proof (induction fs arbitrary: k)
  case (Cons r fs)
  have "[Suc k..<Suc (k + length (r # fs))] = Suc k # [Suc (Suc k)..<Suc (Suc k + length fs)]"
    by (simp add: upt_conv_Cons del: upt_Suc)
  then show ?case using Cons.IH [of "Suc k"] Cons.prems by (simp del: upt_Suc)
qed simp

lemma inbound_serves:
  "served_by (fst (inbound_run l outs)) = map (inbound_dispatch l)
     (accepted (takeWhile (\<lambda>a. \<not> ends (\<lambda>r. rf_ctx r \<or> rf_closed r) rf_woken a) outs)) \<and>
   snd (inbound_run l outs) = (\<exists>a \<in> set outs. ends (\<lambda>r. rf_ctx r \<or> rf_closed r) rf_woken a)"
  unfolding inbound_run_def by (rule run_loop_serves) (simp_all add: dispatch_quiet served_by_def [of "[CountAccept]"])

lemma outbound_serves:
  "served_by (fst (outbound_run outs)) = map outbound_dispatch
     (accepted (takeWhile (\<lambda>a. \<not> ends (\<lambda>r. rf_done r \<or> rf_ctx r \<or> rf_closed r) rf_woken a) outs)) \<and>
   snd (outbound_run outs) = (\<exists>a \<in> set outs. ends (\<lambda>r. rf_done r \<or> rf_ctx r \<or> rf_closed r) rf_woken a)"
  unfolding outbound_run_def by (rule run_loop_serves) (simp_all add: dispatch_quiet served_by_def [of "[]"])

lemma accepted_in: "c \<in> set (accepted outs) \<Longrightarrow> Accepted c \<in> set outs"
  by (auto simp: accepted_def split: accept.splits)

lemma accepted_takeWhile: "set (accepted (takeWhile P outs)) \<subseteq> set (accepted outs)"
  by (auto simp: accepted_def dest: set_takeWhileD)

section \<open>Properties\<close>

text \<open>
  C24. Back-off: whatever \<open>Accept\<close> returns, neither server retries sooner than 5 ms or later than 1 s after a failed
  \<open>Accept\<close>, and the \<open>n\<close>th failure in a row is followed by 5 ms times \<open>2 ^ (n - 1)\<close>, capped at 1 s, whether the row
  begins with the loop or with a connection after any earlier failures: a connection resets the delay, and the doubling
  does not overflow.
\<close>

theorem accept_backoff:
  "(\<forall>d \<in> set (waits (fst (inbound_run l outs))) \<union> set (waits (fst (outbound_run outs2))). 5000000 \<le> d \<and> d \<le> 1000000000) \<and>
   ((\<forall>r \<in> set fs. \<not> rf_ctx r \<and> \<not> rf_closed r \<and> \<not> rf_woken r) \<longrightarrow>
      waits (fst (inbound_run l (map Failed fs))) = doubling (length fs) \<and>
      (\<not> snd (inbound_run l outs) \<longrightarrow>
         waits (fst (inbound_run l (outs @ Accepted c # map Failed fs))) = waits (fst (inbound_run l outs)) @ doubling (length fs))) \<and>
   ((\<forall>r \<in> set gs. \<not> rf_done r \<and> \<not> rf_ctx r \<and> \<not> rf_closed r \<and> \<not> rf_woken r) \<longrightarrow>
      waits (fst (outbound_run (map Failed gs))) = doubling (length gs) \<and>
      (\<not> snd (outbound_run outs2) \<longrightarrow>
         waits (fst (outbound_run (outs2 @ Accepted lc # map Failed gs))) = waits (fst (outbound_run outs2)) @ doubling (length gs)))"
proof -
  have d: "map delay_after [Suc 0..<Suc n] = doubling n" for n
    by (simp add: doubling_def map_Suc_upt [symmetric] delay_after_def firstDelay_def maxDelay_def del: upt_Suc)
  note b = backoff_bounds [unfolded firstDelay_def maxDelay_def]
  have "\<forall>d \<in> set (waits (fst (inbound_run l outs))). 5000000 \<le> d \<and> d \<le> 1000000000"
    "\<forall>d \<in> set (waits (fst (outbound_run outs2))). 5000000 \<le> d \<and> d \<le> 1000000000"
    by (simp_all add: inbound_waits outbound_waits b)
  moreover have "waits (fst (inbound_run l (map Failed fs))) = doubling (length fs) \<and>
      (\<not> snd (inbound_run l outs) \<longrightarrow>
         waits (fst (inbound_run l (outs @ Accepted c # map Failed fs))) = waits (fst (inbound_run l outs)) @ doubling (length fs))"
    if "\<forall>r \<in> set fs. \<not> rf_ctx r \<and> \<not> rf_closed r \<and> \<not> rf_woken r"
    using that inbound_serves [of l outs] by (simp add: inbound_waits backoff_failures backoff_reset d del: upt_Suc)
  moreover have "waits (fst (outbound_run (map Failed gs))) = doubling (length gs) \<and>
      (\<not> snd (outbound_run outs2) \<longrightarrow>
         waits (fst (outbound_run (outs2 @ Accepted lc # map Failed gs))) = waits (fst (outbound_run outs2)) @ doubling (length gs))"
    if "\<forall>r \<in> set gs. \<not> rf_done r \<and> \<not> rf_ctx r \<and> \<not> rf_closed r \<and> \<not> rf_woken r"
    using that outbound_serves [of outs2] by (simp add: outbound_waits backoff_failures backoff_reset d del: upt_Suc)
  ultimately show ?thesis unfolding ball_Un by blast
qed

text \<open>
  Every connection accepted before the loop ends is handed to its handler, in order and once, and the loop
  returns exactly at the first failure that is a shutdown (closed socket, cancelled context, and for vsock the
  listener's own \<open>done\<close>) or is interrupted by one while it waits; any other failure never ends it.
\<close>

theorem accept_serves:
  "served_by (fst (inbound_run l outs)) = map (inbound_dispatch l)
     (accepted (takeWhile (\<lambda>a. \<not> ends (\<lambda>r. rf_ctx r \<or> rf_closed r) rf_woken a) outs)) \<and>
   snd (inbound_run l outs) = (\<exists>a \<in> set outs. ends (\<lambda>r. rf_ctx r \<or> rf_closed r) rf_woken a) \<and>
   served_by (fst (outbound_run outs2)) = map outbound_dispatch
     (accepted (takeWhile (\<lambda>a. \<not> ends (\<lambda>r. rf_done r \<or> rf_ctx r \<or> rf_closed r) rf_woken a) outs2)) \<and>
   snd (outbound_run outs2) = (\<exists>a \<in> set outs2. ends (\<lambda>r. rf_done r \<or> rf_ctx r \<or> rf_closed r) rf_woken a)"
  using inbound_serves [of l outs] outbound_serves [of outs2] by simp

text \<open>
  C23. What a vsock_to_tcp connection does with its upstream: for every order of accepted connections, failed \<open>Accept\<close>s,
  captures and reloads at a listener, the handler of a connection dials the address that was stored when \<open>run\<close> captured
  it, and no other, whatever reload comes later. That is the address stored when \<open>Accept\<close> returned unless a reload
  landed between \<open>Accept\<close> and the capture (the window the code leaves open); then it is the address of the last such
  reload. The handler sends the upstream an initial part of what the peer sent, counts exactly those bytes, counts at
  most one error, and untracks and closes what it opened.
\<close>

theorem outbound_upstream_captured:
  assumes "Spawn (HandleTCP c a) \<in> set (served_by (fst (outbound_run (timeline l None ts))))"
  shows "lo_mode l = modeVsockToTCP \<and>
     (\<exists>before between after. ts = before @ Accepts c # between @ Captures # after \<and> list_all is_reload between \<and>
        a = (if between = [] then stored (upstreamSnapshot l) before
             else (case last between of Reloads u \<Rightarrow> u))) \<and>
     tcp_dials (handleTCP (env c) a) = [a] \<and> prefix (tcp_sent_up (handleTCP (env c) a)) (te_sent (env c)) \<and>
     tcp_counted_up (handleTCP (env c) a) = length (tcp_sent_up (handleTCP (env c) a)) \<and>
     tcp_errors (handleTCP (env c) a) \<le> 1 \<and>
     tcp_lifecycle Client (handleTCP (env c) a) = map Conn_act [Track Client, Untrack Client, CloseConn Client] \<and>
     tcp_lifecycle Upstream (handleTCP (env c) a) =
       (if te_dial (env c) a then map Conn_act [Track Upstream, Untrack Upstream, CloseConn Upstream] else [])"
proof -
  have "Spawn (HandleTCP c a) \<in> outbound_dispatch ` set (accepted (timeline l None ts))"
    using assms outbound_serves [of "timeline l None ts"] accepted_takeWhile by fastforce
  then obtain l' where l': "(l', c) \<in> set (accepted (timeline l None ts))" "lo_mode l' = modeVsockToTCP" "a = upstreamSnapshot l'"
    by (auto simp: outbound_dispatch_def Let_def split: if_splits)
  have t: "lo_mode l' = lo_mode l" "captured (upstreamSnapshot l) None ts c a"
    using timeline_captured [OF accepted_in [OF l'(1)]] l'(3) by simp_all
  then obtain before between after where w: "ts = before @ Accepts c # between @ Captures # after" "list_all is_reload between"
      "a = stored (stored (upstreamSnapshot l) before) between"
    by (auto simp: captured_def)
  have "\<exists>before between after. ts = before @ Accepts c # between @ Captures # after \<and> list_all is_reload between \<and>
      a = (if between = [] then stored (upstreamSnapshot l) before else (case last between of Reloads u \<Rightarrow> u))"
    using w by (intro exI [of _ before] exI [of _ between] exI [of _ after]) (simp add: stored_reloads)
  then show ?thesis using l'(2) t(1) handleTCP_facts [of "env c" a] by simp
qed

section \<open>Witnesses\<close>

definition timed_out :: refusal where
  "timed_out = \<lparr>rf_closed = False, rf_ctx = False, rf_woken = False\<rparr>"

definition vsock_timed_out :: out_refusal where
  "vsock_timed_out = \<lparr>rf_closed = False, rf_ctx = False, rf_woken = False, rf_done = False\<rparr>"

definition tcp_listener :: Outbound.listener where
  "tcp_listener = \<lparr>lo_port = 9000, lo_mode = modeVsockToTCP, lo_ln = Some 0, lo_done = False, lo_matchers = None,
     lo_upstream = Some ''db:5432'', lo_relay = None\<rparr>"

definition sample_tcp_listener :: Inbound.listener where
  "sample_tcp_listener = \<lparr>li_bindAddr = [], li_port = 80, li_mode = modeTCPToVsock, li_tcp = None, li_routes = None,
     li_targetCID = 3, li_targetPort = 4\<rparr>"

definition sample_tcp_env :: tcp_env where
  "sample_tcp_env = \<lparr>te_sent = ''hello'', te_shutdown = False, te_dial = (\<lambda>_. True), te_shuttle = (3, 0, True)\<rparr>"

theorem accept_backoff_witness:
  "waits (fst (inbound_run sample_tcp_listener (map Failed (replicate 3 timed_out) @ Accepted () # map Failed (replicate 9 timed_out)))) =
     [5000000, 10000000, 20000000] @
     [5000000, 10000000, 20000000, 40000000, 80000000, 160000000, 320000000, 640000000, 1000000000] \<and>
   waits (fst (outbound_run (map Failed (replicate 2 vsock_timed_out) @ Accepted (tcp_listener, ()) #
     map Failed (replicate 2 vsock_timed_out)))) = [5000000, 10000000] @ [5000000, 10000000]"
proof -
  have m: "doubling (length (replicate 9 timed_out)) =
      [5000000, 10000000, 20000000, 40000000, 80000000, 160000000, 320000000, 640000000, 1000000000]"
    "doubling (length (replicate 2 vsock_timed_out)) = [5000000, 10000000]"
    by code_simp+
  have t: "\<forall>r \<in> set (replicate 9 timed_out). \<not> rf_ctx r \<and> \<not> rf_closed r \<and> \<not> rf_woken r"
      "\<forall>r \<in> set (replicate 2 vsock_timed_out). \<not> rf_done r \<and> \<not> rf_ctx r \<and> \<not> rf_closed r \<and> \<not> rf_woken r"
    by (simp_all add: timed_out_def vsock_timed_out_def)
  have r: "\<not> snd (inbound_run sample_tcp_listener (map Failed (replicate 3 timed_out)))"
      "waits (fst (inbound_run sample_tcp_listener (map Failed (replicate 3 timed_out)))) = [5000000, 10000000, 20000000]"
      "\<not> snd (outbound_run (map Failed (replicate 2 vsock_timed_out)))"
      "waits (fst (outbound_run (map Failed (replicate 2 vsock_timed_out)))) = [5000000, 10000000]"
    by code_simp+
  show ?thesis
    using accept_backoff [where l = sample_tcp_listener and outs = "map Failed (replicate 3 timed_out)"
        and ?outs2.0 = "map Failed (replicate 2 vsock_timed_out)" and fs = "replicate 9 timed_out"
        and c = "()" and gs = "replicate 2 vsock_timed_out" and lc = "(tcp_listener, ())"] t r(1,3)
    unfolding m r(2,4) by blast
qed

text \<open>A reload in the window redirects the connection; one after the capture does not.\<close>

definition window_ticks :: "tcp_env tick list" where
  "window_ticks =
     [Refuses vsock_timed_out, Accepts sample_tcp_env, Captures, Reloads ''next:2'',
      Accepts (sample_tcp_env\<lparr>te_sent := ''bye''\<rparr>), Reloads ''other:1'', Captures, Reloads ''last:3'']"

theorem outbound_upstream_captured_witness:
  "map (\<lambda>e. case e of Spawn (HandleTCP c a) \<Rightarrow> (te_sent c, tcp_dials (handleTCP c a)))
     (served_by (fst (outbound_run (timeline tcp_listener None window_ticks)))) =
     [(''hello'', [''db:5432'']), (''bye'', [''other:1''])] \<and>
   (\<exists>before between after. window_ticks = before @ Accepts sample_tcp_env # between @ Captures # after)"
proof -
  have run: "served_by (fst (outbound_run (timeline tcp_listener None window_ticks))) =
      [Spawn (HandleTCP sample_tcp_env ''db:5432''), Spawn (HandleTCP (sample_tcp_env\<lparr>te_sent := ''bye''\<rparr>) ''other:1'')]"
    by (simp add: window_ticks_def outbound_run_def vsock_timed_out_def outbound_dispatch_def tcp_listener_def upstreamSnapshot_def
        served_by_def modeVsockToTCP_def modeLogRelay_def replaceUpstream_def Let_def)
  then have "Spawn (HandleTCP sample_tcp_env ''db:5432'') \<in> set (served_by (fst (outbound_run (timeline tcp_listener None window_ticks))))"
    by simp
  from outbound_upstream_captured [OF this]
  have "\<exists>before between after. window_ticks = before @ Accepts sample_tcp_env # between @ Captures # after" by blast
  moreover have "te_sent sample_tcp_env = ''hello''" by (simp add: sample_tcp_env_def)
  ultimately show ?thesis unfolding run by (simp add: handleTCP_facts)
qed

end
