(* ===== verification/Conn_Track.thy ===== *)
theory Conn_Track
  imports Server_Loops
begin

text \<open>
  \<open>trackConn\<close>, \<open>untrackConn\<close> and \<open>Shutdown\<close>, the same code in \<open>internal/inbound/server.go\<close> and
  \<open>internal/outbound/server.go\<close>, with the accept loops and the handlers running beside them. A handler is the list of what
  it has still to do with its connections, which is computed from the action sequences of the handlers' models; a
  connection is named by the handler that owns it and its side. A step is one operation of one goroutine. The log relay
  handler runs in the accept loop itself, every other handler in a goroutine of its own. An inbound dial given up on
  shutdown lives on in a cleanup goroutine, which no wait group counts.
\<close>

section \<open>Programs\<close>

text \<open>\<open>OpAbandon\<close> is \<open>dialUpstream\<close> leaving a dial that will still succeed to its cleanup goroutine.\<close>

datatype conn_op = OpTrack peer | OpDial | OpUntrack peer | OpClose peer | OpAbandon

fun in_ops :: "in_action \<Rightarrow> conn_op list" where
  "in_ops (InTrack InClient) = [OpTrack Client]"
| "in_ops (InTrack InUpstream) = [OpDial, OpTrack Upstream]"
| "in_ops (InUntrack InClient) = [OpUntrack Client]"
| "in_ops (InUntrack InUpstream) = [OpUntrack Upstream]"
| "in_ops (InClose InClient) = [OpClose Client]"
| "in_ops (InClose InUpstream) = [OpClose Upstream]"
| "in_ops CloseLate = [OpAbandon]"
| "in_ops _ = []"

fun out_ops :: "out_action \<Rightarrow> conn_op list" where
  "out_ops (Track Client) = [OpTrack Client]"
| "out_ops (Track Upstream) = [OpDial, OpTrack Upstream]"
| "out_ops (Untrack p) = [OpUntrack p]"
| "out_ops (CloseConn p) = [OpClose p]"
| "out_ops _ = []"

fun tcp_ops :: "tcp_action \<Rightarrow> conn_op list" where
  "tcp_ops (Conn_act a) = out_ops a"
| "tcp_ops _ = []"

text \<open>The calls of the accept loops as programs; the deferred calls of \<open>handleLogRelay\<close> run whichever way it returns.\<close>

definition relay_program :: "conn_op list" where
  "relay_program = [OpTrack Client, OpUntrack Client, OpClose Client]"

fun in_program :: "Inbound.listener \<Rightarrow> in_env in_call \<Rightarrow> conn_op list" where
  "in_program l (InHandle env) = concat (map in_ops (in_handle env l))"
| "in_program l (InHandleTCP env) = concat (map in_ops (in_handleTCP env l))"

record out_peer =
  op_env :: out_env
  op_tcp :: tcp_env
  op_cid :: uint32

fun out_program :: "Outbound.listener \<Rightarrow> out_peer out_call \<Rightarrow> conn_op list" where
  "out_program l (HandleLogRelay c) = relay_program"
| "out_program l (HandleTCP c a) = concat (map tcp_ops (handleTCP (op_tcp c) a))"
| "out_program l (HandleHTTP c) = concat (map out_ops (Outbound_Conn.handle (op_env c) (matchersSnapshot l) (op_cid c)))"

text \<open>
  What the loops do with an accepted connection: \<open>Spawn\<close> or \<open>Inline\<close>, with the program of the handler; the listener may
  have changed when the handler reads it.
\<close>

definition inbound_programs :: "conn_op list loop_event set" where
  "inbound_programs = {map_loop_event (in_program l') (inbound_dispatch l env) | l l' env. True}"

definition outbound_programs :: "conn_op list loop_event set" where
  "outbound_programs = {map_loop_event (out_program l') (outbound_dispatch (l, c)) | l l' c. True}"

definition programs :: "conn_op list loop_event set \<Rightarrow> conn_op list set" where
  "programs H = {p. Spawn p \<in> H \<or> Inline p \<in> H}"

section \<open>The server\<close>

text \<open>
  \<open>tr_wg\<close> holds the handlers that run, each counted by a wait group entry: its own, or for those in \<open>tr_inline\<close> that of the
  accept loop it runs in. \<open>tr_loops\<close> counts the other accept loops. \<open>tr_late\<close> holds the handlers whose abandoned dial has
  a connection open, \<open>tr_cleanup\<close> those whose cleanup goroutine is there.
\<close>

type_synonym conn_id = "nat \<times> peer"

record tracker =
  tr_active :: "conn_id set"
  tr_open :: "conn_id set"
  tr_todo :: "nat \<Rightarrow> conn_op list"
  tr_used :: "nat set"
  tr_wg :: "nat set"
  tr_loops :: nat
  tr_closing :: bool
  tr_swept :: "conn_id set option"
  tr_returned :: bool
  tr_inline :: "nat set"
  tr_late :: "nat set"
  tr_cleanup :: "nat set"

definition trackConn :: "conn_id \<Rightarrow> tracker \<Rightarrow> tracker" where
  "trackConn c s = s\<lparr>tr_active := insert c (tr_active s)\<rparr>"

definition untrackConn :: "conn_id \<Rightarrow> tracker \<Rightarrow> tracker" where
  "untrackConn c s = s\<lparr>tr_active := tr_active s - {c}\<rparr>"

fun run_op :: "nat \<Rightarrow> conn_op \<Rightarrow> tracker \<Rightarrow> tracker" where
  "run_op h (OpTrack p) s = trackConn (h, p) s"
| "run_op h (OpUntrack p) s = untrackConn (h, p) s"
| "run_op h OpDial s = s\<lparr>tr_open := insert (h, Upstream) (tr_open s)\<rparr>"
| "run_op h (OpClose p) s = s\<lparr>tr_open := tr_open s - {(h, p)}\<rparr>"
| "run_op h OpAbandon s = s\<lparr>tr_cleanup := insert h (tr_cleanup s)\<rparr>"

definition accept_conn :: "nat \<Rightarrow> conn_op list \<Rightarrow> tracker \<Rightarrow> tracker" where
  "accept_conn h p s =
     s\<lparr>tr_open := insert (h, Client) (tr_open s), tr_todo := (tr_todo s)(h := p), tr_used := insert h (tr_used s),
       tr_wg := insert h (tr_wg s)\<rparr>"

text \<open>An inline handler keeps its loop from accepting and from returning until it is done.\<close>

definition accept_inline :: "nat \<Rightarrow> conn_op list \<Rightarrow> tracker \<Rightarrow> tracker" where
  "accept_inline h p s = (accept_conn h p s)\<lparr>tr_loops := tr_loops s - 1, tr_inline := insert h (tr_inline s)\<rparr>"

definition inline_done :: "nat \<Rightarrow> tracker \<Rightarrow> tracker" where
  "inline_done h s = s\<lparr>tr_wg := tr_wg s - {h}, tr_inline := tr_inline s - {h}, tr_loops := Suc (tr_loops s)\<rparr>"

text \<open>The cleanup goroutine closes the connection the dial came back with, and ends.\<close>

definition close_late :: "nat \<Rightarrow> tracker \<Rightarrow> tracker" where
  "close_late h s = s\<lparr>tr_late := tr_late s - {h}, tr_cleanup := tr_cleanup s - {h}\<rparr>"

text \<open>The sweep of \<open>Shutdown\<close> when its context expires; \<open>connMu\<close> is held over the whole of it.\<close>

definition force_close :: "tracker \<Rightarrow> tracker" where
  "force_close s = s\<lparr>tr_open := tr_open s - tr_active s, tr_swept := Some (tr_active s)\<rparr>"

inductive shutdown_step :: "tracker \<Rightarrow> tracker \<Rightarrow> bool" where
  close_listeners [sys_intros]: "shutdown_step s (s\<lparr>tr_closing := True\<rparr>)"
| grace_over [sys_intros]: "tr_closing s \<Longrightarrow> tr_swept s = None \<Longrightarrow> \<not> tr_returned s \<Longrightarrow> shutdown_step s (force_close s)"
| wait_done [sys_intros]:
    "tr_closing s \<Longrightarrow> tr_loops s = 0 \<Longrightarrow> tr_wg s = {} \<Longrightarrow> shutdown_step s (s\<lparr>tr_returned := True\<rparr>)"

inductive server_step :: "conn_op list loop_event set \<Rightarrow> tracker \<Rightarrow> tracker \<Rightarrow> bool" for H where
  accept [sys_intros]: "0 < tr_loops s \<Longrightarrow> h \<notin> tr_used s \<Longrightarrow> Spawn p \<in> H \<Longrightarrow> server_step H s (accept_conn h p s)"
| inline [sys_intros]: "0 < tr_loops s \<Longrightarrow> h \<notin> tr_used s \<Longrightarrow> Inline p \<in> H \<Longrightarrow> server_step H s (accept_inline h p s)"
| loop_end [sys_intros]: "0 < tr_loops s \<Longrightarrow> tr_closing s \<Longrightarrow> server_step H s (s\<lparr>tr_loops := tr_loops s - 1\<rparr>)"
| act [sys_intros]: "h \<in> tr_wg s \<Longrightarrow> tr_todo s h = op # rest \<Longrightarrow>
    server_step H s (run_op h op (s\<lparr>tr_todo := (tr_todo s)(h := rest)\<rparr>))"
| wg_done [sys_intros]: "h \<in> tr_wg s \<Longrightarrow> h \<notin> tr_inline s \<Longrightarrow> tr_todo s h = [] \<Longrightarrow> server_step H s (s\<lparr>tr_wg := tr_wg s - {h}\<rparr>)"
| inline_end [sys_intros]: "h \<in> tr_wg s \<Longrightarrow> h \<in> tr_inline s \<Longrightarrow> tr_todo s h = [] \<Longrightarrow> server_step H s (inline_done h s)"
| late_dial [sys_intros]: "h \<notin> tr_late s \<Longrightarrow> h \<in> tr_cleanup s \<or> (\<exists>rest. tr_todo s h = OpAbandon # rest) \<Longrightarrow>
    server_step H s (s\<lparr>tr_late := insert h (tr_late s)\<rparr>)"
| cleanup [sys_intros]: "h \<in> tr_late s \<Longrightarrow> h \<in> tr_cleanup s \<Longrightarrow> server_step H s (close_late h s)"
| shutdown [sys_intros]: "shutdown_step s t \<Longrightarrow> server_step H s t"

definition tracker_start :: "tracker \<Rightarrow> bool" where
  "tracker_start s \<longleftrightarrow> tr_active s = {} \<and> tr_open s = {} \<and> tr_todo s = (\<lambda>_. []) \<and> tr_used s = {} \<and> tr_wg s = {} \<and>
     \<not> tr_closing s \<and> tr_swept s = None \<and> \<not> tr_returned s \<and> tr_inline s = {} \<and> tr_late s = {} \<and> tr_cleanup s = {}"

section \<open>Invariant\<close>

text \<open>What a handler has done so far, \<open>d\<close>, determines what is tracked and what may be open.\<close>

definition conn_ok :: "tracker \<Rightarrow> nat \<Rightarrow> conn_op list \<Rightarrow> peer \<Rightarrow> bool" where
  "conn_ok s h d q \<longleftrightarrow>
     ((h, q) \<in> tr_active s \<longleftrightarrow> OpTrack q \<in> set d \<and> OpUntrack q \<notin> set d) \<and>
     ((h, q) \<in> tr_open s \<longrightarrow> (q = Client \<or> OpDial \<in> set d) \<and> OpClose q \<notin> set d) \<and>
     (\<forall>A. tr_swept s = Some A \<and> (h, q) \<in> A \<longrightarrow> (h, q) \<notin> tr_open s \<and> OpTrack q \<in> set d)"

definition handler_ok :: "conn_op list set \<Rightarrow> tracker \<Rightarrow> nat \<Rightarrow> bool" where
  "handler_ok P s h \<longleftrightarrow> (\<exists>d. d @ tr_todo s h \<in> P \<and> (\<forall>q. conn_ok s h d q))"

definition unused_ok :: "tracker \<Rightarrow> nat \<Rightarrow> bool" where
  "unused_ok s h \<longleftrightarrow>
     (\<forall>q. (h, q) \<notin> tr_active s \<and> (h, q) \<notin> tr_open s \<and> (\<forall>A. tr_swept s = Some A \<longrightarrow> (h, q) \<notin> A))"

text \<open>An abandoned dial belongs to a handler still waiting for it or to a cleanup goroutine.\<close>

definition late_ok :: "conn_op list set \<Rightarrow> tracker \<Rightarrow> bool" where
  "late_ok P s \<longleftrightarrow>
     (\<forall>h \<in> tr_late s. h \<in> tr_cleanup s \<or> OpAbandon \<in> set (tr_todo s h)) \<and> tr_cleanup s \<subseteq> tr_used s \<and>
     (tr_late s \<union> tr_cleanup s \<noteq> {} \<longrightarrow> (\<exists>p \<in> P. OpAbandon \<in> set p))"

definition tracker_inv :: "conn_op list loop_event set \<Rightarrow> tracker \<Rightarrow> bool" where
  "tracker_inv H s \<longleftrightarrow>
     late_ok (programs H) s \<and> tr_wg s \<subseteq> tr_used s \<and> (\<forall>h \<in> tr_used s. handler_ok (programs H) s h) \<and> (\<forall>h. h \<notin> tr_used s \<longrightarrow> unused_ok s h) \<and>
     (\<forall>h. h \<notin> tr_wg s \<longrightarrow> tr_todo s h = []) \<and> (tr_returned s \<longrightarrow> tr_loops s = 0 \<and> tr_wg s = {})"

lemma handler_ok_frame:
  assumes "handler_ok P s h" "tr_todo t h = tr_todo s h" "\<And>q. (h, q) \<in> tr_active t \<longleftrightarrow> (h, q) \<in> tr_active s"
    "\<And>q. (h, q) \<in> tr_open t \<longleftrightarrow> (h, q) \<in> tr_open s" "tr_swept t = tr_swept s"
  shows "handler_ok P t h"
  using assms unfolding handler_ok_def conn_ok_def by auto

lemma unused_ok_frame:
  assumes "unused_ok s h" "\<And>q. (h, q) \<in> tr_active t \<longleftrightarrow> (h, q) \<in> tr_active s"
    "\<And>q. (h, q) \<in> tr_open t \<longleftrightarrow> (h, q) \<in> tr_open s" "tr_swept t = tr_swept s"
  shows "unused_ok t h"
  using assms unfolding unused_ok_def by auto

text \<open>Steps that concern no connection.\<close>

lemma tracker_inv_frame:
  assumes "tracker_inv H s" "tr_active t = tr_active s" "tr_open t = tr_open s" "tr_todo t = tr_todo s"
    "tr_used t = tr_used s" "tr_wg t \<subseteq> tr_wg s" "\<And>h. h \<in> tr_wg s - tr_wg t \<Longrightarrow> tr_todo s h = []" "tr_swept t = tr_swept s"
    "tr_returned t \<Longrightarrow> tr_loops t = 0 \<and> tr_wg t = {}" "late_ok (programs H) t"
  shows "tracker_inv H t"
proof -
  have "handler_ok P t h" if "handler_ok P s h" for P h using that assms by (rule_tac handler_ok_frame) auto
  moreover have "unused_ok t h" if "unused_ok s h" for h using that assms by (rule_tac unused_ok_frame) auto
  moreover have "tr_todo s h = []" if "h \<notin> tr_wg t" for h
    using that assms(7) [of h] assms(1) by (cases "h \<in> tr_wg s") (auto simp: tracker_inv_def)
  ultimately show ?thesis using assms(1-6,9,10) unfolding tracker_inv_def by auto
qed

lemma late_ok_frame:
  assumes "late_ok P s" "tr_late t = tr_late s" "tr_cleanup t = tr_cleanup s" "tr_used s \<subseteq> tr_used t"
    "\<And>h. h \<in> tr_late s \<Longrightarrow> OpAbandon \<in> set (tr_todo s h) \<Longrightarrow> OpAbandon \<in> set (tr_todo t h)"
  shows "late_ok P t"
  using assms unfolding late_ok_def by auto

lemma late_ok_update [simp]:
  "late_ok P (s\<lparr>tr_loops := n\<rparr>) = late_ok P s" "late_ok P (s\<lparr>tr_wg := w\<rparr>) = late_ok P s"
  "late_ok P (s\<lparr>tr_closing := b\<rparr>) = late_ok P s" "late_ok P (s\<lparr>tr_returned := b\<rparr>) = late_ok P s"
  "late_ok P (s\<lparr>tr_inline := w\<rparr>) = late_ok P s" "late_ok P (s\<lparr>tr_open := cs\<rparr>) = late_ok P s"
  "late_ok P (s\<lparr>tr_swept := A\<rparr>) = late_ok P s"
  by (simp_all add: late_ok_def)

lemma run_op_simps [simp]:
  "tr_todo (run_op h op s) = tr_todo s" "tr_used (run_op h op s) = tr_used s" "tr_wg (run_op h op s) = tr_wg s"
  "tr_swept (run_op h op s) = tr_swept s" "tr_returned (run_op h op s) = tr_returned s"
  "tr_loops (run_op h op s) = tr_loops s" "tr_closing (run_op h op s) = tr_closing s"
  "h' \<noteq> h \<Longrightarrow> (h', q) \<in> tr_active (run_op h op s) \<longleftrightarrow> (h', q) \<in> tr_active s"
  "h' \<noteq> h \<Longrightarrow> (h', q) \<in> tr_open (run_op h op s) \<longleftrightarrow> (h', q) \<in> tr_open s"
  by (cases op; simp add: trackConn_def untrackConn_def)+

text \<open>
  The contract of a handler: what is tracked is untracked, and not before; what is opened is closed, and not before;
  the upstream is tracked only once it is there.
\<close>

locale tracked_handlers =
  fixes H :: "conn_op list loop_event set"
  assumes untracks: "p \<in> programs H \<Longrightarrow> OpTrack q \<in> set p \<Longrightarrow> OpUntrack q \<in> set p"
    and untracks_after: "xs @ OpTrack q # ys \<in> programs H \<Longrightarrow> OpUntrack q \<notin> set xs"
    and closes: "p \<in> programs H \<Longrightarrow> OpClose Client \<in> set p" "p \<in> programs H \<Longrightarrow> OpDial \<in> set p \<Longrightarrow> OpClose Upstream \<in> set p"
    and dials_first: "xs @ OpDial # ys \<in> programs H \<Longrightarrow> OpTrack Upstream \<notin> set xs \<and> OpClose Upstream \<notin> set xs"
begin

lemma finished_clean:
  assumes "handler_ok (programs H) s h" "tr_todo s h = []"
  shows "(h, q) \<notin> tr_active s \<and> (h, q) \<notin> tr_open s"
proof -
  obtain d where d: "d \<in> programs H" "conn_ok s h d q"
    using assms by (auto simp: handler_ok_def)
  then show ?thesis
    using untracks [OF d(1), of q] closes [OF d(1)] by (cases q) (auto simp: conn_ok_def)
qed

lemma act_ok:
  assumes "handler_ok (programs H) s h" "tr_todo s h = op # rest"
  shows "handler_ok (programs H) (run_op h op (s\<lparr>tr_todo := (tr_todo s)(h := rest)\<rparr>)) h"
proof -
  obtain d where d: "d @ op # rest \<in> programs H" "\<And>q. conn_ok s h d q"
    using assms by (auto simp: handler_ok_def)
  have "conn_ok (run_op h op (s\<lparr>tr_todo := (tr_todo s)(h := rest)\<rparr>)) h (d @ [op]) q" for q
  proof (cases op)
    case (OpTrack p)
    then show ?thesis
      using d(2) [of q] untracks_after [of d p rest] d(1) by (auto simp: conn_ok_def trackConn_def)
  next
    case OpDial
    then show ?thesis
      using d(2) [of q] dials_first [of d rest] d(1) by (auto simp: conn_ok_def)
  next
    case (OpUntrack p)
    then show ?thesis using d(2) [of q] by (auto simp: conn_ok_def untrackConn_def)
  next
    case (OpClose p)
    then show ?thesis using d(2) [of q] by (auto simp: conn_ok_def)
  next
    case OpAbandon
    then show ?thesis using d(2) [of q] by (auto simp: conn_ok_def)
  qed
  then show ?thesis using d(1) unfolding handler_ok_def by (intro exI [of _ "d @ [op]"] conjI allI) simp_all
qed

lemma accept_ok:
  assumes "unused_ok s h" "p \<in> programs H"
  shows "handler_ok (programs H) (accept_conn h p s) h"
  using assms unfolding handler_ok_def
  by (intro exI [of _ "[]"]) (auto simp: accept_conn_def conn_ok_def unused_ok_def)

lemma force_close_ok:
  assumes "handler_ok (programs H) s h"
  shows "handler_ok (programs H) (force_close s) h"
proof -
  obtain d where d: "d @ tr_todo s h \<in> programs H" "\<And>q. conn_ok s h d q" using assms by (auto simp: handler_ok_def)
  have "conn_ok (force_close s) h d q" for q using d(2) [of q] by (auto simp: force_close_def conn_ok_def)
  then show ?thesis using d(1) unfolding handler_ok_def by (intro exI [of _ d] conjI allI) (simp_all add: force_close_def)
qed

lemma accept_inv:
  assumes inv: "tracker_inv H s" and h: "h \<notin> tr_used s" and p: "p \<in> programs H" and loops: "0 < tr_loops s"
  shows "tracker_inv H (accept_conn h p s)"
proof -
  have u: "unused_ok s h" and l: "late_ok (programs H) s" "tr_todo s h = []" "\<not> tr_returned s"
    using inv h loops by (auto simp: tracker_inv_def)
  have "handler_ok (programs H) (accept_conn h p s) h'" if "h' \<in> tr_used s \<or> h' = h" for h'
  proof (cases "h' = h")
    case False
    then have "handler_ok (programs H) s h'" using that inv by (simp add: tracker_inv_def)
    then show ?thesis using False by (rule_tac handler_ok_frame) (auto simp: accept_conn_def)
  qed (simp add: accept_ok [OF u p])
  moreover have "unused_ok (accept_conn h p s) h'" if "h' \<notin> tr_used s" "h' \<noteq> h" for h'
  proof -
    have "unused_ok s h'" using that inv by (simp add: tracker_inv_def)
    then show ?thesis using that by (rule_tac unused_ok_frame) (auto simp: accept_conn_def)
  qed
  moreover have "late_ok (programs H) (accept_conn h p s)"
    using l(1) by (rule late_ok_frame) (use l(2) in \<open>auto simp: accept_conn_def\<close>)
  ultimately show ?thesis
    using inv l(3) by (auto simp: tracker_inv_def) (auto simp: accept_conn_def)
qed

lemma act_late_ok:
  assumes "late_ok (programs H) s" "handler_ok (programs H) s h" "tr_todo s h = op # rest" "h \<in> tr_used s"
  shows "late_ok (programs H) (run_op h op (s\<lparr>tr_todo := (tr_todo s)(h := rest)\<rparr>))"
proof (cases "op = OpAbandon")
  case True
  obtain d where "d @ OpAbandon # rest \<in> programs H" using assms(2,3) True by (auto simp: handler_ok_def)
  then have "\<exists>p \<in> programs H. OpAbandon \<in> set p" by (intro bexI [of _ "d @ OpAbandon # rest"]) simp_all
  then show ?thesis using assms(1,4) True by (auto simp: late_ok_def)
next
  case False
  have "tr_late (run_op h op s') = tr_late s'" "tr_cleanup (run_op h op s') = tr_cleanup s'" for s'
    using False by (cases op; simp add: trackConn_def untrackConn_def)+
  then show ?thesis using assms(1) by (rule_tac late_ok_frame) (use False assms(3) in auto)
qed

lemma act_inv:
  assumes inv: "tracker_inv H s" and h: "h \<in> tr_wg s" and todo: "tr_todo s h = op # rest"
  shows "tracker_inv H (run_op h op (s\<lparr>tr_todo := (tr_todo s)(h := rest)\<rparr>))" (is "tracker_inv H ?t")
proof -
  have u: "h \<in> tr_used s" using inv h by (auto simp: tracker_inv_def)
  have "handler_ok (programs H) ?t h'" if "h' \<in> tr_used s" for h'
  proof (cases "h' = h")
    case True
    then show ?thesis using act_ok [of s h op rest] todo that inv by (simp add: tracker_inv_def)
  next
    case False
    have "handler_ok (programs H) s h'" using that inv by (simp add: tracker_inv_def)
    then show ?thesis using False by (rule_tac handler_ok_frame) auto
  qed
  moreover have "unused_ok ?t h'" if "h' \<notin> tr_used s" for h'
  proof -
    have "unused_ok s h'" "h' \<noteq> h" using that inv u by (auto simp: tracker_inv_def)
    then show ?thesis by (rule_tac unused_ok_frame) auto
  qed
  moreover have "late_ok (programs H) ?t" using inv u todo by (intro act_late_ok) (auto simp: tracker_inv_def)
  ultimately show ?thesis using inv h by (auto simp: tracker_inv_def)
qed

lemma late_dial_ok:
  assumes "tracker_inv H s" "h \<in> tr_cleanup s \<or> (\<exists>rest. tr_todo s h = OpAbandon # rest)"
  shows "late_ok (programs H) (s\<lparr>tr_late := insert h (tr_late s)\<rparr>)"
proof -
  have l: "late_ok (programs H) s" using assms(1) by (simp add: tracker_inv_def)
  have "\<exists>p \<in> programs H. OpAbandon \<in> set p"
  proof (cases "h \<in> tr_cleanup s")
    case False
    then obtain rest where r: "tr_todo s h = OpAbandon # rest" using assms(2) by blast
    then have "h \<in> tr_used s" using assms(1) by (auto simp: tracker_inv_def)
    then obtain d where "d @ OpAbandon # rest \<in> programs H" using assms(1) r by (auto simp: tracker_inv_def handler_ok_def)
    then show ?thesis by (intro bexI [of _ "d @ OpAbandon # rest"]) simp_all
  qed (use l in \<open>auto simp: late_ok_def\<close>)
  then show ?thesis using l assms(2) by (auto simp: late_ok_def)
qed

lemma server_step_inv:
  assumes inv: "tracker_inv H s" and step: "server_step H s t"
  shows "tracker_inv H t"
  using step
proof cases
  case (accept h p)
  then show ?thesis using accept_inv [OF inv accept(3)] by (simp add: programs_def)
next
  case (inline h p)
  have a: "tracker_inv H (accept_conn h p s)" using inline accept_inv [OF inv inline(3)] by (simp add: programs_def)
  have "\<not> tr_returned s" using inline(2) inv by (auto simp: tracker_inv_def)
  then show ?thesis
    using inline(1) a by (rule_tac tracker_inv_frame [OF a]) (simp_all add: accept_inline_def accept_conn_def tracker_inv_def)
next
  case loop_end
  then show ?thesis using inv by (rule_tac tracker_inv_frame [OF inv]) (auto simp: tracker_inv_def)
next
  case (act h op rest)
  then show ?thesis using act_inv [OF inv act(2,3)] by simp
next
  case (wg_done h)
  then show ?thesis using inv by (rule_tac tracker_inv_frame [OF inv]) (auto simp: tracker_inv_def)
next
  case (inline_end h)
  then show ?thesis using inv by (rule_tac tracker_inv_frame [OF inv]) (auto simp: tracker_inv_def inline_done_def)
next
  case (late_dial h)
  then show ?thesis
    using inv late_dial_ok [OF inv late_dial(3)] by (rule_tac tracker_inv_frame [OF inv]) (simp_all add: tracker_inv_def)
next
  case (cleanup h)
  have "late_ok (programs H) (close_late h s)" using inv by (auto simp: tracker_inv_def late_ok_def close_late_def)
  then show ?thesis
    using inv cleanup(1) by (rule_tac tracker_inv_frame [OF inv]) (simp_all add: tracker_inv_def close_late_def)
next
  case shutdown
  then show ?thesis
  proof cases
    case close_listeners
    then show ?thesis using inv by (rule_tac tracker_inv_frame [OF inv]) (auto simp: tracker_inv_def)
  next
    case grace_over
    have "unused_ok (force_close s) h" if "unused_ok s h" for h using that by (simp add: unused_ok_def force_close_def)
    then have "tracker_inv H (force_close s)"
      using inv force_close_ok unfolding tracker_inv_def by (auto simp: force_close_def)
    then show ?thesis using grace_over by simp
  next
    case wait_done
    then show ?thesis using inv by (rule_tac tracker_inv_frame [OF inv]) (auto simp: tracker_inv_def)
  qed
qed

lemma tracker_start_inv: "tracker_start s \<Longrightarrow> tracker_inv H s"
  by (simp add: tracker_start_def tracker_inv_def unused_ok_def late_ok_def)

end

sublocale tracked_handlers \<subseteq> tracker: invariant_system tracker_start "server_step H" "tracker_inv H"
  by unfold_locales (rule tracker_start_inv, assumption, rule server_step_inv)

section \<open>The handlers keep the contract\<close>

definition short_program :: "conn_op list" where
  "short_program = [OpTrack Client, OpUntrack Client, OpClose Client]"

definition long_program :: "conn_op list" where
  "long_program = [OpTrack Client, OpDial, OpTrack Upstream, OpUntrack Upstream, OpClose Upstream, OpUntrack Client,
     OpClose Client]"

definition late_program :: "conn_op list" where
  "late_program = [OpTrack Client, OpAbandon, OpUntrack Client, OpClose Client]"

lemmas program_defs = short_program_def long_program_def late_program_def

lemma three_programs:
  assumes "programs H \<subseteq> {short_program, long_program, late_program}"
  shows "tracked_handlers H"
proof
  fix p xs ys :: "conn_op list" and q
  let ?P = "programs H"
  show "p \<in> ?P \<Longrightarrow> OpTrack q \<in> set p \<Longrightarrow> OpUntrack q \<in> set p" "p \<in> ?P \<Longrightarrow> OpClose Client \<in> set p"
    "p \<in> ?P \<Longrightarrow> OpDial \<in> set p \<Longrightarrow> OpClose Upstream \<in> set p"
    using assms by (auto simp: program_defs)
  have split: "xs @ op # ys = p \<Longrightarrow> xs = takeWhile (\<lambda>x. x \<noteq> op) p" if "distinct p" for op p
    using that by (auto simp: takeWhile_append)
  have d: "distinct p" if "p \<in> ?P" for p using that assms by (auto simp: program_defs)
  show "OpUntrack q \<notin> set xs" if "xs @ OpTrack q # ys \<in> ?P"
    using split [OF d [OF that] refl] that assms by (cases q) (auto simp: program_defs)
  show "OpTrack Upstream \<notin> set xs \<and> OpClose Upstream \<notin> set xs" if "xs @ OpDial # ys \<in> ?P"
    using split [OF d [OF that] refl] that assms by (auto simp: program_defs)
qed

lemma in_handleTCP_program: "concat (map in_ops (in_handleTCP env l)) \<in> {short_program, long_program, late_program}"
proof (cases rule: in_handleTCP_cases [of env l])
  case (undialled acts)
  then show ?thesis by (auto simp: program_defs)
next
  case (shuttled moved down acts)
  have "concat (map in_ops acts) = []" using shuttled(2) by auto
  then show ?thesis using shuttled(3) by (simp add: program_defs in_with_upstream_def)
qed

lemma in_handle_program: "concat (map in_ops (in_handle env l)) \<in> {short_program, long_program, late_program}"
proof (cases rule: in_handle_cases [of l env])
  case (routed host buffered rest route acts tail)
  have "concat (map in_ops acts) = []" using routed(4) by auto
  moreover have "concat (map in_ops tail) = [] \<or> concat (map in_ops tail) = [OpAbandon] \<or>
      concat (map in_ops tail) = [OpDial, OpTrack Upstream, OpUntrack Upstream, OpClose Upstream]"
    using routed(4) by (auto simp: in_with_upstream_def proxy_actions_def Let_def)
  ultimately show ?thesis using routed(3) by (auto simp: program_defs)
qed (simp_all add: program_defs)

lemma inbound_program_list: "programs inbound_programs \<subseteq> {short_program, long_program, late_program}"
  using in_handleTCP_program in_handle_program
  by (auto simp: programs_def inbound_programs_def inbound_dispatch_def split: if_splits)

lemma served_no_ops: "served acts \<Longrightarrow> concat (map out_ops acts) = []"
proof -
  assume s: "served acts"
  have "out_ops a = []" if "a \<in> set acts" for a
    using that s by (cases a rule: out_ops.cases) (auto simp: served_def)
  then show ?thesis by simp
qed

lemma through_ops:
  "through env m l acts \<Longrightarrow> concat (map out_ops acts) = [] \<or>
     concat (map out_ops acts) = [OpDial, OpTrack Upstream, OpUntrack Upstream, OpClose Upstream]"
  using served_no_ops
  by (auto simp: through_def bad_request_def denied_def dial_failed_def with_upstream_def writeStatusLine_def)

lemma out_handle_program: "concat (map out_ops (Outbound_Conn.handle env ms cid)) \<in> {short_program, long_program}"
proof (cases "map_of ms cid")
  case None
  then show ?thesis by (simp add: handle_def program_defs)
next
  case (Some m)
  obtain acts where h: "through env m (FormatCID cid) acts"
      "handle env ms cid = [Track Client] @ acts @ [Untrack Client, CloseConn Client]"
    using handle_through [OF Some] by blast
  show ?thesis using through_ops [OF h(1)] unfolding h(2) by (auto simp: program_defs)
qed

lemma out_handleTCP_program: "concat (map tcp_ops (handleTCP env a)) \<in> {short_program, long_program}"
  by (cases "te_shuttle env") (simp add: handleTCP_def tcp_with_upstream_def program_defs Let_def)

lemma outbound_program_list: "programs outbound_programs \<subseteq> {short_program, long_program}"
proof
  fix p assume "p \<in> programs outbound_programs"
  then obtain l l' c where "Spawn p = map_loop_event (out_program l') (outbound_dispatch (l, c)) \<or>
      Inline p = map_loop_event (out_program l') (outbound_dispatch (l, c))"
    by (auto simp: programs_def outbound_programs_def)
  then consider "p = relay_program" | "p = out_program l' (HandleTCP c (upstreamSnapshot l))" | "p = out_program l' (HandleHTTP c)"
    by (auto simp: outbound_dispatch_def Let_def split: if_splits)
  then show "p \<in> {short_program, long_program}"
  proof cases
    case 1
    then show ?thesis by (simp add: relay_program_def short_program_def)
  qed (use out_handle_program out_handleTCP_program in simp_all)
qed

lemma outbound_abandons_nothing: "p \<in> programs outbound_programs \<Longrightarrow> OpAbandon \<notin> set p"
  using outbound_program_list by (auto simp: program_defs)

interpretation inbound: tracked_handlers inbound_programs
  by (rule three_programs [OF inbound_program_list])

interpretation outbound: tracked_handlers outbound_programs
  by (rule three_programs) (use outbound_program_list in blast)

section \<open>Properties\<close>

definition server_reach :: "conn_op list loop_event set \<Rightarrow> tracker \<Rightarrow> bool" where
  "server_reach H = reach tracker_start (server_step H)"

lemma server_reach_inv:
  "server_reach H s \<Longrightarrow> H = inbound_programs \<or> H = outbound_programs \<Longrightarrow> tracker_inv H s"
  unfolding server_reach_def using inbound.tracker.invar_reach outbound.tracker.invar_reach by blast

lemma inv_clean:
  assumes "tracker_inv H s" "H = inbound_programs \<or> H = outbound_programs" "h \<notin> tr_wg s"
  shows "(h, q) \<notin> tr_active s \<and> (h, q) \<notin> tr_open s"
proof (cases "h \<in> tr_used s")
  case True
  then have "handler_ok (programs H) s h" "tr_todo s h = []" using assms(1,3) by (auto simp: tracker_inv_def)
  then show ?thesis using assms(2) inbound.finished_clean outbound.finished_clean by blast
next
  case False
  then show ?thesis using assms(1) by (auto simp: tracker_inv_def unused_ok_def)
qed

lemma inv_swept:
  assumes "tracker_inv H s" "tr_swept s = Some A" "(h, q) \<in> A"
  shows "(h, q) \<notin> tr_open s"
proof (cases "h \<in> tr_used s")
  case True
  then have "handler_ok (programs H) s h" using assms(1) by (simp add: tracker_inv_def)
  then obtain d where "conn_ok s h d q" unfolding handler_ok_def by blast
  then show ?thesis using assms(2,3) by (auto simp: conn_ok_def)
next
  case False
  then show ?thesis using assms by (auto simp: tracker_inv_def unused_ok_def)
qed

text \<open>An open connection of an abandoned dial.\<close>

lemma inv_late:
  assumes "tracker_inv H s" "h \<in> tr_late s"
  shows "h \<in> tr_wg s \<or> h \<in> tr_cleanup s" "H \<noteq> outbound_programs"
proof -
  have l: "late_ok (programs H) s" using assms(1) by (simp add: tracker_inv_def)
  then have "h \<in> tr_cleanup s \<or> tr_todo s h \<noteq> []" using assms(2) by (auto simp: late_ok_def)
  then show "h \<in> tr_wg s \<or> h \<in> tr_cleanup s" using assms(1) by (auto simp: tracker_inv_def)
  show "H \<noteq> outbound_programs" using l assms(2) outbound_abandons_nothing by (auto simp: late_ok_def)
qed

text \<open>
  C9. In every interleaving of the accept loops, the handlers (the log relay's in its loop, the others beside it) and
  \<open>Shutdown\<close>, on either server: a connection that is tracked or held by a handler belongs to a handler \<open>Shutdown\<close> waits
  for; when \<open>Shutdown\<close> has returned none is; and when the grace period ran out, every connection tracked at that moment
  is closed from then on. What \<open>Shutdown\<close> does not wait for is an inbound dial given up because it began: the connection
  such a dial still brings can be open after \<open>Shutdown\<close> returned, but only while its cleanup goroutine is there, which
  can close it in its next step. The outbound server has no such connection.
\<close>

theorem shutdown_closes_all:
  assumes "server_reach H s" "H = inbound_programs \<or> H = outbound_programs"
  shows "tr_active s \<union> tr_open s \<subseteq> tr_wg s \<times> UNIV \<and>
     (tr_returned s \<longrightarrow> tr_active s = {} \<and> tr_open s = {} \<and> tr_late s \<subseteq> tr_cleanup s) \<and>
     (\<forall>A. tr_swept s = Some A \<longrightarrow> tr_open s \<inter> A = {}) \<and>
     tr_late s \<subseteq> tr_wg s \<union> tr_cleanup s \<and> (H = outbound_programs \<longrightarrow> tr_late s = {}) \<and>
     (\<forall>h \<in> tr_late s \<inter> tr_cleanup s. \<exists>t. server_step H s t \<and> tr_late t = tr_late s - {h})"
proof -
  note inv = server_reach_inv [OF assms]
  have "fst c \<in> tr_wg s" if "c \<in> tr_active s \<union> tr_open s" for c
    using inv_clean [OF inv assms(2), of "fst c" "snd c"] that by auto
  then have a: "tr_active s \<union> tr_open s \<subseteq> tr_wg s \<times> UNIV"
    by (auto simp: mem_Times_iff subset_iff simp del: split_paired_All)
  have "\<forall>A. tr_swept s = Some A \<longrightarrow> tr_open s \<inter> A = {}" using inv_swept [OF inv] by auto
  moreover have r: "tr_returned s \<longrightarrow> tr_wg s = {}" using inv by (simp add: tracker_inv_def)
  moreover have l: "tr_late s \<subseteq> tr_wg s \<union> tr_cleanup s" "H = outbound_programs \<longrightarrow> tr_late s = {}"
    using inv_late [OF inv] by blast+
  moreover have "\<forall>h \<in> tr_late s \<inter> tr_cleanup s. \<exists>t. server_step H s t \<and> tr_late t = tr_late s - {h}"
  proof
    fix h assume "h \<in> tr_late s \<inter> tr_cleanup s"
    then have "server_step H s (close_late h s)" by (auto intro: cleanup)
    then show "\<exists>t. server_step H s t \<and> tr_late t = tr_late s - {h}" by (auto simp: close_late_def)
  qed
  ultimately show ?thesis using a by auto
qed



text \<open>A connection is accepted, tracked, and dials; the grace period ends; then the upstream is tracked.\<close>

definition tracker_at :: "conn_id set \<Rightarrow> conn_id set \<Rightarrow> conn_op list \<Rightarrow> bool \<Rightarrow> conn_id set option \<Rightarrow> tracker" where
  "tracker_at active opn todo closing swept =
     \<lparr>tr_active = active, tr_open = opn, tr_todo = (\<lambda>_. [])(0 := todo), tr_used = {0}, tr_wg = {0}, tr_loops = 1,
      tr_closing = closing, tr_swept = swept, tr_returned = False, tr_inline = {}, tr_late = {}, tr_cleanup = {}\<rparr>"

definition late_tracker :: tracker where
  "late_tracker =
     tracker_at {(0, Client), (0, Upstream)} {(0, Upstream)} (drop 3 long_program) True (Some {(0, Client)})"

lemma act_at:
  assumes "todo = op # rest" "t = run_op 0 op (tracker_at active opn rest closing swept)"
  shows "server_step P (tracker_at active opn todo closing swept) t"
  using act [of 0 "tracker_at active opn todo closing swept" op rest P] assms by (simp add: tracker_at_def)

lemma late_reach:
  assumes "Spawn long_program \<in> P"
  shows "server_reach P late_tracker"
proof -
  let ?r = "reach tracker_start (server_step P)"
  let ?s0 = "\<lparr>tr_active = {}, tr_open = {}, tr_todo = (\<lambda>_. []), tr_used = {}, tr_wg = {}, tr_loops = 1,
     tr_closing = False, tr_swept = None, tr_returned = False, tr_inline = {}, tr_late = {}, tr_cleanup = {}\<rparr>"
  have "?r ?s0" by (rule reach_start) (simp add: tracker_start_def)
  moreover have "server_step P ?s0 (tracker_at {} {(0, Client)} long_program False None)"
    using accept [of ?s0 0 long_program P] assms by (simp add: accept_conn_def tracker_at_def)
  ultimately have "?r (tracker_at {} {(0, Client)} long_program False None)" by (rule reach_step)
  moreover have "server_step P (tracker_at {} {(0, Client)} long_program False None)
      (tracker_at {(0, Client)} {(0, Client)} (drop 1 long_program) False None)"
    by (rule act_at [where op = "OpTrack Client" and rest = "drop 1 long_program"])
      (auto simp: long_program_def trackConn_def tracker_at_def)
  ultimately have "?r (tracker_at {(0, Client)} {(0, Client)} (drop 1 long_program) False None)" by (rule reach_step)
  moreover have "server_step P (tracker_at {(0, Client)} {(0, Client)} (drop 1 long_program) False None)
      (tracker_at {(0, Client)} {(0, Client), (0, Upstream)} (drop 2 long_program) False None)"
    by (rule act_at [where op = OpDial and rest = "drop 2 long_program"]) (auto simp: long_program_def tracker_at_def)
  ultimately have "?r (tracker_at {(0, Client)} {(0, Client), (0, Upstream)} (drop 2 long_program) False None)" by (rule reach_step)
  moreover have "server_step P (tracker_at {(0, Client)} {(0, Client), (0, Upstream)} (drop 2 long_program) False None)
      (tracker_at {(0, Client)} {(0, Client), (0, Upstream)} (drop 2 long_program) True None)"
    using shutdown [OF close_listeners, of P] by (metis tracker_at_def tracker.update_convs(7))
  ultimately have "?r (tracker_at {(0, Client)} {(0, Client), (0, Upstream)} (drop 2 long_program) True None)" by (rule reach_step)
  moreover have "server_step P (tracker_at {(0, Client)} {(0, Client), (0, Upstream)} (drop 2 long_program) True None)
      (tracker_at {(0, Client)} {(0, Upstream)} (drop 2 long_program) True (Some {(0, Client)}))"
    using shutdown [OF grace_over, of "tracker_at {(0, Client)} {(0, Client), (0, Upstream)} (drop 2 long_program) True None" P]
    by (simp add: tracker_at_def force_close_def insert_Diff_if)
  ultimately have "?r (tracker_at {(0, Client)} {(0, Upstream)} (drop 2 long_program) True (Some {(0, Client)}))" by (rule reach_step)
  moreover have "server_step P (tracker_at {(0, Client)} {(0, Upstream)} (drop 2 long_program) True (Some {(0, Client)})) late_tracker"
    unfolding late_tracker_def
    by (rule act_at [where op = "OpTrack Upstream" and rest = "drop 3 long_program"])
      (auto simp: long_program_def tracker_at_def trackConn_def)
  ultimately show ?thesis unfolding server_reach_def by (rule reach_step)
qed


definition dialling_env :: in_env where
  "dialling_env = \<lparr>ie_chunks = [], ie_end = EOF, ie_shutdown = False, ie_dial = (\<lambda>_ _. Dialled True), ie_replayed = None,
     ie_up = (0, False), ie_down = (0, False), ie_shuttle = (0, 0, False)\<rparr>"

lemma inbound_long: "Spawn long_program \<in> inbound_programs"
proof -
  have "concat (map in_ops (in_handleTCP dialling_env sample_tcp_listener)) = long_program"
    by (simp add: in_handleTCP_def dialling_env_def dialUpstream_def in_with_upstream_def long_program_def Let_def)
  then have "Spawn long_program = map_loop_event (in_program sample_tcp_listener) (inbound_dispatch sample_tcp_listener dialling_env)"
    by (simp add: inbound_dispatch_def sample_tcp_listener_def)
  then show ?thesis unfolding inbound_programs_def by blast
qed



text \<open>An inbound connection whose dial is given up on shutdown; \<open>Shutdown\<close> returns, and then the dial succeeds.\<close>

definition outliving :: "conn_id set \<Rightarrow> conn_id set \<Rightarrow> conn_op list \<Rightarrow> nat set \<Rightarrow> nat \<Rightarrow> bool \<Rightarrow> nat set \<Rightarrow> nat set \<Rightarrow> tracker" where
  "outliving active opn todo wg loops returned late cu =
     \<lparr>tr_active = active, tr_open = opn, tr_todo = (\<lambda>_. [])(0 := todo), tr_used = {0}, tr_wg = wg, tr_loops = loops,
      tr_closing = True, tr_swept = None, tr_returned = returned, tr_inline = {}, tr_late = late, tr_cleanup = cu\<rparr>"

lemma outliving_act:
  "server_reach H (outliving active opn (op # rest) {0} 0 False {} cu) \<Longrightarrow>
   server_reach H (run_op 0 op (outliving active opn rest {0} 0 False {} cu))"
  unfolding server_reach_def
  using act [of 0 "outliving active opn (op # rest) {0} 0 False {} cu" op rest H]
  by (elim reach_step) (simp add: outliving_def)

lemma outliving_reach:
  assumes "Spawn late_program \<in> H"
  shows "server_reach H (outliving {} {} [] {} 0 True {0} {0})"
proof -
  let ?s0 = "\<lparr>tr_active = {}, tr_open = {}, tr_todo = (\<lambda>_. []), tr_used = {}, tr_wg = {}, tr_loops = 1,
     tr_closing = False, tr_swept = None, tr_returned = False, tr_inline = {}, tr_late = {}, tr_cleanup = {}\<rparr>"
  note step = reach_step [of tracker_start "server_step H", folded server_reach_def]
  have "server_reach H ?s0" unfolding server_reach_def by (rule reach_start) (simp add: tracker_start_def)
  then have "server_reach H (accept_conn 0 late_program ?s0)" by (rule step) (rule accept, use assms in simp_all)
  then have "server_reach H ((accept_conn 0 late_program ?s0)\<lparr>tr_closing := True\<rparr>)"
    by (rule step) (rule shutdown [OF close_listeners])
  then have "server_reach H (outliving {} {(0, Client)} late_program {0} 0 False {} {})"
    by (rule step) (use loop_end [of "(accept_conn 0 late_program ?s0)\<lparr>tr_closing := True\<rparr>" H] in
      \<open>simp add: accept_conn_def outliving_def\<close>)
  then have "server_reach H (outliving {(0, Client)} {(0, Client)} (tl late_program) {0} 0 False {} {})"
    using outliving_act [of H "{}" "{(0, Client)}" "OpTrack Client" "tl late_program" "{}"]
    by (simp add: late_program_def trackConn_def outliving_def)
  then have "server_reach H (outliving {(0, Client)} {(0, Client)} (tl (tl late_program)) {0} 0 False {} {0})"
    using outliving_act [of H "{(0, Client)}" "{(0, Client)}" OpAbandon "tl (tl late_program)" "{}"]
    by (simp add: late_program_def outliving_def)
  then have "server_reach H (outliving {} {(0, Client)} [OpClose Client] {0} 0 False {} {0})"
    using outliving_act [of H "{(0, Client)}" "{(0, Client)}" "OpUntrack Client" "[OpClose Client]" "{0}"]
    by (simp add: late_program_def untrackConn_def outliving_def)
  then have "server_reach H (outliving {} {} [] {0} 0 False {} {0})"
    using outliving_act [of H "{}" "{(0, Client)}" "OpClose Client" "[]" "{0}"] by (simp add: outliving_def)
  then have "server_reach H (outliving {} {} [] {} 0 False {} {0})"
    by (rule step) (use wg_done [of 0 "outliving {} {} [] {0} 0 False {} {0}" H] in \<open>simp add: outliving_def\<close>)
  then have "server_reach H (outliving {} {} [] {} 0 True {} {0})"
    by (rule step)
      (use shutdown [OF wait_done, of "outliving {} {} [] {} 0 False {} {0}" H] in \<open>simp add: outliving_def\<close>)
  then show ?thesis
    by (rule step) (use late_dial [of 0 "outliving {} {} [] {} 0 True {} {0}" H] in \<open>simp add: outliving_def\<close>)
qed

lemma inbound_late: "Spawn late_program \<in> inbound_programs"
proof -
  let ?env = "dialling_env\<lparr>ie_dial := (\<lambda>_ _. Cancelled True)\<rparr>"
  have "concat (map in_ops (in_handleTCP ?env sample_tcp_listener)) = late_program"
    by (simp add: in_handleTCP_def dialling_env_def dialUpstream_def late_program_def Let_def)
  then have "Spawn late_program = map_loop_event (in_program sample_tcp_listener) (inbound_dispatch sample_tcp_listener ?env)"
    by (simp add: inbound_dispatch_def sample_tcp_listener_def)
  then show ?thesis unfolding inbound_programs_def by blast
qed

theorem shutdown_closes_all_witness:
  "server_reach inbound_programs late_tracker \<and> tr_active late_tracker \<noteq> {} \<and> tr_open late_tracker \<inter> {(0, Client)} = {} \<and>
   (\<exists>s t. server_reach inbound_programs s \<and> tr_returned s \<and> tr_open s = {} \<and> tr_late s = {0} \<and>
      server_step inbound_programs s t \<and> tr_late t = {})"
proof -
  let ?s = "outliving {} {} [] {} 0 True {0} {0}"
  have "tr_swept late_tracker = Some {(0, Client)}" "tr_active late_tracker \<noteq> {}"
    by (simp_all add: late_tracker_def tracker_at_def)
  then have a: "server_reach inbound_programs late_tracker \<and> tr_active late_tracker \<noteq> {} \<and> tr_open late_tracker \<inter> {(0, Client)} = {}"
    using shutdown_closes_all [OF late_reach [OF inbound_long]] late_reach [OF inbound_long] by simp
  have s: "tr_returned ?s" "tr_late ?s = {0}" "tr_cleanup ?s = {0}" by (simp_all add: outliving_def)
  note r = outliving_reach [OF inbound_late]
  from shutdown_closes_all [OF r] s
  have "tr_open ?s = {}" "\<exists>t. server_step inbound_programs ?s t \<and> tr_late t = {}" by auto
  then show ?thesis using a r s by blast
qed

end
