(* ===== verification/Event.thy ===== *)
theory Event
  imports LogRelay
begin

text \<open>
  \<open>internal/supervisor/event.go\<close>: the NDJSON records the supervisor ships. \<open>json.Marshal\<close> of the envelope is written
  out: the fields in the order of the struct, strings escaped, the tags with sorted keys, and the optional fields left
  out when their pointer is nil. The clock's answer, formatted, is the argument \<open>now\<close>.
\<close>

section \<open>Records\<close>

definition TypeLog :: bytes where "TypeLog = ''log''"
definition TypeStart :: bytes where "TypeStart = ''start''"
definition TypeExit :: bytes where "TypeExit = ''exit''"
definition TypeDrop :: bytes where "TypeDrop = ''drop''"
definition StreamStdout :: bytes where "StreamStdout = ''stdout''"
definition StreamStderr :: bytes where "StreamStderr = ''stderr''"
definition StreamNone :: bytes where "StreamNone = ''-''"
definition SrcSupervisor :: bytes where "SrcSupervisor = ''supervisor''"

record envelope =
  ev_Ts :: bytes
  ev_Src :: bytes
  ev_PID :: int
  ev_Stream :: bytes
  ev_Tags :: "(bytes \<times> bytes) list option"
  ev_Type :: bytes
  ev_Msg :: "bytes option"
  ev_Code :: "int option"
  ev_Signal :: "bytes option"
  ev_Count :: "int option"
  ev_Truncated :: bool

definition envelope_of :: "bytes \<Rightarrow> int \<Rightarrow> bytes \<Rightarrow> bytes \<Rightarrow> envelope" where
  "envelope_of src pid strm type =
     \<lparr>ev_Ts = [], ev_Src = src, ev_PID = pid, ev_Stream = strm, ev_Tags = None, ev_Type = type, ev_Msg = None,
      ev_Code = None, ev_Signal = None, ev_Count = None, ev_Truncated = False\<rparr>"

record Framer =
  fr_tags :: "(bytes \<times> bytes) list option"

definition NewFramer :: "(bytes \<times> bytes) list option \<Rightarrow> Framer" where
  "NewFramer tags = \<lparr>fr_tags = tags\<rparr>"

definition json_field :: "bytes \<Rightarrow> bytes \<Rightarrow> bytes" where
  "json_field k x = marshal_string k @ CHR '':'' # x"

definition envelope_members :: "envelope \<Rightarrow> bytes list" where
  "envelope_members e =
     [json_field ''ts'' (marshal_string (ev_Ts e)), json_field ''src'' (marshal_string (ev_Src e)),
      json_field ''pid'' (Itoa (ev_PID e)), json_field ''stream'' (marshal_string (ev_Stream e))] @
     (case ev_Tags e of None \<Rightarrow> [] | Some m \<Rightarrow> [json_field ''tags'' (marshal_map m)]) @
     [json_field ''type'' (marshal_string (ev_Type e))] @
     (case ev_Msg e of None \<Rightarrow> [] | Some s \<Rightarrow> [json_field ''msg'' (marshal_string s)]) @
     (case ev_Code e of None \<Rightarrow> [] | Some n \<Rightarrow> [json_field ''code'' (Itoa n)]) @
     (case ev_Signal e of None \<Rightarrow> [] | Some s \<Rightarrow> [json_field ''signal'' (marshal_string s)]) @
     (case ev_Count e of None \<Rightarrow> [] | Some n \<Rightarrow> [json_field ''count'' (Itoa n)]) @
     (if ev_Truncated e then [json_field ''truncated'' ''true''] else [])"

definition marshal_envelope :: "envelope \<Rightarrow> bytes" where
  "marshal_envelope e = CHR ''{'' # join_members (envelope_members e)"

definition frame :: "bytes \<Rightarrow> Framer \<Rightarrow> envelope \<Rightarrow> bytes" where
  "frame now f e = marshal_envelope (e\<lparr>ev_Ts := now, ev_Tags := fr_tags f\<rparr>) @ [CHR 0x0A]"

definition logLine :: "bytes \<Rightarrow> Framer \<Rightarrow> bytes \<Rightarrow> int \<Rightarrow> bytes \<Rightarrow> bytes \<Rightarrow> bool \<Rightarrow> bytes" where
  "logLine now f src pid strm msg truncated =
     frame now f ((envelope_of src pid strm TypeLog)\<lparr>ev_Msg := Some msg, ev_Truncated := truncated\<rparr>)"

definition Log :: "bytes \<Rightarrow> Framer \<Rightarrow> bytes \<Rightarrow> int \<Rightarrow> bytes \<Rightarrow> bytes \<Rightarrow> bytes" where
  "Log now f src pid strm msg = logLine now f src pid strm msg False"

definition StartRecord :: "bytes \<Rightarrow> Framer \<Rightarrow> bytes \<Rightarrow> int \<Rightarrow> bytes" where
  "StartRecord now f src pid = frame now f (envelope_of src pid StreamNone TypeStart)"

definition ExitRecord :: "bytes \<Rightarrow> Framer \<Rightarrow> bytes \<Rightarrow> int \<Rightarrow> int \<Rightarrow> bytes \<Rightarrow> bytes" where
  "ExitRecord now f src pid code signal =
     (let e = (envelope_of src pid StreamNone TypeExit)\<lparr>ev_Code := Some code\<rparr> in
      frame now f (if signal \<noteq> [] then e\<lparr>ev_Signal := Some signal\<rparr> else e))"

definition DropRecord :: "bytes \<Rightarrow> Framer \<Rightarrow> int \<Rightarrow> int \<Rightarrow> bytes" where
  "DropRecord now f pid n = frame now f ((envelope_of SrcSupervisor pid StreamNone TypeDrop)\<lparr>ev_Count := Some n\<rparr>)"

section \<open>Decoding\<close>

lemma Itoa_text: "value_text d (Itoa n) (JNum (Itoa n))"
proof (cases "n < 0")
  case False
  then show ?thesis using number_text [of d "nat n"] by (simp add: Itoa_def)
next
  case True
  let ?m = "nat (- n)"
  obtain a u where d: "digits_of ?m = a # u" by (cases "digits_of ?m") auto
  then have a: "is_digit a" using digits_of_digits [of ?m] by simp
  have s: "scan_number (CHR ''-'' # digits_of ?m @ c # r) = Some (CHR ''-'' # digits_of ?m, c # r)" if "follows c" for c r
  proof -
    have c: "\<not> is_digit c" "c \<noteq> CHR ''.''" "c \<noteq> CHR ''e''" "c \<noteq> CHR ''E''" using that by (auto simp: is_digit_def follows_def)
    then have frac: "scan_frac acc (c # r) = Some (acc, c # r)" for acc by (simp add: scan_frac_def scan_exp_def)
    have ds: "\<forall>x \<in> set (a # u). is_digit x" using digits_of_digits [of ?m] by (simp add: d list_all_iff)
    then have "takeWhile is_digit ((a # u) @ c # r) = a # u" "dropWhile is_digit ((a # u) @ c # r) = c # r"
      using c(1) by (simp_all add: takeWhile_append dropWhile_append)
    moreover have "u = []" if "a = CHR ''0''"
      using digits_of_leading_zero [OF d that] d by (simp add: digits_of.simps)
    ultimately show ?thesis using ds unfolding d scan_number_def Let_def by (auto simp: frac)
  qed
  have "parse_value f e ((CHR ''-'' # digits_of ?m) @ c # r) = Some (JNum (CHR ''-'' # digits_of ?m), c # r)"
    if "2 * length (CHR ''-'' # digits_of ?m) < f" "follows c" for f e c r
    using that(1) s [OF that(2), of r] by (cases f) auto
  then show ?thesis using True unfolding value_text_def by (auto simp: Itoa_def skip_ws_Cons)
qed

definition tags_json :: "(bytes \<times> bytes) list \<Rightarrow> json" where
  "tags_json m = JObj (map (\<lambda>(k, v). (sanitize k, JStr (sanitize v))) (sort_key fst m))"

text \<open>The record an envelope says.\<close>

definition envelope_fields :: "envelope \<Rightarrow> (bytes \<times> json) list" where
  "envelope_fields e =
     [(''ts'', JStr (sanitize (ev_Ts e))), (''src'', JStr (sanitize (ev_Src e))), (''pid'', JNum (Itoa (ev_PID e))),
      (''stream'', JStr (sanitize (ev_Stream e)))] @
     (case ev_Tags e of None \<Rightarrow> [] | Some m \<Rightarrow> [(''tags'', tags_json m)]) @
     [(''type'', JStr (sanitize (ev_Type e)))] @
     (case ev_Msg e of None \<Rightarrow> [] | Some s \<Rightarrow> [(''msg'', JStr (sanitize s))]) @
     (case ev_Code e of None \<Rightarrow> [] | Some n \<Rightarrow> [(''code'', JNum (Itoa n))]) @
     (case ev_Signal e of None \<Rightarrow> [] | Some s \<Rightarrow> [(''signal'', JStr (sanitize s))]) @
     (case ev_Count e of None \<Rightarrow> [] | Some n \<Rightarrow> [(''count'', JNum (Itoa n))]) @
     (if ev_Truncated e then [(''truncated'', JBool True)] else [])"

lemma field_text:
  assumes "value_text d x v" "is_ascii k"
  shows "member_text d (json_field k x) (k, v)"
  using member_text_intro [OF assms(1), of k] assms(2) by (simp add: json_field_def sanitize_ascii)

lemma ascii_keys [simp]:
  "is_ascii ''ts''" "is_ascii ''src''" "is_ascii ''pid''" "is_ascii ''stream''" "is_ascii ''tags''" "is_ascii ''type''"
  "is_ascii ''msg''" "is_ascii ''code''" "is_ascii ''signal''" "is_ascii ''count''" "is_ascii ''truncated''"
  by (simp_all add: is_ascii_def)

lemma envelope_text: "list_all2 (member_text (Suc d)) (envelope_members e) (envelope_fields e)"
  unfolding envelope_members_def envelope_fields_def
  by (intro list_all2_appendI)
    (auto simp: tags_json_def intro!: field_text string_text Itoa_text map_text true_text split: option.splits)

lemma Parse_envelope: "Parse (marshal_envelope e) = Some (JObj (envelope_fields e))"
proof -
  have "maxNestingDepth - 1 = Suc (maxNestingDepth - 2)" by (simp add: maxNestingDepth_def)
  then show ?thesis unfolding marshal_envelope_def using Parse_object [OF _] envelope_text by metis
qed

section \<open>One line\<close>

definition one_line :: "bytes \<Rightarrow> bool" where
  "one_line s \<longleftrightarrow> CHR 0x0A \<notin> set s"

lemma one_line_simps [simp]:
  "one_line []" "one_line (c # s) \<longleftrightarrow> c \<noteq> CHR 0x0A \<and> one_line s" "one_line (s @ t) \<longleftrightarrow> one_line s \<and> one_line t"
  by (auto simp: one_line_def)

lemma hex_digit_plain: "n < 16 \<Longrightarrow> hex_digit n \<noteq> CHR 0x0A"
  by (auto simp: hex_digit_def byte_eq_iff)

lemma esc_body_one_line: "one_line (esc_body s)"
proof (induction s rule: esc_body.induct)
  case (2 a s)
  show ?case
  proof (cases "byte_val a < 128")
    case True
    have "one_line (esc_ascii a)"
      using True hex_digit_plain [of "byte_val a div 16"] hex_digit_plain [of "byte_val a mod 16"]
      by (auto simp: esc_ascii_def Let_def byte_eq_iff)
    then show ?thesis using True 2(1) by (simp add: esc_body.simps(2))
  next
    case False
    let ?w = "snd (decode_rune (a # s))" and ?r = "fst (decode_rune (a # s))"
    have "one_line (take ?w (a # s))"
      using decode_rune_high(2) [of a s] False by (force simp: one_line_def)
    then have "one_line (esc_rune ?r ?w (a # s))"
      using hex_digit_plain [of "?r mod 16"] by (simp add: esc_rune_def)
    then show ?thesis using 2(2) False by (simp add: esc_body.simps(2))
  qed
qed simp

lemma marshal_string_one_line [simp]: "one_line (marshal_string s)"
  by (simp add: marshal_string_def esc_body_one_line)

lemma Itoa_one_line [simp]: "one_line (Itoa n)"
  using digits_of_digits by (fastforce simp: Itoa_def one_line_def list_all_iff is_digit_def)

lemma join_one_line: "list_all one_line ms \<Longrightarrow> one_line (join_members ms)"
  by (induction ms rule: join_members.induct) auto

lemma marshal_map_one_line [simp]: "one_line (marshal_map m)"
  by (auto simp: marshal_map_def marshal_member_def list_all_iff intro!: join_one_line)

lemma envelope_one_line: "one_line (marshal_envelope e)"
  by (auto simp: marshal_envelope_def envelope_members_def json_field_def intro!: join_one_line split: option.split)

end
