(* ===== verification/Relay_Loop.thy ===== *)
theory Relay_Loop
  imports LogRelay
begin

text \<open>
  The read loop of \<open>handleLogRelay\<close> and the reference count that keeps its sink open. A connection is the
  list of chunks it delivers; the sink decides how many bytes of the \<open>k\<close>-th write it takes and whether the
  write fails.
\<close>

section \<open>Lines of a stream\<close>

text \<open>The contents of the lines and whether each one is ended by a newline; only the last may not be.\<close>

function segs :: "bytes \<Rightarrow> (bytes \<times> bool) list" where
  "segs t =
     (if t = [] then []
      else
        let c = takeWhile (\<lambda>x. x \<noteq> CHR 0x0A) t; r = dropWhile (\<lambda>x. x \<noteq> CHR 0x0A) t
        in if r = [] then [(c, False)] else (c, True) # segs (tl r))"
  by pat_completeness auto
termination
proof (relation "measure length", goal_cases)
  case (2 t c r)
  then have "length r \<le> length t" "r \<noteq> []" by (simp_all add: length_dropWhile_le)
  then show ?case by (cases r) auto
qed simp

declare segs.simps [simp del]

lemma segs_Nil [simp]: "segs [] = []"
  by (simp add: segs.simps)

lemma segs_line: "CHR 0x0A \<notin> set c \<Longrightarrow> segs (c @ CHR 0x0A # t) = (c, True) # segs t"
  by (subst segs.simps) (simp add: takeWhile_append dropWhile_append takeWhile_tail)

lemma segs_last: "CHR 0x0A \<notin> set c \<Longrightarrow> c \<noteq> [] \<Longrightarrow> segs c = [(c, False)]"
proof -
  assume "CHR 0x0A \<notin> set c" "c \<noteq> []"
  moreover from this have "takeWhile (\<lambda>x. x \<noteq> CHR 0x0A) c = c" "dropWhile (\<lambda>x. x \<noteq> CHR 0x0A) c = []"
    by (auto simp: takeWhile_eq_all_conv dropWhile_eq_Nil_conv)
  ultimately show ?thesis by (simp add: segs.simps [of c] Let_def)
qed

section \<open>The loop\<close>

record relay_out =
  ro_sink :: bytes
  ro_writes :: nat
  ro_bytes :: nat
  ro_lines :: nat
  ro_toolong :: nat
  ro_readerr :: nat

text \<open>One write to the sink with its metrics; \<open>Inl\<close> when it failed and the connection is given up.\<close>

definition relay_write :: "(nat \<Rightarrow> bytes \<Rightarrow> nat \<times> bool) \<Rightarrow> bytes \<Rightarrow> relay_out \<Rightarrow> relay_out + relay_out" where
  "relay_write wr out o1 =
     (case wr (ro_writes o1) out of (n, werr) \<Rightarrow>
        let o2 = o1\<lparr>ro_sink := ro_sink o1 @ take n out, ro_writes := Suc (ro_writes o1), ro_bytes := ro_bytes o1 + n\<rparr>
        in if werr then Inl o2 else Inr (o2\<lparr>ro_lines := Suc (ro_lines o2)\<rparr>))"

definition read_error_out :: "read_error \<Rightarrow> relay_out \<Rightarrow> relay_out" where
  "read_error_out e o1 = (if e \<noteq> EOF then o1\<lparr>ro_readerr := Suc (ro_readerr o1)\<rparr> else o1)"

definition relay_payload :: "nat \<Rightarrow> bytes \<Rightarrow> bool \<Rightarrow> bytes" where
  "relay_payload maxLine line truncated =
     (if \<not> truncated then dropNewline line
      else if maxLine < length line then take maxLine line else line)"

lemma ReadSlice_None: "ReadSlice d b = (line, None, b') \<Longrightarrow> line \<noteq> []"
proof (induction d b rule: ReadSlice.induct)
  case (1 d b)
  then show ?case
    by (cases "IndexByte (bf_buf b) d") (auto simp: ReadSlice.simps [of d b] dest: IndexByte_less split: if_splits)
qed

lemma discard_pending: "discardToNewline b = (e, b') \<Longrightarrow> pending b' \<le> pending b"
proof (induction b rule: discardToNewline.induct)
  case (1 b)
  obtain line err b1 where r: "ReadSlice (CHR 0x0A) b = (line, err, b1)" by (metis prod_cases3)
  have "pending b1 \<le> pending b" using ReadSlice_pending [OF r] by simp
  then show ?case
    using 1(1) [OF r [symmetric] refl] 1(2) r
    by (cases "err = Some ErrBufferFull \<and> line \<noteq> []") (auto simp: discardToNewline.simps [of b])
qed

lemma loop_less_full:
  assumes "(line, err, b1) = ReadSlice (CHR 0x0A) b" "line \<noteq> []" "(e, b2) = discardToNewline b1"
  shows "pending b2 < pending b"
  using ReadSlice_pending [OF assms(1) [symmetric]] discard_pending [OF assms(3) [symmetric]] assms(2) by (cases line) auto

lemma loop_less_line: "(line, None, b1) = ReadSlice (CHR 0x0A) b \<Longrightarrow> pending b1 < pending b"
  using ReadSlice_pending [of "CHR 0x0A" b line None b1] ReadSlice_None [of "CHR 0x0A" b line b1] by (cases line) auto

text \<open>
  The loop. \<open>ErrBufferFull\<close> always comes with a full, non-empty buffer (\<open>ReadSlice_stream\<close>), so the test
  \<open>line \<noteq> []\<close> beside \<open>truncated\<close> is the code's branch on \<open>truncated\<close>; it makes the termination measure evident.
\<close>

function relay_loop :: "(nat \<Rightarrow> bytes \<Rightarrow> nat \<times> bool) \<Rightarrow> enricher \<Rightarrow> nat \<Rightarrow> bufio \<Rightarrow> relay_out \<Rightarrow> relay_out" where
  "relay_loop wr enr maxLine b o1 =
     (case ReadSlice (CHR 0x0A) b of (line, err, b1) \<Rightarrow>
        let truncated = (err = Some ErrBufferFull) in
        case (if line \<noteq> []
              then relay_write wr (emit enr (relay_payload maxLine line truncated) truncated @ [CHR 0x0A]) o1
              else Inr o1) of
          Inl o2 \<Rightarrow> o2
        | Inr o2 \<Rightarrow>
            if truncated \<and> line \<noteq> [] then
              (case discardToNewline b1 of
                 (None, b2) \<Rightarrow> relay_loop wr enr maxLine b2 (o2\<lparr>ro_toolong := Suc (ro_toolong o2)\<rparr>)
               | (Some e, b2) \<Rightarrow> read_error_out e (o2\<lparr>ro_toolong := Suc (ro_toolong o2)\<rparr>))
            else
              (case err of
                 None \<Rightarrow> relay_loop wr enr maxLine b1 o2
               | Some e \<Rightarrow> read_error_out e o2))"
  by pat_completeness auto
termination
  by (relation "measure (\<lambda>(wr, enr, maxLine, b, o1). pending b)") (auto intro: loop_less_full loop_less_line)

declare relay_loop.simps [simp del]

section \<open>What reaches the sink\<close>

text \<open>The output line of one input line: cut and marked when it is longer than the limit.\<close>

definition seg_out :: "enricher \<Rightarrow> nat \<Rightarrow> bytes \<times> bool \<Rightarrow> bytes" where
  "seg_out enr n = (\<lambda>(c, ended).
     (if n < length c then emit enr (take n c) True
      else emit enr (if ended then strip_cr c else c) False) @ [CHR 0x0A])"

definition relayed :: "enricher \<Rightarrow> nat \<Rightarrow> bytes \<Rightarrow> relay_out \<Rightarrow> relay_out \<Rightarrow> bool" where
  "relayed enr n t o1 o2 \<longleftrightarrow>
     ro_sink o2 = ro_sink o1 @ concat (map (seg_out enr n) (segs t)) \<and>
     ro_lines o2 = ro_lines o1 + length (segs t) \<and>
     ro_toolong o2 = ro_toolong o1 + length (filter (\<lambda>(c, _). n < length c) (segs t))"

definition accepting :: "(nat \<Rightarrow> bytes \<Rightarrow> nat \<times> bool) \<Rightarrow> bool" where
  "accepting wr \<longleftrightarrow> (\<forall>k x. wr k x = (length x, False))"

lemma relay_write_ok:
  assumes "accepting wr"
  obtains o2 where "relay_write wr out o1 = Inr o2" "ro_sink o2 = ro_sink o1 @ out" "ro_lines o2 = Suc (ro_lines o1)"
    "ro_toolong o2 = ro_toolong o1"
  using assms that by (auto simp: relay_write_def Let_def accepting_def)

lemma relayed_error: "relayed enr n t o1 o2 \<Longrightarrow> relayed enr n t o1 (read_error_out e o2)"
  by (simp add: relayed_def read_error_out_def)

lemma newline_split:
  assumes "CHR 0x0A \<in> set t"
  obtains x y where "t = x @ CHR 0x0A # y" "CHR 0x0A \<notin> set x" "after_newline t = y"
proof -
  obtain x y where xy: "t = x @ CHR 0x0A # y" "CHR 0x0A \<notin> set x" using assms by (meson split_list_first)
  then have "after_newline t = y" by (simp add: after_newline_def dropWhile_append)
  with xy that show thesis by blast
qed

lemma dropNewline_line: "dropNewline (body @ [CHR 0x0A]) = strip_cr body"
  by (simp add: dropNewline_def strip_cr_def Let_def)

lemma dropNewline_none: "CHR 0x0A \<notin> set c \<Longrightarrow> dropNewline c = c"
  by (cases c rule: rev_cases) (auto simp: dropNewline_def)

lemma relayed_step:
  assumes "relayed enr n t o2 o3" "segs u = x # segs t" "ro_sink o2 = ro_sink o1 @ seg_out enr n x"
    "ro_lines o2 = Suc (ro_lines o1)" "ro_toolong o2 = ro_toolong o1 + (if n < length (fst x) then 1 else 0)"
  shows "relayed enr n u o1 o3"
  using assms by (cases x) (auto simp: relayed_def)

lemma relayed_last:
  assumes "segs u = [x]" "ro_sink o2 = ro_sink o1 @ seg_out enr n x"
    "ro_lines o2 = Suc (ro_lines o1)" "ro_toolong o2 = ro_toolong o1 + (if n < length (fst x) then 1 else 0)"
  shows "relayed enr n u o1 o2"
  using assms by (cases x) (auto simp: relayed_def)

lemma relay_stream:
  assumes "accepting wr" "bufio_inv b" "bf_size b = Suc n"
  shows "relayed enr n (stream b) o1 (relay_loop wr enr n b o1)"
  using assms
proof (induction wr enr n b o1 rule: relay_loop.induct)
  case (1 wr enr n b o1)
  obtain line e b1 where r: "ReadSlice (CHR 0x0A) b = (line, e, b1)" by (metis prod_cases3)
  note s = ReadSlice_stream [OF 1(4) r]
  have inv: "0 < bf_size b" "end_err b \<noteq> ErrBufferFull"
    using 1(4) by (auto simp: bufio_inv_def end_err_def split: option.splits)
  have cut: "cut_line (CHR 0x0A) (bf_size b) (end_err b) (stream b) = (line, e, stream b1)" using s by simp
  obtain o2 where o2: "relay_write wr (emit enr (relay_payload n line (e = Some ErrBufferFull)) (e = Some ErrBufferFull) @ [CHR 0x0A]) o1 = Inr o2"
      "ro_sink o2 = ro_sink o1 @ emit enr (relay_payload n line (e = Some ErrBufferFull)) (e = Some ErrBufferFull) @ [CHR 0x0A]"
      "ro_lines o2 = Suc (ro_lines o1)" "ro_toolong o2 = ro_toolong o1"
    using relay_write_ok [OF 1(3)] by blast
  from cut inv show ?case
  proof (cases rule: cut_line_cases)
    case (line body)
    have eq: "relay_loop wr enr n b o1 = relay_loop wr enr n b1 o2"
      using o2(1) r line by (simp add: relay_loop.simps [of wr enr n b])
    have rel: "relayed enr n (stream b1) o2 (relay_loop wr enr n b1 o2)"
      using 1(2) [OF r [symmetric] refl refl, of o2] o2(1) line s 1(3,5) by simp
    have sg: "segs (stream b) = (body, True) # segs (stream b1)" using line segs_line by simp
    show ?thesis
      unfolding eq by (rule relayed_step [OF rel sg])
        (use o2 line 1(5) in \<open>simp_all add: seg_out_def relay_payload_def dropNewline_line\<close>)
  next
    case full
    have ne: "line \<noteq> []" using full 1(5) by auto
    have pay: "relay_payload n line True = take n line" using full 1(5) by (simp add: relay_payload_def)
    let ?o = "o2\<lparr>ro_toolong := Suc (ro_toolong o2)\<rparr>"
    obtain de b2 where d: "discardToNewline b1 = (de, b2)" by fastforce
    have inv1: "bufio_inv b1" using s by blast
    note ds = discardToNewline_stream [OF inv1 d]
    show ?thesis
    proof (cases "CHR 0x0A \<in> set (stream b1)")
      case True
      then obtain x y where xy: "stream b1 = x @ CHR 0x0A # y" "CHR 0x0A \<notin> set x" "after_newline (stream b1) = y"
        by (rule newline_split)
      have eq: "relay_loop wr enr n b o1 = relay_loop wr enr n b2 ?o"
        using o2(1) r full ne d ds True by (simp add: relay_loop.simps [of wr enr n b])
      have rel: "relayed enr n (stream b2) ?o (relay_loop wr enr n b2 ?o)"
        using 1(1) [OF r [symmetric] refl refl, of o2] o2(1) full ne s d ds True 1(3,5) by simp
      have sg: "segs (stream b) = (line @ x, True) # segs (stream b2)"
        using full xy ds segs_line [of "line @ x" y] by simp
      show ?thesis
        unfolding eq by (rule relayed_step [OF rel sg]) (use o2 full 1(5) pay in \<open>simp_all add: seg_out_def\<close>)
    next
      case False
      have eq: "relay_loop wr enr n b o1 = read_error_out (end_err b1) ?o"
        using o2(1) r full ne d ds False by (simp add: relay_loop.simps [of wr enr n b])
      have sg: "segs (stream b) = [(line @ stream b1, False)]"
        using full False ne segs_last [of "line @ stream b1"] by simp
      show ?thesis
        unfolding eq by (rule relayed_error, rule relayed_last [OF sg])
          (use o2 full 1(5) pay in \<open>simp_all add: seg_out_def\<close>)
    qed
  next
    case eof
    show ?thesis
    proof (cases "line = []")
      case True
      then have "relay_loop wr enr n b o1 = read_error_out (end_err b) o1"
        using r eof inv by (simp add: relay_loop.simps [of wr enr n b])
      then show ?thesis using eof True by (simp add: relayed_def read_error_out_def)
    next
      case False
      then have eq: "relay_loop wr enr n b o1 = read_error_out (end_err b) o2"
        using o2(1) r eof inv by (simp add: relay_loop.simps [of wr enr n b])
      have sg: "segs (stream b) = [(stream b, False)]" using eof False segs_last by simp
      show ?thesis
        unfolding eq by (rule relayed_error, rule relayed_last [OF sg])
          (use o2 eof inv 1(5) in \<open>simp_all add: seg_out_def relay_payload_def dropNewline_none\<close>)
    qed
  qed
qed

section \<open>One connection\<close>

text \<open>\<open>handleLogRelay\<close> from the snapshot of the relay state on; \<open>mlb\<close> is the snapshot's \<open>maxLineBytes\<close>.\<close>

definition handleLogRelay_body ::
  "(nat \<Rightarrow> bytes \<Rightarrow> nat \<times> bool) \<Rightarrow> enrichConfig option \<Rightarrow> int \<Rightarrow> uint32 \<Rightarrow> bytes list \<Rightarrow> read_error \<Rightarrow> relay_out \<Rightarrow> relay_out" where
  "handleLogRelay_body wr ec mlb cid chunks e o1 =
     (let enr = newEnricher ec cid;
          maxLine = (if mlb \<le> 0 then defaultLogRelayMaxLine else nat mlb)
      in relay_loop wr enr maxLine (NewReaderSize (maxLine + 1) chunks e) o1)"

lemma NewReaderSize_facts:
  "15 \<le> n \<Longrightarrow> e \<noteq> ErrBufferFull \<Longrightarrow> bufio_inv (NewReaderSize (n + 1) chunks e)"
  "15 \<le> n \<Longrightarrow> bf_size (NewReaderSize (n + 1) chunks e) = Suc n"
  "stream (NewReaderSize n chunks e) = concat chunks"
  by (simp_all add: NewReaderSize_def bufio_inv_def stream_def src_rest_def minReadBufferSize_def max_def)

text \<open>
  C19. The relay loses and invents nothing: for a validated line limit and a sink that accepts its writes,
  the bytes appended to the sink are the output lines of the input lines, one each and in order, however
  the network cut the stream; a line over the limit is cut there, marked and counted, and the next line
  starts after its newline. The loop ends for every finite input.
\<close>

theorem relay_complete:
  assumes "accepting wr" "minMaxLineBytes \<le> mlb" "e \<noteq> ErrBufferFull"
  shows "relayed (newEnricher ec cid) (nat mlb) (concat chunks) o1 (handleLogRelay_body wr ec mlb cid chunks e o1)"
proof -
  have "15 \<le> nat mlb" "0 < mlb" using assms(2) by (simp_all add: minMaxLineBytes_def)
  then show ?thesis
    using relay_stream [OF assms(1), of "NewReaderSize (nat mlb + 1) chunks e" "nat mlb" "newEnricher ec cid" o1]
      NewReaderSize_facts(1,2) [of "nat mlb"] NewReaderSize_facts(3) [of "nat mlb + 1" chunks e] assms(3)
    by (simp add: handleLogRelay_body_def Let_def)
qed

definition no_out :: relay_out where
  "no_out = \<lparr>ro_sink = [], ro_writes = 0, ro_bytes = 0, ro_lines = 0, ro_toolong = 0, ro_readerr = 0\<rparr>"

theorem relay_complete_witness:
  "accepting (\<lambda>_ x. (length x, False)) \<and> minMaxLineBytes \<le> 16 \<and>
   relayed (newEnricher None 3) 16 (concat [''ab'', ''c'' @ [CHR 0x0A] @ ''d''])  no_out
     (handleLogRelay_body (\<lambda>_ x. (length x, False)) None 16 3 [''ab'', ''c'' @ [CHR 0x0A] @ ''d''] EOF no_out)"
proof -
  have "accepting (\<lambda>_ x. (length x, False))" "minMaxLineBytes \<le> (16::int)"
    by (simp_all add: accepting_def minMaxLineBytes_def)
  then show ?thesis
    using relay_complete [of "\<lambda>_ x. (length x, False)" 16 EOF None 3 "[''ab'', ''c'' @ [CHR 0x0A] @ ''d'']" no_out] by simp
qed

end
