(* ===== verification/Pump.thy ===== *)
theory Pump
  imports Event Relay_Loop
begin

text \<open>
  \<open>Manager.pump\<close> of \<open>internal/supervisor/manager.go\<close>: one child's stdout or stderr, read line by line through a
  \<open>bufio.Reader\<close> and framed as log records. The pipe is the list of chunks its reads return; \<open>now i\<close> is the clock's
  answer for the \<open>i\<close>th record.
\<close>

definition maxChildLine :: nat where "maxChildLine = 2 ^ 20"

text \<open>\<open>bytes.TrimRight\<close> with the cutset of carriage return and newline.\<close>

definition trim_crlf :: "bytes \<Rightarrow> bytes" where
  "trim_crlf s = rev (dropWhile (\<lambda>c. c = CHR 0x0D \<or> c = CHR 0x0A) (rev s))"

definition pump_payload :: "nat \<Rightarrow> bytes \<Rightarrow> bool \<Rightarrow> bytes" where
  "pump_payload maxLine line truncated =
     (if truncated then (if maxLine < length line then take maxLine line else line) else trim_crlf line)"

text \<open>
  The loop: what goes to \<open>logLine\<close>, payload and flag. As in \<open>Relay_Loop\<close> the test \<open>line \<noteq> []\<close> beside \<open>truncated\<close> only
  serves the termination measure.
\<close>

function pump_loop :: "nat \<Rightarrow> bufio \<Rightarrow> (bytes \<times> bool) list" where
  "pump_loop maxLine b =
     (case ReadSlice (CHR 0x0A) b of (line, err, b1) \<Rightarrow>
        let truncated = (err = Some ErrBufferFull);
            out = (if line \<noteq> [] then [(pump_payload maxLine line truncated, truncated)] else [])
        in if truncated \<and> line \<noteq> [] then
             (case discardToNewline b1 of
                (None, b2) \<Rightarrow> out @ pump_loop maxLine b2
              | (Some e, b2) \<Rightarrow> out)
           else
             (case err of
                None \<Rightarrow> out @ pump_loop maxLine b1
              | Some e \<Rightarrow> out))"
  by pat_completeness auto
termination
  by (relation "measure (\<lambda>(maxLine, b). pending b)") (auto intro: loop_less_full loop_less_line)

declare pump_loop.simps [simp del]

definition pump :: "(nat \<Rightarrow> bytes) \<Rightarrow> Framer \<Rightarrow> bytes \<Rightarrow> int \<Rightarrow> bytes \<Rightarrow> bytes list \<Rightarrow> read_error \<Rightarrow> bytes list" where
  "pump now f name pid strm chunks e =
     (let lines = pump_loop maxChildLine (NewReaderSize (maxChildLine + 1) chunks e)
      in map (\<lambda>i. logLine (now i) f name pid strm (fst (lines ! i)) (snd (lines ! i))) [0..<length lines])"

section \<open>What the pump emits\<close>

definition seg_payload :: "nat \<Rightarrow> bytes \<times> bool \<Rightarrow> bytes \<times> bool" where
  "seg_payload n = (\<lambda>(c, ended). if n < length c then (take n c, True) else (trim_crlf c, False))"

lemma trim_crlf_newline: "trim_crlf (c @ [CHR 0x0A]) = trim_crlf c"
  by (simp add: trim_crlf_def)

lemma pump_stream:
  assumes "bufio_inv b" "bf_size b = Suc n"
  shows "pump_loop n b = map (seg_payload n) (segs (stream b))"
  using assms
proof (induction n b rule: pump_loop.induct)
  case (1 n b)
  obtain line e b1 where r: "ReadSlice (CHR 0x0A) b = (line, e, b1)" by (metis prod_cases3)
  note s = ReadSlice_stream [OF 1(3) r]
  have inv: "0 < bf_size b" "end_err b \<noteq> ErrBufferFull"
    using 1(3) by (auto simp: bufio_inv_def end_err_def split: option.splits)
  have cut: "cut_line (CHR 0x0A) (bf_size b) (end_err b) (stream b) = (line, e, stream b1)" using s by simp
  from cut inv show ?case
  proof (cases rule: cut_line_cases)
    case (line body)
    have "pump_loop n b1 = map (seg_payload n) (segs (stream b1))"
      using 1(2) [OF r [symmetric] refl refl refl] line s 1(4) by simp
    moreover have "segs (stream b) = (body, True) # segs (stream b1)" using line segs_line by simp
    ultimately show ?thesis
      using r line 1(4) by (simp add: pump_loop.simps [of n b] pump_payload_def seg_payload_def trim_crlf_newline)
  next
    case full
    have ne: "line \<noteq> []" using full 1(4) by auto
    have pay: "pump_payload n line True = take n line" using full 1(4) by (simp add: pump_payload_def)
    obtain de b2 where d: "discardToNewline b1 = (de, b2)" by fastforce
    have inv1: "bufio_inv b1" using s by blast
    note ds = discardToNewline_stream [OF inv1 d]
    show ?thesis
    proof (cases "CHR 0x0A \<in> set (stream b1)")
      case True
      then obtain x y where xy: "stream b1 = x @ CHR 0x0A # y" "CHR 0x0A \<notin> set x" "after_newline (stream b1) = y"
        by (rule newline_split)
      have "pump_loop n b2 = map (seg_payload n) (segs (stream b2))"
        using 1(1) [OF r [symmetric] refl refl refl _ d [symmetric]] full ne s ds True 1(4) by simp
      moreover have "segs (stream b) = (line @ x, True) # segs (stream b2)"
        using full xy ds segs_line [of "line @ x" y] by simp
      ultimately show ?thesis
        using r full ne d ds True pay 1(4) by (simp add: pump_loop.simps [of n b] seg_payload_def)
    next
      case False
      have "segs (stream b) = [(line @ stream b1, False)]"
        using full False ne segs_last [of "line @ stream b1"] by simp
      then show ?thesis
        using r full ne d ds False pay 1(4) by (simp add: pump_loop.simps [of n b] seg_payload_def)
    qed
  next
    case eof
    have sg: "segs (stream b) = (if line = [] then [] else [(line, False)])"
      using eof segs_last by simp
    have "length line \<le> n" using eof 1(4) by simp
    then show ?thesis
      using r eof inv sg by (simp add: pump_loop.simps [of n b] pump_payload_def seg_payload_def)
  qed
qed

definition line_frame :: "bytes \<Rightarrow> Framer \<Rightarrow> bytes \<Rightarrow> int \<Rightarrow> bytes \<Rightarrow> bytes \<times> bool \<Rightarrow> bytes" where
  "line_frame now f name pid strm seg =
     (case seg_payload maxChildLine seg of (msg, truncated) \<Rightarrow> logLine now f name pid strm msg truncated)"

lemma pump_frames:
  assumes "e \<noteq> ErrBufferFull"
  shows "pump now f name pid strm chunks e =
     map (\<lambda>i. line_frame (now i) f name pid strm (segs (concat chunks) ! i)) [0..<length (segs (concat chunks))]"
proof -
  let ?b = "NewReaderSize (maxChildLine + 1) chunks e"
  have "15 \<le> maxChildLine" by (simp add: maxChildLine_def)
  then have "pump_loop maxChildLine ?b = map (seg_payload maxChildLine) (segs (concat chunks))"
    using pump_stream [of ?b maxChildLine] NewReaderSize_facts(1,2) [of maxChildLine] NewReaderSize_facts(3) [of "maxChildLine + 1" chunks e]
      assms by simp
  then show ?thesis by (auto simp: pump_def line_frame_def case_prod_unfold Let_def)
qed

section \<open>From the child to the log file of the host\<close>










section \<open>Properties\<close>

text \<open>
  C29. Every supervisor record is one line of JSON that says what it was made from: nothing in it but its last
  byte is a newline, and it parses to an object with exactly the envelope's fields, in order, every string with
  invalid UTF-8 replaced; so no output of a child can forge a second record or a field of its own.
\<close>

theorem frame_roundtrip:
  "\<exists>x. frame now f e = x @ [CHR 0x0A] \<and> CHR 0x0A \<notin> set x \<and>
     Parse x = Some (JObj (envelope_fields (e\<lparr>ev_Ts := now, ev_Tags := fr_tags f\<rparr>)))"
  using envelope_one_line [of "e\<lparr>ev_Ts := now, ev_Tags := fr_tags f\<rparr>"]
  by (intro exI [of _ "marshal_envelope (e\<lparr>ev_Ts := now, ev_Tags := fr_tags f\<rparr>)"])
    (simp add: frame_def one_line_def Parse_envelope)

text \<open>
  The pump frames each line of a child's output once and in order, however the pipe cuts it: carriage returns
  and newlines at its end removed, or its first 1 MiB marked truncated when it is longer; the last line counts even
  without a newline.
\<close>

theorem pump_complete:
  assumes "e \<noteq> ErrBufferFull"
  shows "pump now f name pid strm chunks e =
     map (\<lambda>i. case segs (concat chunks) ! i of (c, ended) \<Rightarrow>
            if maxChildLine < length c then logLine (now i) f name pid strm (take maxChildLine c) True
            else logLine (now i) f name pid strm (trim_crlf c) False)
       [0..<length (segs (concat chunks))]"
  unfolding pump_frames [OF assms] line_frame_def
  by (auto simp: seg_payload_def split: prod.split)


lemma length_join_members: "x \<in> set ms \<Longrightarrow> length x < length (join_members ms)"
  by (induction ms rule: join_members.induct) auto

lemma plain_esc_body: "set s \<subseteq> {CHR ''a''} \<Longrightarrow> esc_body s = s"
  by (induction s) (auto simp: esc_body.simps(2) esc_ascii_def)

lemma frame_longer_than_msg:
  assumes "ev_Msg e = Some msg" "set msg \<subseteq> {CHR ''a''}"
  shows "length msg < length (marshal_envelope e)"
proof -
  have "json_field ''msg'' (marshal_string msg) \<in> set (envelope_members e)"
    using assms(1) by (simp add: envelope_members_def)
  then have "length (json_field ''msg'' (marshal_string msg)) < length (join_members (envelope_members e))"
    by (rule length_join_members)
  moreover have "length msg < length (json_field ''msg'' (marshal_string msg))"
    using plain_esc_body [OF assms(2)] by (simp add: json_field_def marshal_string_def)
  ultimately show ?thesis by (simp add: marshal_envelope_def)
qed

lemma relay_long_line:
  assumes "accepting wr" "minMaxLineBytes \<le> mlb" "nat mlb < length x" "CHR 0x0A \<notin> set x"
  shows "ro_sink (handleLogRelay_body wr ec mlb cid [x @ [CHR 0x0A]] EOF no_out) = emit (newEnricher ec cid) (take (nat mlb) x) True @ [CHR 0x0A]"
proof -
  have n: "15 \<le> nat mlb" "0 < mlb" using assms(2) by (simp_all add: minMaxLineBytes_def)
  have "relayed (newEnricher ec cid) (nat mlb) (x @ [CHR 0x0A]) no_out (handleLogRelay_body wr ec mlb cid [x @ [CHR 0x0A]] EOF no_out)"
    using relay_stream [OF assms(1), of "NewReaderSize (nat mlb + 1) [x @ [CHR 0x0A]] EOF" "nat mlb" "newEnricher ec cid" no_out] n
      NewReaderSize_facts(1,2) [of "nat mlb"] NewReaderSize_facts(3) [of "nat mlb + 1" "[x @ [CHR 0x0A]]" EOF]
    by (simp add: handleLogRelay_body_def Let_def)
  then show ?thesis
    using segs_line [OF assms(4), of "[]"] assms(3) by (simp add: relayed_def no_out_def seg_out_def)
qed

lemma raw_when_truncated:
  "Parse (emit (newEnricher (newEnrichConfig (Some e)) cid) x True) = Some (JObj (host_fields e cid @ raw_fields x True))"
  by (simp add: emit_fields record_fields_def split: option.split json.split)

text \<open>
  C38. The two caps do not agree: there is a child's line of exactly 1 MiB which the supervisor does not truncate, but
  whose record is longer than the relay's default limit; the relay cuts the record and wraps it as a raw
  message, so that source, stream and message are no longer fields of what it writes.
\<close>

theorem full_line_wrapped:
  assumes "accepting wr"
  shows "\<exists>line x l. length line = maxChildLine \<and>
     pump (\<lambda>_. now) f name pid strm [line] EOF = [x @ [CHR 0x0A]] \<and>
     x @ [CHR 0x0A] = logLine now f name pid strm line False \<and>
     ro_sink (handleLogRelay_body wr (newEnrichConfig (Some e)) defaultMaxLineBytes cid [x @ [CHR 0x0A]] EOF no_out) = l @ [CHR 0x0A] \<and>
     Parse l = Some (JObj (host_fields e cid @ raw_fields (take maxChildLine x) True))"
proof -
  define line where "line = replicate maxChildLine (CHR ''a'')"
  define v where "v = (envelope_of name pid strm TypeLog)\<lparr>ev_Ts := now, ev_Tags := fr_tags f, ev_Msg := Some line, ev_Truncated := False\<rparr>"
  have "maxChildLine \<noteq> 0" by (simp add: maxChildLine_def)
  then have line: "line \<noteq> []" "CHR 0x0A \<notin> set line" "length line = maxChildLine" "set line \<subseteq> {CHR ''a''}"
    by (auto simp: line_def)
  have "trim_crlf line = line"
    using \<open>maxChildLine \<noteq> 0\<close> by (cases maxChildLine) (simp_all add: trim_crlf_def line_def)
  then have p: "pump (\<lambda>_. now) f name pid strm [line] EOF = [logLine now f name pid strm line False]"
    using segs_last [OF line(2,1)] line(3) by (simp add: pump_frames line_frame_def seg_payload_def)
  have fr: "logLine now f name pid strm line False = marshal_envelope v @ [CHR 0x0A]"
    by (simp add: logLine_def frame_def v_def envelope_of_def)
  have "nat defaultMaxLineBytes = maxChildLine" "minMaxLineBytes \<le> defaultMaxLineBytes"
    by (simp_all add: defaultMaxLineBytes_def maxChildLine_def minMaxLineBytes_def)
  moreover have "maxChildLine < length (marshal_envelope v)"
    using frame_longer_than_msg [of v line] line(3,4) by (simp add: v_def)
  ultimately have "ro_sink (handleLogRelay_body wr (newEnrichConfig (Some e)) defaultMaxLineBytes cid [marshal_envelope v @ [CHR 0x0A]] EOF no_out) =
      emit (newEnricher (newEnrichConfig (Some e)) cid) (take maxChildLine (marshal_envelope v)) True @ [CHR 0x0A]"
    using relay_long_line [OF assms, of defaultMaxLineBytes "marshal_envelope v"] envelope_one_line [of v] by (simp add: one_line_def)
  then show ?thesis
    using line(3) p fr raw_when_truncated
    by (intro exI [of _ line] exI [of _ "marshal_envelope v"]
        exI [of _ "emit (newEnricher (newEnrichConfig (Some e)) cid) (take maxChildLine (marshal_envelope v)) True"]) simp
qed

section \<open>Witnesses\<close>

definition always :: "nat \<Rightarrow> bytes \<Rightarrow> nat \<times> bool" where
  "always = (\<lambda>_ x. (length x, False))"

definition child_enrich :: LogRelayEnrich where
  "child_enrich = \<lparr>le_CID = True, le_Tags = [], le_HostKey = []\<rparr>"

lemma always_accepts: "accepting always"
  by (simp add: always_def accepting_def)

theorem full_line_wrapped_witness:
  "\<exists>line. length line = maxChildLine \<and>
     pump (\<lambda>_. ''t'') (NewFramer None) ''app'' 7 StreamStdout [line] EOF = [logLine ''t'' (NewFramer None) ''app'' 7 StreamStdout line False]"
  using full_line_wrapped [OF always_accepts, of "''t''" "NewFramer None" "''app''" 7 StreamStdout child_enrich 3] by metis

lemma sample_segs: "segs (concat [''hi'', [CHR 0x0D, CHR 0x0A]]) = [([CHR ''h'', CHR ''i'', CHR 0x0D], True)]"
  using segs_line [of "[CHR ''h'', CHR ''i'', CHR 0x0D]" "[]"] by simp

theorem pump_complete_witness:
  "pump (\<lambda>_. ''t'') (NewFramer None) ''app'' 7 StreamStdout [''hi'', [CHR 0x0D, CHR 0x0A]] EOF =
     [logLine ''t'' (NewFramer None) ''app'' 7 StreamStdout ''hi'' False]"
  by (subst pump_complete) (simp_all add: sample_segs [simplified] trim_crlf_def maxChildLine_def)


end
