(* ===== verification/SlogHandler.thy ===== *)
theory SlogHandler
  imports Event
begin

text \<open>
  \<open>internal/supervisor/sloghandler.go\<close>: the supervisor's own log records. A handler is a record, cloned by \<open>WithAttrs\<close> and
  \<open>WithGroup\<close>; what \<open>Handle\<close> does is the list of its effects. A resolved attribute value is its \<open>String\<close>, the nil of the
  zero \<open>slog.Value\<close>, or a group of attributes.
\<close>

section \<open>The parts of log/slog the handler uses\<close>

datatype slog_value = VNil | VText bytes | VGroup "(bytes \<times> slog_value) list"

type_synonym attr = "bytes \<times> slog_value"

record slog_record =
  sr_level :: int
  sr_message :: bytes
  sr_attrs :: "attr list"

definition LevelDebug :: int where "LevelDebug = - 4"
definition LevelInfo :: int where "LevelInfo = 0"
definition LevelWarn :: int where "LevelWarn = 4"
definition LevelError :: int where "LevelError = 8"

text \<open>\<open>Level.String\<close>: the name below and the distance from it, with its sign.\<close>

definition level_offset :: "bytes \<Rightarrow> int \<Rightarrow> bytes" where
  "level_offset base n = (if n = 0 then base else base @ (if 0 < n then ''+'' else []) @ Itoa n)"

definition Level_String :: "int \<Rightarrow> bytes" where
  "Level_String l =
     (if l < LevelInfo then level_offset ''DEBUG'' (l - LevelDebug)
      else if l < LevelWarn then level_offset ''INFO'' (l - LevelInfo)
      else if l < LevelError then level_offset ''WARN'' (l - LevelWarn)
      else level_offset ''ERROR'' (l - LevelError))"

section \<open>The handler\<close>

record LogHandler =
  lh_framer :: Framer
  lh_sink :: bool
  lh_mirror :: bool
  lh_pid :: int
  lh_level :: int
  lh_attrs :: bytes
  lh_group :: bytes

definition NewLogHandler :: "Framer \<Rightarrow> bool \<Rightarrow> bool \<Rightarrow> int \<Rightarrow> int option \<Rightarrow> LogHandler" where
  "NewLogHandler framer sink mirror pid level =
     \<lparr>lh_framer = framer, lh_sink = sink, lh_mirror = mirror, lh_pid = pid,
      lh_level = (case level of None \<Rightarrow> LevelInfo | Some l \<Rightarrow> l), lh_attrs = [], lh_group = []\<rparr>"

definition Enabled :: "LogHandler \<Rightarrow> int \<Rightarrow> bool" where
  "Enabled h l \<longleftrightarrow> l \<ge> lh_level h"

fun appendAttr :: "bytes \<Rightarrow> bytes \<Rightarrow> slog_value \<Rightarrow> bytes" where
  "appendAttr pre k VNil = (if k = [] then [] else '' '' @ pre @ k @ ''='' @ ''<nil>'')"
| "appendAttr pre k (VText s) = '' '' @ pre @ k @ ''='' @ s"
| "appendAttr pre k (VGroup as) =
     (if as = [] then []
      else let next = (if k \<noteq> [] then pre @ k @ ''.'' else pre)
           in concat (map (\<lambda>(k', v). appendAttr next k' v) as))"

definition append_all :: "bytes \<Rightarrow> attr list \<Rightarrow> bytes" where
  "append_all pre as = concat (map (\<lambda>(k, v). appendAttr pre k v) as)"

definition format :: "LogHandler \<Rightarrow> slog_record \<Rightarrow> bytes" where
  "format h r = Level_String (sr_level r) @ '' '' @ sr_message r @ lh_attrs h @ append_all (lh_group h) (sr_attrs r)"

datatype log_effect = Sink bytes | Mirror bytes

definition Handle :: "bytes \<Rightarrow> LogHandler \<Rightarrow> slog_record \<Rightarrow> log_effect list" where
  "Handle now h r =
     (let fr = Log now (lh_framer h) SrcSupervisor (lh_pid h) StreamNone (format h r) in
      (if lh_sink h then [Sink fr] else []) @ (if lh_mirror h then [Mirror fr] else []))"

text \<open>\<open>slog.Logger\<close> builds and hands over a record only when the handler is \<open>Enabled\<close> at its level.\<close>

definition logger_log :: "bytes \<Rightarrow> LogHandler \<Rightarrow> slog_record \<Rightarrow> log_effect list" where
  "logger_log now h r = (if Enabled h (sr_level r) then Handle now h r else [])"

definition WithAttrs :: "attr list \<Rightarrow> LogHandler \<Rightarrow> LogHandler" where
  "WithAttrs as h = (if as = [] then h else h\<lparr>lh_attrs := lh_attrs h @ append_all (lh_group h) as\<rparr>)"

definition WithGroup :: "bytes \<Rightarrow> LogHandler \<Rightarrow> LogHandler" where
  "WithGroup name h = (if name = [] then h else h\<lparr>lh_group := lh_group h @ name @ ''.''\<rparr>)"

section \<open>What a record says\<close>

text \<open>An attribute as its leaves: the keys of the groups around a value joined by dots, and the value.\<close>

fun leaves :: "bytes \<Rightarrow> slog_value \<Rightarrow> (bytes list \<times> bytes) list" where
  "leaves k VNil = (if k = [] then [] else [([k], ''<nil>'')])"
| "leaves k (VText s) = [([k], s)]"
| "leaves k (VGroup as) =
     map (\<lambda>(ks, s). (if k \<noteq> [] then k # ks else ks, s)) (concat (map (\<lambda>(k', v). leaves k' v) as))"

definition dotted :: "bytes list \<Rightarrow> bytes" where
  "dotted ks = concat (map (\<lambda>k. k @ ''.'') (butlast ks)) @ (if ks = [] then [] else last ks)"

definition show_leaf :: "bytes list \<Rightarrow> bytes list \<times> bytes \<Rightarrow> bytes" where
  "show_leaf groups = (\<lambda>(ks, s). '' '' @ dotted (groups @ ks) @ ''='' @ s)"

text \<open>How a logger was derived: attributes added and groups opened, in order.\<close>

datatype derivation = Attrs "attr list" | Group bytes

fun derive :: "derivation \<Rightarrow> LogHandler \<Rightarrow> LogHandler" where
  "derive (Attrs as) h = WithAttrs as h"
| "derive (Group name) h = WithGroup name h"

definition attr_leaves :: "attr list \<Rightarrow> (bytes list \<times> bytes) list" where
  "attr_leaves as = concat (map (\<lambda>(k, v). leaves k v) as)"

text \<open>The reference: every attribute of the derivation and of the record under the groups open where it was added.\<close>

fun spec_leaves :: "bytes list \<Rightarrow> derivation list \<Rightarrow> attr list \<Rightarrow> bytes" where
  "spec_leaves gs [] as = concat (map (show_leaf gs) (attr_leaves as))"
| "spec_leaves gs (Attrs bs # ds) as = concat (map (show_leaf gs) (attr_leaves bs)) @ spec_leaves gs ds as"
| "spec_leaves gs (Group n # ds) as = spec_leaves (if n = [] then gs else gs @ [n]) ds as"

definition group_prefix :: "bytes list \<Rightarrow> bytes" where
  "group_prefix gs = concat (map (\<lambda>g. g @ ''.'') gs)"

lemma leaves_nonempty: "(ks, s) \<in> set (leaves k v) \<Longrightarrow> ks \<noteq> []"
  by (induction k v arbitrary: ks s rule: leaves.induct) (fastforce split: if_splits)+

lemma show_leaf_prefix: "ks \<noteq> [] \<Longrightarrow> show_leaf gs (ks, s) = '' '' @ group_prefix gs @ dotted ks @ ''='' @ s"
  by (simp add: show_leaf_def dotted_def group_prefix_def butlast_append)

lemma appendAttr_leaves:
  "appendAttr (group_prefix gs) k v = concat (map (show_leaf gs) (leaves k v))"
proof (induction "group_prefix gs" k v arbitrary: gs rule: appendAttr.induct)
  case (1 k)
  then show ?case by (simp add: show_leaf_def dotted_def group_prefix_def butlast_append)
next
  case (2 k s)
  then show ?case by (simp add: show_leaf_def dotted_def group_prefix_def butlast_append)
next
  case (3 k as)
  let ?gs = "if k \<noteq> [] then gs @ [k] else gs"
  have g: "group_prefix ?gs = (if k \<noteq> [] then group_prefix gs @ k @ ''.'' else group_prefix gs)"
    by (simp add: group_prefix_def)
  have "appendAttr (group_prefix ?gs) k' v = concat (map (show_leaf ?gs) (leaves k' v))" if "(k', v) \<in> set as" for k' v
    using 3 that g by (metis list.set_cases neq_Nil_conv)
  then have "appendAttr (group_prefix gs) k (VGroup as) = concat (map (\<lambda>(k', v). concat (map (show_leaf ?gs) (leaves k' v))) as)"
    by (auto simp: g Let_def intro!: arg_cong [where f = concat] map_cong)
  also have "\<dots> = concat (map (show_leaf ?gs) (concat (map (\<lambda>(k', v). leaves k' v) as)))"
    by (induction as) auto
  also have "\<dots> = concat (map (show_leaf gs) (leaves k (VGroup as)))"
    by (auto simp: show_leaf_def case_prod_unfold comp_def)
  finally show ?case .
qed

lemma append_all_leaves: "append_all (group_prefix gs) as = concat (map (show_leaf gs) (attr_leaves as))"
  by (induction as) (auto simp: append_all_def attr_leaves_def appendAttr_leaves)

lemma format_derived:
  "lh_group h = group_prefix gs \<Longrightarrow>
     format (fold derive ds h) r = Level_String (sr_level r) @ '' '' @ sr_message r @ lh_attrs h @ spec_leaves gs ds (sr_attrs r)"
proof (induction ds arbitrary: h gs)
  case Nil
  then show ?case by (simp add: format_def append_all_leaves)
next
  case (Cons d ds)
  show ?case
  proof (cases d)
    case (Attrs as)
    have "append_all (lh_group h) as = concat (map (show_leaf gs) (attr_leaves as))" using Cons.prems append_all_leaves by simp
    then show ?thesis
      using Cons.IH [of "WithAttrs as h" gs] Cons.prems Attrs by (cases "as = []") (simp_all add: WithAttrs_def attr_leaves_def)
  next
    case (Group n)
    have "lh_group (WithGroup n h) = group_prefix (if n = [] then gs else gs @ [n])"
      using Cons.prems by (simp add: WithGroup_def group_prefix_def)
    then show ?thesis using Cons.IH [of "WithGroup n h"] Group by (simp add: WithGroup_def)
  qed
qed

lemma derive_fields:
  "lh_framer (fold derive ds h) = lh_framer h \<and> lh_sink (fold derive ds h) = lh_sink h \<and>
   lh_mirror (fold derive ds h) = lh_mirror h \<and> lh_pid (fold derive ds h) = lh_pid h \<and> lh_level (fold derive ds h) = lh_level h"
proof (induction ds arbitrary: h)
  case (Cons d ds)
  then show ?case by (cases d) (simp_all add: WithAttrs_def WithGroup_def)
qed simp

section \<open>Properties\<close>

text \<open>
  C26. A logger derived by any sequence of \<open>WithAttrs\<close> and \<open>WithGroup\<close> from \<open>NewLogHandler\<close>: a record below the level
  given (below \<open>LevelInfo\<close> when none was given) writes nothing; every other record is written as one log frame of the
  supervisor, the same to the buffer and to the mirror: level, message, then every attribute of the derivation and of
  the record, in order, as its dotted key under the groups open where it was added; empty attributes and groups
  are left out. The pre-formatting of the handler is invisible.
\<close>

theorem log_handler_exact:
  "logger_log now (fold derive ds (NewLogHandler f sink mirror pid level)) r =
     (if sr_level r < (case level of None \<Rightarrow> LevelInfo | Some l \<Rightarrow> l) then []
      else let fr = Log now f SrcSupervisor pid StreamNone
        (Level_String (sr_level r) @ '' '' @ sr_message r @ spec_leaves [] ds (sr_attrs r))
      in (if sink then [Sink fr] else []) @ (if mirror then [Mirror fr] else []))"
proof -
  have "format (fold derive ds (NewLogHandler f sink mirror pid level)) r =
      Level_String (sr_level r) @ '' '' @ sr_message r @ spec_leaves [] ds (sr_attrs r)"
    using format_derived [of "NewLogHandler f sink mirror pid level" "[]" ds r] by (simp add: NewLogHandler_def group_prefix_def)
  then show ?thesis by (auto simp: logger_log_def Enabled_def Handle_def derive_fields NewLogHandler_def Let_def)
qed

end
