(* ===== verification/Supervisor_Main.thy ===== *)
theory Supervisor_Main
  imports Manager Shipper Pump SlogHandler
begin

text \<open>
  \<open>cmd/supervisor/main.go\<close> and \<open>Load\<close> of \<open>internal/supervisor/config.go\<close>: from the command line to the exit status.
  \<open>supervise\<close> wires the manager's run loop, the pumps of its children, the log handler and the shipper; they run
  concurrently, so it is a state machine over the states of \<open>Manager\<close> and \<open>Shipper\<close>. \<open>sp_log\<close> is history: every record
  handed to the shipper, with where it came from.
\<close>

section \<open>Configuration\<close>

datatype sup_yaml = SupOpenError | SupDecodeError | SupDecodeEOF | SupDecoded SupConfig

datatype sup_load_error = SupUnreadable | SupInvalid sup_error

definition zero_sup_config :: SupConfig where
  "zero_sup_config = \<lparr>su_LogPort = 0, su_LogCID = 0, su_Tags = [], su_Buffer = None, su_Processes = []\<rparr>"

definition sup_Load :: "sup_yaml \<Rightarrow> sup_load_error + SupConfig" where
  "sup_Load y =
     (case y of
        SupOpenError \<Rightarrow> Inl SupUnreadable
      | SupDecodeError \<Rightarrow> Inl SupUnreadable
      | SupDecodeEOF \<Rightarrow> res_wrap SupInvalid (sup_Validate zero_sup_config)
      | SupDecoded c \<Rightarrow> res_wrap SupInvalid (sup_Validate c))"

section \<open>The supervisor\<close>

text \<open>
  Where a record came from: the manager's run loop, a pump of a child, or the supervisor's own log. The manager's step
  leaves its records in \<open>sp_queue\<close>; its run loop hands them to the sink one by one before it selects again.
\<close>

datatype origin = Lifecycle sink_rec | Output bytes int | Own

datatype sup_phase = Starting | Running | Flushing int | Ended int

record supervisor =
  sp_cfg :: SupConfig
  sp_framer :: Framer
  sp_handler :: LogHandler
  sp_phase :: sup_phase
  sp_mgr :: RunState
  sp_queue :: "sink_rec list"
  sp_ship :: Shipper
  sp_log :: "(origin \<times> bytes) list"

text \<open>
  What the caller of \<open>supervise\<close> passes: the configuration, the level, the process id, and whether the decoder left an
  absent tags map nil.
\<close>

definition supervise :: "SupConfig \<Rightarrow> int \<Rightarrow> int \<Rightarrow> bool \<Rightarrow> supervisor" where
  "supervise cfg logLevel pid nilTags =
     (let framer = NewFramer (if su_Tags cfg = [] \<and> nilTags then None else Some (su_Tags cfg));
          b = (case su_Buffer cfg of None \<Rightarrow> \<lparr>bf_MaxBytes = 0, bf_MaxRecords = 0\<rparr> | Some b \<Rightarrow> b);
          buf = NewRingBuffer (bf_MaxBytes b) (bf_MaxRecords b)
      in \<lparr>sp_cfg = cfg, sp_framer = framer, sp_handler = NewLogHandler framer True True pid (Some logLevel), sp_phase = Starting,
          sp_mgr = \<lparr>rs_mgr = NewManager (su_Processes cfg), rs_shutdownCh = True, rs_now = 0, rs_returned = None\<rparr>,
          sp_queue = [],
          sp_ship = NewShipper buf \<lparr>sc_CID = su_LogCID cfg, sc_Port = su_LogPort cfg, sc_PID = pid, sc_MinBackoff = 0,
            sc_MaxBackoff = 0, sc_DrainInterval = 0\<rparr>,
          sp_log = []\<rparr>)"

definition rec_frame :: "bytes \<Rightarrow> Framer \<Rightarrow> sink_rec \<Rightarrow> bytes" where
  "rec_frame now f r =
     (case r of
        Rec_start name pid \<Rightarrow> StartRecord now f name pid
      | Rec_exit name pid code sig \<Rightarrow> ExitRecord now f name pid code sig)"

text \<open>The sink closure: \<open>shipper.Enqueue\<close>, whose wake-up is an event of the shipper.\<close>

definition sink :: "origin \<Rightarrow> bytes \<Rightarrow> supervisor \<Rightarrow> supervisor" where
  "sink src f s = s\<lparr>sp_ship := Enqueue_ship f (sp_ship s), sp_log := sp_log s @ [(src, f)]\<rparr>"

definition running_pump :: "nat \<Rightarrow> int \<Rightarrow> supervisor \<Rightarrow> bytes option" where
  "running_pump i pid s =
     (let m = rs_mgr (sp_mgr s); name = pr_Name (u_cfg (m_units m ! i)) in
      if sp_phase s = Running \<and> Child i pid \<in> set (m_pending m) \<and> Rec_start name pid \<notin> set (sp_queue s)
      then Some name else None)"

datatype sup_event =
    SupBegin "int option list" int
  | SupMgr mgr_event
  | SupSink bytes
  | SupOutput nat int bytes bytes bytes bool
  | SupOwn bytes slog_record
  | SupShip ship_event
  | SupReturned
  | SupExit

text \<open>The shipper runs until \<open>supervise\<close> returns; \<open>Flush\<close> is called once the manager has returned.\<close>

definition ship_allowed :: "sup_phase \<Rightarrow> ship_event \<Rightarrow> bool" where
  "ship_allowed ph e =
     (case e of
        Ev_enqueue f \<Rightarrow> False
      | Ev_cancel \<Rightarrow> False
      | Ev_flush \<Rightarrow> (case ph of Flushing c \<Rightarrow> True | _ \<Rightarrow> False)
      | Ev_flush_deadline \<Rightarrow> (case ph of Flushing c \<Rightarrow> True | _ \<Rightarrow> False)
      | _ \<Rightarrow> (case ph of Ended c \<Rightarrow> False | _ \<Rightarrow> True))"

text \<open>The run loop selects when it has no record left to hand over; a kill timer fires at any time.\<close>

definition kill_timer :: "mgr_event \<Rightarrow> bool" where
  "kill_timer e = (case e of KillTimerFires i \<Rightarrow> True | _ \<Rightarrow> False)"

fun sup_do :: "sup_event \<Rightarrow> supervisor \<Rightarrow> supervisor option" where
  "sup_do (SupBegin starts now) s =
     (if sp_phase s = Starting \<and> length starts = length (su_Processes (sp_cfg s))
      then let r = Run_start starts now (NewManager (su_Processes (sp_cfg s))) in
        Some (s\<lparr>sp_mgr := r, sp_queue := m_out (rs_mgr r), sp_phase := Running\<rparr>)
      else None)"
| "sup_do (SupMgr e) s =
     (if sp_phase s = Running \<and> (sp_queue s = [] \<or> kill_timer e)
      then case Run_select e (sp_mgr s) of
        None \<Rightarrow> None
      | Some r \<Rightarrow> Some (s\<lparr>sp_mgr := r,
          sp_queue := sp_queue s @ drop (length (m_out (rs_mgr (sp_mgr s)))) (m_out (rs_mgr r))\<rparr>)
      else None)"
| "sup_do (SupSink t) s =
     (case sp_queue s of
        [] \<Rightarrow> None
      | r # rs \<Rightarrow> Some (sink (Lifecycle r) (rec_frame t (sp_framer s) r) (s\<lparr>sp_queue := rs\<rparr>)))"
| "sup_do (SupOutput i pid t strm msg truncated) s =
     (case running_pump i pid s of
        Some name \<Rightarrow>
          if strm = StreamStdout \<or> strm = StreamStderr
          then Some (sink (Output name pid) (logLine t (sp_framer s) name pid strm msg truncated) s) else None
      | None \<Rightarrow> None)"
| "sup_do (SupOwn t r) s =
     (case sp_phase s of
        Ended c \<Rightarrow> None
      | _ \<Rightarrow>
          Some (fold (\<lambda>e s. case e of Sink f \<Rightarrow> sink Own f s | Mirror f \<Rightarrow> s) (logger_log t (sp_handler s) r) s))"
| "sup_do (SupShip e) s =
     (if ship_allowed (sp_phase s) e
      then (case ship_do e (sp_ship s) of None \<Rightarrow> None | Some sh \<Rightarrow> Some (s\<lparr>sp_ship := sh\<rparr>)) else None)"
| "sup_do SupReturned s =
     (case rs_returned (sp_mgr s) of
        Some code \<Rightarrow> if sp_phase s = Running \<and> sp_queue s = [] then Some (s\<lparr>sp_phase := Flushing code\<rparr>) else None
      | None \<Rightarrow> None)"
| "sup_do SupExit s =
     (case sp_phase s of
        Flushing code \<Rightarrow>
          if sh_flush (sp_ship s) = F_idle \<or> sh_flush (sp_ship s) = F_deadline then Some (s\<lparr>sp_phase := Ended code\<rparr>) else None
      | _ \<Rightarrow> None)"

inductive sup_step :: "supervisor \<Rightarrow> supervisor \<Rightarrow> bool" where
  sup_event [sys_intros]: "sup_do e s = Some t \<Longrightarrow> sup_step s t"

inductive_cases sup_stepE: "sup_step s t"

text \<open>\<open>run\<close>: an exit status at once, or a supervisor.\<close>

record sup_flags =
  sf_debug :: bool
  sf_version :: bool

datatype sup_args = SupHelp | SupBadFlags | SupParsed sup_flags

definition sup_run :: "sup_args \<Rightarrow> sup_yaml \<Rightarrow> int \<Rightarrow> bool \<Rightarrow> int + supervisor" where
  "sup_run args file pid nilTags =
     (case args of
        SupHelp \<Rightarrow> Inl 0
      | SupBadFlags \<Rightarrow> Inl 2
      | SupParsed fl \<Rightarrow>
          if sf_version fl then Inl 0
          else case sup_Load file of
            Inl e \<Rightarrow> Inl 1
          | Inr cfg \<Rightarrow> Inr (supervise cfg (if sf_debug fl then LevelDebug else LevelInfo) pid nilTags))"

definition sup_start :: "supervisor \<Rightarrow> bool" where
  "sup_start s \<longleftrightarrow> (\<exists>args file pid nilTags. sup_run args file pid nilTags = Inr s)"

section \<open>The manager only adds records\<close>

lemma beginShutdown_out: "m_out (beginShutdown m) = m_out m"
proof -
  have "m_out (fold terminate_unit is m) = m_out m" for "is" m
    by (induction "is" arbitrary: m) (simp_all add: terminate_unit_def upd_unit_def Let_def)
  then show ?thesis by (simp add: beginShutdown_def)
qed

lemma applyOnFailure_out: "m_out (applyOnFailure i code m) = m_out m"
  by (simp add: applyOnFailure_def Let_def beginShutdown_out setExitCode_def upd_unit_def)

lemma loop_head_out: "m_out (rs_mgr (loop_head r)) = m_out (rs_mgr r)"
  by (simp add: loop_head_def Let_def beginShutdown_out)

lemma upd_unit_out: "m_out (upd_unit i f m) = m_out m"
  by (simp add: upd_unit_def)

lemma spawn_out: "prefix (m_out m) (m_out (spawn i started m))"
  by (auto simp: spawn_def startFailed_def upd_unit_out Let_def split: option.split)

lemma handleExit_out: "prefix (m_out m) (m_out (handleExit p code sig now started (m\<lparr>m_pending := remove1 p (m_pending m)\<rparr>)))"
proof -
  have r: "prefix (m_out m) (m_out (receive p c sig m))" for c by (simp add: receive_out)
  have s: "prefix (m_out m) (m_out (spawn i started x))" if "m_out x = m_out (receive p code sig m)" for i x
    by (rule prefix_order.trans [OF r]) (use spawn_out [of x i started] that in simp)
  show ?thesis
    by (rule handleExit_rule [OF refl refl]) (simp_all add: r s applyOnFailure_out upd_unit_out)
qed

lemma Run_select_out:
  assumes "Run_select e r = Some r'"
  shows "prefix (m_out (rs_mgr r)) (m_out (rs_mgr r'))"
proof (cases e)
  case Cancelled
  then show ?thesis
    using assms by (auto simp: Run_select_def Let_def loop_head_out beginShutdown_out split: if_splits)
next
  case (Exited p w now started)
  then show ?thesis
    using assms handleExit_out by (auto simp: Run_select_def Let_def loop_head_out split: if_splits prod.splits)
next
  case (KillTimerFires i)
  then show ?thesis using assms by (auto simp: Run_select_def Let_def split: if_splits)
qed

section \<open>The invariant\<close>

fun recs_of :: "(origin \<times> bytes) list \<Rightarrow> sink_rec list" where
  "recs_of [] = []"
| "recs_of ((Lifecycle r, f) # xs) = r # recs_of xs"
| "recs_of ((Output n pid, f) # xs) = recs_of xs"
| "recs_of ((Own, f) # xs) = recs_of xs"

lemma recs_of_append [simp]: "recs_of (xs @ ys) = recs_of xs @ recs_of ys"
  by (induction xs rule: recs_of.induct) simp_all

text \<open>At this point of the log a process is up: it has one more start than exits.\<close>

definition up :: "(bytes \<times> int) \<Rightarrow> sink_rec list \<Rightarrow> bool" where
  "up c rs \<longleftrightarrow> count_list (exits_of rs) c < count_list (starts_of rs) c"

definition bracketed :: "(origin \<times> bytes) list \<Rightarrow> bool" where
  "bracketed l \<longleftrightarrow> (\<forall>xs ys n pid f. l = xs @ (Output n pid, f) # ys \<longrightarrow> up (n, pid) (recs_of xs))"

lemma bracketed_snoc:
  "bracketed (l @ [(src, f)]) \<longleftrightarrow> bracketed l \<and> (\<forall>n pid. src = Output n pid \<longrightarrow> up (n, pid) (recs_of l))"
  (is "?L \<longleftrightarrow> ?R")
proof
  assume L: ?L
  have "up (n, pid) (recs_of xs)" if "l = xs @ (Output n pid, g) # ys" for xs ys n pid g
    using L that unfolding bracketed_def by (metis append.assoc append_Cons)
  then have "bracketed l" unfolding bracketed_def by blast
  then show ?R using L unfolding bracketed_def by blast
next
  assume R: ?R
  show ?L
    unfolding bracketed_def
  proof (intro allI impI)
    fix xs ys n pid g
    assume eq: "l @ [(src, f)] = xs @ (Output n pid, g) # ys"
    show "up (n, pid) (recs_of xs)"
    proof (cases ys rule: rev_cases)
      case Nil
      then show ?thesis using eq R by simp
    next
      case (snoc zs z)
      then have "l = xs @ (Output n pid, g) # zs" using eq by simp
      then show ?thesis using R unfolding bracketed_def by blast
    qed
  qed
qed

text \<open>What each entry of the log is.\<close>

definition framed :: "Framer \<Rightarrow> origin \<times> bytes \<Rightarrow> bool" where
  "framed fr x \<longleftrightarrow>
     (case x of
        (Lifecycle r, f) \<Rightarrow> \<exists>t. f = rec_frame t fr r
      | (Output n pid, f) \<Rightarrow> \<exists>t strm msg truncated. f = logLine t fr n pid strm msg truncated
      | (Own, f) \<Rightarrow> \<exists>t pid msg. f = Log t fr SrcSupervisor pid StreamNone msg)"

definition sup_inv :: "supervisor \<Rightarrow> bool" where
  "sup_inv s \<longleftrightarrow>
     ship_reach (sp_ship s) \<and> sh_enqueued (sp_ship s) = map snd (sp_log s) \<and>
     recs_of (sp_log s) @ sp_queue s = m_out (rs_mgr (sp_mgr s)) \<and>
     (if sp_phase s = Starting then m_out (rs_mgr (sp_mgr s)) = [] else mgr_reach (sp_mgr s)) \<and>
     bracketed (sp_log s) \<and> (\<forall>x \<in> set (sp_log s). framed (sp_framer s) x) \<and> lh_framer (sp_handler s) = sp_framer s \<and>
     (\<forall>c. sp_phase s = Flushing c \<or> sp_phase s = Ended c \<longrightarrow> rs_returned (sp_mgr s) = Some c \<and> sp_queue s = [])"

lemma sink_fields [simp]:
  "sp_phase (sink src f s) = sp_phase s" "sp_mgr (sink src f s) = sp_mgr s" "sp_queue (sink src f s) = sp_queue s"
  "sp_framer (sink src f s) = sp_framer s" "sp_handler (sink src f s) = sp_handler s"
  "sp_ship (sink src f s) = Enqueue_ship f (sp_ship s)" "sp_log (sink src f s) = sp_log s @ [(src, f)]"
  by (simp_all add: sink_def)

lemma Enqueue_ship_reach: "ship_reach s \<Longrightarrow> ship_reach (Enqueue_ship f s)"
  by (rule reach_step, assumption) (simp add: ship_step.simps ship_do_def exI [of _ "Ev_enqueue f"])

lemma Enqueue_ship_enqueued: "sh_enqueued (Enqueue_ship f s) = sh_enqueued s @ [f]"
  by (simp add: Enqueue_ship_def)

lemma ship_do_enqueued:
  "ship_allowed ph e \<Longrightarrow> ship_do e s = Some t \<Longrightarrow> sh_enqueued t = sh_enqueued s"
  by (cases e) (auto simp: ship_allowed_def ship_do_def notify_def Run_step_def serve_step_def drainOnce_step_def DrainTo_step_def
      Flush_step_def Let_def split: option.splits run_pc.splits if_splits prod.splits list.splits flush_pc.splits)

text \<open>A record that leaves the queue for the log, and one that goes straight to it.\<close>

lemma sink_inv:
  assumes "sup_inv s" "framed (sp_framer s) (src, f)" "\<And>r. src \<noteq> Lifecycle r"
    and "\<And>n pid. src = Output n pid \<Longrightarrow> up (n, pid) (recs_of (sp_log s))"
  shows "sup_inv (sink src f s)"
proof -
  have "recs_of [(src, f)] = []" using assms(3) by (cases src) auto
  then show ?thesis
    using assms by (simp add: sup_inv_def Enqueue_ship_reach Enqueue_ship_enqueued bracketed_snoc)
qed

lemma count_child_ids:
  "mgr_reach r \<Longrightarrow> count_list (starts_of (m_out (rs_mgr r))) c =
     count_list (exits_of (m_out (rs_mgr r))) c + count (child_ids (rs_mgr r)) c"
  using managing.invar_reach [of r] by (simp add: run_inv_def mgr_ok_def record_inv_def count_mset [symmetric])

lemma child_ids_pos:
  "Child i pid \<in> set (m_pending m) \<Longrightarrow> i < length (m_units m) \<Longrightarrow> 0 < count (child_ids m) (pr_Name (u_cfg (m_units m ! i)), pid)"
  by (auto simp: child_ids_def count_greater_zero_iff intro!: image_eqI [of _ _ "Child i pid"])

lemma starts_absent: "Rec_start n pid \<notin> set rs \<Longrightarrow> count_list (starts_of rs) (n, pid) = 0"
  by (induction rs rule: starts_of.induct) auto

text \<open>A pump that runs belongs to a process that is up in the log.\<close>

lemma running_pump_up:
  assumes "sup_inv s" "running_pump i pid s = Some name"
  shows "up (name, pid) (recs_of (sp_log s))"
proof -
  let ?m = "rs_mgr (sp_mgr s)"
  have p: "sp_phase s = Running" "Child i pid \<in> set (m_pending ?m)" "Rec_start name pid \<notin> set (sp_queue s)"
    "name = pr_Name (u_cfg (m_units ?m ! i))"
    using assms(2) by (auto simp: running_pump_def Let_def split: if_splits)
  have r: "mgr_reach (sp_mgr s)" using assms(1) p(1) by (simp add: sup_inv_def)
  have "i < length (m_units ?m)"
    using managing.invar_reach [OF r] p(2) by (fastforce simp: run_inv_def mgr_ok_def pend_except_def)
  then have "count_list (exits_of (m_out ?m)) (name, pid) < count_list (starts_of (m_out ?m)) (name, pid)"
    using count_child_ids [OF r, of "(name, pid)"] child_ids_pos [OF p(2)] p(4) by simp
  moreover have "m_out ?m = recs_of (sp_log s) @ sp_queue s" using assms(1) by (simp add: sup_inv_def)
  ultimately show ?thesis using starts_absent [OF p(3)] by (simp add: up_def)
qed

lemma output_framed: "framed fr (Output n pid, logLine t fr n pid strm msg truncated)"
  unfolding framed_def prod.case origin.case by blast

lemma own_framed: "Sink f \<in> set (logger_log t h r) \<Longrightarrow> framed (lh_framer h) (Own, f)"
  by (auto simp: logger_log_def Handle_def Let_def framed_def split: if_splits)

lemma own_inv:
  "\<lbrakk>sup_inv s; \<forall>f. Sink f \<in> set es \<longrightarrow> framed (sp_framer s) (Own, f)\<rbrakk> \<Longrightarrow>
   sup_inv (fold (\<lambda>e s. case e of Sink f \<Rightarrow> sink Own f s | Mirror f \<Rightarrow> s) es s)"
proof (induction es arbitrary: s)
  case Nil
  then show ?case by simp
next
  case (Cons e es)
  then show ?case by (cases e) (auto intro!: Cons.IH sink_inv)
qed

lemma sup_do_inv:
  assumes "sup_do e s = Some t" and inv: "sup_inv s"
  shows "sup_inv t"
proof (cases e)
  case (SupBegin starts now)
  let ?r = "Run_start starts now (NewManager (su_Processes (sp_cfg s)))"
  have t: "sp_phase s = Starting" "length starts = length (su_Processes (sp_cfg s))"
    "t = s\<lparr>sp_mgr := ?r, sp_queue := m_out (rs_mgr ?r), sp_phase := Running\<rparr>"
    using assms(1) SupBegin by (auto simp: Let_def split: if_splits)
  moreover have "mgr_reach ?r" by (rule reach_start) (use t(2) in \<open>auto simp: mgr_start_def\<close>)
  moreover have "recs_of (sp_log s) = []" using inv t(1) by (auto simp: sup_inv_def)
  ultimately show ?thesis using inv by (simp add: sup_inv_def)
next
  case (SupMgr ev)
  then obtain r where r: "sp_phase s = Running" "Run_select ev (sp_mgr s) = Some r"
    "t = s\<lparr>sp_mgr := r, sp_queue := sp_queue s @ drop (length (m_out (rs_mgr (sp_mgr s)))) (m_out (rs_mgr r))\<rparr>"
    using assms(1) by (auto split: if_splits option.splits)
  have "mgr_reach r" using inv r(1,2) by (auto simp: sup_inv_def intro: sys_intros)
  moreover have "m_out (rs_mgr (sp_mgr s)) @ drop (length (m_out (rs_mgr (sp_mgr s)))) (m_out (rs_mgr r)) = m_out (rs_mgr r)"
    using Run_select_out [OF r(2)] by (auto simp: prefix_def)
  ultimately show ?thesis using inv r(1,3) by (simp add: sup_inv_def flip: append_assoc)
next
  case (SupSink ts)
  then obtain r rs where r: "sp_queue s = r # rs" "t = sink (Lifecycle r) (rec_frame ts (sp_framer s) r) (s\<lparr>sp_queue := rs\<rparr>)"
    using assms(1) by (auto split: list.splits)
  then show ?thesis
    using inv by (auto simp: sup_inv_def Enqueue_ship_reach Enqueue_ship_enqueued bracketed_snoc framed_def)
next
  case (SupOutput i pid ts strm msg tr)
  then obtain name where n: "running_pump i pid s = Some name"
    "t = sink (Output name pid) (logLine ts (sp_framer s) name pid strm msg tr) s"
    using assms(1) by (auto split: option.splits if_splits)
  then show ?thesis using running_pump_up [OF inv n(1)] inv by (auto intro!: sink_inv output_framed)
next
  case (SupOwn ts r)
  then have "t = fold (\<lambda>e s. case e of Sink f \<Rightarrow> sink Own f s | Mirror f \<Rightarrow> s) (logger_log ts (sp_handler s) r) s"
    using assms(1) by (auto split: sup_phase.splits if_splits)
  moreover have "lh_framer (sp_handler s) = sp_framer s" using inv by (simp add: sup_inv_def)
  ultimately show ?thesis using own_inv [OF inv] own_framed by metis
next
  case (SupShip ev)
  then obtain sh where sh: "ship_allowed (sp_phase s) ev" "ship_do ev (sp_ship s) = Some sh" "t = s\<lparr>sp_ship := sh\<rparr>"
    using assms(1) by (auto split: if_splits option.splits)
  then have "ship_reach sh" using inv by (auto simp: sup_inv_def intro: sys_intros)
  then show ?thesis using inv sh(3) ship_do_enqueued [OF sh(1,2)] by (simp add: sup_inv_def)
next
  case SupReturned
  then show ?thesis using assms by (auto simp: sup_inv_def split: option.splits if_splits)
next
  case SupExit
  then show ?thesis using assms by (auto simp: sup_inv_def split: sup_phase.splits if_splits)
qed

lemma sup_run_Inr:
  "sup_run args file pid nilTags = Inr s \<Longrightarrow> \<exists>cfg level. sup_Load file = Inr cfg \<and> s = supervise cfg level pid nilTags"
  by (auto simp: sup_run_def split: sup_args.splits if_splits sum.splits)

lemma supervise_inv: "sup_inv (supervise cfg level pid nilTags)"
proof -
  have "ship_reach (NewShipper (NewRingBuffer a b) c)" for a b c by (rule reach_start) (auto simp: ship_start_def)
  moreover have "sh_enqueued (NewShipper b c) = []" for b c by (simp add: NewShipper_def)
  ultimately show ?thesis
    by (simp add: supervise_def Let_def sup_inv_def bracketed_def NewLogHandler_def NewManager_def)
qed

lemma sup_start_inv: "sup_start s \<Longrightarrow> sup_inv s"
  using sup_run_Inr supervise_inv by (fastforce simp: sup_start_def)

interpretation supervising: invariant_system sup_start sup_step sup_inv
  by unfold_locales (auto intro: sup_start_inv sup_do_inv elim: sup_stepE)

abbreviation sup_reach :: "supervisor \<Rightarrow> bool" where
  "sup_reach \<equiv> reach sup_start sup_step"

section \<open>What the supervisor promises about its records\<close>

text \<open>
  C12. The record stream of a whole supervisor run, under every interleaving of the run loop, the pumps, its own log, the
  shipper and the flush: each record handed over is a frame of its origin; a line of a process comes after that process's
  start record and before its exit record; the connections received the records in the order they were handed over, and
  the missing ones are in flight, queued, reported by a drop record or still to be reported. When \<open>supervise\<close> returns, no child is
  left, every lifecycle record of the manager was handed over, each process that started has its exit record, and the status is the
  first non-zero code a failure was resolved with, or 0.
\<close>

theorem supervisor_record_stream:
  assumes "sup_reach s"
  shows "(\<forall>x \<in> set (sp_log s). framed (sp_framer s) x) \<and>
     (\<forall>xs ys n pid f. sp_log s = xs @ (Output n pid, f) # ys \<longrightarrow>
        count_list (exits_of (recs_of xs)) (n, pid) < count_list (starts_of (recs_of xs)) (n, pid)) \<and>
     subseq (delivered (sh_sent (sp_ship s))) (map snd (sp_log s)) \<and>
     int (length (sp_log s)) = int (length (delivered (sh_sent (sp_ship s)))) + int (length (inflight (sh_pc (sp_ship s))))
       + int (length (rb_frames (sh_buf (sp_ship s)))) + reported (sh_sent (sp_ship s)) + unreported (sp_ship s) \<and>
     (\<forall>c. sp_phase s = Ended c \<longrightarrow>
        m_pending (rs_mgr (sp_mgr s)) = [] \<and> recs_of (sp_log s) = m_out (rs_mgr (sp_mgr s)) \<and>
        mset (starts_of (recs_of (sp_log s))) = mset (exits_of (recs_of (sp_log s))) \<and>
        c = hd (filter (\<lambda>c. c \<noteq> 0) (m_codes (rs_mgr (sp_mgr s))) @ [0]))"
proof -
  have inv: "sup_inv s" using assms by (rule supervising.invar_reach)
  then have ship: "ship_inv (sp_ship s)" "sh_enqueued (sp_ship s) = map snd (sp_log s)"
    by (simp_all add: sup_inv_def shipping.invar_reach)
  have "subseq (delivered (sh_sent (sp_ship s))) (sh_enqueued (sp_ship s))"
    using ship(1) by (auto simp: ship_inv_def order_inv_def intro: subseq_order.trans [rotated])
  moreover have "m_pending (rs_mgr (sp_mgr s)) = [] \<and> recs_of (sp_log s) = m_out (rs_mgr (sp_mgr s)) \<and>
      mset (starts_of (recs_of (sp_log s))) = mset (exits_of (recs_of (sp_log s))) \<and>
      c = hd (filter (\<lambda>c. c \<noteq> 0) (m_codes (rs_mgr (sp_mgr s))) @ [0])" if "sp_phase s = Ended c" for c
  proof -
    have r: "mgr_reach (sp_mgr s)" "rs_returned (sp_mgr s) = Some c" "recs_of (sp_log s) = m_out (rs_mgr (sp_mgr s))"
      using inv that by (auto simp: sup_inv_def)
    have m: "run_inv (sp_mgr s)" using r(1) by (rule managing.invar_reach)
    then show ?thesis
      using r(2,3) running_iff_pending [of "rs_mgr (sp_mgr s)"]
      by (auto simp: run_inv_def code_inv_def mgr_ok_def record_inv_def child_ids_def split: if_splits)
  qed
  ultimately show ?thesis
    using inv ship by (auto simp: sup_inv_def bracketed_def up_def ship_inv_def count_inv_def)
qed

fun sup_exec :: "sup_event list \<Rightarrow> supervisor \<Rightarrow> supervisor option" where
  "sup_exec [] s = Some s"
| "sup_exec (e # es) s = (case sup_do e s of None \<Rightarrow> None | Some t \<Rightarrow> sup_exec es t)"

lemma sup_exec_reach: "sup_exec es s = Some t \<Longrightarrow> sup_reach s \<Longrightarrow> sup_reach t"
  by (induction es arbitrary: s) (auto split: option.splits intro: sys_intros)

definition sample_sup_cfg :: SupConfig where
  "sample_sup_cfg = \<lparr>su_LogPort = 9000, su_LogCID = 3, su_Tags = [], su_Buffer = Some \<lparr>bf_MaxBytes = 0, bf_MaxRecords = 10\<rparr>,
     su_Processes = [\<lparr>pr_Name = ''app'', pr_Command = ''/app'', pr_Args = [], pr_Role = RoleTask, pr_Restart = RestartNo,
       pr_MaxRestarts = 0, pr_RestartWindow = 0, pr_OnFailure = OnFailureTerminate\<rparr>]\<rparr>"

lemma sample_sup_load: "sup_Load (SupDecoded sample_sup_cfg) = Inr sample_sup_cfg"
proof -
  have "sup_Validate_rest sample_sup_cfg = Inr sample_sup_cfg"
    by (simp add: sup_Validate_rest_eq sample_sup_cfg_def process_good_def process_defaults_def buffer_good_def policy_names)
  then show ?thesis
    by (simp add: sup_Load_def sup_Validate_def sup_Validate_rest_def sample_sup_cfg_def sup_vsockPortAny_def sup_minCID_def)
qed

definition sample_sup :: supervisor where
  "sample_sup = supervise sample_sup_cfg LevelInfo 1 True"

lemma sample_sup_reach: "sup_reach sample_sup"
proof (rule reach_start)
  have "sup_run (SupParsed \<lparr>sf_debug = False, sf_version = False\<rparr>) (SupDecoded sample_sup_cfg) 1 True = Inr sample_sup"
    by (simp add: sup_run_def sample_sup_load sample_sup_def)
  then show "sup_start sample_sup" unfolding sup_start_def by blast
qed

lemma Enqueue_spare:
  "\<lbrakk>rb_maxBytes b = 0; int (length (rb_frames b)) < rb_maxRecords b\<rbrakk> \<Longrightarrow>
   Enqueue f b = b\<lparr>rb_frames := rb_frames b @ [f], rb_bytes := rb_bytes b + int (length f)\<rparr>"
  by (simp add: Enqueue_def evict.simps overBudget_def)

definition sample_sup_events :: "sup_event list" where
  "sample_sup_events = [SupBegin [Some 7] 0, SupSink ''t0'', SupOutput 0 7 ''t1'' StreamStdout ''hi'' False,
      SupMgr (Exited (Child 0 7) (WaitExit 3) 5 None), SupSink ''t2'', SupReturned,
      SupShip Ev_flush, SupShip Ev_flush, SupShip Ev_flush, SupShip Ev_flush, SupShip Ev_flush_deadline, SupExit]"

lemma sample_sup_run:
  "\<exists>t. sup_exec sample_sup_events sample_sup = Some t \<and>
     sp_phase t = Ended 3 \<and> map fst (sp_log t) = [Lifecycle (Rec_start ''app'' 7), Output ''app'' 7, Lifecycle (Rec_exit ''app'' 7 3 [])]"
  by (simp add: sample_sup_events_def sample_sup_def supervise_def sample_sup_cfg_def mgr_eval running_pump_def sink_def kill_timer_def signalExitBase_def)
    (simp add: ship_allowed_def ship_eval NewShipper_def Let_def sink_def Enqueue_spare NewRingBuffer_def Len_def)

theorem supervisor_record_stream_witness:
  "\<exists>s. sup_reach s \<and> sp_phase s = Ended 3 \<and> length (sp_log s) = 3 \<and> m_pending (rs_mgr (sp_mgr s)) = [] \<and>
     (\<exists>xs h ys. sp_log s = xs @ (Output ''app'' 7, h) # ys \<and>
        count_list (exits_of (recs_of xs)) (''app'', 7) < count_list (starts_of (recs_of xs)) (''app'', 7))"
proof -
  from sample_sup_run obtain t where e: "sup_exec sample_sup_events sample_sup = Some t" and t: "sp_phase t = Ended 3"
    and m: "map fst (sp_log t) = [Lifecycle (Rec_start ''app'' 7), Output ''app'' 7, Lifecycle (Rec_exit ''app'' 7 3 [])]"
    by (elim exE conjE)
  from e sample_sup_reach have r: "sup_reach t" by (rule sup_exec_reach)
  have n: "length (sp_log t) = 3" using arg_cong [OF m, of length] by simp
  have "Output ''app'' 7 \<in> fst ` set (sp_log t)" using arg_cong [OF m, of set] by simp
  then obtain x where x: "Output ''app'' 7 = fst x" "x \<in> set (sp_log t)" by (rule imageE)
  from split_list [OF x(2)] obtain xs ys where "sp_log t = xs @ x # ys" by (elim exE)
  then have l: "sp_log t = xs @ (Output ''app'' 7, snd x) # ys" by (simp add: x(1))
  note p = supervisor_record_stream [OF r]
  note u = p [THEN conjunct2, THEN conjunct1, rule_format, OF l]
  note e = p [THEN conjunct2, THEN conjunct2, THEN conjunct2, THEN conjunct2, rule_format, OF t, THEN conjunct1]
  show ?thesis by (rule exI [of _ t], intro conjI r t n e, intro exI conjI, rule l, rule u)
qed

end
