(* ===== verification/Egress.thy ===== *)
theory Egress
  imports Outbound Config_Valid
begin

text \<open>
  The egress policy end to end: from the \<open>cids\<close> of an outbound listener in the configuration, through the
  matchers \<open>newHTTPListener\<close> builds from them, to the destinations a connection handler dials.
\<close>

section \<open>The matchers of a listener\<close>

lemma add_cid_Inr:
  "add_cid port i oc ms = Inr ms' \<longleftrightarrow>
     map_of ms (oc_CID oc) = None \<and> (\<exists>m. New_matcher (oc_AllowedHosts oc) = Inr m \<and> ms' = ms @ [(oc_CID oc, m)])"
  by (auto simp: add_cid_def split: sum.split if_split)

definition compiled :: "OutboundCID \<Rightarrow> uint32 \<times> Matcher \<Rightarrow> bool" where
  "compiled oc cm \<longleftrightarrow> fst cm = oc_CID oc \<and> New_matcher (oc_AllowedHosts oc) = Inr (snd cm)"

lemma add_cids:
  assumes "for_idx (add_cid port) i ocs ms = Inr ms'" "distinct (map fst ms)"
  shows "\<exists>cs. ms' = ms @ cs \<and> list_all2 compiled ocs cs \<and> distinct (map fst ms')"
  using assms
proof (induction ocs arbitrary: i ms)
  case (Cons oc ocs)
  obtain m where m: "map_of ms (oc_CID oc) = None" "New_matcher (oc_AllowedHosts oc) = Inr m"
      "for_idx (add_cid port) (Suc i) ocs (ms @ [(oc_CID oc, m)]) = Inr ms'"
    using Cons.prems(1) by (auto simp: add_cid_Inr split: sum.splits)
  have "distinct (map fst (ms @ [(oc_CID oc, m)]))"
    using Cons.prems(2) m(1) by (simp add: map_of_eq_None_iff)
  from Cons.IH [OF m(3) this] obtain cs where "ms' = ms @ (oc_CID oc, m) # cs" "list_all2 compiled ocs cs"
      "distinct (map fst ms')"
    by auto
  moreover have "compiled oc (oc_CID oc, m)" using m(2) by (simp add: compiled_def)
  ultimately show ?case by (intro exI [of _ "(oc_CID oc, m) # cs"]) simp
qed simp

lemma newHTTPListener_matchers:
  assumes "newHTTPListener cfg = Inr l"
  shows "list_all2 compiled (ol_CIDs cfg) (matchersSnapshot l)" "distinct (map fst (matchersSnapshot l))"
  using assms add_cids [of "ol_Port cfg" 0 "ol_CIDs cfg" "[]"]
  by (auto simp: newHTTPListener_def matchersSnapshot_def split: if_splits sum.splits)

lemma compiled_lookup:
  assumes "list_all2 compiled ocs ms" "map_of ms cid = Some m"
  obtains oc where "oc \<in> set ocs" "oc_CID oc = cid" "New_matcher (oc_AllowedHosts oc) = Inr m"
proof -
  have "(cid, m) \<in> set ms" using assms(2) by (rule map_of_SomeD)
  then show thesis
    using assms(1) that by (fastforce simp: compiled_def in_set_conv_nth list_all2_conv_all_nth)
qed

lemma compiled_find:
  assumes "list_all2 compiled ocs ms" "distinct (map fst ms)" "oc \<in> set ocs"
  obtains m where "map_of ms (oc_CID oc) = Some m" "New_matcher (oc_AllowedHosts oc) = Inr m"
proof -
  obtain i where i: "i < length ocs" "ocs ! i = oc" using assms(3) by (auto simp: in_set_conv_nth)
  then have "i < length ms" "compiled oc (ms ! i)" using assms(1) by (auto simp: list_all2_conv_all_nth)
  then obtain m where "(oc_CID oc, m) \<in> set ms" "New_matcher (oc_AllowedHosts oc) = Inr m"
    unfolding compiled_def by (metis nth_mem prod.collapse)
  then show thesis using that assms(2) by simp
qed

text \<open>On a validated configuration the matchers can always be built.\<close>

lemma add_cids_ok:
  assumes "distinct (map fst ms @ map oc_CID ocs)" "list_all (is_ok \<circ> New_matcher \<circ> oc_AllowedHosts) ocs"
  shows "is_ok (for_idx (add_cid port) i ocs ms)"
  using assms
proof (induction ocs arbitrary: i ms)
  case (Cons oc ocs)
  obtain m where m: "New_matcher (oc_AllowedHosts oc) = Inr m" using Cons.prems(2) by (auto simp: is_ok_iff)
  moreover have "map_of ms (oc_CID oc) = None" using Cons.prems(1) by (auto simp: map_of_eq_None_iff)
  ultimately show ?case using Cons.prems Cons.IH [of "ms @ [(oc_CID oc, m)]"] by (simp add: add_cid_def)
qed (simp add: is_ok_iff)

lemma newHTTPListener_valid:
  assumes "outbound_good ob" "distinct (map oc_CID (ol_CIDs ob))"
  shows "\<exists>l. newHTTPListener ob = Inr l"
proof -
  have "list_all (is_ok \<circ> New_matcher \<circ> oc_AllowedHosts) (ol_CIDs ob)"
    using assms(1) by (auto simp: outbound_good_def cid_good_def list_all_iff New_matcher_ok_iff)
  then obtain ms where "for_idx (add_cid (ol_Port ob)) 0 (ol_CIDs ob) [] = Inr ms"
    using add_cids_ok [of "[]" "ol_CIDs ob" "ol_Port ob" 0] assms(2) by (auto simp: is_ok_iff)
  then show ?thesis using assms(1) by (simp add: newHTTPListener_def outbound_good_def)
qed

lemma valid_config_newHTTPListener:
  assumes "valid_config c" "ob \<in> set (c_Outbound c)"
  shows "\<exists>l. newHTTPListener ob = Inr l"
proof (rule newHTTPListener_valid)
  show "outbound_good ob" using assms by (auto simp: valid_config_def list_all_iff)
  have "distinct (concat (map (map oc_CID) (map ol_CIDs (c_Outbound c))))"
    using assms(1) by (simp add: valid_config_def cids_of_def comp_def)
  then show "distinct (map oc_CID (ol_CIDs ob))"
    using assms(2) by (auto simp: distinct_concat_iff)
qed

lemma cid_unique:
  assumes "valid_config c" "ob \<in> set (c_Outbound c)" "ob' \<in> set (c_Outbound c)"
    and "oc \<in> set (ol_CIDs ob)" "oc' \<in> set (ol_CIDs ob')" "oc_CID oc = oc_CID oc'"
  shows "oc = oc'"
proof -
  have "distinct (map oc_CID (concat (map ol_CIDs (c_Outbound c))))"
    using assms(1) by (simp add: valid_config_def cids_of_def map_concat comp_def)
  then have "inj_on oc_CID (\<Union>ob \<in> set (c_Outbound c). set (ol_CIDs ob))" by (simp add: distinct_map)
  then show ?thesis using assms(2-6) by (auto dest: inj_onD)
qed

section \<open>Properties of the egress policy\<close>

text \<open>
  C1. The egress policy is enforced end to end: from a validated configuration every outbound listener can be
  built, and whatever the client sends and the network answers, a connection to it only ever dials
  \<open>host:port\<close> for a host and a port that the documented meaning of the \<open>allowed_hosts\<close> configured for the peer's
  own CID on that listener permits; and no other listener of the configuration mentions that CID.
\<close>

theorem egress_enforced:
  assumes "valid_config c" "ob \<in> set (c_Outbound c)"
  shows "\<exists>l. newHTTPListener ob = Inr l \<and>
     (\<forall>env cid a. Dial a \<in> set (handle env (matchersSnapshot l) cid) \<longrightarrow>
        (\<exists>oc host portStr port. oc \<in> set (ol_CIDs ob) \<and> oc_CID oc = cid \<and>
           a = JoinHostPort host portStr \<and> Atoi portStr = Inr port \<and> spec_allows (oc_AllowedHosts oc) host port \<and>
           (\<forall>ob' \<in> set (c_Outbound c). \<forall>oc' \<in> set (ol_CIDs ob'). oc_CID oc' = cid \<longrightarrow> oc' = oc)))"
proof -
  obtain l where l: "newHTTPListener ob = Inr l" using valid_config_newHTTPListener [OF assms] by blast
  have "\<exists>oc host portStr port. oc \<in> set (ol_CIDs ob) \<and> oc_CID oc = cid \<and>
      a = JoinHostPort host portStr \<and> Atoi portStr = Inr port \<and> spec_allows (oc_AllowedHosts oc) host port \<and>
      (\<forall>ob' \<in> set (c_Outbound c). \<forall>oc' \<in> set (ol_CIDs ob'). oc_CID oc' = cid \<longrightarrow> oc' = oc)"
    if dial: "Dial a \<in> set (handle env (matchersSnapshot l) cid)" for env cid a
  proof -
    obtain m host portStr port where d: "map_of (matchersSnapshot l) cid = Some m" "a = JoinHostPort host portStr"
        "Atoi portStr = Inr port" "Allow (Some m) host port"
      using handle_dial [OF dial] .
    obtain oc where oc: "oc \<in> set (ol_CIDs ob)" "oc_CID oc = cid" "New_matcher (oc_AllowedHosts oc) = Inr m"
      using compiled_lookup [OF newHTTPListener_matchers(1) [OF l] d(1)] .
    have "\<forall>ob' \<in> set (c_Outbound c). \<forall>oc' \<in> set (ol_CIDs ob'). oc_CID oc' = cid \<longrightarrow> oc' = oc"
      using cid_unique [OF assms(1)] assms(2) oc(1,2) by blast
    then show ?thesis using d(2-4) oc Allow_iff_spec [OF oc(3)] by blast
  qed
  with l show ?thesis by blast
qed

text \<open>
  And nothing the policy permits is refused: on a \<open>CONNECT\<close> to \<open>host:port\<close> from a configured CID the handler
  dials exactly that destination if the policy permits it and none otherwise; when the dial and the reply
  succeed, what the tunnel sends upstream is what the client sent after the request head, the bytes already
  buffered first.
\<close>

theorem connect_served:
  assumes "newHTTPListener ob = Inr l" "oc \<in> set (ol_CIDs ob)"
    and "oe_request env = Some req" "rq_Method req = ''CONNECT''"
    and "SplitHostPort (u_Host (rq_URL req)) = Inr (host, portStr)" "Atoi portStr = Inr port"
  shows "{a. Dial a \<in> set (handle env (matchersSnapshot l) (oc_CID oc))} =
       (if spec_allows (oc_AllowedHosts oc) host port then {JoinHostPort host portStr} else {}) \<and>
     (spec_allows (oc_AllowedHosts oc) host port \<and> oe_dial env (JoinHostPort host portStr) \<and> oe_established env \<longrightarrow>
       CopyUp (take (oe_copyUp env) (oe_buffered env @ oe_rest env))
         \<in> set (handle env (matchersSnapshot l) (oc_CID oc)))"
proof -
  obtain m where m: "map_of (matchersSnapshot l) (oc_CID oc) = Some m" "New_matcher (oc_AllowedHosts oc) = Inr m"
    using compiled_find [OF newHTTPListener_matchers [OF assms(1)] assms(2)] .
  have range: "spec_allows (oc_AllowedHosts oc) host port \<Longrightarrow> 1 \<le> port \<and> port \<le> 65535"
    by (simp add: spec_allows_def)
  show ?thesis
    using range
    by (cases "spec_allows (oc_AllowedHosts oc) host port")
      (auto simp: handle_def m(1) assms(3-6) handleConnect_def Allow_iff_spec [OF m(2)] bad_request_def
        with_upstream_def tunnel_def mergeBuffered_def writeStatusLine_def Let_def)
qed

section \<open>Witnesses\<close>

definition sample_outbound :: OutboundListener where
  "sample_outbound = \<lparr>ol_Port = 8080, ol_CIDs = [\<lparr>oc_CID = 16, oc_AllowedHosts = [''api.test:443'']\<rparr>]\<rparr>"

definition sample_matcher :: Matcher where
  "sample_matcher = \<lparr>patterns = [\<lparr>p_kind = kindExact, p_suffix = [], p_host = ''api.test'', p_port = 443\<rparr>]\<rparr>"

definition sample_connect :: out_env where
  "sample_connect =
     \<lparr>oe_request = Some \<lparr>rq_Method = ''CONNECT'', rq_URL = \<lparr>u_Scheme = [], u_Opaque = [], u_Host = ''api.test:443'',
        u_Path = [], u_RawPath = [], u_RawQuery = [], u_Fragment = []\<rparr>, rq_Header = [],
        rq_Host = ''api.test:443'', rq_RequestURI = ''api.test:443'', rq_Close = False\<rparr>,
      oe_dial = (\<lambda>_. True), oe_established = True, oe_buffered = ''hel'', oe_rest = ''lo'', oe_copyUp = 5, oe_copyDown = 0,
      oe_reqWrite = (0, True), oe_response = None, oe_respWrite = (0, True)\<rparr>"

lemma sample_listener:
  "newHTTPListener sample_outbound =
     Inr \<lparr>lo_port = 8080, lo_mode = [], lo_ln = None, lo_done = False, lo_matchers = Some [(16, sample_matcher)],
          lo_upstream = None, lo_relay = None\<rparr>"
  by (simp add: newHTTPListener_def sample_outbound_def sample_matcher_def add_cid_def modeHTTPProxy_def allow_eval)

theorem connect_served_witness:
  "\<exists>l. newHTTPListener sample_outbound = Inr l \<and>
     {a. Dial a \<in> set (handle sample_connect (matchersSnapshot l) 16)} = {''api.test:443''} \<and>
     CopyUp ''hello'' \<in> set (handle sample_connect (matchersSnapshot l) 16)"
proof -
  let ?oc = "\<lparr>oc_CID = 16, oc_AllowedHosts = [''api.test:443'']\<rparr>"
  have oc: "?oc \<in> set (ol_CIDs sample_outbound)" by (simp add: sample_outbound_def)
  have req: "oe_request sample_connect = Some (the (oe_request sample_connect))"
      "rq_Method (the (oe_request sample_connect)) = ''CONNECT''"
      "SplitHostPort (u_Host (rq_URL (the (oe_request sample_connect)))) = Inr (''api.test'', ''443'')"
      "Atoi ''443'' = Inr 443"
    by (simp_all add: sample_connect_def allow_eval)
  have "spec_allows [''api.test:443''] ''api.test'' 443"
    using Allow_iff_spec [of "[''api.test:443'']" sample_matcher "''api.test''" 443] by (simp add: sample_matcher_def allow_eval)
  then show ?thesis
    using connect_served [OF sample_listener oc req] sample_listener
    by (simp add: sample_connect_def JoinHostPort_def)
qed

theorem egress_enforced_witness:
  "valid_config sample_config \<and> sample_outbound \<in> set (c_Outbound sample_config) \<and>
   (\<exists>l. newHTTPListener sample_outbound = Inr l \<and>
     (\<forall>env cid a. Dial a \<in> set (handle env (matchersSnapshot l) cid) \<longrightarrow>
        cid = 16 \<and> (\<exists>host portStr port. a = JoinHostPort host portStr \<and> Atoi portStr = Inr port \<and>
          spec_allows [''api.test:443''] host port)))"
proof -
  have m: "sample_outbound \<in> set (c_Outbound sample_config)" by (simp add: sample_outbound_def sample_config_def)
  have c: "ol_CIDs sample_outbound = [\<lparr>oc_CID = 16, oc_AllowedHosts = [''api.test:443'']\<rparr>]"
    by (simp add: sample_outbound_def)
  show ?thesis using egress_enforced [OF sample_config_valid m] m sample_config_valid unfolding c by fastforce
qed

end
