(* ===== verification/Outbound_Reload.thy ===== *)
theory Outbound_Reload
  imports Outbound Egress
begin

text \<open>
  The reload of the outbound server: staging changes nothing that runs, an aborted or failed reload leaks
  neither a socket nor a log file, and a committed one serves exactly the configuration.

  The accounting of the sinks is one predicate, \<open>ledger\<close>: every sink has one reference for each
  connection handler that holds it and one more if it is in the given set, the sinks the server or a
  pending reload owns; and the files still open are those with a reference.
\<close>

section \<open>The ledger of sinks\<close>

abbreviation cnt :: "world \<Rightarrow> nat \<Rightarrow> int" where
  "cnt w a \<equiv> rf_n (ow_sinks w a)"

abbreviation dest :: "world \<Rightarrow> nat \<Rightarrow> sink" where
  "dest w a \<equiv> rf_sink (ow_sinks w a)"

definition ledger :: "world \<Rightarrow> nat set \<Rightarrow> bool" where
  "ledger w S \<longleftrightarrow> S \<subseteq> {..<ow_sfresh w} \<and> (\<forall>a \<ge> ow_sfresh w. ow_held w a = 0) \<and>
     (\<forall>a < ow_sfresh w. cnt w a = int (ow_held w a) + (if a \<in> S then 1 else 0)) \<and>
     ow_files w = {a. a < ow_sfresh w \<and> 0 < cnt w a}"

text \<open>So the open files are determined by who holds a sink and who owns one.\<close>

lemma ledger_files: "ledger w S \<Longrightarrow> ow_files w = S \<union> {a. 0 < ow_held w a}"
proof -
  assume l: "ledger w S"
  have "a < ow_sfresh w \<and> 0 < cnt w a \<longleftrightarrow> a \<in> S \<or> 0 < ow_held w a" for a
  proof (cases "a < ow_sfresh w")
    case True
    then show ?thesis using l by (simp add: ledger_def)
  next
    case False
    then have "ow_held w a = 0" "a \<notin> S" using l by (auto simp: ledger_def)
    then show ?thesis using False by simp
  qed
  then show "ow_files w = S \<union> {a. 0 < ow_held w a}" using l by (auto simp: ledger_def)
qed

lemma ledger_cong:
  "ow_sinks w' = ow_sinks w \<Longrightarrow> ow_sfresh w' = ow_sfresh w \<Longrightarrow> ow_files w' = ow_files w \<Longrightarrow> ow_held w' = ow_held w \<Longrightarrow>
     ledger w' S = ledger w S"
  by (simp add: ledger_def)

lemma release_sink_frame [simp]:
  "ow_heap (release_sink a w) = ow_heap w" "ow_fresh (release_sink a w) = ow_fresh w" "ow_open (release_sink a w) = ow_open w"
  "ow_sock (release_sink a w) = ow_sock w" "ow_running (release_sink a w) = ow_running w"
  "ow_sfresh (release_sink a w) = ow_sfresh w" "ow_held (release_sink a w) = ow_held w"
  "dest (release_sink a w) b = dest w b"
  by (auto simp: release_sink_def release_def Let_def)

lemma release_sink_ledger:
  assumes "ledger w S" "a \<in> S"
  shows "ledger (release_sink a w) (S - {a})"
proof -
  have n: "cnt (release_sink a w) b = (if b = a then cnt w a - 1 else cnt w b)" for b
    by (simp add: release_sink_def release_def Let_def)
  have "ow_files (release_sink a w) = (if cnt w a - 1 = 0 then ow_files w - {a} else ow_files w)"
    by (simp add: release_sink_def release_def Let_def)
  then show ?thesis using assms by (auto simp: ledger_def n)
qed

text \<open>The operations below leave everything but the sinks, or all but one listener, alone.\<close>

definition same_but_sinks :: "world \<Rightarrow> world \<Rightarrow> bool" where
  "same_but_sinks w w' \<longleftrightarrow> ow_heap w' = ow_heap w \<and> ow_open w' = ow_open w \<and> ow_fresh w' = ow_fresh w \<and>
     ow_sock w' = ow_sock w \<and> ow_running w' = ow_running w \<and> ow_sfresh w' = ow_sfresh w \<and> ow_held w' = ow_held w \<and>
     (\<forall>a. dest w' a = dest w a)"

lemma release_all:
  assumes "ledger w S" "distinct as" "set as \<subseteq> S"
  shows "ledger (fold release_sink as w) (S - set as) \<and> same_but_sinks w (fold release_sink as w)"
  using assms
proof (induction as arbitrary: w S)
  case (Cons a as)
  have "ledger (release_sink a w) (S - {a})" using Cons.prems by (intro release_sink_ledger) auto
  moreover have "set as \<subseteq> S - {a}" "distinct as" using Cons.prems by auto
  ultimately have "ledger (fold release_sink as (release_sink a w)) (S - {a} - set as)"
      "same_but_sinks (release_sink a w) (fold release_sink as (release_sink a w))"
    using Cons.IH [of "release_sink a w" "S - {a}"] by blast+
  moreover have "S - {a} - set as = S - set (a # as)" by auto
  ultimately show ?case by (simp add: same_but_sinks_def)
qed (simp_all add: same_but_sinks_def)

section \<open>Closing listeners\<close>

definition sink_ref :: "listener \<Rightarrow> nat option" where
  "sink_ref l = map_option rl_sink (lo_relay l)"

definition sinks_of :: "world \<Rightarrow> nat list \<Rightarrow> nat list" where
  "sinks_of w rs = List.map_filter (\<lambda>r. sink_ref (ow_heap w r)) rs"

definition swap_sinks :: "(nat \<times> applySwap) list \<Rightarrow> nat list" where
  "swap_sinks sws = List.map_filter (\<lambda>(r, sd). map_option rl_sink (as_relay sd)) sws"

abbreviation opt_list :: "'a option \<Rightarrow> 'a list" where
  "opt_list x \<equiv> (case x of None \<Rightarrow> [] | Some a \<Rightarrow> [a])"

lemma map_filter_append [simp]: "List.map_filter f (xs @ ys) = List.map_filter f xs @ List.map_filter f ys"
  by (simp add: List.map_filter_def)

lemma set_map_filter: "set (List.map_filter f xs) = {y. \<exists>x \<in> set xs. f x = Some y}"
  by (force simp: List.map_filter_def)

lemma set_opt_list [simp]: "set (opt_list x) = set_option x"
  by (cases x) auto

lemma sinks_of_simps [simp]:
  "sinks_of w [] = []" "sinks_of w (r # rs) = opt_list (sink_ref (ow_heap w r)) @ sinks_of w rs"
  "sinks_of w (rs @ qs) = sinks_of w rs @ sinks_of w qs"
  by (simp_all add: sinks_of_def split: option.split)

lemma sinks_of_cong: "(\<And>r. r \<in> set rs \<Longrightarrow> ow_heap w r = ow_heap w' r) \<Longrightarrow> sinks_of w rs = sinks_of w' rs"
  by (induction rs) auto

definition closed :: "listener \<Rightarrow> listener" where
  "closed l = l\<lparr>lo_done := True, lo_relay := None\<rparr>"

definition close_heap :: "nat set \<Rightarrow> (nat \<Rightarrow> listener) \<Rightarrow> nat \<Rightarrow> listener" where
  "close_heap R h = (\<lambda>r. if r \<in> R then closed (h r) else h r)"

abbreviation socks :: "world \<Rightarrow> nat list \<Rightarrow> nat set" where
  "socks w rs \<equiv> (\<Union>r \<in> set rs. set_option (lo_ln (ow_heap w r)))"

definition all_same :: "world \<Rightarrow> world \<Rightarrow> bool" where
  "all_same w w' \<longleftrightarrow> ow_fresh w' = ow_fresh w \<and> ow_sock w' = ow_sock w \<and> ow_running w' = ow_running w \<and>
     ow_sfresh w' = ow_sfresh w \<and> ow_held w' = ow_held w \<and> (\<forall>a. dest w' a = dest w a)"

lemma closeSink_facts:
  "ow_heap (closeSink r w) = (ow_heap w)(r := (ow_heap w r)\<lparr>lo_relay := None\<rparr>)" "ow_open (closeSink r w) = ow_open w"
  "all_same w (closeSink r w)"
  by (cases "lo_relay (ow_heap w r)"; simp add: closeSink_def all_same_def fun_upd_idem)+

lemma closeSink_ledger:
  assumes "ledger w S" "set_option (sink_ref (ow_heap w r)) \<subseteq> S"
  shows "ledger (closeSink r w) (S - set_option (sink_ref (ow_heap w r)))"
proof (cases "lo_relay (ow_heap w r)")
  case (Some st)
  let ?w = "w\<lparr>ow_heap := (ow_heap w)(r := (ow_heap w r)\<lparr>lo_relay := None\<rparr>)\<rparr>"
  have "ledger ?w S" using assms(1) by (simp add: ledger_def)
  then show ?thesis using assms(2) Some by (simp add: closeSink_def sink_ref_def release_sink_ledger)
qed (use assms in \<open>simp add: closeSink_def sink_ref_def\<close>)

lemma close_facts:
  assumes "\<not> lo_done (ow_heap w r)"
  shows "ow_heap (close r w) = (ow_heap w)(r := closed (ow_heap w r))"
    "ow_open (close r w) = ow_open w - set_option (lo_ln (ow_heap w r))" "all_same w (close r w)"
    "ledger w S \<Longrightarrow> set_option (sink_ref (ow_heap w r)) \<subseteq> S \<Longrightarrow>
       ledger (close r w) (S - set_option (sink_ref (ow_heap w r)))"
proof -
  let ?w = "w\<lparr>ow_heap := (ow_heap w)(r := (ow_heap w r)\<lparr>lo_done := True\<rparr>),
              ow_open := (case lo_ln (ow_heap w r) of None \<Rightarrow> ow_open w | Some k \<Rightarrow> ow_open w - {k})\<rparr>"
  have c: "close r w = closeSink r ?w" using assms by (simp add: close_def Let_def)
  show "ow_heap (close r w) = (ow_heap w)(r := closed (ow_heap w r))"
    "ow_open (close r w) = ow_open w - set_option (lo_ln (ow_heap w r))"
    by (simp_all add: c closeSink_facts closed_def split: option.split)
  show "all_same w (close r w)" using closeSink_facts(3) [of ?w r] by (simp add: c all_same_def)
  show "ledger (close r w) (S - set_option (sink_ref (ow_heap w r)))"
    if "ledger w S" "set_option (sink_ref (ow_heap w r)) \<subseteq> S"
  proof -
    have "ledger ?w S" using that(1) by (simp add: ledger_def)
    from closeSink_ledger [OF this, of r] show ?thesis using that(2) by (simp add: c sink_ref_def)
  qed
qed

lemma all_same_trans: "all_same w w' \<Longrightarrow> all_same w' w'' \<Longrightarrow> all_same w w''"
  by (simp add: all_same_def)

definition closes :: "world \<Rightarrow> nat set \<Rightarrow> nat list \<Rightarrow> world \<Rightarrow> bool" where
  "closes w S rs w' \<longleftrightarrow> ow_heap w' = close_heap (set rs) (ow_heap w) \<and> ow_open w' = ow_open w - socks w rs \<and>
     all_same w w' \<and> ledger w' (S - set (sinks_of w rs))"

lemma close_all:
  assumes "distinct rs" "\<forall>r \<in> set rs. \<not> lo_done (ow_heap w r)"
    and "ledger w S" "distinct (sinks_of w rs)" "set (sinks_of w rs) \<subseteq> S"
  shows "closes w S rs (fold close rs w)"
  using assms
proof (induction rs arbitrary: w S)
  case Nil
  then show ?case by (simp add: closes_def close_heap_def all_same_def)
next
  case (Cons r rs)
  let ?w = "close r w" and ?S = "S - set_option (sink_ref (ow_heap w r))"
  have nd: "\<not> lo_done (ow_heap w r)" using Cons.prems(2) by simp
  note cf = close_facts [OF nd]
  have old: "ow_heap ?w q = ow_heap w q" if "q \<in> set rs" for q using that Cons.prems(1) by (auto simp: cf(1))
  have sk: "sinks_of ?w rs = sinks_of w rs" using old by (intro sinks_of_cong) simp
  have so: "socks ?w rs = socks w rs" using old by simp
  have "ledger ?w ?S" using Cons.prems(3,5) by (intro cf(4)) auto
  moreover have "distinct (sinks_of ?w rs)" "set (sinks_of ?w rs) \<subseteq> ?S" using Cons.prems(4,5) by (auto simp: sk)
  moreover have "\<forall>r \<in> set rs. \<not> lo_done (ow_heap ?w r)" "distinct rs" using Cons.prems(1,2) old by auto
  ultimately have IH: "closes ?w ?S rs (fold close rs ?w)" by (intro Cons.IH)
  have "close_heap (set rs) (ow_heap ?w) = close_heap (set (r # rs)) (ow_heap w)"
    using Cons.prems(1) by (auto simp: close_heap_def cf(1) fun_eq_iff)
  moreover have "?S - set (sinks_of w rs) = S - set (sinks_of w (r # rs))" by auto
  moreover have "ow_open ?w - socks w rs = ow_open w - socks w (r # rs)" by (auto simp: cf(2))
  ultimately show ?case using IH all_same_trans [OF cf(3)] by (simp add: closes_def sk so)
qed

section \<open>The server invariant\<close>

abbreviation sock_of :: "world \<Rightarrow> nat \<Rightarrow> nat" where
  "sock_of w r \<equiv> the (lo_ln (ow_heap w r))"

definition mode_ok :: "listener \<Rightarrow> bool" where
  "mode_ok l \<longleftrightarrow> (lo_relay l \<noteq> None \<longleftrightarrow> lo_mode l = modeLogRelay) \<and>
     (lo_mode l \<noteq> modeVsockToTCP \<longrightarrow> upstreamSnapshot l = [])"

text \<open>
  A running server: distinct objects on distinct ports, each bound to a socket of its own with an accept
  loop, no other socket open, and each log_relay listener the one owner of its sink.
\<close>

definition srv_inv :: "Server \<Rightarrow> world \<Rightarrow> bool" where
  "srv_inv s w \<longleftrightarrow> so_ctx s \<and>
     (\<forall>r \<in> set (so_listeners s). r < ow_fresh w \<and> \<not> lo_done (ow_heap w r) \<and> lo_ln (ow_heap w r) \<noteq> None \<and>
        sock_of w r < ow_sock w \<and> mode_ok (ow_heap w r) \<and> r \<in> set (ow_running w)) \<and>
     distinct (map (sock_of w) (so_listeners s)) \<and>
     ow_open w = sock_of w ` set (so_listeners s) \<and>
     distinct (map (\<lambda>r. lo_port (ow_heap w r)) (so_listeners s)) \<and>
     distinct (sinks_of w (so_listeners s)) \<and> ledger w (set (sinks_of w (so_listeners s)))"

lemma index_ports_distinct:
  assumes "distinct (map (\<lambda>r. lo_port (ow_heap w r)) rs)"
  shows "index_ports rs w = map (\<lambda>r. (lo_port (ow_heap w r), r)) rs"
  using index_distinct [OF assms] by (simp add: index_ports_def)

abbreviation "old_at s w0 p \<equiv> map_of (index_ports (so_listeners s) w0) p"

lemma out_existing_iff:
  assumes "srv_inv s w"
  shows "old_at s w p = Some r \<longleftrightarrow> r \<in> set (so_listeners s) \<and> lo_port (ow_heap w r) = p"
  using assms by (auto simp: index_ports_distinct srv_inv_def comp_def distinct_map intro!: map_of_is_SomeI dest!: map_of_SomeD)

lemma out_srv_open_bound: "srv_inv s w \<Longrightarrow> \<forall>k \<in> ow_open w. k < ow_sock w"
  by (auto simp: srv_inv_def)

section \<open>Staging\<close>

text \<open>What staging does to the store: the objects of the running server are untouched, the only sockets opened
  are those of the new listeners.\<close>

definition store_inv :: "world \<Rightarrow> world \<Rightarrow> nat list \<Rightarrow> bool" where
  "store_inv w0 w news \<longleftrightarrow>
     (\<forall>r < ow_fresh w0. ow_heap w r = ow_heap w0 r) \<and> ow_fresh w0 \<le> ow_fresh w \<and> ow_sock w0 \<le> ow_sock w \<and>
     ow_running w = ow_running w0 \<and>
     (\<forall>r \<in> set news. ow_fresh w0 \<le> r \<and> r < ow_fresh w \<and> \<not> lo_done (ow_heap w r) \<and> lo_ln (ow_heap w r) \<noteq> None \<and>
        ow_sock w0 \<le> sock_of w r \<and> sock_of w r < ow_sock w) \<and>
     distinct (map (sock_of w) news) \<and>
     ow_open w = ow_open w0 \<union> sock_of w ` set news \<and>
     ow_sfresh w0 \<le> ow_sfresh w \<and> ow_held w = ow_held w0 \<and> (\<forall>a < ow_sfresh w0. dest w a = dest w0 a)"

text \<open>A world in which all that a reload opened is closed again.\<close>

definition same_store :: "nat set \<Rightarrow> world \<Rightarrow> world \<Rightarrow> bool" where
  "same_store S w0 w \<longleftrightarrow> (\<forall>r < ow_fresh w0. ow_heap w r = ow_heap w0 r) \<and> ow_fresh w0 \<le> ow_fresh w \<and>
     ow_sock w0 \<le> ow_sock w \<and> ow_running w = ow_running w0 \<and> ow_open w = ow_open w0 \<and>
     ow_sfresh w0 \<le> ow_sfresh w \<and> ow_held w = ow_held w0 \<and> (\<forall>a < ow_sfresh w0. dest w a = dest w0 a) \<and> ledger w S"

abbreviation own :: "Server \<Rightarrow> world \<Rightarrow> nat set" where
  "own s w \<equiv> set (sinks_of w (so_listeners s))"

lemma out_same_store_srv:
  assumes "srv_inv s w0" "same_store (own s w0) w0 w"
  shows "srv_inv s w"
proof -
  have h: "ow_heap w r = ow_heap w0 r" if "r \<in> set (so_listeners s)" for r
    using that assms by (auto simp: srv_inv_def same_store_def)
  then have "map (sock_of w) (so_listeners s) = map (sock_of w0) (so_listeners s)"
    "map (\<lambda>r. lo_port (ow_heap w r)) (so_listeners s) = map (\<lambda>r. lo_port (ow_heap w0 r)) (so_listeners s)"
    "sock_of w ` set (so_listeners s) = sock_of w0 ` set (so_listeners s)"
    "sinks_of w (so_listeners s) = sinks_of w0 (so_listeners s)"
    by (simp_all cong: image_cong sinks_of_cong)
  then show "srv_inv s w"
    using assms h unfolding srv_inv_def same_store_def by (auto simp del: map_eq_conv)
qed

lemma same_store_files: "ledger w0 S \<Longrightarrow> same_store S w0 w \<Longrightarrow> ow_files w = ow_files w0"
  using ledger_files [of w0 S] ledger_files [of w S] by (simp add: same_store_def)

lemma fold_release_relay: "fold release_relay sws w = fold release_sink (swap_sinks sws) w"
  by (induction sws arbitrary: w) (auto simp: swap_sinks_def release_relay_def split: option.split)

lemma undo_facts:
  assumes "distinct news" "\<forall>r \<in> set news. \<not> lo_done (ow_heap w r)" "ledger w S"
    and d: "distinct (sinks_of w news @ swap_sinks sws)" "set (sinks_of w news @ swap_sinks sws) \<subseteq> S"
  defines "w' \<equiv> undo news sws w"
  shows "ow_heap w' = close_heap (set news) (ow_heap w)" "ow_open w' = ow_open w - socks w news" "all_same w w'"
    "ledger w' (S - set (sinks_of w news @ swap_sinks sws))"
proof -
  let ?w = "fold close news w"
  have c: "closes w S news ?w" using assms(1-3) d by (intro close_all) auto
  moreover have "set (swap_sinks sws) \<subseteq> S - set (sinks_of w news)" using d by auto
  ultimately have r: "ledger w' (S - set (sinks_of w news) - set (swap_sinks sws))" "same_but_sinks ?w w'"
    using release_all [of ?w "S - set (sinks_of w news)" "swap_sinks sws"] d(1)
    by (auto simp: closes_def w'_def undo_def fold_release_relay)
  have "S - set (sinks_of w news) - set (swap_sinks sws) = S - set (sinks_of w news @ swap_sinks sws)" by auto
  then show "ow_heap w' = close_heap (set news) (ow_heap w)" "ow_open w' = ow_open w - socks w news" "all_same w w'"
    "ledger w' (S - set (sinks_of w news @ swap_sinks sws))"
    using c r by (simp_all add: closes_def same_but_sinks_def all_same_def)
qed

lemma socks_bound:
  assumes "\<forall>r \<in> set rs. lo_ln (ow_heap w r) \<noteq> None"
  shows "socks w rs = sock_of w ` set rs"
proof -
  have "set_option (lo_ln (ow_heap w r)) = {sock_of w r}" if "r \<in> set rs" for r using that assms by auto
  then show ?thesis by auto
qed

lemma store_inv_socks: "store_inv w0 w news \<Longrightarrow> socks w news = sock_of w ` set news"
  by (intro socks_bound) (simp add: store_inv_def)

lemma store_inv_open:
  assumes "store_inv w0 w news" "\<forall>k \<in> ow_open w0. k < ow_sock w0"
  shows "ow_open w - sock_of w ` set news = ow_open w0"
proof -
  have o: "ow_open w = ow_open w0 \<union> sock_of w ` set news" and n: "\<forall>r \<in> set news. ow_sock w0 \<le> sock_of w r"
    using assms(1) by (simp_all add: store_inv_def)
  have "ow_open w0 \<inter> sock_of w ` set news = {}" using n assms(2) by fastforce
  then show ?thesis unfolding o by blast
qed

lemma store_inv_distinct: "store_inv w0 w news \<Longrightarrow> distinct news"
  by (auto simp: store_inv_def distinct_map)

lemma undo_same:
  assumes st: "store_inv w0 w news" and bound: "\<forall>k \<in> ow_open w0. k < ow_sock w0"
    and l: "ledger w (S \<union> set (sinks_of w news @ swap_sinks sws))" "S \<inter> set (sinks_of w news @ swap_sinks sws) = {}"
      "distinct (sinks_of w news @ swap_sinks sws)"
  shows "same_store S w0 (undo news sws w)"
proof -
  have "S \<union> set (sinks_of w news @ swap_sinks sws) - set (sinks_of w news @ swap_sinks sws) = S" using l(2) by blast
  moreover have "\<forall>r \<in> set news. \<not> lo_done (ow_heap w r)" using st by (simp add: store_inv_def)
  ultimately have u: "ow_heap (undo news sws w) = close_heap (set news) (ow_heap w)" "ow_open (undo news sws w) = ow_open w - socks w news"
      "all_same w (undo news sws w)" "ledger (undo news sws w) S"
    using undo_facts [OF store_inv_distinct [OF st] _ l(1) l(3)] by auto
  have "ow_open w - socks w news = ow_open w0"
    unfolding store_inv_socks [OF st] by (rule store_inv_open [OF st bound])
  moreover have "\<forall>r < ow_fresh w0. r \<notin> set news" using st by (auto simp: store_inv_def)
  ultimately show ?thesis
    using st u by (simp add: same_store_def store_inv_def all_same_def close_heap_def)
qed

lemma out_alloc_store:
  assumes "store_inv w0 w news"
  shows "store_inv w0 (snd (alloc l w)) news"
proof -
  have old: "ow_heap (snd (alloc l w)) q = ow_heap w q" if "q \<in> set news" for q
    using that assms by (auto simp: store_inv_def alloc_def)
  then have m: "map (sock_of (snd (alloc l w))) news = map (sock_of w) news"
    "sock_of (snd (alloc l w)) ` set news = sock_of w ` set news"
    by (simp_all cong: image_cong)
  have "\<forall>r < ow_fresh w0. ow_heap (snd (alloc l w)) r = ow_heap w0 r"
    using assms by (simp add: store_inv_def alloc_def)
  moreover have "ow_fresh (snd (alloc l w)) = Suc (ow_fresh w)" "ow_sock (snd (alloc l w)) = ow_sock w"
    "ow_running (snd (alloc l w)) = ow_running w" "ow_open (snd (alloc l w)) = ow_open w"
    "ow_sinks (snd (alloc l w)) = ow_sinks w" "ow_sfresh (snd (alloc l w)) = ow_sfresh w" "ow_held (snd (alloc l w)) = ow_held w"
    by (simp_all add: alloc_def)
  ultimately show ?thesis
    using assms old unfolding store_inv_def m by force
qed

lemma out_bind_store:
  assumes inv: "store_inv w0 w news" and "bind env r w = Inr w'"
    and r: "ow_fresh w0 \<le> r" "r < ow_fresh w" "r \<notin> set news" "\<not> lo_done (ow_heap w r)"
  shows "store_inv w0 w' (news @ [r])" "ow_heap w' r = (ow_heap w r)\<lparr>lo_ln := Some (ow_sock w)\<rparr>"
    "\<forall>q. q \<noteq> r \<longrightarrow> ow_heap w' q = ow_heap w q" "ow_fresh w' = ow_fresh w"
    "ow_sinks w' = ow_sinks w" "ow_sfresh w' = ow_sfresh w" "ow_files w' = ow_files w" "ow_held w' = ow_held w"
proof -
  have w': "w' = w\<lparr>ow_heap := (ow_heap w)(r := (ow_heap w r)\<lparr>lo_ln := Some (ow_sock w)\<rparr>),
                  ow_open := insert (ow_sock w) (ow_open w), ow_sock := Suc (ow_sock w)\<rparr>"
    using assms(2) by (simp add: bind_def Let_def split: if_splits)
  show hr: "ow_heap w' r = (ow_heap w r)\<lparr>lo_ln := Some (ow_sock w)\<rparr>"
    and other: "\<forall>q. q \<noteq> r \<longrightarrow> ow_heap w' q = ow_heap w q" and fr: "ow_fresh w' = ow_fresh w"
    and sk: "ow_sinks w' = ow_sinks w" "ow_sfresh w' = ow_sfresh w" "ow_files w' = ow_files w" "ow_held w' = ow_held w"
    by (simp_all add: w')
  have old: "ow_heap w' q = ow_heap w q" if "q \<in> set news" for q
    using that r(3) other by metis
  then have m: "map (sock_of w') news = map (sock_of w) news"
    "sock_of w' ` set news = sock_of w ` set news"
    by (simp_all cong: image_cong)
  have sock: "sock_of w' r = ow_sock w" "ow_sock w' = Suc (ow_sock w)" "ow_open w' = insert (ow_sock w) (ow_open w)"
    "ow_running w' = ow_running w"
    by (simp_all add: w')
  have "ow_sock w \<notin> sock_of w ` set news" using inv by (auto simp: store_inv_def)
  moreover have "\<forall>q < ow_fresh w0. ow_heap w' q = ow_heap w0 q"
    using inv r(1) other by (auto simp: store_inv_def)
  ultimately show "store_inv w0 w' (news @ [r])"
    using inv r old fr hr
    unfolding store_inv_def map_append distinct_append set_append image_Un m sock sk
    by (auto simp: sock simp del: map_eq_conv)
qed

lemma alloc_sink_facts:
  assumes "ledger w S" "alloc_sink sk w = (a, w1)"
  shows "a = ow_sfresh w" "ledger w1 (insert a S)" "ow_sfresh w1 = Suc a" "dest w1 a = sk" "\<forall>b. b \<noteq> a \<longrightarrow> dest w1 b = dest w b"
    "ow_held w1 = ow_held w"
  using assms by (auto simp: alloc_sink_def ledger_def newRefSink_def)

lemma alloc_sink_store: "store_inv w0 w news \<Longrightarrow> store_inv w0 (snd (alloc_sink sk w)) news"
  by (simp add: alloc_sink_def store_inv_def)

text \<open>How a configured listener \<open>l\<close> is staged as \<open>r\<close>: as the running listener on its port, or as a new one.\<close>

definition staged :: "Server \<Rightarrow> world \<Rightarrow> world \<Rightarrow> nat \<Rightarrow> listener \<Rightarrow> bool" where
  "staged s w0 w r l \<longleftrightarrow>
     (case old_at s w0 (lo_port l) of
        Some cur \<Rightarrow> r = cur \<and> lo_mode (ow_heap w0 cur) = lo_mode l
      | None \<Rightarrow> ow_fresh w0 \<le> r \<and> r < ow_fresh w \<and> (\<exists>k. ow_heap w r = l\<lparr>lo_ln := Some k\<rparr>))"

definition swaps_of :: "Server \<Rightarrow> world \<Rightarrow> listener list \<Rightarrow> (nat \<times> applySwap) list" where
  "swaps_of s w0 ls = List.map_filter (\<lambda>l. map_option (\<lambda>cur. (cur, swap_for l)) (old_at s w0 (lo_port l))) ls"

lemma out_staged_mono:
  "\<lbrakk>staged s w0 w r l; \<forall>q < ow_fresh w. ow_heap w' q = ow_heap w q; ow_fresh w \<le> ow_fresh w'\<rbrakk> \<Longrightarrow> staged s w0 w' r l"
  by (auto simp: staged_def split: option.splits)

lemma out_staged_kept:
  assumes srv: "srv_inv s w0" and "staged s w0 w r l"
  shows "r < ow_fresh w0 \<longleftrightarrow> old_at s w0 (lo_port l) = Some r" and "r < ow_fresh w0 \<Longrightarrow> r \<in> set (so_listeners s)"
proof -
  have "r < ow_fresh w0 \<and> r \<in> set (so_listeners s)" if "old_at s w0 (lo_port l) = Some r"
    using that srv out_existing_iff [OF srv, of "lo_port l" r] by (auto simp: srv_inv_def)
  then show "r < ow_fresh w0 \<longleftrightarrow> old_at s w0 (lo_port l) = Some r" "r < ow_fresh w0 \<Longrightarrow> r \<in> set (so_listeners s)"
    using assms(2) by (auto simp: staged_def split: option.splits)
qed

text \<open>A staged listener's sink sits in the swap of a kept listener or in the new listener.\<close>

lemma staged_sinks:
  assumes srv: "srv_inv s w0" and "list_all2 (staged s w0 w) nx ls" "\<forall>l \<in> set ls. mode_ok l"
  shows "mset (sinks_of w (filter (\<lambda>r. ow_fresh w0 \<le> r) nx)) + mset (swap_sinks (swaps_of s w0 ls)) =
     mset (List.map_filter sink_ref ls)"
  using assms(2,3)
proof (induction rule: list_all2_induct)
  case (Cons r rs l ls)
  note k = out_staged_kept(1) [OF srv Cons.hyps(1)]
  show ?case
  proof (cases "old_at s w0 (lo_port l)")
    case None
    then have "ow_fresh w0 \<le> r" "sink_ref (ow_heap w r) = sink_ref l"
      using Cons.hyps(1) by (auto simp: staged_def sink_ref_def)
    then show ?thesis using Cons.IH Cons.prems None by (auto simp: swaps_of_def split: option.split)
  next
    case (Some cur)
    then have "r = cur" using Cons.hyps(1) by (simp add: staged_def)
    then have "\<not> ow_fresh w0 \<le> r" using k Some by simp
    moreover have "map_option rl_sink (as_relay (swap_for l)) = sink_ref l"
      using Cons.prems by (auto simp: swap_for_def sink_ref_def mode_ok_def)
    ultimately show ?thesis
      using Cons.IH Cons.prems Some by (auto simp: swaps_of_def swap_sinks_def split: option.split)
  qed
qed (simp add: swaps_of_def swap_sinks_def)

definition plan_inv :: "Server \<Rightarrow> world \<Rightarrow> listener list \<Rightarrow> prep \<Rightarrow> bool" where
  "plan_inv s w0 ls p \<longleftrightarrow>
     store_inv w0 (po_world p) (po_newBinds p) \<and>
     list_all2 (staged s w0 (po_world p)) (po_next p) ls \<and>
     po_swaps p = swaps_of s w0 ls \<and>
     set (po_kept p) = {k \<in> lo_port ` set ls. old_at s w0 k \<noteq> None} \<and>
     po_newBinds p = filter (\<lambda>r. ow_fresh w0 \<le> r) (po_next p) \<and>
     (\<forall>l \<in> set ls. mode_ok l \<and> \<not> lo_done l) \<and>
     List.map_filter sink_ref ls = [ow_sfresh w0 ..< ow_sfresh (po_world p)] \<and>
     ledger (po_world p) (own s w0 \<union> {ow_sfresh w0 ..< ow_sfresh (po_world p)})"

lemma plan_sinks:
  assumes "srv_inv s w0" "plan_inv s w0 ls p"
  defines "as \<equiv> sinks_of (po_world p) (po_newBinds p) @ swap_sinks (po_swaps p)"
  shows "distinct as" "set as = {ow_sfresh w0 ..< ow_sfresh (po_world p)}"
proof -
  have "mset as = mset [ow_sfresh w0 ..< ow_sfresh (po_world p)]"
    using staged_sinks [OF assms(1), of "po_world p" "po_next p" ls] assms(2)
    unfolding plan_inv_def as_def by (auto simp: add.commute)
  then show "distinct as" "set as = {ow_sfresh w0 ..< ow_sfresh (po_world p)}"
    using mset_eq_imp_distinct_iff mset_eq_setD by fastforce+
qed

section \<open>Builders of listeners\<close>

text \<open>What a listener does with a connection, apart from its socket: for a log relay the destination its sink writes to.\<close>

type_synonym out_view =
  "uint32 \<times> bytes \<times> (uint32 \<times> Matcher) list \<times> bytes \<times> (sink \<times> enrichConfig option \<times> int) option"

definition view :: "world \<Rightarrow> listener \<Rightarrow> out_view" where
  "view w l = (lo_port l, lo_mode l, matchersSnapshot l, upstreamSnapshot l,
     map_option (\<lambda>st. (dest w (rl_sink st), rl_enrich st, rl_maxLineBytes st)) (lo_relay l))"

lemma view_cong: "(\<And>a. sink_ref l = Some a \<Longrightarrow> dest w' a = dest w a) \<Longrightarrow> view w' l = view w l"
  by (cases "lo_relay l") (auto simp: view_def sink_ref_def)

text \<open>A listener just built: not bound, not closed, and either without a sink or with one opened for it.\<close>

definition built :: "world \<Rightarrow> listener \<Rightarrow> world \<Rightarrow> bool" where
  "built w l w1 \<longleftrightarrow> mode_ok l \<and> lo_ln l = None \<and> \<not> lo_done l \<and>
     (w1 = w \<and> sink_ref l = None \<or> (\<exists>sk. alloc_sink sk w = (ow_sfresh w, w1)) \<and> sink_ref l = Some (ow_sfresh w))"

lemma built_facts:
  assumes "built w l w1" "ledger w (S \<union> {n ..< ow_sfresh w})" "n \<le> ow_sfresh w"
  shows "ledger w1 (S \<union> {n ..< ow_sfresh w1})" "opt_list (sink_ref l) = [ow_sfresh w ..< ow_sfresh w1]"
    "ow_heap w1 = ow_heap w" "ow_fresh w1 = ow_fresh w" "ow_sfresh w \<le> ow_sfresh w1"
    "\<forall>a < ow_sfresh w. dest w1 a = dest w a" "store_inv w0 w news \<Longrightarrow> store_inv w0 w1 news"
proof -
  consider "w1 = w" "sink_ref l = None" | sk where "alloc_sink sk w = (ow_sfresh w, w1)" "sink_ref l = Some (ow_sfresh w)"
    using assms(1) by (auto simp: built_def)
  then have "ledger w1 (S \<union> {n ..< ow_sfresh w1}) \<and> opt_list (sink_ref l) = [ow_sfresh w ..< ow_sfresh w1] \<and>
    ow_heap w1 = ow_heap w \<and> ow_fresh w1 = ow_fresh w \<and> ow_sfresh w \<le> ow_sfresh w1 \<and>
    (\<forall>a < ow_sfresh w. dest w1 a = dest w a) \<and> (store_inv w0 w news \<longrightarrow> store_inv w0 w1 news)"
  proof cases
    case 1
    then show ?thesis using assms(2) by simp
  next
    case (2 sk)
    note f = alloc_sink_facts [OF assms(2) 2(1)]
    have "{n ..< ow_sfresh w1} = insert (ow_sfresh w) {n ..< ow_sfresh w}"
      using assms(3) unfolding f(3) by (auto simp: atLeastLessThanSuc)
    then have "ledger w1 (S \<union> {n ..< ow_sfresh w1})" using f(2) by simp
    moreover have "ow_heap w1 = ow_heap w" "ow_fresh w1 = ow_fresh w" using 2(1) by (auto simp: alloc_sink_def)
    moreover have "\<forall>a < ow_sfresh w. dest w1 a = dest w a" using f(5) by simp
    ultimately show ?thesis using f(3) 2 alloc_sink_store [of w0 w news sk] by simp
  qed
  then show "ledger w1 (S \<union> {n ..< ow_sfresh w1})" "opt_list (sink_ref l) = [ow_sfresh w ..< ow_sfresh w1]"
    "ow_heap w1 = ow_heap w" "ow_fresh w1 = ow_fresh w" "ow_sfresh w \<le> ow_sfresh w1"
    "\<forall>a < ow_sfresh w. dest w1 a = dest w a" "store_inv w0 w news \<Longrightarrow> store_inv w0 w1 news"
    by blast+
qed

text \<open>The contract of the three constructors.\<close>

locale listener_builder =
  fixes new :: "'c \<Rightarrow> world \<Rightarrow> (out_error + listener) \<times> world"
    and want :: "'c \<Rightarrow> out_view"
  assumes new_fails: "new cfg w = (Inl e, w1) \<Longrightarrow> \<exists>n. w1 = w\<lparr>ow_sinkErrors := n\<rparr>"
    and new_builds: "new cfg w = (Inr l, w1) \<Longrightarrow> built w l w1 \<and> view w1 l = want cfg"

lemma own_old: "srv_inv s w0 \<Longrightarrow> own s w0 \<subseteq> {..< ow_sfresh w0}"
  by (simp add: srv_inv_def ledger_def)

lemma plan_undo:
  assumes srv: "srv_inv s w0" and inv: "plan_inv s w0 ls p" and st: "store_inv w0 w (po_newBinds p)"
    and h: "\<forall>r \<in> set (po_newBinds p). ow_heap w r = ow_heap (po_world p) r"
    and l: "ledger w (own s w0 \<union> {ow_sfresh w0 ..< n})" "ow_sfresh (po_world p) \<le> n"
  shows "same_store (own s w0 \<union> {ow_sfresh (po_world p) ..< n}) w0 (undo (po_newBinds p) (po_swaps p) w)"
    "ow_heap (undo (po_newBinds p) (po_swaps p) w) = close_heap (set (po_newBinds p)) (ow_heap w)"
proof -
  let ?S = "own s w0 \<union> {ow_sfresh (po_world p) ..< n}"
  have sk: "sinks_of w (po_newBinds p) = sinks_of (po_world p) (po_newBinds p)" using h by (intro sinks_of_cong) simp
  note ps = plan_sinks [OF srv inv, folded sk]
  have le: "ow_sfresh w0 \<le> ow_sfresh (po_world p)" using inv by (auto simp: plan_inv_def store_inv_def)
  have "own s w0 \<union> {ow_sfresh w0 ..< n} = ?S \<union> {ow_sfresh w0 ..< ow_sfresh (po_world p)}" using le l(2) by auto
  moreover have "?S \<inter> {ow_sfresh w0 ..< ow_sfresh (po_world p)} = {}" using own_old [OF srv] by auto
  ultimately show "same_store ?S w0 (undo (po_newBinds p) (po_swaps p) w)"
    using undo_same [OF st out_srv_open_bound [OF srv], of ?S "po_swaps p"] l(1) ps by simp
  have "\<forall>r \<in> set (po_newBinds p). \<not> lo_done (ow_heap w r)" using st by (simp add: store_inv_def)
  moreover have "set (sinks_of w (po_newBinds p) @ swap_sinks (po_swaps p)) \<subseteq> own s w0 \<union> {ow_sfresh w0 ..< n}"
    unfolding ps(2) using l(2) by auto
  ultimately show "ow_heap (undo (po_newBinds p) (po_swaps p) w) = close_heap (set (po_newBinds p)) (ow_heap w)"
    by (intro undo_facts(1) [OF store_inv_distinct [OF st] _ l(1) ps(1)])
qed

lemma same_store_closeSink:
  assumes "same_store (S \<union> {n ..< m}) w0 w" "ow_fresh w0 \<le> r" "opt_list (sink_ref (ow_heap w r)) = [n ..< m]" "S \<subseteq> {..< n}"
  shows "same_store S w0 (closeSink r w)"
proof -
  have o: "set_option (sink_ref (ow_heap w r)) = {n ..< m}" using assms(3) by (metis set_opt_list set_upt)
  have "ledger (closeSink r w) (S \<union> {n ..< m} - {n ..< m})"
    using closeSink_ledger [of w "S \<union> {n ..< m}" r] assms(1) unfolding o by (simp add: same_store_def)
  moreover have "S \<union> {n ..< m} - {n ..< m} = S" using assms(4) by auto
  ultimately show ?thesis
    using assms(1,2) closeSink_facts(1,2) [of r w] closeSink_facts(3) [of w r] by (simp add: same_store_def all_same_def)
qed

lemma upt_glue: "a \<le> b \<Longrightarrow> b \<le> c \<Longrightarrow> [a..<b] @ [b..<c] = [a..<c]"
  using upt_add_eq_append [of a b "c - b"] by simp

lemma views_extend:
  assumes "ledger w (S \<union> {n ..< ow_sfresh w})" "n \<le> ow_sfresh w" "List.map_filter sink_ref ls = [n ..< ow_sfresh w]"
    and "built w l w1" "ow_sinks w' = ow_sinks w1"
  shows "map (view w') (ls @ [l]) = map (view w) ls @ [view w1 l]"
proof -
  have "view w' l' = view w l'" if "l' \<in> set ls" for l'
  proof (rule view_cong)
    fix a assume "sink_ref l' = Some a"
    then have "a \<in> set (List.map_filter sink_ref ls)" using that by (auto simp: set_map_filter)
    then show "dest w' a = dest w a" using built_facts(6) [OF assms(4,1,2)] assms(5) unfolding assms(3) by simp
  qed
  moreover have "view w' l = view w1 l" by (rule view_cong) (simp add: assms(5))
  ultimately show ?thesis by simp
qed

lemma plan_views:
  assumes "plan_inv s w0 ls p" "built (po_world p) l w1" "ow_sinks w' = ow_sinks w1"
  shows "map (view w') (ls @ [l]) = map (view (po_world p)) ls @ [view w1 l]"
  using assms(1) views_extend [OF _ _ _ assms(2,3), of "own s w0" "ow_sfresh w0" ls] by (simp add: plan_inv_def store_inv_def)

text \<open>One more listener is adopted: swapped into the running one on its port, or bound.\<close>

lemma plan_extend:
  assumes srv: "srv_inv s w0" and inv: "plan_inv s w0 ls p" and b: "built (po_world p) l w1" and al: "alloc l w1 = (r, w2)"
    and ap: "apply_listener env (index_ports (so_listeners s) w0) sec i r (p\<lparr>po_world := w2\<rparr>) = Inr p'"
  shows "plan_inv s w0 (ls @ [l]) p' \<and> ow_sinks (po_world p') = ow_sinks w1"
proof -
  let ?w = "po_world p"
  have st: "store_inv w0 ?w (po_newBinds p)" and lg: "ledger ?w (own s w0 \<union> {ow_sfresh w0 ..< ow_sfresh ?w})"
    and mf: "List.map_filter sink_ref ls = [ow_sfresh w0 ..< ow_sfresh ?w]"
    using inv unfolding plan_inv_def by blast+
  have le: "ow_sfresh w0 \<le> ow_sfresh ?w" "ow_fresh w0 \<le> ow_fresh ?w" using st by (auto simp: store_inv_def)
  note bf = built_facts [OF b lg le(1)]
  have w2: "ow_heap w2 = (ow_heap ?w)(r := l)" "ow_sinks w2 = ow_sinks w1" "ow_sfresh w2 = ow_sfresh w1"
      "ow_files w2 = ow_files w1" "ow_held w2 = ow_held w1" "ow_fresh w2 = Suc r" and rf: "r = ow_fresh ?w"
    using al by (auto simp: alloc_def bf(3,4))
  have r: "ow_fresh w0 \<le> r" "r \<notin> set (po_newBinds p)" using le st by (auto simp: rf store_inv_def)
  have st2: "store_inv w0 w2 (po_newBinds p)" using out_alloc_store [OF bf(7) [OF st], of l] by (simp add: al)
  have prev: "list_all2 (staged s w0 w') (po_next p) ls"
    if "\<forall>q < ow_fresh ?w. ow_heap w' q = ow_heap ?w q" "ow_fresh ?w \<le> ow_fresh w'" for w'
    using inv that unfolding plan_inv_def by (auto elim!: list_all2_mono intro: out_staged_mono)
  have mf': "List.map_filter sink_ref (ls @ [l]) = [ow_sfresh w0 ..< ow_sfresh w1]"
    using upt_glue [OF le(1) bf(5)] by (cases "sink_ref l") (simp_all add: mf flip: bf(2))
  have ok: "\<forall>l \<in> set (ls @ [l]). mode_ok l \<and> \<not> lo_done l" using inv b by (auto simp: plan_inv_def built_def)
  show ?thesis
  proof (cases "old_at s w0 (lo_port l)")
    case (Some cur)
    then have cur: "cur < ow_fresh w0" using out_existing_iff [OF srv] srv by (auto simp: srv_inv_def)
    then have hc: "ow_heap w2 cur = ow_heap w0 cur" using st2 by (simp add: store_inv_def)
    have p': "p' = p\<lparr>po_world := w2, po_swaps := po_swaps p @ [(cur, swap_for l)],
        po_kept := lo_port l # po_kept p, po_next := po_next p @ [cur]\<rparr>"
      and "lo_mode (ow_heap w0 cur) = lo_mode l"
      using ap Some w2(1) hc cur r by (auto simp: apply_listener_def Let_def split: if_splits)
    then have "staged s w0 w2 cur l" using Some by (simp add: staged_def)
    moreover have "ledger w2 (own s w0 \<union> {ow_sfresh w0 ..< ow_sfresh w1})" using bf(1) ledger_cong [of w2 w1] w2 by simp
    ultimately show ?thesis
      using inv st2 prev [of w2] w2 Some cur r mf' ok
      by (auto simp: p' rf plan_inv_def swaps_of_def list_all2_appendI)
  next
    case None
    then obtain w3 where bd: "bind env r w2 = Inr w3"
      and p': "p' = p\<lparr>po_world := w3, po_newBinds := po_newBinds p @ [r], po_next := po_next p @ [r]\<rparr>"
      using ap w2(1) by (auto simp: apply_listener_def Let_def res_bind_Inr_iff)
    have nd: "\<not> lo_done (ow_heap w2 r)" "r < ow_fresh w2" using b w2 by (auto simp: built_def)
    note bs = out_bind_store [OF st2 bd r(1) nd(2) r(2) nd(1)]
    have "staged s w0 w3 r l" using None r(1) bs w2 by (auto simp: staged_def)
    moreover have "ledger w3 (own s w0 \<union> {ow_sfresh w0 ..< ow_sfresh w1})"
      using bf(1) ledger_cong [of w3 w1] w2 bs by simp
    moreover have "\<forall>q < ow_fresh ?w. ow_heap w3 q = ow_heap ?w q" "ow_fresh ?w \<le> ow_fresh w3"
      using bs w2 rf by auto
    ultimately show ?thesis
      using inv bs(1,5,6) prev [of w3] w2 None r mf' ok
      by (auto simp: p' plan_inv_def swaps_of_def list_all2_appendI)
  qed
qed

context listener_builder begin

lemma out_prepare_one_fail:
  assumes srv: "srv_inv s w0" and inv: "plan_inv s w0 ls p"
    and step: "prepare_one env (index_ports (so_listeners s) w0) new sec i cfg p = Inl (e, w')"
  shows "same_store (own s w0) w0 w'"
proof -
  let ?w = "po_world p"
  have st: "store_inv w0 ?w (po_newBinds p)" and l: "ledger ?w (own s w0 \<union> {ow_sfresh w0 ..< ow_sfresh ?w})"
    using inv unfolding plan_inv_def by blast+
  obtain res w1 where n: "new cfg ?w = (res, w1)" by fastforce
  show ?thesis
  proof (cases res)
    case (Inl e')
    obtain k where w1: "w1 = ?w\<lparr>ow_sinkErrors := k\<rparr>" using new_fails n Inl by blast
    have "store_inv w0 w1 (po_newBinds p)" "ledger w1 (own s w0 \<union> {ow_sfresh w0 ..< ow_sfresh ?w})"
      using st l by (simp_all add: w1 store_inv_def ledger_def)
    then have "same_store (own s w0) w0 (undo (po_newBinds p) (po_swaps p) w1)"
      using plan_undo [OF srv inv, of w1 "ow_sfresh ?w"] by (simp add: w1)
    then show ?thesis using step n Inl by (simp add: prepare_one_def)
  next
    case (Inr l')
    have b: "built ?w l' w1" using new_builds n Inr by blast
    have le: "ow_sfresh w0 \<le> ow_sfresh ?w" "ow_fresh w0 \<le> ow_fresh ?w" using st by (auto simp: store_inv_def)
    note bf = built_facts [OF b l le(1)]
    define r w2 where "r = ow_fresh w1" and "w2 = snd (alloc l' w1)"
    have w2: "ow_heap w2 = (ow_heap ?w)(r := l')" "alloc l' w1 = (r, w2)" "ow_sinks w2 = ow_sinks w1" "ow_sfresh w2 = ow_sfresh w1"
        "ow_files w2 = ow_files w1" "ow_held w2 = ow_held w1"
      by (simp_all add: w2_def r_def alloc_def bf(3))
    have new: "\<forall>q \<in> set (po_newBinds p). q \<noteq> r" using st bf(4) by (auto simp: r_def store_inv_def)
    have st2: "store_inv w0 w2 (po_newBinds p)"
      using out_alloc_store [OF bf(7) [OF st], of l'] by (simp add: w2_def)
    have "ledger w2 (own s w0 \<union> {ow_sfresh w0 ..< ow_sfresh w1})" using bf(1) ledger_cong [of w2 w1] w2 by simp
    then have u: "same_store (own s w0 \<union> {ow_sfresh ?w ..< ow_sfresh w1}) w0 (undo (po_newBinds p) (po_swaps p) w2)"
        "ow_heap (undo (po_newBinds p) (po_swaps p) w2) r = l'"
      using plan_undo [OF srv inv st2] new bf(5) by (auto simp: w2(1) close_heap_def)
    then have "same_store (own s w0) w0 (closeSink r (undo (po_newBinds p) (po_swaps p) w2))"
      using own_old [OF srv] le bf(2,4) u(2) by (intro same_store_closeSink [OF u(1)]) (auto simp: r_def)
    then show ?thesis using step n Inr w2(2) by (auto simp: prepare_one_def Let_def split: sum.splits)
  qed
qed

lemma prepare_one_ok:
  assumes srv: "srv_inv s w0" and inv: "plan_inv s w0 ls p"
    and step: "prepare_one env (index_ports (so_listeners s) w0) new sec i cfg p = Inr p'"
  shows "\<exists>l. plan_inv s w0 (ls @ [l]) p' \<and> map (view (po_world p')) (ls @ [l]) = map (view (po_world p)) ls @ [want cfg]"
proof -
  obtain l w1 where n: "new cfg (po_world p) = (Inr l, w1)"
    using step by (auto simp: prepare_one_def split: prod.splits sum.splits)
  obtain r w2 where al: "alloc l w1 = (r, w2)" by fastforce
  have b: "built (po_world p) l w1" "view w1 l = want cfg" using new_builds n by blast+
  have "apply_listener env (index_ports (so_listeners s) w0) sec i r (p\<lparr>po_world := w2\<rparr>) = Inr p'"
    using step n al by (simp add: prepare_one_def Let_def split: sum.splits)
  from plan_extend [OF srv inv b(1) al this] show ?thesis
    using plan_views [OF inv b(1), of "po_world p'"] b(2) by auto
qed

lemma out_prepare_loop:
  assumes srv: "srv_inv s w0" and inv: "plan_inv s w0 ls p"
  shows "case for_idx (prepare_one env (index_ports (so_listeners s) w0) new sec) i cfgs p of
       Inl (e, w') \<Rightarrow> same_store (own s w0) w0 w'
     | Inr p' \<Rightarrow> \<exists>ls'. plan_inv s w0 (ls @ ls') p' \<and>
         map (view (po_world p')) (ls @ ls') = map (view (po_world p)) ls @ map want cfgs"
  using inv
proof (induction cfgs arbitrary: i p ls)
  case Nil
  then show ?case by (auto intro: exI [of _ "[]"])
next
  case (Cons cfg cfgs)
  let ?body = "prepare_one env (index_ports (so_listeners s) w0) new sec"
  show ?case
  proof (cases "?body i cfg p")
    case (Inl ew)
    then show ?thesis using out_prepare_one_fail [OF srv Cons.prems, of env sec i cfg] by (cases ew) simp
  next
    case (Inr p1)
    obtain l where l: "plan_inv s w0 (ls @ [l]) p1"
        "map (view (po_world p1)) (ls @ [l]) = map (view (po_world p)) ls @ [want cfg]"
      using prepare_one_ok [OF srv Cons.prems Inr] by blast
    note IH = Cons.IH [OF l(1), of "Suc i"]
    show ?thesis
    proof (cases "for_idx ?body (Suc i) cfgs p1")
      case e: (Inl ew)
      then show ?thesis using IH Inr by (simp split: prod.splits)
    next
      case p2: (Inr p2)
      then obtain ls' where "plan_inv s w0 ((ls @ [l]) @ ls') p2"
          "map (view (po_world p2)) ((ls @ [l]) @ ls') = map (view (po_world p1)) (ls @ [l]) @ map want cfgs"
        using IH by auto
      then have "\<exists>ls'. plan_inv s w0 (ls @ ls') p2 \<and>
          map (view (po_world p2)) (ls @ ls') = map (view (po_world p)) ls @ map want (cfg # cfgs)"
        using l(2) by (intro exI [of _ "l # ls'"]) simp
      then show ?thesis using Inr p2 by simp
    qed
  qed
qed

end

section \<open>Commit\<close>

lemma commit_swap_facts:
  assumes "as_relay sd = None \<longrightarrow> lo_relay (ow_heap w r) = None"
  shows "ow_heap (commit_swap (r, sd) w) = (ow_heap w)(r := swap_listener sd (ow_heap w r))"
    "ow_open (commit_swap (r, sd) w) = ow_open w" "all_same w (commit_swap (r, sd) w)"
    "ledger w S \<Longrightarrow> set_option (sink_ref (ow_heap w r)) \<subseteq> S \<Longrightarrow>
       ledger (commit_swap (r, sd) w) (S - set_option (sink_ref (ow_heap w r)))"
proof -
  let ?w = "w\<lparr>ow_heap := (ow_heap w)(r := swap_listener sd (ow_heap w r))\<rparr>"
  have c: "commit_swap (r, sd) w = (case sink_ref (ow_heap w r) of None \<Rightarrow> ?w | Some a \<Rightarrow> release_sink a ?w)"
    using assms by (auto simp: commit_swap_def Let_def sink_ref_def split: option.split)
  show "ow_heap (commit_swap (r, sd) w) = (ow_heap w)(r := swap_listener sd (ow_heap w r))"
    "ow_open (commit_swap (r, sd) w) = ow_open w" "all_same w (commit_swap (r, sd) w)"
    unfolding c by (auto simp: all_same_def split: option.split)
  show "ledger (commit_swap (r, sd) w) (S - set_option (sink_ref (ow_heap w r)))"
    if "ledger w S" "set_option (sink_ref (ow_heap w r)) \<subseteq> S"
  proof -
    have "ledger ?w S" using that(1) by (simp add: ledger_def)
    then show ?thesis unfolding c using that(2) by (cases "sink_ref (ow_heap w r)") (simp_all add: release_sink_ledger)
  qed
qed

lemma commit_swaps:
  assumes "distinct (map fst sws)" "\<forall>(r, sd) \<in> set sws. as_relay sd = None \<longrightarrow> lo_relay (ow_heap w r) = None"
    and "ledger w S" "distinct (sinks_of w (map fst sws))" "set (sinks_of w (map fst sws)) \<subseteq> S"
  shows "ow_heap (fold commit_swap sws w) =
       (\<lambda>r. case map_of sws r of Some sd \<Rightarrow> swap_listener sd (ow_heap w r) | None \<Rightarrow> ow_heap w r) \<and>
     ow_open (fold commit_swap sws w) = ow_open w \<and> all_same w (fold commit_swap sws w) \<and>
     ledger (fold commit_swap sws w) (S - set (sinks_of w (map fst sws)))"
  using assms
proof (induction sws arbitrary: w S)
  case Nil
  then show ?case by (simp add: all_same_def)
next
  case (Cons sw sws)
  obtain r sd where sw: "sw = (r, sd)" by fastforce
  define v where "v = commit_swap sw w"
  let ?S = "S - set_option (sink_ref (ow_heap w r))"
  have "as_relay sd = None \<longrightarrow> lo_relay (ow_heap w r) = None" using Cons.prems(2) sw by auto
  note cf = commit_swap_facts [OF this, folded sw, folded v_def]
  have old: "ow_heap v q = ow_heap w q" if "q \<in> set (map fst sws)" for q using that Cons.prems(1) unfolding cf(1) by (auto simp: sw)
  have sk: "sinks_of v (map fst sws) = sinks_of w (map fst sws)" using old by (intro sinks_of_cong) simp
  have "\<forall>(r, sd) \<in> set sws. as_relay sd = None \<longrightarrow> lo_relay (ow_heap v r) = None" using Cons.prems(2) old by force
  moreover have "ledger v ?S" using Cons.prems(3,5) sw by (intro cf(4)) auto
  moreover have "distinct (sinks_of v (map fst sws))" "set (sinks_of v (map fst sws)) \<subseteq> ?S"
    using Cons.prems(4,5) sw by (auto simp: sk)
  ultimately have IH: "ow_heap (fold commit_swap sws v) =
       (\<lambda>r. case map_of sws r of Some sd \<Rightarrow> swap_listener sd (ow_heap v r) | None \<Rightarrow> ow_heap v r) \<and>
     ow_open (fold commit_swap sws v) = ow_open v \<and> all_same v (fold commit_swap sws v) \<and>
     ledger (fold commit_swap sws v) (?S - set (sinks_of v (map fst sws)))"
    using Cons.prems(1) by (intro Cons.IH) simp_all
  have "map_of sws r = None" using Cons.prems(1) sw by (simp add: map_of_eq_None_iff)
  then have "(\<lambda>q. case map_of sws q of Some sd \<Rightarrow> swap_listener sd (ow_heap v q) | None \<Rightarrow> ow_heap v q) =
      (\<lambda>q. case map_of (sw # sws) q of Some sd \<Rightarrow> swap_listener sd (ow_heap w q) | None \<Rightarrow> ow_heap w q)"
    by (auto simp: sw cf(1) fun_eq_iff split: option.split)
  moreover have "?S - set (sinks_of v (map fst sws)) = S - set (sinks_of w (map fst (sw # sws)))"
    by (auto simp: sw sk)
  ultimately show ?case using IH cf(2) all_same_trans [OF cf(3)] by (simp add: v_def [symmetric])
qed

lemma out_fold_start_loop: "fold start_loop rs w = w\<lparr>ow_running := ow_running w @ rs\<rparr>"
  by (induction rs arbitrary: w) (auto simp: start_loop_def)

lemma out_fold_close_unkept:
  "fold (\<lambda>(k, r) w. if k \<in> K then w else close r w) ex w = fold close (map snd (filter (\<lambda>(k, r). k \<notin> K) ex)) w"
  by (induction ex arbitrary: w) auto

lemma swap_listener_fields [simp]:
  "lo_ln (swap_listener sd l) = lo_ln l" "lo_done (swap_listener sd l) = lo_done l" "lo_port (swap_listener sd l) = lo_port l"
  "lo_mode (swap_listener sd l) = lo_mode l"
  by (auto simp: swap_listener_def Let_def replaceMatchers_def replaceUpstream_def split: option.split)

text \<open>Swapping in the state of a new listener of the same mode gives a listener that behaves like it.\<close>

lemma swap_listener_view:
  assumes "mode_ok l" "mode_ok cur" "lo_mode cur = lo_mode l" "lo_port cur = lo_port l"
  shows "view w (swap_listener (swap_for l) cur) = view w l" "sink_ref (swap_listener (swap_for l) cur) = sink_ref l"
    "mode_ok (swap_listener (swap_for l) cur)"
proof -
  have "lo_relay (swap_listener (swap_for l) cur) = lo_relay l"
    "upstreamSnapshot (swap_listener (swap_for l) cur) = upstreamSnapshot l"
    "matchersSnapshot (swap_listener (swap_for l) cur) = matchersSnapshot l"
    using assms
    by (auto simp: swap_listener_def swap_for_def Let_def replaceMatchers_def replaceUpstream_def mode_ok_def
        upstreamSnapshot_def matchersSnapshot_def modeVsockToTCP_def modeLogRelay_def split: option.splits)
  then show "view w (swap_listener (swap_for l) cur) = view w l" "sink_ref (swap_listener (swap_for l) cur) = sink_ref l"
    "mode_ok (swap_listener (swap_for l) cur)"
    using assms by (simp_all add: view_def sink_ref_def mode_ok_def)
qed

lemma out_swaps_of_zip:
  assumes srv: "srv_inv s w0" and "list_all2 (staged s w0 w) nx ls"
  shows "swaps_of s w0 ls = map (\<lambda>(r, l). (r, swap_for l)) (filter (\<lambda>(r, l). r < ow_fresh w0) (zip nx ls))"
  using assms(2)
proof (induction rule: list_all2_induct)
  case (Cons r rs l ls)
  have "old_at s w0 (lo_port l) \<noteq> None \<Longrightarrow> old_at s w0 (lo_port l) = Some r"
    using Cons.hyps(1) by (auto simp: staged_def split: option.splits)
  then show ?case
    using Cons.IH out_staged_kept(1) [OF srv Cons.hyps(1)] by (cases "old_at s w0 (lo_port l)") (simp_all add: swaps_of_def)
qed (simp add: swaps_of_def)

lemma staged_port:
  assumes srv: "srv_inv s w0" and st: "store_inv w0 w news" and "staged s w0 w r l"
  shows "lo_port (ow_heap w r) = lo_port l"
proof (cases "old_at s w0 (lo_port l)")
  case (Some cur)
  then have "r = cur" "cur \<in> set (so_listeners s)" "lo_port (ow_heap w0 cur) = lo_port l"
    using assms(3) out_existing_iff [OF srv, of "lo_port l" cur] by (simp_all add: staged_def)
  then show ?thesis using srv st by (auto simp: srv_inv_def store_inv_def)
next
  case None
  then show ?thesis using assms(3) by (auto simp: staged_def)
qed

lemma plan_next:
  assumes srv: "srv_inv s w0" and inv: "plan_inv s w0 ls p" and ls: "distinct (map lo_port ls)"
  shows "length (po_next p) = length ls" "i < length ls \<Longrightarrow> staged s w0 (po_world p) (po_next p ! i) (ls ! i)"
    "map (\<lambda>r. lo_port (ow_heap (po_world p) r)) (po_next p) = map lo_port ls" "distinct (po_next p)"
    "\<forall>r \<in> set (po_next p). r < ow_fresh w0 \<longrightarrow> r \<in> set (so_listeners s)"
proof -
  have st: "store_inv w0 (po_world p) (po_newBinds p)" and stg: "list_all2 (staged s w0 (po_world p)) (po_next p) ls"
    using inv unfolding plan_inv_def by blast+
  show len: "length (po_next p) = length ls" using stg by (rule list_all2_lengthD)
  show nth: "staged s w0 (po_world p) (po_next p ! i) (ls ! i)" if "i < length ls" for i
    using stg that by (simp add: list_all2_conv_all_nth)
  show po: "map (\<lambda>r. lo_port (ow_heap (po_world p) r)) (po_next p) = map lo_port ls"
    using len nth staged_port [OF srv st] by (auto intro!: nth_equalityI)
  show "distinct (po_next p)" using ls unfolding po [symmetric] by (simp add: distinct_map)
  show "\<forall>r \<in> set (po_next p). r < ow_fresh w0 \<longrightarrow> r \<in> set (so_listeners s)"
    using len nth out_staged_kept(2) [OF srv] by (metis in_set_conv_nth)
qed

lemma map_fst_filter: "map fst (filter (\<lambda>(r, l). P r) xs) = filter P (map fst xs)"
  by (induction xs) auto

lemma plan_swaps:
  assumes srv: "srv_inv s w0" and inv: "plan_inv s w0 ls p" and ls: "distinct (map lo_port ls)"
  shows "map fst (po_swaps p) = filter (\<lambda>r. r < ow_fresh w0) (po_next p)"
    "i < length ls \<Longrightarrow> map_of (po_swaps p) (po_next p ! i) = (if po_next p ! i < ow_fresh w0 then Some (swap_for (ls ! i)) else None)"
    "\<forall>(r, sd) \<in> set (po_swaps p). as_relay sd = None \<longrightarrow> lo_relay (ow_heap w0 r) = None"
proof -
  note pn = plan_next [OF srv inv ls]
  let ?z = "filter (\<lambda>(r, l). r < ow_fresh w0) (zip (po_next p) ls)"
  have stg: "list_all2 (staged s w0 (po_world p)) (po_next p) ls" "po_swaps p = swaps_of s w0 ls"
    using inv unfolding plan_inv_def by blast+
  have z: "po_swaps p = map (\<lambda>(r, l). (r, swap_for l)) ?z"
    unfolding stg(2) by (rule out_swaps_of_zip [OF srv stg(1)])
  have "map fst ?z = filter (\<lambda>r. r < ow_fresh w0) (map fst (zip (po_next p) ls))" by (rule map_fst_filter)
  then show fst: "map fst (po_swaps p) = filter (\<lambda>r. r < ow_fresh w0) (po_next p)"
    unfolding z by (simp add: comp_def case_prod_unfold pn(1))
  then have d: "distinct (map fst (po_swaps p))" using pn(4) by simp
  show "map_of (po_swaps p) (po_next p ! i) = (if po_next p ! i < ow_fresh w0 then Some (swap_for (ls ! i)) else None)"
    if "i < length ls" for i
  proof (cases "po_next p ! i < ow_fresh w0")
    case True
    have "(po_next p ! i, ls ! i) \<in> set (zip (po_next p) ls)" using that pn(1) by (auto simp: set_zip)
    then have "(po_next p ! i, swap_for (ls ! i)) \<in> set (po_swaps p)" using True by (force simp: z)
    then show ?thesis using True d by (simp add: map_of_is_SomeI)
  next
    case False
    then show ?thesis by (auto simp: z map_of_eq_None_iff)
  qed
  have "lo_relay (ow_heap w0 r) = None" if sw: "(r, sd) \<in> set (po_swaps p)" "as_relay sd = None" for r sd
  proof -
    obtain i where i: "i < length ls" "r = po_next p ! i" "sd = swap_for (ls ! i)" "r < ow_fresh w0"
      using sw(1) by (auto simp: z set_zip pn(1))
    have "mode_ok (ls ! i)" using i(1) inv by (simp add: plan_inv_def)
    then have "lo_mode (ls ! i) \<noteq> modeLogRelay" using sw(2) i(3) by (auto simp: swap_for_def mode_ok_def split: if_splits)
    moreover have "lo_mode (ow_heap w0 r) = lo_mode (ls ! i)"
      using pn(2) [OF i(1)] out_staged_kept(1) [OF srv pn(2) [OF i(1)]] i(2,4) by (simp add: staged_def)
    moreover have "mode_ok (ow_heap w0 r)" using i(1,2,4) pn(1,5) srv by (simp add: srv_inv_def)
    ultimately show ?thesis by (simp add: mode_ok_def)
  qed
  then show "\<forall>(r, sd) \<in> set (po_swaps p). as_relay sd = None \<longrightarrow> lo_relay (ow_heap w0 r) = None" by blast
qed

text \<open>The listeners that the reload drops.\<close>

lemma plan_dropped:
  assumes srv: "srv_inv s w0" and inv: "plan_inv s w0 ls p" and ls: "distinct (map lo_port ls)"
  shows "map snd (filter (\<lambda>(k, r). k \<notin> set (po_kept p)) (index_ports (so_listeners s) w0)) =
     filter (\<lambda>r. r \<notin> set (po_next p)) (so_listeners s)"
proof -
  note pn = plan_next [OF srv inv ls]
  have kept: "set (po_kept p) = {k \<in> lo_port ` set ls. old_at s w0 k \<noteq> None}" using inv unfolding plan_inv_def by blast
  have ex: "index_ports (so_listeners s) w0 = map (\<lambda>r. (lo_port (ow_heap w0 r), r)) (so_listeners s)"
    using srv by (intro index_ports_distinct) (simp add: srv_inv_def)
  have "lo_port (ow_heap w0 r) \<in> set (po_kept p) \<longleftrightarrow> r \<in> set (po_next p)" if r: "r \<in> set (so_listeners s)" for r
  proof
    assume "lo_port (ow_heap w0 r) \<in> set (po_kept p)"
    then obtain i where i: "i < length ls" "lo_port (ls ! i) = lo_port (ow_heap w0 r)"
      using kept by (auto simp: in_set_conv_nth)
    then have "old_at s w0 (lo_port (ls ! i)) = Some r" using r out_existing_iff [OF srv] by simp
    then have "po_next p ! i = r" using pn(2) [OF i(1)] by (simp add: staged_def)
    then show "r \<in> set (po_next p)" using i(1) pn(1) by (metis nth_mem)
  next
    assume "r \<in> set (po_next p)"
    then obtain i where i: "i < length ls" "po_next p ! i = r" using pn(1) by (auto simp: in_set_conv_nth)
    have "r < ow_fresh w0" using r srv by (auto simp: srv_inv_def)
    then have o: "old_at s w0 (lo_port (ls ! i)) = Some r" using out_staged_kept(1) [OF srv pn(2) [OF i(1)]] i(2) by simp
    then have "lo_port (ow_heap w0 r) = lo_port (ls ! i)" using out_existing_iff [OF srv] by simp
    then show "lo_port (ow_heap w0 r) \<in> set (po_kept p)" using o i(1) kept by auto
  qed
  then show ?thesis unfolding ex by (auto simp: filter_map comp_def intro!: filter_cong)
qed

lemma map_filter_inj:
  "\<lbrakk>distinct (List.map_filter f xs); x \<in> set xs; y \<in> set xs; f x = Some a; f y = Some a\<rbrakk> \<Longrightarrow> x = y"
  by (induction xs) (auto simp: set_map_filter split: option.splits)

lemma map_filter_distinct:
  assumes "distinct (List.map_filter f xs)" "distinct ys" "set ys \<subseteq> set xs"
  shows "distinct (List.map_filter f ys)"
  using assms(2,3)
proof (induction ys)
  case (Cons y ys)
  have "a \<notin> set (List.map_filter f ys)" if "f y = Some a" for a
    using that Cons.prems map_filter_inj [OF assms(1)] by (auto simp: set_map_filter)
  then show ?case using Cons by (auto split: option.split)
qed simp

definition commit_world :: "Server \<Rightarrow> world \<Rightarrow> prep \<Rightarrow> world" where
  "commit_world s w0 p =
     fold (\<lambda>(port, r) w. if port \<in> set (po_kept p) then w else close r w) (index_ports (so_listeners s) w0)
       (fold start_loop (po_newBinds p) (fold commit_swap (po_swaps p) (po_world p)))"

text \<open>The listeners of the server fall into kept and dropped ones, and so do the sinks it owns.\<close>

lemma kept_dropped:
  assumes srv: "srv_inv s w0" and nx: "distinct nx" "\<forall>r \<in> set nx. r < ow_fresh w0 \<longrightarrow> r \<in> set (so_listeners s)"
  defines "K \<equiv> filter (\<lambda>r. r < ow_fresh w0) nx" and "U \<equiv> filter (\<lambda>r. r \<notin> set nx) (so_listeners s)"
  shows "set K \<subseteq> set (so_listeners s)" "distinct K" "set U \<subseteq> set (so_listeners s)" "distinct U" "set K \<inter> set U = {}"
    "distinct (sinks_of w0 K)" "distinct (sinks_of w0 U)" "own s w0 = set (sinks_of w0 K) \<union> set (sinks_of w0 U)"
    "set (sinks_of w0 K) \<inter> set (sinks_of w0 U) = {}"
proof -
  let ?L = "so_listeners s"
  show KL: "set K \<subseteq> set ?L" "distinct K" and UL: "set U \<subseteq> set ?L" "distinct U"
    using nx srv by (auto simp: K_def U_def srv_inv_def distinct_map)
  have "r < ow_fresh w0" if "r \<in> set ?L" for r using that srv by (auto simp: srv_inv_def)
  then have L: "set ?L = set K \<union> set U" and d: "set K \<inter> set U = {}" using KL(1) by (auto simp: K_def U_def)
  have dL: "distinct (List.map_filter (\<lambda>r. sink_ref (ow_heap w0 r)) ?L)" using srv by (simp add: srv_inv_def sinks_of_def)
  show "distinct (sinks_of w0 K)" "distinct (sinks_of w0 U)"
    using map_filter_distinct [OF dL] KL UL unfolding sinks_of_def by blast+
  show "own s w0 = set (sinks_of w0 K) \<union> set (sinks_of w0 U)" unfolding sinks_of_def set_map_filter L by blast
  show "set (sinks_of w0 K) \<inter> set (sinks_of w0 U) = {}"
    using map_filter_inj [OF dL] KL(1) UL(1) d unfolding sinks_of_def set_map_filter by blast
  show "set K \<inter> set U = {}" by (fact d)
qed

text \<open>Of the sinks the server owned before, those of kept listeners go with the swap and those of dropped ones with the close.\<close>

lemma out_commit_facts:
  assumes srv: "srv_inv s w0" and inv: "plan_inv s w0 ls p" and ls: "distinct (map lo_port ls)"
  defines "w \<equiv> po_world p" and "nx \<equiv> po_next p" and "w' \<equiv> commit_world s w0 p"
    and "U \<equiv> filter (\<lambda>r. r \<notin> set (po_next p)) (so_listeners s)"
  shows "\<forall>r \<in> set nx. ow_heap w' r = (case map_of (po_swaps p) r of Some sd \<Rightarrow> swap_listener sd (ow_heap w r) | None \<Rightarrow> ow_heap w r)"
    "ow_open w' = ow_open w - sock_of w0 ` set U"
    "all_same (w\<lparr>ow_running := ow_running w0 @ po_newBinds p\<rparr>) w'"
    "ledger w' {ow_sfresh w0 ..< ow_sfresh w}"
proof -
  let ?New = "{ow_sfresh w0 ..< ow_sfresh w}" and ?sw = "po_swaps p" and ?L = "so_listeners s"
  define K where "K = filter (\<lambda>r. r < ow_fresh w0) nx"
  note pn = plan_next [OF srv inv ls, folded nx_def w_def] and sw = plan_swaps [OF srv inv ls, folded nx_def, folded K_def]
  have st: "store_inv w0 w (po_newBinds p)" and lg: "ledger w (own s w0 \<union> ?New)"
    using inv unfolding plan_inv_def w_def by blast+
  have old: "ow_heap w r = ow_heap w0 r" if "r \<in> set ?L" for r using that srv st by (auto simp: srv_inv_def store_inv_def)
  note kd = kept_dropped [OF srv pn(4,5), folded K_def, unfolded nx_def, folded U_def]
  have KL: "set K \<subseteq> set ?L" "distinct K" and UL: "set U \<subseteq> set ?L" "distinct U" and KU: "set K \<inter> set U = {}"
    and dK: "distinct (sinks_of w0 K)" and dU: "distinct (sinks_of w0 U)"
    and own: "own s w0 = set (sinks_of w0 K) \<union> set (sinks_of w0 U)" "set (sinks_of w0 K) \<inter> set (sinks_of w0 U) = {}"
    using kd by blast+
  have new: "own s w0 \<inter> ?New = {}" using own_old [OF srv] by auto
  have skK: "sinks_of w K = sinks_of w0 K" using KL(1) old by (intro sinks_of_cong) auto
  define w1 where "w1 = fold commit_swap ?sw w"
  have "\<forall>(r, sd) \<in> set ?sw. as_relay sd = None \<longrightarrow> lo_relay (ow_heap w r) = None"
    using sw(1,3) KL(1) old by fastforce
  moreover have "distinct (map fst ?sw)" "distinct (sinks_of w (map fst ?sw))" "set (sinks_of w (map fst ?sw)) \<subseteq> own s w0 \<union> ?New"
    unfolding sw(1) skK using KL(2) dK own(1) by auto
  ultimately have w1: "ow_heap w1 = (\<lambda>r. case map_of ?sw r of Some sd \<Rightarrow> swap_listener sd (ow_heap w r) | None \<Rightarrow> ow_heap w r)"
      "ow_open w1 = ow_open w" "all_same w w1" "ledger w1 (own s w0 \<union> ?New - set (sinks_of w0 K))"
    using commit_swaps [OF _ _ lg, of ?sw] unfolding w1_def sw(1) skK by blast+
  define w2 where "w2 = fold start_loop (po_newBinds p) w1"
  have w2: "w2 = w1\<lparr>ow_running := ow_running w0 @ po_newBinds p\<rparr>"
    using w1(3) st by (simp add: w2_def out_fold_start_loop all_same_def store_inv_def)
  have oldU: "ow_heap w2 r = ow_heap w0 r" if "r \<in> set U" for r
  proof -
    have "r \<notin> set K" using that KU by blast
    then have "map_of ?sw r = None" unfolding map_of_eq_None_iff sw(1) [symmetric] by simp
    then show ?thesis using old that UL(1) by (auto simp: w2 w1(1))
  qed
  have skU: "sinks_of w2 U = sinks_of w0 U" using oldU by (intro sinks_of_cong) simp
  have "ledger w2 (own s w0 \<union> ?New - set (sinks_of w0 K))" using w1(4) by (simp add: w2 ledger_def)
  moreover have "\<forall>r \<in> set U. \<not> lo_done (ow_heap w2 r)" using oldU UL(1) srv by (auto simp: srv_inv_def)
  moreover have "set (sinks_of w2 U) \<subseteq> own s w0 \<union> ?New - set (sinks_of w0 K)" unfolding skU using own by blast
  ultimately have c: "closes w2 (own s w0 \<union> ?New - set (sinks_of w0 K)) U (fold close U w2)"
    using UL(2) dU by (intro close_all) (simp_all add: skU)
  have w': "w' = fold close U w2"
    unfolding w'_def commit_world_def out_fold_close_unkept plan_dropped [OF srv inv ls] U_def w2_def w1_def w_def ..
  have "own s w0 \<union> ?New - set (sinks_of w0 K) - set (sinks_of w2 U) = ?New" unfolding skU using own new by blast
  then show "ledger w' ?New" using c by (simp add: w' closes_def)
  show "\<forall>r \<in> set nx. ow_heap w' r = (case map_of (po_swaps p) r of Some sd \<Rightarrow> swap_listener sd (ow_heap w r) | None \<Rightarrow> ow_heap w r)"
    using c by (simp add: w' closes_def close_heap_def w2 w1(1) U_def nx_def)
  have "\<forall>r \<in> set U. lo_ln (ow_heap w2 r) \<noteq> None" using oldU UL(1) srv unfolding srv_inv_def by (metis subsetD)
  from socks_bound [OF this] have "socks w2 U = sock_of w0 ` set U" using oldU by (simp cong: image_cong)
  then show "ow_open w' = ow_open w - sock_of w0 ` set U" using c w1(2) by (simp add: w' closes_def w2)
  show "all_same (w\<lparr>ow_running := ow_running w0 @ po_newBinds p\<rparr>) w'"
    using c w1(3) by (simp add: w' closes_def all_same_def w2)
qed

text \<open>Each listener after the commit does what its configuration says.\<close>

lemma commit_listener:
  assumes srv: "srv_inv s w0" and inv: "plan_inv s w0 ls p" and ls: "distinct (map lo_port ls)" and i: "i < length ls"
  defines "l \<equiv> ow_heap (commit_world s w0 p) (po_next p ! i)"
  shows "view (commit_world s w0 p) l = view (po_world p) (ls ! i)" "sink_ref l = sink_ref (ls ! i)" "mode_ok l"
    "\<not> lo_done l" "lo_port l = lo_port (ls ! i)" "lo_ln l = lo_ln (ow_heap (po_world p) (po_next p ! i))"
proof -
  let ?r = "po_next p ! i" and ?w' = "commit_world s w0 p"
  note pn = plan_next [OF srv inv ls] and cf = out_commit_facts [OF srv inv ls]
  have st: "store_inv w0 (po_world p) (po_newBinds p)" using inv unfolding plan_inv_def by blast
  have m: "mode_ok (ls ! i)" "\<not> lo_done (ls ! i)" using inv i by (auto simp: plan_inv_def)
  have v: "view ?w' x = view (po_world p) x" for x using cf(3) by (intro view_cong) (simp add: all_same_def)
  have l: "l = (case map_of (po_swaps p) ?r of Some sd \<Rightarrow> swap_listener sd (ow_heap (po_world p) ?r) | None \<Rightarrow> ow_heap (po_world p) ?r)"
    using cf(1) i pn(1) by (simp add: l_def)
  have all: "view ?w' l = view (po_world p) (ls ! i) \<and> sink_ref l = sink_ref (ls ! i) \<and> mode_ok l \<and> \<not> lo_done l \<and>
    lo_port l = lo_port (ls ! i) \<and> lo_ln l = lo_ln (ow_heap (po_world p) ?r)"
  proof (cases "?r < ow_fresh w0")
    case True
    have cur: "?r \<in> set (so_listeners s)" using True i pn(1,5) by simp
    then have c: "mode_ok (ow_heap w0 ?r)" "\<not> lo_done (ow_heap w0 ?r)" "ow_heap (po_world p) ?r = ow_heap w0 ?r"
      using srv st True by (auto simp: srv_inv_def store_inv_def)
    have at: "old_at s w0 (lo_port (ls ! i)) = Some ?r" using out_staged_kept(1) [OF srv pn(2) [OF i]] True by simp
    have "lo_mode (ow_heap w0 ?r) = lo_mode (ls ! i)" using pn(2) [OF i] at by (simp add: staged_def)
    moreover have "lo_port (ow_heap w0 ?r) = lo_port (ls ! i)" using at out_existing_iff [OF srv] by simp
    moreover have "l = swap_listener (swap_for (ls ! i)) (ow_heap w0 ?r)"
      using l True c(3) plan_swaps(2) [OF srv inv ls i] by simp
    ultimately show ?thesis using swap_listener_view [OF m(1) c(1)] c v by simp
  next
    case False
    then have "l = ow_heap (po_world p) ?r" using l plan_swaps(2) [OF srv inv ls i] by simp
    moreover have "old_at s w0 (lo_port (ls ! i)) = None"
      using pn(2) [OF i] out_staged_kept(1) [OF srv pn(2) [OF i]] False by (auto simp: staged_def split: option.splits)
    ultimately obtain k where "l = (ls ! i)\<lparr>lo_ln := Some k\<rparr>" "l = ow_heap (po_world p) ?r"
      using pn(2) [OF i] by (auto simp: staged_def)
    then show ?thesis
      using m v by (auto simp: view_def sink_ref_def mode_ok_def upstreamSnapshot_def matchersSnapshot_def)
  qed
  then show "view ?w' l = view (po_world p) (ls ! i)" "sink_ref l = sink_ref (ls ! i)" "mode_ok l"
    "\<not> lo_done l" "lo_port l = lo_port (ls ! i)" "lo_ln l = lo_ln (ow_heap (po_world p) (po_next p ! i))" by blast+
qed

lemma map_filter_nth_cong:
  assumes "length xs = length ys" "\<forall>i < length xs. f (xs ! i) = g (ys ! i)"
  shows "List.map_filter f xs = List.map_filter g ys"
proof -
  have "map f xs = map g ys" using assms by (auto intro!: nth_equalityI)
  moreover have "List.map_filter h zs = List.map_filter id (map h zs)" for h :: "'x \<Rightarrow> 'y option" and zs
    by (induction zs) (auto split: option.split)
  ultimately show ?thesis by metis
qed

lemma out_commit_ok:
  assumes srv: "srv_inv s w0" and inv: "plan_inv s w0 ls p" and ls: "distinct (map lo_port ls)"
  shows "srv_inv (s\<lparr>so_listeners := po_next p\<rparr>) (commit_world s w0 p)"
    "map (\<lambda>r. view (commit_world s w0 p) (ow_heap (commit_world s w0 p) r)) (po_next p) = map (view (po_world p)) ls"
proof -
  define w w' nx L where "w = po_world p" and "w' = commit_world s w0 p" and "nx = po_next p" and "L = so_listeners s"
  note f = out_commit_facts [OF srv inv ls, folded w_def w'_def nx_def]
    and pn = plan_next [OF srv inv ls, folded w_def nx_def] and cl = commit_listener [OF srv inv ls, folded w_def w'_def nx_def]
  have st: "store_inv w0 w (po_newBinds p)" and news: "po_newBinds p = filter (\<lambda>r. ow_fresh w0 \<le> r) nx"
    and mf: "List.map_filter sink_ref ls = [ow_sfresh w0 ..< ow_sfresh w]"
    using inv unfolding plan_inv_def w_def nx_def by blast+
  show "map (\<lambda>r. view (commit_world s w0 p) (ow_heap (commit_world s w0 p) r)) (po_next p) = map (view (po_world p)) ls"
    unfolding w'_def [symmetric] nx_def [symmetric] w_def [symmetric] using pn(1) cl(1) by (auto intro!: nth_equalityI)
  have each: "\<exists>i < length ls. nx ! i = r" if "r \<in> set nx" for r using that pn(1) by (auto simp: in_set_conv_nth)
  have ln: "lo_ln (ow_heap w' r) = lo_ln (ow_heap w r)" if "r \<in> set nx" for r using each [OF that] cl(6) by auto
  have port: "map (\<lambda>r. lo_port (ow_heap w' r)) nx = map lo_port ls" using pn(1) cl(5) by (auto intro!: nth_equalityI)
  have sinks: "sinks_of w' nx = [ow_sfresh w0 ..< ow_sfresh w]"
    unfolding mf [symmetric] sinks_of_def using pn(1) cl(2) by (intro map_filter_nth_cong) auto
  have Lf: "inj_on (sock_of w0) (set L)" "\<forall>r \<in> set L. sock_of w0 r < ow_sock w0" "\<forall>r \<in> set L. r < ow_fresh w0 \<and> lo_ln (ow_heap w0 r) \<noteq> None"
    "set L \<subseteq> set (ow_running w0)" "so_ctx s" "ow_open w0 = sock_of w0 ` set L"
    using srv by (auto simp: srv_inv_def distinct_map L_def)
  have Nf: "inj_on (sock_of w) (set (po_newBinds p))" "\<forall>r \<in> set (po_newBinds p). ow_sock w0 \<le> sock_of w r"
    "\<forall>r \<in> set (po_newBinds p). r < ow_fresh w \<and> lo_ln (ow_heap w r) \<noteq> None \<and> sock_of w r < ow_sock w"
    "ow_open w = ow_open w0 \<union> sock_of w ` set (po_newBinds p)" "ow_fresh w0 \<le> ow_fresh w" "ow_sock w0 \<le> ow_sock w"
    using st by (auto simp: store_inv_def distinct_map)
  have same: "\<forall>r \<in> set L. ow_heap w r = ow_heap w0 r" using Lf(3) st by (auto simp: store_inv_def)
  then have sames: "\<forall>r \<in> set L. sock_of w r = sock_of w0 r" by simp
  have X: "set nx = (set L \<inter> set nx) \<union> set (po_newBinds p)"
    unfolding news using pn(5) by (auto simp: L_def not_le)
  have sock: "distinct (map (sock_of w) nx)"
    using inj_old_new [OF Lf(1,2) Nf(1,2) sames, of "set nx"] X pn(4) by (auto simp: distinct_map)
  have sk: "map (sock_of w') nx = map (sock_of w) nx" "sock_of w' ` set nx = sock_of w ` set nx"
    using ln by (auto cong: image_cong)
  have "ow_open w' = sock_of w ` set nx"
    using f(2) Nf(4) Lf(6) open_after [OF Lf(1,2) Nf(2) sames X] by (simp add: L_def nx_def set_diff_eq)
  moreover have "r < ow_fresh w \<and> lo_ln (ow_heap w r) \<noteq> None \<and> sock_of w r < ow_sock w \<and> r \<in> set (ow_running w0 @ po_newBinds p)"
    if "r \<in> set nx" for r
  proof (cases "r \<in> set L")
    case True
    then show ?thesis using Lf(2-4) Nf(5,6) same by fastforce
  next
    case False
    then have "r \<in> set (po_newBinds p)" using that X by blast
    then show ?thesis using Nf(3) by simp
  qed
  moreover have "mode_ok (ow_heap w' r) \<and> \<not> lo_done (ow_heap w' r)" if "r \<in> set nx" for r using each [OF that] cl(3,4) by auto
  moreover have "ow_fresh w' = ow_fresh w" "ow_sock w' = ow_sock w" "ow_running w' = ow_running w0 @ po_newBinds p"
    using f(3) by (simp_all add: all_same_def)
  ultimately show "srv_inv (s\<lparr>so_listeners := po_next p\<rparr>) (commit_world s w0 p)"
    unfolding srv_inv_def w'_def [symmetric] nx_def [symmetric] Server.simps
    using sock [folded sk(1)] ln port ls sinks f(4) Lf(5) by simp
qed

section \<open>The reload contract\<close>

text \<open>What a configuration asks of the outbound server.\<close>

definition http_view :: "OutboundListener \<Rightarrow> out_view" where
  "http_view ob = (ol_Port ob, modeHTTPProxy,
     map (\<lambda>oc. (oc_CID oc, projr (New_matcher (oc_AllowedHosts oc)))) (ol_CIDs ob), [], None)"

definition tcp_view :: "VsockToTCPListener \<Rightarrow> out_view" where
  "tcp_view v = (vt_Port v, modeVsockToTCP, [], vt_Upstream v, None)"

definition relay_view :: "LogRelayListener \<Rightarrow> out_view" where
  "relay_view l = (lr_Port l, modeLogRelay, [], [],
     Some (if lr_Output l = LogRelayOutputFile then FileSink (lr_Path l) else StdoutSink, newEnrichConfig (lr_Enrich l),
           if lr_MaxLineBytes l \<le> 0 then int defaultLogRelayMaxLine else lr_MaxLineBytes l))"

definition out_wants :: "Config \<Rightarrow> out_view list" where
  "out_wants c = map http_view (c_Outbound c) @ map tcp_view (c_VsockToTCP c) @ map relay_view (c_LogRelay c)"

definition out_serves :: "Server \<Rightarrow> world \<Rightarrow> out_view list" where
  "out_serves s w = map (\<lambda>r. view w (ow_heap w r)) (so_listeners s)"

definition out_prepare :: "out_env2 \<Rightarrow> Config \<Rightarrow> Server \<Rightarrow> world \<Rightarrow> (out_error + ApplyPlan) \<times> world" where
  "out_prepare env c = PrepareApply env (c_Outbound c) (c_VsockToTCP c) (c_LogRelay c)"

lemma compiled_map:
  "list_all2 compiled ocs ms \<Longrightarrow> ms = map (\<lambda>oc. (oc_CID oc, projr (New_matcher (oc_AllowedHosts oc)))) ocs"
  by (induction rule: list_all2_induct) (auto simp: compiled_def)

lemma newHTTPListener_built:
  assumes "newHTTPListener ob = Inr l"
  shows "built w l w \<and> view w l = http_view ob"
proof -
  have "matchersSnapshot l = map (\<lambda>oc. (oc_CID oc, projr (New_matcher (oc_AllowedHosts oc)))) (ol_CIDs ob)"
    using compiled_map newHTTPListener_matchers(1) [OF assms] by blast
  then show ?thesis
    using assms by (auto simp: newHTTPListener_def built_def mode_ok_def view_def http_view_def sink_ref_def
        upstreamSnapshot_def modeHTTPProxy_def modeLogRelay_def split: if_splits sum.splits)
qed

interpretation http_listener: listener_builder "pure_new newHTTPListener" http_view
proof
  show "\<exists>n. w1 = w\<lparr>ow_sinkErrors := n\<rparr>" if "pure_new newHTTPListener cfg w = (Inl e, w1)" for cfg w e w1
    using that by (auto simp: pure_new_def intro: exI [of _ "ow_sinkErrors w"])
  show "built w l w1 \<and> view w1 l = http_view cfg" if "pure_new newHTTPListener cfg w = (Inr l, w1)" for cfg w l w1
    using that newHTTPListener_built [of cfg l w] by (auto simp: pure_new_def)
qed

interpretation tcp_listener: listener_builder "pure_new newVsockToTCPListener" tcp_view
proof
  show "\<exists>n. w1 = w\<lparr>ow_sinkErrors := n\<rparr>" if "pure_new newVsockToTCPListener cfg w = (Inl e, w1)" for cfg w e w1
    using that by (auto simp: pure_new_def newVsockToTCPListener_def)
  show "built w l w1 \<and> view w1 l = tcp_view cfg" if "pure_new newVsockToTCPListener cfg w = (Inr l, w1)" for cfg w l w1
    using that by (auto simp: pure_new_def newVsockToTCPListener_def built_def mode_ok_def view_def tcp_view_def sink_ref_def
        upstreamSnapshot_def matchersSnapshot_def modeVsockToTCP_def modeLogRelay_def)
qed

lemma newLogRelayListener_built:
  assumes "newLogRelayListener openFile cfg w = (Inr l, w1)"
  shows "built w l w1 \<and> view w1 l = relay_view cfg"
proof -
  obtain sk where sk: "openSink openFile cfg w = Inr sk"
    using assms by (auto simp: newLogRelayListener_def Let_def split: sum.splits)
  have dest: "sk = (if lr_Output cfg = LogRelayOutputFile then FileSink (lr_Path cfg) else StdoutSink)"
    using sk by (auto simp: openSink_def split: if_splits)
  have l: "l = \<lparr>lo_port = lr_Port cfg, lo_mode = modeLogRelay, lo_ln = None, lo_done = False, lo_matchers = None,
      lo_upstream = None, lo_relay = Some \<lparr>rl_sink = ow_sfresh w, rl_enrich = newEnrichConfig (lr_Enrich cfg),
        rl_maxLineBytes = (if lr_MaxLineBytes cfg \<le> 0 then int defaultLogRelayMaxLine else lr_MaxLineBytes cfg)\<rparr>\<rparr>"
    and w1: "alloc_sink sk w = (ow_sfresh w, w1)"
    using assms sk by (auto simp: newLogRelayListener_def alloc_sink_def Let_def)
  have "dest w1 (ow_sfresh w) = sk" using w1 by (auto simp: alloc_sink_def newRefSink_def)
  then show ?thesis
    using w1 unfolding l
    by (auto simp: built_def mode_ok_def view_def relay_view_def sink_ref_def dest upstreamSnapshot_def matchersSnapshot_def
        modeLogRelay_def modeVsockToTCP_def)
qed

interpretation relay_listener: listener_builder "newLogRelayListener openFile" relay_view for openFile
proof
  show "\<exists>n. w1 = w\<lparr>ow_sinkErrors := n\<rparr>" if "newLogRelayListener openFile cfg w = (Inl e, w1)" for cfg w e w1
    using that by (auto simp: newLogRelayListener_def alloc_sink_def Let_def split: sum.splits)
  show "built w l w1 \<and> view w1 l = relay_view cfg" if "newLogRelayListener openFile cfg w = (Inr l, w1)" for cfg w l w1
    using newLogRelayListener_built [OF that] .
qed

abbreviation empty_prep :: "world \<Rightarrow> prep" where
  "empty_prep w \<equiv> \<lparr>po_world = w, po_kept = [], po_next = [], po_swaps = [], po_newBinds = []\<rparr>"

lemma plan_inv_empty: "srv_inv s w0 \<Longrightarrow> plan_inv s w0 [] (empty_prep w0)"
  by (simp add: plan_inv_def store_inv_def swaps_of_def srv_inv_def)

abbreviation plan_of :: "Server \<Rightarrow> world \<Rightarrow> prep \<Rightarrow> ApplyPlan" where
  "plan_of s w0 p \<equiv> \<lparr>op_next = po_next p, op_newBinds = po_newBinds p, op_swaps = po_swaps p,
     op_existing = index_ports (so_listeners s) w0, op_kept = po_kept p, op_committed = False, op_aborted = False\<rparr>"

lemma out_PrepareApply_cases:
  assumes srv: "srv_inv s w0"
  shows "case out_prepare env c s w0 of
       (Inl e, w) \<Rightarrow> same_store (own s w0) w0 w
     | (Inr plan, w) \<Rightarrow> \<exists>p ls. w = po_world p \<and> plan = plan_of s w0 p \<and> plan_inv s w0 ls p \<and> map (view w) ls = out_wants c"
proof -
  let ?ix = "index_ports (so_listeners s) w0"
  let ?b1 = "for_idx (prepare_one env ?ix (pure_new newHTTPListener) ''outbound'') 0 (c_Outbound c)"
  let ?b2 = "for_idx (prepare_one env ?ix (pure_new newVsockToTCPListener) ''vsock_to_tcp'') 0 (c_VsockToTCP c)"
  let ?b3 = "for_idx (prepare_one env ?ix (newLogRelayListener (snd env)) ''log_relay'') 0 (c_LogRelay c)"
  have PA: "out_prepare env c s w0 = (case res_bind (?b1 (empty_prep w0)) (\<lambda>p1. res_bind (?b2 p1) ?b3) of
      Inl (e, w') \<Rightarrow> (Inl e, w') | Inr p \<Rightarrow> (Inr (plan_of s w0 p), po_world p))"
    using srv by (simp add: out_prepare_def PrepareApply_def Let_def srv_inv_def)
  note l1 = http_listener.out_prepare_loop [OF srv plan_inv_empty [OF srv], where env = env and sec = "''outbound''" and i = 0 and cfgs = "c_Outbound c"]
  show ?thesis
  proof (cases "?b1 (empty_prep w0)")
    case (Inl ew)
    then show ?thesis using l1 unfolding PA by (simp split: prod.splits)
  next
    case (Inr p1)
    then obtain ls1 where i1: "plan_inv s w0 ls1 p1" "map (view (po_world p1)) ls1 = map http_view (c_Outbound c)"
      using l1 by auto
    note l2 = tcp_listener.out_prepare_loop [OF srv i1(1), where env = env and sec = "''vsock_to_tcp''" and i = 0 and cfgs = "c_VsockToTCP c"]
    show ?thesis
    proof (cases "?b2 p1")
      case e2: (Inl ew)
      then show ?thesis using l2 Inr unfolding PA by (simp split: prod.splits)
    next
      case p2: (Inr p2)
      then obtain ls2 where i2: "plan_inv s w0 (ls1 @ ls2) p2"
          "map (view (po_world p2)) (ls1 @ ls2) = map http_view (c_Outbound c) @ map tcp_view (c_VsockToTCP c)"
        using l2 i1(2) by auto
      note l3 = relay_listener.out_prepare_loop [OF srv i2(1), where env = env and openFile = "snd env" and sec = "''log_relay''" and i = 0 and cfgs = "c_LogRelay c"]
      show ?thesis
      proof (cases "?b3 p2")
        case (Inl ew)
        then show ?thesis using l3 Inr p2 unfolding PA by (simp split: prod.splits)
      next
        case p3: (Inr p3)
        from l3 [unfolded p3 sum.case i2(2)] obtain ls3 where "plan_inv s w0 ((ls1 @ ls2) @ ls3) p3"
            "map (view (po_world p3)) ((ls1 @ ls2) @ ls3) = out_wants c"
          unfolding out_wants_def append_assoc by blast
        then have "\<exists>p ls. po_world p3 = po_world p \<and> plan_of s w0 p3 = plan_of s w0 p \<and> plan_inv s w0 ls p \<and>
            map (view (po_world p3)) ls = out_wants c"
          by blast
        then show ?thesis using Inr p2 p3 unfolding PA by (simp del: ApplyPlan.ext_inject)
      qed
    qed
  qed
qed

lemma wants_ports: "map fst (out_wants c) = vsock_ports_of c"
  by (simp add: out_wants_def vsock_ports_of_def http_view_def tcp_view_def relay_view_def)

lemma plan_ports:
  assumes "valid_config c" "map (view w) ls = out_wants c"
  shows "distinct (map lo_port ls)"
proof -
  have "map lo_port ls = map fst (map (view w) ls)" by (simp add: view_def)
  then show ?thesis using assms by (simp add: wants_ports valid_config_def)
qed

lemma out_same_serves:
  assumes "srv_inv s w0" "same_store (own s w0) w0 w"
  shows "out_serves s w = out_serves s w0" "ow_open w = ow_open w0" "ow_files w = ow_files w0"
proof -
  have "view w (ow_heap w r) = view w0 (ow_heap w0 r)" if "r \<in> set (so_listeners s)" for r
  proof -
    have "ow_heap w r = ow_heap w0 r" using that assms by (auto simp: srv_inv_def same_store_def)
    moreover have "view w (ow_heap w0 r) = view w0 (ow_heap w0 r)"
    proof (rule view_cong)
      fix a assume "sink_ref (ow_heap w0 r) = Some a"
      then have "a \<in> own s w0" using that by (auto simp: sinks_of_def set_map_filter)
      then show "dest w a = dest w0 a" using own_old [OF assms(1)] assms(2) by (auto simp: same_store_def)
    qed
    ultimately show ?thesis by simp
  qed
  then show "out_serves s w = out_serves s w0" by (simp add: out_serves_def)
  show "ow_open w = ow_open w0" using assms(2) by (simp add: same_store_def)
  show "ow_files w = ow_files w0" using same_store_files assms by (auto simp: srv_inv_def)
qed

abbreviation resources :: "world \<Rightarrow> nat set \<times> nat set" where
  "resources w \<equiv> (ow_open w, ow_files w)"

lemma out_prepare_fails:
  assumes srv: "srv_inv s w0" and prep: "out_prepare env c s w0 = (Inl e, w)"
  shows "srv_inv s w \<and> out_serves s w = out_serves s w0 \<and> resources w = resources w0"
  using out_PrepareApply_cases [OF srv, where env = env and c = c] out_same_store_srv [OF srv] out_same_serves [OF srv] unfolding prep by auto

lemma out_abort_undoes:
  assumes srv: "srv_inv s w0" and prep: "out_prepare env c s w0 = (Inr plan, w)"
  defines "w' \<equiv> snd (AbortApply plan w)"
  shows "srv_inv s w' \<and> out_serves s w' = out_serves s w0 \<and> resources w' = resources w0"
proof -
  obtain p ls where p: "w = po_world p" "plan = plan_of s w0 p" "plan_inv s w0 ls p"
    using out_PrepareApply_cases [OF srv, where env = env and c = c] prep by auto
  have st: "store_inv w0 w (po_newBinds p)" and l: "ledger w (own s w0 \<union> {ow_sfresh w0 ..< ow_sfresh w})"
    using p(1,3) unfolding plan_inv_def by blast+
  have "same_store (own s w0) w0 (undo (po_newBinds p) (po_swaps p) w)"
    using plan_undo(1) [OF srv p(3) st _ l] by (simp add: p(1))
  then have "same_store (own s w0) w0 w'" by (simp add: w'_def AbortApply_def p(2))
  then show ?thesis using out_same_store_srv [OF srv] out_same_serves [OF srv] by simp
qed

lemma out_commit_publishes:
  assumes srv: "srv_inv s w0" and valid: "valid_config c" and prep: "out_prepare env c s w0 = (Inr plan, w)"
  shows "case snd (CommitApply plan s w) of (s'', w'') \<Rightarrow> srv_inv s'' w'' \<and> out_serves s'' w'' = out_wants c"
proof -
  obtain p ls where p: "w = po_world p" "plan = plan_of s w0 p" "plan_inv s w0 ls p" "map (view w) ls = out_wants c"
    using out_PrepareApply_cases [OF srv, where env = env and c = c] prep by auto
  have "snd (CommitApply plan s w) = (s\<lparr>so_listeners := po_next p\<rparr>, commit_world s w0 p)"
    by (simp add: CommitApply_def p(1,2) commit_world_def Let_def)
  then show ?thesis
    using out_commit_ok [OF srv p(3) plan_ports [OF valid p(4)]] p(1,4) by (simp add: out_serves_def)
qed

interpretation outbound: stager srv_inv out_serves resources valid_config out_wants out_prepare
  "\<lambda>p s w. snd (CommitApply p s w)" "\<lambda>p w. snd (AbortApply p w)"
  by unfold_locales (fact out_prepare_fails, fact out_abort_undoes, fact out_commit_publishes)

end
