(* ===== verification/Outbound_Start.thy ===== *)
theory Outbound_Start
  imports Outbound_Reload
begin

text \<open>
  \<open>NewServer\<close>, \<open>Start\<close> and \<open>Apply\<close> of the outbound server: what they leave behind when they succeed and when they
  fail, with the log files among the resources.
\<close>

section \<open>Construction and start\<close>

text \<open>A server being built from the world \<open>w0\<close>: its listeners are the objects allocated since, not bound yet.\<close>

definition constructed :: "world \<Rightarrow> world \<Rightarrow> nat list \<Rightarrow> listener list \<Rightarrow> bool" where
  "constructed w0 w rs ls \<longleftrightarrow> store_inv w0 w [] \<and> rs = [ow_fresh w0 ..< ow_fresh w] \<and> map (ow_heap w) rs = ls \<and>
     (\<forall>l \<in> set ls. mode_ok l \<and> \<not> lo_done l \<and> lo_ln l = None) \<and>
     List.map_filter sink_ref ls = [ow_sfresh w0 ..< ow_sfresh w] \<and> ledger w ({} \<union> {ow_sfresh w0 ..< ow_sfresh w})"

lemma constructed_extend:
  assumes c: "constructed w0 w rs ls" and b: "built w l w1" and al: "alloc l w1 = (r, w2)"
  shows "constructed w0 w2 (rs @ [r]) (ls @ [l])" "map (view w2) (ls @ [l]) = map (view w) ls @ [view w1 l]"
proof -
  have st: "store_inv w0 w []" and lg: "ledger w ({} \<union> {ow_sfresh w0 ..< ow_sfresh w})" and rs: "rs = [ow_fresh w0 ..< ow_fresh w]"
    and mf: "List.map_filter sink_ref ls = [ow_sfresh w0 ..< ow_sfresh w]" and h: "map (ow_heap w) rs = ls"
    and ok: "\<forall>l \<in> set ls. mode_ok l \<and> \<not> lo_done l \<and> lo_ln l = None"
    using c unfolding constructed_def by blast+
  have le: "ow_sfresh w0 \<le> ow_sfresh w" "ow_fresh w0 \<le> ow_fresh w" using st by (auto simp: store_inv_def)
  note bf = built_facts [OF b lg le(1)]
  have w2: "ow_heap w2 = (ow_heap w)(r := l)" "ow_sinks w2 = ow_sinks w1" "ow_sfresh w2 = ow_sfresh w1"
      "ow_files w2 = ow_files w1" "ow_held w2 = ow_held w1" "ow_fresh w2 = Suc r" and rf: "r = ow_fresh w"
    using al by (auto simp: alloc_def bf(3,4))
  have "map (ow_heap w2) rs = map (ow_heap w) rs" using rs by (simp add: w2(1) rf)
  then have "map (ow_heap w2) (rs @ [r]) = ls @ [l]" using h w2(1) by (simp del: map_eq_conv)
  moreover have "store_inv w0 w2 []" using out_alloc_store [OF bf(7) [OF st], of l] by (simp add: al)
  moreover have "List.map_filter sink_ref (ls @ [l]) = [ow_sfresh w0 ..< ow_sfresh w2]"
    using upt_glue [OF le(1) bf(5)] by (cases "sink_ref l") (simp_all add: mf w2(3) flip: bf(2))
  moreover have "ledger w2 ({} \<union> {ow_sfresh w0 ..< ow_sfresh w2})" using bf(1) ledger_cong [of w2 w1] w2 by simp
  moreover have "rs @ [r] = [ow_fresh w0 ..< ow_fresh w2]" using rs le(2) by (simp add: w2(6) rf)
  moreover have "mode_ok l \<and> \<not> lo_done l \<and> lo_ln l = None" using b by (simp add: built_def)
  ultimately show "constructed w0 w2 (rs @ [r]) (ls @ [l])" using ok unfolding constructed_def by auto
  show "map (view w2) (ls @ [l]) = map (view w) ls @ [view w1 l]" using views_extend [OF lg le(1) mf b w2(2)] .
qed

context listener_builder begin

lemma build_loop:
  assumes "constructed w0 w rs ls"
  shows "case for_idx (build new sec) i cfgs (rs, w) of
       Inl (e, rs', w') \<Rightarrow> \<exists>ls'. constructed w0 w' rs' ls'
     | Inr (rs', w') \<Rightarrow> \<exists>ls'. constructed w0 w' rs' (ls @ ls') \<and> map (view w') (ls @ ls') = map (view w) ls @ map want cfgs"
  using assms
proof (induction cfgs arbitrary: i rs w ls)
  case Nil
  then show ?case by (auto intro: exI [of _ "[]"])
next
  case (Cons cfg cfgs)
  obtain res w1 where n: "new cfg w = (res, w1)" by fastforce
  show ?case
  proof (cases res)
    case (Inl e)
    obtain k where "w1 = w\<lparr>ow_sinkErrors := k\<rparr>" using new_fails n Inl by blast
    moreover from this have "store_inv w0 w1 [] = store_inv w0 w []" "\<And>S. ledger w1 S = ledger w S"
      by (simp_all add: store_inv_def ledger_def)
    ultimately have "constructed w0 w1 rs ls" using Cons.prems unfolding constructed_def by auto
    then show ?thesis using n Inl by (auto simp: build_def)
  next
    case (Inr l)
    obtain r w2 where al: "alloc l w1 = (r, w2)" by fastforce
    have b: "built w l w1" "view w1 l = want cfg" using new_builds n Inr by blast+
    note ce = constructed_extend [OF Cons.prems b(1) al]
    have step: "build new sec i cfg (rs, w) = Inr (rs @ [r], w2)" using n Inr al by (simp add: build_def)
    show ?thesis
    proof (cases "for_idx (build new sec) (Suc i) cfgs (rs @ [r], w2)")
      case (Inl x)
      then show ?thesis using Cons.IH [OF ce(1), of "Suc i"] step by simp
    next
      case 2: (Inr y)
      obtain rs' w' where y: "y = (rs', w')" by fastforce
      from Cons.IH [OF ce(1), of "Suc i", unfolded 2 y sum.case prod.case ce(2) b(2)]
      obtain ls' where "constructed w0 w' rs' (ls @ l # ls')"
          "map (view w') (ls @ l # ls') = map (view w) ls @ map want (cfg # cfgs)" by auto
      then have "\<exists>ls'. constructed w0 w' rs' (ls @ ls') \<and> map (view w') (ls @ ls') = map (view w) ls @ map want (cfg # cfgs)"
        by blast
      then show ?thesis using step 2 y by (simp del: map_append list.map)
    qed
  qed
qed

end

lemma constructed_empty: "ledger w {} \<Longrightarrow> constructed w w [] []"
  by (simp add: constructed_def store_inv_def)

text \<open>Rolling back a server that is not complete: \<open>closeLogRelaySinks\<close> releases every sink opened for it.\<close>

lemma closeLogRelaySinks_facts:
  assumes "distinct rs" "\<forall>r \<in> set rs. mode_ok (ow_heap w r)" "ledger w S" "distinct (sinks_of w rs)" "set (sinks_of w rs) \<subseteq> S"
  shows "ledger (closeLogRelaySinks rs w) (S - set (sinks_of w rs)) \<and> ow_open (closeLogRelaySinks rs w) = ow_open w \<and>
     all_same w (closeLogRelaySinks rs w)"
  using assms
proof (induction rs arbitrary: w S)
  case Nil
  then show ?case by (simp add: closeLogRelaySinks_def all_same_def)
next
  case (Cons r rs)
  let ?w = "closeSink r w" and ?S = "S - set_option (sink_ref (ow_heap w r))"
  have "(if lo_mode (ow_heap w r) = modeLogRelay then closeSink r w else w) = ?w"
    using Cons.prems(2) by (auto simp: mode_ok_def closeSink_def)
  then have step: "closeLogRelaySinks (r # rs) w = closeLogRelaySinks rs ?w" by (simp add: closeLogRelaySinks_def)
  have old: "ow_heap ?w q = ow_heap w q" if "q \<in> set rs" for q using that Cons.prems(1) by (auto simp: closeSink_facts(1))
  have sk: "sinks_of ?w rs = sinks_of w rs" using old by (intro sinks_of_cong) simp
  have "ledger ?w ?S" using Cons.prems(3,5) by (intro closeSink_ledger) auto
  moreover have "distinct (sinks_of ?w rs)" "set (sinks_of ?w rs) \<subseteq> ?S" using Cons.prems(4,5) by (auto simp: sk)
  ultimately have "ledger (closeLogRelaySinks rs ?w) (?S - set (sinks_of w rs)) \<and> ow_open (closeLogRelaySinks rs ?w) = ow_open ?w \<and>
     all_same ?w (closeLogRelaySinks rs ?w)"
    using Cons.IH [of ?w ?S] Cons.prems(1,2) old unfolding sk by simp
  moreover have "?S - set (sinks_of w rs) = S - set (sinks_of w (r # rs))" by auto
  ultimately show ?case using step closeSink_facts(2) [of r w] all_same_trans [OF closeSink_facts(3)] by metis
qed

lemma constructed_sinks:
  assumes "constructed w0 w rs ls"
  shows "distinct rs" "\<forall>r \<in> set rs. mode_ok (ow_heap w r) \<and> \<not> lo_done (ow_heap w r) \<and> lo_ln (ow_heap w r) = None"
    "sinks_of w rs = [ow_sfresh w0 ..< ow_sfresh w]" "ledger w {ow_sfresh w0 ..< ow_sfresh w}"
    "\<forall>r \<in> set rs. ow_fresh w0 \<le> r \<and> r < ow_fresh w"
proof -
  have rs: "rs = [ow_fresh w0 ..< ow_fresh w]" "map (ow_heap w) rs = ls" "\<forall>l \<in> set ls. mode_ok l \<and> \<not> lo_done l \<and> lo_ln l = None"
    "List.map_filter sink_ref ls = [ow_sfresh w0 ..< ow_sfresh w]" "ledger w ({} \<union> {ow_sfresh w0 ..< ow_sfresh w})"
    using assms unfolding constructed_def by blast+
  show "distinct rs" "\<forall>r \<in> set rs. ow_fresh w0 \<le> r \<and> r < ow_fresh w" by (simp_all add: rs(1))
  show "\<forall>r \<in> set rs. mode_ok (ow_heap w r) \<and> \<not> lo_done (ow_heap w r) \<and> lo_ln (ow_heap w r) = None"
    using rs(2,3) by (metis image_eqI list.set_map)
  show "ledger w {ow_sfresh w0 ..< ow_sfresh w}" using rs(5) by simp
  show "sinks_of w rs = [ow_sfresh w0 ..< ow_sfresh w]"
    unfolding rs(4) [symmetric] rs(2) [symmetric] sinks_of_def by (intro map_filter_nth_cong) auto
qed

text \<open>Nothing left behind: no socket opened, no loop started, the log files as before.\<close>

definition clean :: "world \<Rightarrow> world \<Rightarrow> bool" where
  "clean w0 w \<longleftrightarrow> ow_open w = ow_open w0 \<and> ow_running w = ow_running w0 \<and> ow_files w = ow_files w0 \<and> ow_held w = ow_held w0"

lemma rollback_clean:
  assumes "ledger w0 {}" "constructed w0 w rs ls"
  shows "clean w0 (closeLogRelaySinks rs w)"
proof -
  note cs = constructed_sinks [OF assms(2)]
  have "ledger (closeLogRelaySinks rs w) {} \<and> ow_open (closeLogRelaySinks rs w) = ow_open w \<and> all_same w (closeLogRelaySinks rs w)"
    using closeLogRelaySinks_facts [OF cs(1) _ cs(4)] cs(2,3) by simp
  moreover have "ow_open w = ow_open w0" "ow_running w = ow_running w0" "ow_held w = ow_held w0"
    using assms(2) by (simp_all add: constructed_def store_inv_def)
  ultimately show ?thesis using ledger_files [OF assms(1)] ledger_files [of "closeLogRelaySinks rs w" "{}"] by (simp add: clean_def all_same_def)
qed

lemma build_total:
  assumes "\<forall>cfg \<in> set cfgs. \<exists>l. new cfg = Inr l"
  shows "\<exists>rs' w'. for_idx (build (pure_new new) sec) i cfgs (rs, w) = Inr (rs', w')"
  using assms
proof (induction cfgs arbitrary: i rs w)
  case (Cons cfg cfgs)
  then obtain l where l: "new cfg = Inr l" by auto
  obtain r w' where "alloc l w = (r, w')" by fastforce
  then show ?case using l Cons by (simp add: build_def pure_new_def)
qed simp

lemma NewServer_cases:
  assumes l0: "ledger w0 {}" and valid: "valid_config c"
  shows "case NewServer env (c_Outbound c) (c_VsockToTCP c) (c_LogRelay c) w0 of
       (Inl e, w) \<Rightarrow> clean w0 w
     | (Inr s, w) \<Rightarrow> \<not> so_ctx s \<and> (\<exists>ls. constructed w0 w (so_listeners s) ls \<and> map (view w) ls = out_wants c)"
proof -
  let ?b1 = "for_idx (build (pure_new newHTTPListener) ''outbound'') 0 (c_Outbound c)"
  let ?b2 = "for_idx (build (pure_new newVsockToTCPListener) ''vsock_to_tcp'') 0 (c_VsockToTCP c)"
  let ?b3 = "for_idx (build (newLogRelayListener (snd env)) ''log_relay'') 0 (c_LogRelay c)"
  have "\<forall>cfg \<in> set (c_Outbound c). \<exists>l. newHTTPListener cfg = Inr l" using valid_config_newHTTPListener [OF valid] by blast
  from build_total [OF this] obtain rs1 w1 where b1: "?b1 ([], w0) = Inr (rs1, w1)" by blast
  from http_listener.build_loop [OF constructed_empty [OF l0], where i = 0 and cfgs = "c_Outbound c" and sec = "''outbound''",
      unfolded b1 sum.case prod.case append_Nil list.map] obtain ls1 where c1: "constructed w0 w1 rs1 ls1"
      "map (view w1) ls1 = map http_view (c_Outbound c)"
    by blast
  have "\<forall>cfg \<in> set (c_VsockToTCP c). \<exists>l. newVsockToTCPListener cfg = Inr l" by (simp add: newVsockToTCPListener_def)
  from build_total [OF this] obtain rs2 w2 where b2: "?b2 (rs1, w1) = Inr (rs2, w2)" by blast
  from tcp_listener.build_loop [OF c1(1), where i = 0 and cfgs = "c_VsockToTCP c" and sec = "''vsock_to_tcp''",
      unfolded b2 sum.case prod.case c1(2)]
  obtain ls2 where c2: "constructed w0 w2 rs2 (ls1 @ ls2)"
      "map (view w2) (ls1 @ ls2) = map http_view (c_Outbound c) @ map tcp_view (c_VsockToTCP c)"
    by blast
  note l3 = relay_listener.build_loop [OF c2(1), where openFile = "snd env" and i = 0 and cfgs = "c_LogRelay c" and sec = "''log_relay''"]
  show ?thesis
  proof (cases "?b3 (rs2, w2)")
    case (Inl x)
    then obtain e rs w ls where "x = (e, rs, w)" "constructed w0 w rs ls" using l3 by (auto split: prod.splits)
    then show ?thesis using rollback_clean [OF l0] Inl b1 b2 by (simp add: NewServer_def)
  next
    case (Inr y)
    obtain rs w where y: "y = (rs, w)" by fastforce
    from l3 [unfolded Inr y sum.case prod.case c2(2)] obtain ls3 where "constructed w0 w rs ((ls1 @ ls2) @ ls3)"
        "map (view w) ((ls1 @ ls2) @ ls3) = out_wants c"
      unfolding out_wants_def append_assoc by blast
    then have "\<exists>ls. constructed w0 w rs ls \<and> map (view w) ls = out_wants c" by blast
    then show ?thesis using Inr y b1 b2 by (simp add: NewServer_def)
  qed
qed

lemma bind_frame:
  assumes "bind env r w = Inr w'"
  shows "ow_heap w' = (ow_heap w)(r := (ow_heap w r)\<lparr>lo_ln := Some (ow_sock w)\<rparr>)" "ow_sinks w' = ow_sinks w"
    "ow_sfresh w' = ow_sfresh w" "ow_files w' = ow_files w" "ow_held w' = ow_held w"
  using assms by (auto simp: bind_def Let_def split: if_splits)

lemma ln_refl: "\<exists>k. (l :: listener) = l\<lparr>lo_ln := k\<rparr>"
  by (rule exI [of _ "lo_ln l"]) simp

lemma bind_all_frame:
  assumes "bind_all env rs w = (res, w')" "distinct rs"
  shows "ow_sinks w' = ow_sinks w \<and> ow_sfresh w' = ow_sfresh w \<and> ow_files w' = ow_files w \<and> ow_held w' = ow_held w \<and>
     (\<forall>r. \<exists>k. ow_heap w' r = (ow_heap w r)\<lparr>lo_ln := k\<rparr>)"
  using assms
proof (induction rs arbitrary: w)
  case Nil
  then show ?case by (simp add: ln_refl)
next
  case (Cons r rs)
  show ?case
  proof (cases "bind env r w")
    case (Inl e)
    then show ?thesis using Cons.prems by (auto simp: ln_refl)
  next
    case (Inr w1)
    note bf = bind_frame [OF Inr]
    have IH: "ow_sinks w' = ow_sinks w1 \<and> ow_sfresh w' = ow_sfresh w1 \<and> ow_files w' = ow_files w1 \<and> ow_held w' = ow_held w1 \<and>
        (\<forall>r. \<exists>k. ow_heap w' r = (ow_heap w1 r)\<lparr>lo_ln := k\<rparr>)"
      using Cons.IH [of w1] Cons.prems Inr by simp
    have "\<exists>k. ow_heap w' q = (ow_heap w q)\<lparr>lo_ln := k\<rparr>" for q
    proof -
      obtain k where "ow_heap w' q = (ow_heap w1 q)\<lparr>lo_ln := k\<rparr>" using IH by blast
      then show ?thesis by (cases "q = r") (auto simp: bf(1))
    qed
    then show ?thesis using IH bf by simp
  qed
qed

lemma out_bind_all_store:
  assumes "store_inv w0 w news" "distinct (news @ rs)"
    and "\<forall>r \<in> set rs. ow_fresh w0 \<le> r \<and> r < ow_fresh w \<and> \<not> lo_done (ow_heap w r)"
  shows "case bind_all env rs w of
      (Inl e, w1) \<Rightarrow> \<exists>bound. set bound \<subseteq> set (news @ rs) \<and> store_inv w0 w1 bound
    | (Inr _, w1) \<Rightarrow> store_inv w0 w1 (news @ rs)"
  using assms
proof (induction rs arbitrary: w news)
  case (Cons r rs)
  show ?case
  proof (cases "bind env r w")
    case (Inl e)
    then show ?thesis using Cons.prems(1) by (auto intro: exI [of _ news])
  next
    case (Inr w1)
    have r: "ow_fresh w0 \<le> r" "r < ow_fresh w" "r \<notin> set news" "\<not> lo_done (ow_heap w r)" using Cons.prems by auto
    note b = out_bind_store [OF Cons.prems(1) Inr r]
    have q: "\<forall>q \<in> set rs. ow_fresh w0 \<le> q \<and> q < ow_fresh w1 \<and> \<not> lo_done (ow_heap w1 q)"
      using Cons.prems(2,3) b(3,4) by auto
    have d: "distinct ((news @ [r]) @ rs)" using Cons.prems(2) by simp
    have "case bind_all env rs w1 of
        (Inl e, w1) \<Rightarrow> \<exists>bound. set bound \<subseteq> set (news @ r # rs) \<and> store_inv w0 w1 bound
      | (Inr _, w1) \<Rightarrow> store_inv w0 w1 (news @ r # rs)"
      using Cons.IH [OF b(1) d q] unfolding append_assoc append_Cons append_Nil .
    then show ?thesis using Inr by simp
  qed
qed simp

lemma out_Start_cases:
  assumes l0: "ledger w0 {}" "ow_open w0 = {}" and c: "constructed w0 w rs ls" and ports: "distinct (map lo_port ls)"
  shows "case Start env \<lparr>so_listeners = rs, so_ctx = False\<rparr> w of
      (Inl e, s', w') \<Rightarrow> clean w0 w'
    | (Inr _, s', w') \<Rightarrow> srv_inv s' w' \<and> out_serves s' w' = map (view w) ls"
proof -
  note cs = constructed_sinks [OF c]
  have st: "store_inv w0 w []" and h: "map (ow_heap w) rs = ls" using c unfolding constructed_def by blast+
  obtain res w1 where b: "bind_all env rs w = (res, w1)" by fastforce
  note fr = bind_all_frame [OF b cs(1)]
  have ex: "\<exists>k. ow_heap w1 r = (ow_heap w r)\<lparr>lo_ln := k\<rparr>" for r using fr by blast
  have keep: "view w1 (ow_heap w1 r) = view w (ow_heap w r) \<and> mode_ok (ow_heap w1 r) = mode_ok (ow_heap w r) \<and>
      lo_done (ow_heap w1 r) = lo_done (ow_heap w r) \<and> sink_ref (ow_heap w1 r) = sink_ref (ow_heap w r) \<and>
      lo_port (ow_heap w1 r) = lo_port (ow_heap w r)" for r
  proof -
    obtain k where k: "ow_heap w1 r = (ow_heap w r)\<lparr>lo_ln := k\<rparr>" using ex by blast
    have "ow_sinks w1 = ow_sinks w" using fr by blast
    then show ?thesis by (simp add: k view_def mode_ok_def sink_ref_def upstreamSnapshot_def matchersSnapshot_def)
  qed
  have sk: "sinks_of w1 rs = [ow_sfresh w0 ..< ow_sfresh w]"
    unfolding cs(3) [symmetric] sinks_of_def by (intro map_filter_nth_cong) (simp_all add: keep)
  have lg: "ledger w1 {ow_sfresh w0 ..< ow_sfresh w}" using cs(4) fr ledger_cong [of w1 w] by blast
  have bs: "case bind_all env rs w of
      (Inl e, w1) \<Rightarrow> \<exists>bound. set bound \<subseteq> set ([] @ rs) \<and> store_inv w0 w1 bound
    | (Inr _, w1) \<Rightarrow> store_inv w0 w1 ([] @ rs)"
    using out_bind_all_store [OF st] cs(1,2,5) by simp
  show ?thesis
  proof (cases res)
    case (Inl e)
    then obtain bound where bd: "set bound \<subseteq> set rs" "store_inv w0 w1 bound" using bs b by auto
    have "closes w1 {ow_sfresh w0 ..< ow_sfresh w} rs (fold close rs w1)"
      using cs(1,2) keep sk by (intro close_all [OF _ _ lg]) auto
    then have cl: "ow_open (fold close rs w1) = ow_open w1 - socks w1 rs" "all_same w1 (fold close rs w1)" "ledger (fold close rs w1) {}"
      using sk by (auto simp: closes_def)
    have "ow_open w1 = socks w1 bound" "ow_running w1 = ow_running w0" "ow_held w1 = ow_held w0"
      using bd(2) l0(2) store_inv_socks [OF bd(2)] by (simp_all add: store_inv_def)
    then have "clean w0 (fold close rs w1)"
      using cl bd(1) ledger_files [OF l0(1)] ledger_files [OF cl(3)] l0(2) by (auto simp: clean_def all_same_def)
    then show ?thesis using b Inl by (simp add: Start_def)
  next
    case (Inr u)
    then have s1: "store_inv w0 w1 rs" using bs b by simp
    let ?w = "w1\<lparr>ow_running := ow_running w1 @ rs\<rparr>"
    have v: "map (\<lambda>r. view w1 (ow_heap w1 r)) rs = map (view w) ls" using keep by (auto simp: h [symmetric])
    have p: "map (\<lambda>r. lo_port (ow_heap w1 r)) rs = map lo_port ls" using keep by (auto simp: h [symmetric])
    have "ledger ?w {ow_sfresh w0 ..< ow_sfresh w}" using lg by (simp add: ledger_def)
    moreover have "sinks_of ?w rs = sinks_of w1 rs" "\<And>l. view ?w l = view w1 l" by (simp_all add: sinks_of_def view_def)
    ultimately have "srv_inv \<lparr>so_listeners = rs, so_ctx = True\<rparr> ?w"
      using s1 l0(2) cs(2) keep p ports sk by (simp add: srv_inv_def store_inv_def)
    then show ?thesis
      using b Inr v \<open>\<And>l. view ?w l = view w1 l\<close> by (simp add: Start_def out_serves_def out_fold_start_loop)
  qed
qed

section \<open>Properties of the outbound server\<close>

lemma out_Start_publishes:
  assumes "valid_config c" "ow_open w0 = {}" "ledger w0 {}"
  shows "case NewServer env (c_Outbound c) (c_VsockToTCP c) (c_LogRelay c) w0 of
       (Inl e, w) \<Rightarrow> clean w0 w
     | (Inr s, w) \<Rightarrow>
         (case Start env s w of
            (Inl e, s', w') \<Rightarrow> clean w0 w'
          | (Inr _, s', w') \<Rightarrow> srv_inv s' w' \<and> out_serves s' w' = out_wants c)"
proof -
  note n = NewServer_cases [OF assms(3,1), of env]
  obtain res w where r: "NewServer env (c_Outbound c) (c_VsockToTCP c) (c_LogRelay c) w0 = (res, w)" by fastforce
  show ?thesis
  proof (cases res)
    case (Inl e)
    then show ?thesis using n r by simp
  next
    case (Inr s)
    then obtain ls where c: "constructed w0 w (so_listeners s) ls" "map (view w) ls = out_wants c" "\<not> so_ctx s"
      using n r by auto
    then have s: "\<lparr>so_listeners = so_listeners s, so_ctx = False\<rparr> = s" by simp
    show ?thesis
      using out_Start_cases [OF assms(3,2) c(1) plan_ports [OF assms(1) c(2)], of env]
      unfolding r Inr prod.case sum.case s c(2) .
  qed
qed

text \<open>
  Start of the outbound server is all or nothing, log files included: on a validated configuration and with
  no socket open and no log sink owned, \<open>NewServer\<close> followed by \<open>Start\<close> either leaves a running server
  that serves exactly the configured listeners, in order, or fails (a log file cannot be opened, a port
  cannot be bound) with every socket and every log file it had opened closed again and no accept loop
  started.
\<close>

theorem outbound_start_clean:
  assumes "valid_config c" "ow_open w0 = {}" "ledger w0 {}"
  shows "case NewServer env (c_Outbound c) (c_VsockToTCP c) (c_LogRelay c) w0 of
       (Inl e, w) \<Rightarrow> clean w0 w
     | (Inr s, w) \<Rightarrow>
         (case Start env s w of
            (Inl e, s', w') \<Rightarrow> clean w0 w'
          | (Inr _, s', w') \<Rightarrow> srv_inv s' w' \<and> out_serves s' w' = out_wants c)"
  using out_Start_publishes [OF assms] .

text \<open>
  C13. A reload of the outbound server is atomic and leaks nothing: on a running server and a validated
  configuration \<open>Apply\<close> either publishes exactly that configuration (allowlists, upstreams, sinks with their
  enrichment and line limits), or fails and leaves every listener, socket and log file as it was. Either
  way the log files open afterwards are exactly those some listener owns or some connection still writes to.
\<close>

theorem outbound_Apply_atomic:
  assumes "srv_inv s w" "valid_config c"
    and "Apply env (c_Outbound c) (c_VsockToTCP c) (c_LogRelay c) s w = (r, s', w')"
  shows "srv_inv s' w' \<and> ow_files w' = set (sinks_of w' (so_listeners s')) \<union> {a. 0 < ow_held w' a} \<and>
     (case r of
        Inr _ \<Rightarrow> out_serves s' w' = out_wants c
      | Inl _ \<Rightarrow> s' = s \<and> out_serves s' w' = out_serves s w \<and> ow_open w' = ow_open w \<and> ow_files w' = ow_files w)"
proof -
  have "outbound.reload env c s w = (s', w', is_ok r)"
    using assms(3) by (auto simp: outbound.reload_def Apply_def out_prepare_def is_ok_iff split: prod.splits sum.splits)
  from outbound.reload_keeps_running [OF assms(1,2) this] show ?thesis
    using ledger_files by (auto simp: is_ok_iff srv_inv_def split: if_splits sum.splits)
qed

section \<open>Witnesses\<close>

definition fresh_world :: world where
  "fresh_world = \<lparr>ow_heap = (\<lambda>_. \<lparr>lo_port = 0, lo_mode = [], lo_ln = None, lo_done = False, lo_matchers = None,
       lo_upstream = None, lo_relay = None\<rparr>), ow_fresh = 0, ow_open = {}, ow_sock = 0, ow_running = [],
     ow_sinks = (\<lambda>_. newRefSink StdoutSink), ow_sfresh = 0, ow_files = {}, ow_held = (\<lambda>_. 0), ow_sinkErrors = 0\<rparr>"

definition open_env :: out_env2 where
  "open_env = ((\<lambda>_ _. True), (\<lambda>_ _. True))"

lemma fresh_world_empty: "ow_open fresh_world = {}" "ledger fresh_world {}"
  by (simp_all add: fresh_world_def ledger_def)

theorem outbound_start_clean_witness:
  "valid_config sample_config \<and> ow_open fresh_world = {} \<and> ledger fresh_world {} \<and>
   (case NewServer open_env (c_Outbound sample_config) (c_VsockToTCP sample_config) (c_LogRelay sample_config) fresh_world of
       (Inl e, w) \<Rightarrow> clean fresh_world w
     | (Inr s, w) \<Rightarrow>
         (case Start open_env s w of
            (Inl e, s', w') \<Rightarrow> clean fresh_world w'
          | (Inr _, s', w') \<Rightarrow> srv_inv s' w' \<and> out_serves s' w' = out_wants sample_config))"
  using outbound_start_clean [OF sample_config_valid fresh_world_empty, of open_env] fresh_world_empty sample_config_valid
  by blast

definition sample_outbound_started :: "Server \<times> world" where
  "sample_outbound_started = snd (Start open_env \<lparr>so_listeners = [], so_ctx = False\<rparr> fresh_world)"

theorem outbound_Apply_atomic_witness:
  "case sample_outbound_started of (s, w) \<Rightarrow> srv_inv s w \<and>
     (case Apply open_env (c_Outbound sample_config) (c_VsockToTCP sample_config) (c_LogRelay sample_config) s w of (r, s', w') \<Rightarrow>
       srv_inv s' w' \<and> ow_files w' = set (sinks_of w' (so_listeners s')) \<union> {a. 0 < ow_held w' a} \<and>
       (case r of
          Inr _ \<Rightarrow> out_serves s' w' = out_wants sample_config
        | Inl _ \<Rightarrow> s' = s \<and> out_serves s' w' = out_serves s w \<and> ow_open w' = ow_open w \<and> ow_files w' = ow_files w))"
proof -
  obtain s w where sw: "sample_outbound_started = (s, w)" by fastforce
  have "s = \<lparr>so_listeners = [], so_ctx = True\<rparr>" "w = fresh_world"
    using sw by (auto simp: sample_outbound_started_def Start_def fresh_world_def)
  then have inv: "srv_inv s w" using fresh_world_empty by (simp add: srv_inv_def)
  obtain r s' w' where a: "Apply open_env (c_Outbound sample_config) (c_VsockToTCP sample_config) (c_LogRelay sample_config) s w = (r, s', w')"
    by (metis prod_cases3)
  show ?thesis unfolding sw prod.case a using inv outbound_Apply_atomic [OF inv sample_config_valid a] by simp
qed

end
