(* ===== verification/App.thy ===== *)
theory App
  imports Inbound Outbound_Start
begin

text \<open>
  \<open>internal/app/app.go\<close> and the signal loop of \<open>cmd/vsockd/main.go\<close>: the two servers and the metrics endpoint as
  one lifecycle. What the environment decides (whether an address can be bound, a log file opened, what
  the configuration file decodes to, whether connections drain in time) is an argument of each operation.
\<close>

section \<open>Two subsystems reloaded together\<close>

locale stager_pair =
  A: stager runA serA resA valid wantA prepA comA abA +
  B: stager runB serB resB valid wantB prepB comB abB
  for runA :: "'s \<Rightarrow> 'w \<Rightarrow> bool" and serA :: "'s \<Rightarrow> 'w \<Rightarrow> 'v" and resA :: "'w \<Rightarrow> 'r" and valid :: "'c \<Rightarrow> bool"
    and wantA :: "'c \<Rightarrow> 'v" and prepA :: "'n \<Rightarrow> 'c \<Rightarrow> 's \<Rightarrow> 'w \<Rightarrow> ('e + 'p) \<times> 'w"
    and comA :: "'p \<Rightarrow> 's \<Rightarrow> 'w \<Rightarrow> 's \<times> 'w" and abA :: "'p \<Rightarrow> 'w \<Rightarrow> 'w"
    and runB :: "'s2 \<Rightarrow> 'w2 \<Rightarrow> bool" and serB :: "'s2 \<Rightarrow> 'w2 \<Rightarrow> 'v2" and resB :: "'w2 \<Rightarrow> 'r2"
    and wantB :: "'c \<Rightarrow> 'v2" and prepB :: "'n2 \<Rightarrow> 'c \<Rightarrow> 's2 \<Rightarrow> 'w2 \<Rightarrow> ('e2 + 'p2) \<times> 'w2"
    and comB :: "'p2 \<Rightarrow> 's2 \<Rightarrow> 'w2 \<Rightarrow> 's2 \<times> 'w2" and abB :: "'p2 \<Rightarrow> 'w2 \<Rightarrow> 'w2"
begin

text \<open>Stage the first, then the second; if the second fails the first is aborted.\<close>

definition prep_both :: "'n \<times> 'n2 \<Rightarrow> 'c \<Rightarrow> 's \<times> 's2 \<Rightarrow> 'w \<times> 'w2 \<Rightarrow> (('e + 'e2) + 'p \<times> 'p2) \<times> 'w \<times> 'w2" where
  "prep_both env c s w =
     (case prepA (fst env) c (fst s) (fst w) of
        (Inl e, wA) \<Rightarrow> (Inl (Inl e), (wA, snd w))
      | (Inr p, wA) \<Rightarrow>
          (case prepB (snd env) c (snd s) (snd w) of
             (Inl e, wB) \<Rightarrow> (Inl (Inr e), (abA p wA, wB))
           | (Inr q, wB) \<Rightarrow> (Inr (p, q), (wA, wB))))"

definition com_both :: "'p \<times> 'p2 \<Rightarrow> 's \<times> 's2 \<Rightarrow> 'w \<times> 'w2 \<Rightarrow> ('s \<times> 's2) \<times> 'w \<times> 'w2" where
  "com_both p s w =
     (case comA (fst p) (fst s) (fst w) of (sA, wA) \<Rightarrow> case comB (snd p) (snd s) (snd w) of (sB, wB) \<Rightarrow> ((sA, sB), (wA, wB)))"

definition ab_both :: "'p \<times> 'p2 \<Rightarrow> 'w \<times> 'w2 \<Rightarrow> 'w \<times> 'w2" where
  "ab_both p w = (abA (fst p) (fst w), abB (snd p) (snd w))"

lemma prep_both_Inr:
  "prep_both env c s w = (Inr p, w') \<longleftrightarrow> prepA (fst env) c (fst s) (fst w) = (Inr (fst p), fst w') \<and>
     prepB (snd env) c (snd s) (snd w) = (Inr (snd p), snd w')"
  by (cases p; cases w') (auto simp: prep_both_def split: prod.splits sum.splits)

lemma prep_both_Inl:
  "prep_both env c s w = (Inl e, w') \<Longrightarrow>
     (\<exists>e1. prepA (fst env) c (fst s) (fst w) = (Inl e1, fst w') \<and> snd w' = snd w) \<or>
     (\<exists>p wA e2. prepA (fst env) c (fst s) (fst w) = (Inr p, wA) \<and> fst w' = abA p wA \<and>
        prepB (snd env) c (snd s) (snd w) = (Inl e2, snd w'))"
  by (auto simp: prep_both_def split: prod.splits sum.splits)

end

text \<open>The pair keeps the same contract.\<close>

sublocale stager_pair \<subseteq> both: stager "\<lambda>s w. runA (fst s) (fst w) \<and> runB (snd s) (snd w)" "\<lambda>s w. (serA (fst s) (fst w), serB (snd s) (snd w))"
  "\<lambda>w. (resA (fst w), resB (snd w))" valid "\<lambda>c. (wantA c, wantB c)" prep_both com_both ab_both
proof
  fix s w env c e w'
  assume run: "runA (fst s) (fst w) \<and> runB (snd s) (snd w)" and p: "prep_both env c s w = (Inl e, w')"
  consider e1 where "prepA (fst env) c (fst s) (fst w) = (Inl e1, fst w')" "snd w' = snd w"
    | q wA e2 where "prepA (fst env) c (fst s) (fst w) = (Inr q, wA)" "fst w' = abA q wA" "prepB (snd env) c (snd s) (snd w) = (Inl e2, snd w')"
    using prep_both_Inl [OF p] by blast
  then show "(runA (fst s) (fst w') \<and> runB (snd s) (snd w')) \<and> (serA (fst s) (fst w'), serB (snd s) (snd w')) = (serA (fst s) (fst w), serB (snd s) (snd w)) \<and>
      (resA (fst w'), resB (snd w')) = (resA (fst w), resB (snd w))"
  proof cases
    case (1 e1)
    then show ?thesis using A.prepare_fails [OF _ 1(1)] run by simp
  next
    case (2 q wA e2)
    then show ?thesis using A.abort_undoes [OF _ 2(1)] B.prepare_fails [OF _ 2(3)] run by simp
  qed
next
  fix s w env c p w'
  assume run: "runA (fst s) (fst w) \<and> runB (snd s) (snd w)" and p: "prep_both env c s w = (Inr p, w')"
  then show "(runA (fst s) (fst (ab_both p w')) \<and> runB (snd s) (snd (ab_both p w'))) \<and>
      (serA (fst s) (fst (ab_both p w')), serB (snd s) (snd (ab_both p w'))) = (serA (fst s) (fst w), serB (snd s) (snd w)) \<and>
      (resA (fst (ab_both p w')), resB (snd (ab_both p w'))) = (resA (fst w), resB (snd w))"
    using A.abort_undoes [of "fst s" "fst w" "fst env" c "fst p" "fst w'"] B.abort_undoes [of "snd s" "snd w" "snd env" c "snd p" "snd w'"]
    by (simp add: prep_both_Inr ab_both_def)
next
  fix s w c env p w'
  assume "runA (fst s) (fst w) \<and> runB (snd s) (snd w)" "valid c" "prep_both env c s w = (Inr p, w')"
  then show "case com_both p s w' of (s'', w'') \<Rightarrow> (runA (fst s'') (fst w'') \<and> runB (snd s'') (snd w'')) \<and>
      (serA (fst s'') (fst w''), serB (snd s'') (snd w'')) = (wantA c, wantB c)"
    using A.commit_publishes [of "fst s" "fst w" c "fst env" "fst p" "fst w'"] B.commit_publishes [of "snd s" "snd w" c "snd env" "snd p" "snd w'"]
    by (auto simp: prep_both_Inr com_both_def split: prod.splits)
qed

interpretation servers: stager_pair Inbound.srv_inv in_serves w_open valid_config in_wants in_prepare
  "\<lambda>p s w. snd (Inbound.CommitApply p s w)" "\<lambda>p w. snd (Inbound.AbortApply p w)"
  Outbound_Reload.srv_inv out_serves resources out_wants out_prepare
  "\<lambda>p s w. snd (Outbound.CommitApply p s w)" "\<lambda>p w. snd (Outbound.AbortApply p w)"
  by unfold_locales

section \<open>Loading the configuration\<close>

text \<open>What opening and decoding the file gives; an empty file leaves the zero configuration.\<close>

datatype yaml_result = OpenError | DecodeError | DecodeEOF | Decoded Config

datatype app_error =
    LoadError
  | Invalid config_error
  | InboundError in_error
  | OutboundError out_error
  | MetricsListenError
  | MetricsExclusive
  | DeadlineExceeded bytes

definition zero_config :: Config where
  "zero_config = \<lparr>c_Inbound = [], c_Outbound = [], c_TCPToVsock = [], c_VsockToTCP = [], c_LogRelay = [],
     c_Metrics = \<lparr>mc_Bind = [], mc_VsockPort = 0\<rparr>, c_ShutdownGrace = 0, c_LogFormat = [], c_LogLevel = []\<rparr>"

definition Load :: "yaml_result \<Rightarrow> app_error + Config" where
  "Load y =
     (case y of
        OpenError \<Rightarrow> Inl LoadError
      | DecodeError \<Rightarrow> Inl LoadError
      | DecodeEOF \<Rightarrow> res_wrap Invalid (Validate zero_config)
      | Decoded c \<Rightarrow> res_wrap Invalid (Validate c))"

section \<open>The application\<close>

record Options =
  o_Config :: Config
  o_MetricsAddr :: bytes
  o_MetricsVsockPort :: uint32

record App =
  a_opts :: Options
  a_inbound :: Inbound.Server
  a_out :: Outbound.Server
  a_metricsLn :: bool
  a_currentCfg :: Config

text \<open>The world of the process: that of each server, whether the metrics listener is open, and \<open>config_reloads_total\<close>.\<close>

record app_world =
  aw_in :: Inbound.world
  aw_out :: Outbound.world
  aw_metrics :: bool
  aw_reload_success :: nat
  aw_reload_failure :: nat

record app_env =
  e_listen :: "Inbound.world \<Rightarrow> bytes \<Rightarrow> bool"
  e_vsock :: out_env2
  e_metrics :: bool

definition DefaultShutdownGrace :: int where "DefaultShutdownGrace = 30 * 10 ^ 9"

definition New_app :: "app_env \<Rightarrow> Options \<Rightarrow> app_world \<Rightarrow> (app_error + App) \<times> app_world" where
  "New_app env opts w =
     (let c = o_Config opts in
      case Inbound.NewServer (c_Inbound c) (c_TCPToVsock c) (aw_in w) of
        Inl e \<Rightarrow> (Inl (InboundError e), w)
      | Inr (i, wi) \<Rightarrow>
          (case Outbound.NewServer (e_vsock env) (c_Outbound c) (c_VsockToTCP c) (c_LogRelay c) (aw_out w) of
             (Inl e, wo) \<Rightarrow> (Inl (OutboundError e), w\<lparr>aw_in := wi, aw_out := wo\<rparr>)
           | (Inr out, wo) \<Rightarrow>
               (Inr \<lparr>a_opts = opts, a_inbound = i, a_out = out, a_metricsLn = False, a_currentCfg = c\<rparr>,
                w\<lparr>aw_in := wi, aw_out := wo\<rparr>)))"

definition serveMetricsOn :: "App \<Rightarrow> App" where
  "serveMetricsOn a = a\<lparr>a_metricsLn := True\<rparr>"

text \<open>Both servers shut down, as \<open>Start\<close> does when the metrics listener cannot be opened.\<close>

definition shut_both :: "App \<Rightarrow> app_world \<Rightarrow> app_world" where
  "shut_both a w = w\<lparr>aw_in := Inbound.Shutdown_close (a_inbound a) (aw_in w), aw_out := Outbound.Shutdown_close (a_out a) (aw_out w)\<rparr>"

definition Start_app :: "app_env \<Rightarrow> App \<Rightarrow> app_world \<Rightarrow> (app_error + unit) \<times> App \<times> app_world" where
  "Start_app env a w =
     (if o_MetricsAddr (a_opts a) \<noteq> [] \<and> o_MetricsVsockPort (a_opts a) \<noteq> 0 then (Inl MetricsExclusive, a, w)
      else
        case Inbound.Start (e_listen env) (a_inbound a) (aw_in w) of
          (Inl e, i, wi) \<Rightarrow> (Inl (InboundError e), a\<lparr>a_inbound := i\<rparr>, w\<lparr>aw_in := wi\<rparr>)
        | (Inr _, i, wi) \<Rightarrow>
            (case Outbound.Start (e_vsock env) (a_out a) (aw_out w) of
               (Inl e, out, wo) \<Rightarrow>
                 (Inl (OutboundError e), a\<lparr>a_inbound := i, a_out := out\<rparr>, w\<lparr>aw_in := Inbound.Shutdown_close i wi, aw_out := wo\<rparr>)
             | (Inr _, out, wo) \<Rightarrow>
                 let a1 = a\<lparr>a_inbound := i, a_out := out\<rparr>; w1 = w\<lparr>aw_in := wi, aw_out := wo\<rparr> in
                 if o_MetricsAddr (a_opts a) \<noteq> [] \<or> o_MetricsVsockPort (a_opts a) \<noteq> 0 then
                   if e_metrics env then (Inr (), serveMetricsOn a1, w1\<lparr>aw_metrics := True\<rparr>)
                   else (Inl MetricsListenError, a1, shut_both a1 w1)
                 else (Inr (), a1, w1)))"

definition reload_failed :: "app_world \<Rightarrow> app_world" where
  "reload_failed w = w\<lparr>aw_reload_failure := Suc (aw_reload_failure w)\<rparr>"

definition Reload :: "yaml_result \<Rightarrow> app_env \<Rightarrow> App \<Rightarrow> app_world \<Rightarrow> (app_error + unit) \<times> App \<times> app_world" where
  "Reload file env a w =
     (case Load file of
        Inl e \<Rightarrow> (Inl e, a, reload_failed w)
      | Inr cfg \<Rightarrow>
          (case Inbound.PrepareApply (e_listen env) (c_Inbound cfg) (c_TCPToVsock cfg) (a_inbound a) (aw_in w) of
             (Inl e, wi) \<Rightarrow> (Inl (InboundError e), a, reload_failed (w\<lparr>aw_in := wi\<rparr>))
           | (Inr inPlan, wi) \<Rightarrow>
               (case Outbound.PrepareApply (e_vsock env) (c_Outbound cfg) (c_VsockToTCP cfg) (c_LogRelay cfg) (a_out a) (aw_out w) of
                  (Inl e, wo) \<Rightarrow>
                    (Inl (OutboundError e), a, reload_failed (w\<lparr>aw_in := snd (Inbound.AbortApply inPlan wi), aw_out := wo\<rparr>))
                | (Inr outPlan, wo) \<Rightarrow>
                    (case Inbound.CommitApply inPlan (a_inbound a) wi of (_, i, wi') \<Rightarrow>
                     case Outbound.CommitApply outPlan (a_out a) wo of (_, out, wo') \<Rightarrow>
                       (Inr (), a\<lparr>a_inbound := i, a_out := out, a_currentCfg := cfg\<rparr>,
                        w\<lparr>aw_in := wi', aw_out := wo', aw_reload_success := Suc (aw_reload_success w)\<rparr>)))))"

definition grace :: "App \<Rightarrow> int" where
  "grace a = (let g = c_ShutdownGrace (a_currentCfg a) in if g \<le> 0 then DefaultShutdownGrace else g)"

text \<open>
  The three shutdowns run concurrently within the grace window; the arguments say which of them drained in
  time. The listening sockets are closed in any case, the metrics one by its own server or by force.
\<close>

definition Shutdown_app :: "bool \<Rightarrow> bool \<Rightarrow> bool \<Rightarrow> App \<Rightarrow> app_world \<Rightarrow> (app_error + unit) \<times> app_world" where
  "Shutdown_app inDrained outDrained metricsDrained a w =
     (let w1 = (shut_both a w)\<lparr>aw_metrics := (if a_metricsLn a then False else aw_metrics w)\<rparr> in
      (if \<not> inDrained then Inl (DeadlineExceeded ''inbound shutdown'')
       else if \<not> outDrained then Inl (DeadlineExceeded ''outbound shutdown'')
       else if a_metricsLn a \<and> \<not> metricsDrained then Inl (DeadlineExceeded ''metrics shutdown'')
       else Inr (), w1))"

section \<open>The signal loop\<close>

datatype os_signal = SIGHUP yaml_result app_env | SIGTERM bool bool bool | SIGINT bool bool bool

fun runSignalLoop :: "os_signal list \<Rightarrow> App \<Rightarrow> app_world \<Rightarrow> int \<times> App \<times> app_world" where
  "runSignalLoop [] a w = (0, a, w)"
| "runSignalLoop (SIGHUP file env # sigs) a w =
     (case Reload file env a w of (_, a', w') \<Rightarrow> runSignalLoop sigs a' w')"
| "runSignalLoop (SIGTERM i m1 m2 # sigs) a w =
     (case Shutdown_app i m1 m2 a w of (Inl _, w') \<Rightarrow> (1, a, w') | (Inr _, w') \<Rightarrow> (0, a, w'))"
| "runSignalLoop (SIGINT i m1 m2 # sigs) a w =
     (case Shutdown_app i m1 m2 a w of (Inl _, w') \<Rightarrow> (1, a, w') | (Inr _, w') \<Rightarrow> (0, a, w'))"

definition is_hup :: "os_signal \<Rightarrow> bool" where
  "is_hup s = (case s of SIGHUP _ _ \<Rightarrow> True | _ \<Rightarrow> False)"

section \<open>The invariant of a running application\<close>

text \<open>Both servers run and serve exactly the current configuration.\<close>

definition app_inv :: "App \<Rightarrow> app_world \<Rightarrow> bool" where
  "app_inv a w \<longleftrightarrow> Inbound.srv_inv (a_inbound a) (aw_in w) \<and> Outbound_Reload.srv_inv (a_out a) (aw_out w) \<and>
     valid_config (a_currentCfg a) \<and> in_serves (a_inbound a) (aw_in w) = in_wants (a_currentCfg a) \<and>
     out_serves (a_out a) (aw_out w) = out_wants (a_currentCfg a)"

lemma Load_valid: "Load y = Inr c \<Longrightarrow> valid_config c"
proof -
  have "valid_config c" if "Validate c0 = Inr c" for c0
  proof -
    have "valid_config c0" using Validate_ok_iff [of c0] that by simp
    then show ?thesis using Validate_Inr [OF that] valid_config_defaults by simp
  qed
  then show "Load y = Inr c \<Longrightarrow> valid_config c"
    by (auto simp: Load_def res_wrap_def split: yaml_result.splits sum.splits)
qed

lemma Reload_reload:
  assumes "Load file = Inr cfg" "Reload file env a w = (r, a', w')"
  shows "servers.both.reload (e_listen env, e_vsock env) cfg (a_inbound a, a_out a) (aw_in w, aw_out w) =
      ((a_inbound a', a_out a'), (aw_in w', aw_out w'), is_ok r)"
    "a_currentCfg a' = (if is_ok r then cfg else a_currentCfg a)" "a_opts a' = a_opts a" "a_metricsLn a' = a_metricsLn a"
    "aw_metrics w' = aw_metrics w"
    "aw_reload_success w' = aw_reload_success w + (if is_ok r then 1 else 0)"
    "aw_reload_failure w' = aw_reload_failure w + (if is_ok r then 0 else 1)"
  using assms
  by (auto simp: Reload_def servers.both.reload_def servers.prep_both_def servers.com_both_def in_prepare_def out_prepare_def
      reload_failed_def split: prod.splits sum.splits)

lemma Reload_failed_load:
  "Load file = Inl e \<Longrightarrow> Reload file env a w = (Inl e, a, reload_failed w)"
  by (simp add: Reload_def)

lemma Reload_cases:
  assumes "app_inv a w" "Reload file env a w = (r, a', w')"
  shows "app_inv a' w' \<and> aw_metrics w' = aw_metrics w \<and> a_metricsLn a' = a_metricsLn a \<and>
     (case r of
        Inr _ \<Rightarrow> Load file = Inr (a_currentCfg a') \<and> aw_reload_success w' = Suc (aw_reload_success w) \<and>
          aw_reload_failure w' = aw_reload_failure w
      | Inl _ \<Rightarrow> a_currentCfg a' = a_currentCfg a \<and> a_inbound a' = a_inbound a \<and> a_out a' = a_out a \<and>
          w_open (aw_in w') = w_open (aw_in w) \<and> resources (aw_out w') = resources (aw_out w) \<and>
          aw_reload_success w' = aw_reload_success w \<and> aw_reload_failure w' = Suc (aw_reload_failure w))"
proof (cases "Load file")
  case (Inl e)
  then have "r = Inl e" "a' = a" "w' = reload_failed w" using assms(2) Reload_failed_load by auto
  then show ?thesis using assms(1) by (simp add: app_inv_def reload_failed_def)
next
  case (Inr cfg)
  note rr = Reload_reload [OF Inr assms(2)]
  have v: "valid_config cfg" using Load_valid [OF Inr] .
  have inv: "Inbound.srv_inv (a_inbound a) (aw_in w)" "Outbound_Reload.srv_inv (a_out a) (aw_out w)"
    "valid_config (a_currentCfg a)" "in_serves (a_inbound a) (aw_in w) = in_wants (a_currentCfg a)"
    "out_serves (a_out a) (aw_out w) = out_wants (a_currentCfg a)"
    using assms(1) unfolding app_inv_def by blast+
  note k = servers.both.reload_keeps_running [OF _ v rr(1), simplified]
  show ?thesis
  proof (cases r)
    case f: (Inl e)
    then show ?thesis using k inv rr by (auto simp: app_inv_def)
  next
    case g: (Inr u)
    then show ?thesis using k inv rr v Inr by (auto simp: app_inv_def)
  qed
qed

section \<open>Start and shutdown\<close>

lemma in_shutdown:
  assumes "Inbound.srv_inv s w"
  shows "w_open (Inbound.Shutdown_close s w) = {}"
proof -
  have L: "\<forall>r \<in> set (sv_listeners s). li_tcp (w_heap w r) \<noteq> None" "w_open w = Inbound.sock_of w ` set (sv_listeners s)"
    using assms unfolding Inbound.srv_inv_def by blast+
  then show ?thesis by (force simp: Inbound.Shutdown_close_def Inbound.fold_close)
qed

lemma out_shutdown:
  assumes "Outbound_Reload.srv_inv s w"
  shows "ow_open (Outbound.Shutdown_close s w) = {}" "ow_files (Outbound.Shutdown_close s w) = {a. 0 < ow_held w a}"
    "ow_held (Outbound.Shutdown_close s w) = ow_held w" "ow_running (Outbound.Shutdown_close s w) = ow_running w"
proof -
  let ?L = "so_listeners s"
  have L: "distinct ?L" "\<forall>r \<in> set ?L. \<not> lo_done (ow_heap w r)" "\<forall>r \<in> set ?L. lo_ln (ow_heap w r) \<noteq> None"
    "ow_open w = Outbound_Reload.sock_of w ` set ?L" "distinct (sinks_of w ?L)" "ledger w (set (sinks_of w ?L))"
    using assms unfolding Outbound_Reload.srv_inv_def by (auto simp: distinct_map)
  have "closes w (set (sinks_of w ?L)) ?L (fold Outbound.close ?L w)" using L by (intro close_all) simp_all
  then have c: "ow_open (fold Outbound.close ?L w) = ow_open w - socks w ?L" "all_same w (fold Outbound.close ?L w)"
      "ledger (fold Outbound.close ?L w) {}"
    by (simp_all add: closes_def)
  show "ow_open (Outbound.Shutdown_close s w) = {}"
    using c(1) L(4) socks_bound [OF L(3)] by (simp add: Outbound.Shutdown_close_def)
  show "ow_files (Outbound.Shutdown_close s w) = {a. 0 < ow_held w a}" "ow_held (Outbound.Shutdown_close s w) = ow_held w"
    "ow_running (Outbound.Shutdown_close s w) = ow_running w"
    using c(2) ledger_files [OF c(3)] by (simp_all add: Outbound.Shutdown_close_def all_same_def)
qed

lemma NewServer_store:
  assumes "ledger w0 {}" "valid_config c" "Outbound.NewServer env (c_Outbound c) (c_VsockToTCP c) (c_LogRelay c) w0 = (Inr s, w)"
  shows "ow_open w = ow_open w0" "ow_held w = ow_held w0"
  using NewServer_cases [OF assms(1,2), of env] assms(3) by (auto simp: constructed_def Outbound_Reload.store_inv_def)

text \<open>Nothing listens.\<close>

definition stopped :: "app_world \<Rightarrow> bool" where
  "stopped w \<longleftrightarrow> w_open (aw_in w) = {} \<and> ow_open (aw_out w) = {} \<and> \<not> aw_metrics w"

definition idle_world :: "app_world \<Rightarrow> bool" where
  "idle_world w \<longleftrightarrow> w_open (aw_in w) = {} \<and> ow_open (aw_out w) = {} \<and> ledger (aw_out w) {} \<and> \<not> aw_metrics w"

abbreviation wants_metrics :: "Options \<Rightarrow> bool" where
  "wants_metrics opts \<equiv> o_MetricsAddr opts \<noteq> [] \<or> o_MetricsVsockPort opts \<noteq> 0"

lemma in_new_open: "Inbound.NewServer inb tcps w0 = Inr (s, w) \<Longrightarrow> w_open w = w_open w0"
proof -
  have "w_open w1 = w_open w0" if "alloc_all ls w0 = (rs, w1)" for ls rs w1 w0
    using that
  proof (induction ls arbitrary: w0 rs)
    case (Cons l ls)
    then show ?case by (auto simp: Inbound.alloc_def split: prod.splits)
  qed simp
  then show "Inbound.NewServer inb tcps w0 = Inr (s, w) \<Longrightarrow> w_open w = w_open w0"
    by (auto simp: Inbound.NewServer_def res_bind_Inr_iff case_prod_unfold) (metis prod.collapse)+
qed

lemma start_held:
  assumes "ledger w0 {}" "valid_config c" "Outbound.NewServer env (c_Outbound c) (c_VsockToTCP c) (c_LogRelay c) w0 = (Inr s, w)"
    "Outbound.Start env s w = (Inr u, s', w')"
  shows "ow_held w' = ow_held w0"
proof -
  obtain ls where c: "constructed w0 w (so_listeners s) ls" using NewServer_cases [OF assms(1,2), of env] assms(3) by auto
  then have h: "ow_held w = ow_held w0" by (simp add: constructed_def Outbound_Reload.store_inv_def)
  obtain w1 where b: "Outbound.bind_all env (so_listeners s) w = (Inr (), w1)" "w' = fold Outbound.start_loop (so_listeners s) w1"
    using assms(4) by (auto simp: Outbound.Start_def Let_def split: prod.splits sum.splits)
  show ?thesis using bind_all_frame [OF b(1) constructed_sinks(1) [OF c]] h b(2) by (simp add: out_fold_start_loop)
qed

text \<open>\<open>Start\<close>, from what the two servers' own \<open>Start\<close> do.\<close>

lemma Start_app_cases:
  assumes a: "a = \<lparr>a_opts = opts, a_inbound = i, a_out = out, a_metricsLn = False, a_currentCfg = c\<rparr>"
    and ex: "o_MetricsAddr opts = [] \<or> o_MetricsVsockPort opts = 0" and v: "valid_config c" and m: "\<not> aw_metrics w"
    and fi: "ow_open (aw_out w) = {}" "files = {a. 0 < ow_held (aw_out w) a}"
    and si: "case Inbound.Start (e_listen env) i (aw_in w) of
        (Inl e, s', w') \<Rightarrow> w_open w' = {}
      | (Inr _, s', w') \<Rightarrow> Inbound.srv_inv s' w' \<and> in_serves s' w' = in_wants c"
    and so: "case Outbound.Start (e_vsock env) out (aw_out w) of
        (Inl e, s', w') \<Rightarrow> ow_open w' = {} \<and> ow_files w' = files
      | (Inr _, s', w') \<Rightarrow> Outbound_Reload.srv_inv s' w' \<and> out_serves s' w' = out_wants c \<and> ow_held w' = ow_held (aw_out w)"
  shows "case Start_app env a w of
      (Inl e, a', w') \<Rightarrow> stopped w' \<and> ((\<forall>e1. e \<noteq> InboundError e1) \<longrightarrow> ow_files (aw_out w') = files)
    | (Inr _, a', w') \<Rightarrow> app_inv a' w' \<and> a_currentCfg a' = c \<and> aw_metrics w' = wants_metrics opts \<and> a_metricsLn a' = wants_metrics opts"
proof -
  obtain ri i' wi' where ri: "Inbound.Start (e_listen env) i (aw_in w) = (ri, i', wi')" by (metis prod_cases3)
  obtain ro out' wo' where ro: "Outbound.Start (e_vsock env) out (aw_out w) = (ro, out', wo')" by (metis prod_cases3)
  show ?thesis
  proof (cases ri)
    case (Inl e)
    then have "w_open wi' = {}" using si ri by simp
    then show ?thesis using ex ri Inl fi m by (auto simp: a Start_app_def stopped_def)
  next
    case i1: (Inr u)
    then have si': "Inbound.srv_inv i' wi'" "in_serves i' wi' = in_wants c" using si ri by auto
    show ?thesis
    proof (cases ro)
      case (Inl e)
      then show ?thesis
        using ex ri ro i1 so in_shutdown [OF si'(1)] m by (auto simp: a Start_app_def stopped_def)
    next
      case (Inr u2)
      then have s2: "Outbound_Reload.srv_inv out' wo'" "out_serves out' wo' = out_wants c" "ow_held wo' = ow_held (aw_out w)"
        using so ro by auto
      have "ow_files (Outbound.Shutdown_close out' wo') = files" using out_shutdown(2) [OF s2(1)] s2(3) fi(2) by simp
      then show ?thesis
        using ex ri ro i1 Inr si' s2 v in_shutdown [OF si'(1)] out_shutdown(1) [OF s2(1)] m
        by (auto simp: a Start_app_def stopped_def app_inv_def serveMetricsOn_def shut_both_def Let_def)
    qed
  qed
qed

lemma app_lifecycle:
  assumes idle: "idle_world w0" and v: "valid_config (o_Config opts)" and ex: "o_MetricsAddr opts = [] \<or> o_MetricsVsockPort opts = 0"
  shows "case New_app env opts w0 of
       (Inl e, w) \<Rightarrow> stopped w \<and> ow_files (aw_out w) = ow_files (aw_out w0)
     | (Inr a, w) \<Rightarrow>
         (case Start_app env a w of
            (Inl e, a', w') \<Rightarrow> stopped w' \<and> ((\<forall>e1. e \<noteq> InboundError e1) \<longrightarrow> ow_files (aw_out w') = ow_files (aw_out w0))
          | (Inr _, a', w') \<Rightarrow> app_inv a' w' \<and> a_currentCfg a' = o_Config opts \<and> aw_metrics w' = wants_metrics opts \<and>
              a_metricsLn a' = wants_metrics opts)"
proof -
  let ?c = "o_Config opts"
  have w0: "w_open (aw_in w0) = {}" "ow_open (aw_out w0) = {}" "ledger (aw_out w0) {}" "\<not> aw_metrics w0"
    using idle by (simp_all add: idle_world_def)
  obtain i wi where i: "Inbound.NewServer (c_Inbound ?c) (c_TCPToVsock ?c) (aw_in w0) = Inr (i, wi)"
      "case Inbound.Start (e_listen env) i wi of
        (Inl e, s', w') \<Rightarrow> w_open w' = {} \<and> w_running w' = w_running (aw_in w0)
      | (Inr _, s', w') \<Rightarrow> Inbound.srv_inv s' w' \<and> in_serves s' w' = in_wants ?c"
    using Start_publishes [OF v w0(1), of "e_listen env"] by (elim exE conjE) (rule that)
  note o = out_Start_publishes [OF v w0(2,3), of "e_vsock env"]
  obtain ro wo where no: "Outbound.NewServer (e_vsock env) (c_Outbound ?c) (c_VsockToTCP ?c) (c_LogRelay ?c) (aw_out w0) = (ro, wo)"
    by fastforce
  show ?thesis
  proof (cases ro)
    case (Inl e)
    then have "clean (aw_out w0) wo" using o no by simp
    moreover have "w_open wi = {}" using in_new_open i(1) w0(1) by metis
    ultimately show ?thesis using Inl i(1) no w0 by (simp add: New_app_def Let_def stopped_def clean_def)
  next
    case (Inr out)
    let ?a = "\<lparr>a_opts = opts, a_inbound = i, a_out = out, a_metricsLn = False, a_currentCfg = ?c\<rparr>"
    let ?w = "w0\<lparr>aw_in := wi, aw_out := wo\<rparr>"
    have new: "New_app env opts w0 = (Inr ?a, ?w)" using Inr i(1) no by (simp add: New_app_def Let_def)
    have oo: "ow_open wo = {}" "ow_held wo = ow_held (aw_out w0)" using NewServer_store [OF w0(3) v] no Inr w0(2) by auto
    have files: "ow_files (aw_out w0) = {a. 0 < ow_held (aw_out ?w) a}" using ledger_files [OF w0(3)] oo(2) by simp
    have so: "case Outbound.Start (e_vsock env) out wo of
        (Inl e, s', w') \<Rightarrow> ow_open w' = {} \<and> ow_files w' = ow_files (aw_out w0)
      | (Inr _, s', w') \<Rightarrow> Outbound_Reload.srv_inv s' w' \<and> out_serves s' w' = out_wants ?c \<and> ow_held w' = ow_held wo"
      using o w0(2) oo(2) start_held [OF w0(3) v no [unfolded Inr]] unfolding no Inr prod.case sum.case
      by (auto simp: clean_def split: prod.splits sum.splits)
    have si: "case Inbound.Start (e_listen env) i wi of
        (Inl e, s', w') \<Rightarrow> w_open w' = {} | (Inr _, s', w') \<Rightarrow> Inbound.srv_inv s' w' \<and> in_serves s' w' = in_wants ?c"
      using i(2) by (auto split: prod.splits sum.splits)
    have wf: "aw_in ?w = wi" "aw_out ?w = wo" "aw_metrics ?w = aw_metrics w0" by simp_all
    show ?thesis
      unfolding new prod.case sum.case
      by (rule Start_app_cases [OF refl ex v _ _ files]; unfold wf) (fact w0(4), fact oo(1), fact si, fact so)
  qed
qed

lemma shutdown_stops:
  assumes "app_inv a w" "a_metricsLn a = aw_metrics w"
  shows "case Shutdown_app i m1 m2 a w of (_, w') \<Rightarrow> stopped w' \<and> ow_files (aw_out w') = {b. 0 < ow_held (aw_out w') b}"
proof -
  have inv: "Inbound.srv_inv (a_inbound a) (aw_in w)" "Outbound_Reload.srv_inv (a_out a) (aw_out w)"
    using assms(1) by (simp_all add: app_inv_def)
  show ?thesis
    using in_shutdown [OF inv(1)] out_shutdown [OF inv(2)] assms(2)
    by (simp add: Shutdown_app_def shut_both_def stopped_def Let_def)
qed

text \<open>The signal loop, one signal at a time.\<close>

lemma signal_loop_cases:
  assumes "app_inv a w" "a_metricsLn a = aw_metrics w" "runSignalLoop sigs a w = (code, a', w')"
  shows "if list_all is_hup sigs
     then app_inv a' w' \<and> aw_metrics w' = aw_metrics w \<and>
       (a_currentCfg a' = a_currentCfg a \<or> (\<exists>file env. SIGHUP file env \<in> set sigs \<and> Load file = Inr (a_currentCfg a'))) \<and>
       aw_reload_success w' + aw_reload_failure w' = aw_reload_success w + aw_reload_failure w + length sigs
     else code \<in> {0, 1} \<and> stopped w' \<and> ow_files (aw_out w') = {b. 0 < ow_held (aw_out w') b}"
  using assms
proof (induction sigs a w rule: runSignalLoop.induct)
  case (1 a w)
  then show ?case by simp
next
  case (2 f env sigs a w)
  obtain r a1 w1 where r: "Reload f env a w = (r, a1, w1)" by (metis prod_cases3)
  note c = Reload_cases [OF 2(2) r]
  have rest: "runSignalLoop sigs a1 w1 = (code, a', w')" using 2(4) r by simp
  have inv: "app_inv a1 w1" "a_metricsLn a1 = aw_metrics w1" "aw_metrics w1 = aw_metrics w" using c 2(3) by simp_all
  have ih: "if list_all is_hup sigs
     then app_inv a' w' \<and> aw_metrics w' = aw_metrics w1 \<and>
       (a_currentCfg a' = a_currentCfg a1 \<or> (\<exists>file env. SIGHUP file env \<in> set sigs \<and> Load file = Inr (a_currentCfg a'))) \<and>
       aw_reload_success w' + aw_reload_failure w' = aw_reload_success w1 + aw_reload_failure w1 + length sigs
     else code \<in> {0, 1} \<and> stopped w' \<and> ow_files (aw_out w') = {b. 0 < ow_held (aw_out w') b}"
    using 2(1) [OF r [symmetric] refl inv(1,2) rest] .
  have one: "aw_reload_success w1 + aw_reload_failure w1 = Suc (aw_reload_success w + aw_reload_failure w)"
    "a_currentCfg a1 = a_currentCfg a \<or> Load f = Inr (a_currentCfg a1)"
    using c by (cases r; simp)+
  have cfg: "a_currentCfg a' = a_currentCfg a \<or> (\<exists>file env'. SIGHUP file env' \<in> set (SIGHUP f env # sigs) \<and> Load file = Inr (a_currentCfg a'))"
    if "list_all is_hup sigs"
  proof -
    have "a_currentCfg a' = a_currentCfg a1 \<or> (\<exists>file env. SIGHUP file env \<in> set sigs \<and> Load file = Inr (a_currentCfg a'))"
      using ih that by simp
    then show ?thesis
    proof (elim disjE exE conjE)
      assume "a_currentCfg a' = a_currentCfg a1"
      then show ?thesis using one(2) by (metis list.set_intros(1))
    next
      fix y env' assume "SIGHUP y env' \<in> set sigs" "Load y = Inr (a_currentCfg a')"
      then show ?thesis by (metis list.set_intros(2))
    qed
  qed
  have hup: "list_all is_hup (SIGHUP f env # sigs) = list_all is_hup sigs" by (simp add: is_hup_def)
  show ?case
  proof (cases "list_all is_hup sigs")
    case True
    then show ?thesis using ih one(1) inv(3) cfg [OF True] unfolding hup by simp
  next
    case False
    then show ?thesis using ih unfolding hup by simp
  qed
next
  case (3 i m1 m2 sigs a w)
  then show ?case using shutdown_stops [OF 3(1,2), of i m1 m2] by (auto simp: is_hup_def split: prod.splits sum.splits)
next
  case (4 i m1 m2 sigs a w)
  then show ?case using shutdown_stops [OF 4(1,2), of i m1 m2] by (auto simp: is_hup_def split: prod.splits sum.splits)
qed

section \<open>Properties of the application\<close>

text \<open>
  C15. Starting the daemon is all or nothing: from a process that listens nowhere, with a validated configuration,
  \<open>New\<close> followed by \<open>Start\<close> either ends with both servers serving exactly the configuration and the metrics
  endpoint up if one is configured, or with an error and no listening socket left, on either side, and no
  metrics listener; unless it was the inbound side that could not bind, every log file is closed again too.
\<close>

theorem app_start_all_or_nothing:
  assumes "idle_world w0" "valid_config (o_Config opts)" "o_MetricsAddr opts = [] \<or> o_MetricsVsockPort opts = 0"
  shows "case New_app env opts w0 of
       (Inl e, w) \<Rightarrow> stopped w \<and> ow_files (aw_out w) = ow_files (aw_out w0)
     | (Inr a, w) \<Rightarrow>
         (case Start_app env a w of
            (Inl e, a', w') \<Rightarrow> stopped w' \<and> ((\<forall>e1. e \<noteq> InboundError e1) \<longrightarrow> ow_files (aw_out w') = ow_files (aw_out w0))
          | (Inr _, a', w') \<Rightarrow> app_inv a' w' \<and> a_currentCfg a' = o_Config opts \<and> aw_metrics w' = wants_metrics opts \<and>
              a_metricsLn a' = wants_metrics opts)"
  using app_lifecycle [OF assms] .

text \<open>
  C5. A reload is atomic across the two servers: from a running daemon, \<open>Reload\<close> either loads a configuration and
  afterwards both servers serve exactly that one, or returns an error and both go on serving the old one,
  with the same sockets and log files open. Exactly one of the two reload counters goes up, by one.
\<close>

theorem reload_atomic:
  assumes "app_inv a w" "Reload file env a w = (r, a', w')"
  shows "app_inv a' w' \<and> aw_metrics w' = aw_metrics w \<and> a_metricsLn a' = a_metricsLn a \<and>
     (case r of
        Inr _ \<Rightarrow> Load file = Inr (a_currentCfg a') \<and> aw_reload_success w' = Suc (aw_reload_success w) \<and>
          aw_reload_failure w' = aw_reload_failure w
      | Inl _ \<Rightarrow> a_currentCfg a' = a_currentCfg a \<and> a_inbound a' = a_inbound a \<and> a_out a' = a_out a \<and>
          w_open (aw_in w') = w_open (aw_in w) \<and> resources (aw_out w') = resources (aw_out w) \<and>
          aw_reload_success w' = aw_reload_success w \<and> aw_reload_failure w' = Suc (aw_reload_failure w))"
  using Reload_cases [OF assms] .

text \<open>
  C14. The daemon under any sequence of signals: after any number of SIGHUPs it serves, on both sides, its starting
  configuration or one that a SIGHUP loaded, and has counted every one of them as a success or a failure;
  and once a SIGTERM or SIGINT arrives it ends with exit status 0 or 1 and no listening socket left, the only
  log files open being those that connections cut off by the grace period still hold.
\<close>

theorem signals_safe:
  assumes "app_inv a w" "a_metricsLn a = aw_metrics w" "runSignalLoop sigs a w = (code, a', w')"
  shows "if list_all is_hup sigs
     then app_inv a' w' \<and> aw_metrics w' = aw_metrics w \<and>
       (a_currentCfg a' = a_currentCfg a \<or> (\<exists>file env. SIGHUP file env \<in> set sigs \<and> Load file = Inr (a_currentCfg a'))) \<and>
       aw_reload_success w' + aw_reload_failure w' = aw_reload_success w + aw_reload_failure w + length sigs
     else code \<in> {0, 1} \<and> stopped w' \<and> ow_files (aw_out w') = {b. 0 < ow_held (aw_out w') b}"
  using signal_loop_cases [OF assms] .

section \<open>Log files after a failed start\<close>

text \<open>A failed \<open>Start\<close> of the inbound server touches nothing on the outbound side: \<open>New\<close>'s log files stay open.\<close>

lemma Start_app_inbound_failed:
  assumes "Start_app env a w = (Inl (InboundError e), a', w')"
  shows "aw_out w' = aw_out w"
  using assms by (auto simp: Start_app_def Let_def split: prod.splits sum.splits if_splits)


definition fresh_app_world :: app_world where
  "fresh_app_world = \<lparr>aw_in = Inbound.fresh_world, aw_out = Outbound_Start.fresh_world, aw_metrics = False,
     aw_reload_success = 0, aw_reload_failure = 0\<rparr>"


definition free_env :: app_env where
  "free_env = \<lparr>e_listen = (\<lambda>_ _. True), e_vsock = open_env, e_metrics = True\<rparr>"

definition sample_options :: "Config \<Rightarrow> Options" where
  "sample_options c = \<lparr>o_Config = c, o_MetricsAddr = [], o_MetricsVsockPort = 9090\<rparr>"




section \<open>Witnesses\<close>

lemma fresh_app_idle: "idle_world fresh_app_world"
  using fresh_world_empty by (simp add: idle_world_def fresh_app_world_def Inbound.fresh_world_def)

theorem app_start_all_or_nothing_witness:
  "idle_world fresh_app_world \<and> valid_config (o_Config (sample_options sample_config)) \<and>
   (case New_app free_env (sample_options sample_config) fresh_app_world of
       (Inl e, w) \<Rightarrow> stopped w \<and> ow_files (aw_out w) = ow_files (aw_out fresh_app_world)
     | (Inr a, w) \<Rightarrow>
         (case Start_app free_env a w of
            (Inl e, a', w') \<Rightarrow> stopped w' \<and>
              ((\<forall>e1. e \<noteq> InboundError e1) \<longrightarrow> ow_files (aw_out w') = ow_files (aw_out fresh_app_world))
          | (Inr _, a', w') \<Rightarrow> app_inv a' w' \<and> a_currentCfg a' = o_Config (sample_options sample_config) \<and>
              aw_metrics w' = wants_metrics (sample_options sample_config) \<and>
              a_metricsLn a' = wants_metrics (sample_options sample_config)))"
proof -
  have v: "valid_config (o_Config (sample_options sample_config))" using sample_config_valid by (simp only: sample_options_def Options.simps)
  have ex: "o_MetricsAddr (sample_options sample_config) = [] \<or> o_MetricsVsockPort (sample_options sample_config) = 0"
    by (simp add: sample_options_def)
  show ?thesis by (intro conjI fresh_app_idle v app_start_all_or_nothing [OF fresh_app_idle v ex])
qed

text \<open>A daemon that runs with the TCP side of the sample configuration only.\<close>

definition tcp_config :: Config where
  "tcp_config = sample_config\<lparr>c_Outbound := [], c_VsockToTCP := [], c_LogRelay := []\<rparr>"

definition running :: "App \<times> app_world" where
  "running =
     (case sample_started of (i, wi) \<Rightarrow> case sample_outbound_started of (out, wo) \<Rightarrow>
        (\<lparr>a_opts = sample_options tcp_config, a_inbound = i, a_out = out, a_metricsLn = True, a_currentCfg = tcp_config\<rparr>,
         fresh_app_world\<lparr>aw_in := wi, aw_out := wo, aw_metrics := True\<rparr>))"

lemma tcp_config_valid: "valid_config tcp_config"
  using sample_config_valid
  by (simp add: tcp_config_def valid_config_def sample_config_def binds_of_def cids_of_def vsock_ports_of_def metrics_good_def)

lemma running_inv: "case running of (a, w) \<Rightarrow> app_inv a w \<and> a_metricsLn a = aw_metrics w"
proof -
  obtain i wi where i: "sample_started = (i, wi)" by fastforce
  obtain out wo where o: "sample_outbound_started = (out, wo)" by fastforce
  have ii: "Inbound.srv_inv i wi" "in_serves i wi = in_wants sample_config"
    using sample_started_inv unfolding i prod.case by simp_all
  have "out = \<lparr>so_listeners = [], so_ctx = True\<rparr>" "wo = Outbound_Start.fresh_world"
    using o by (auto simp: sample_outbound_started_def Outbound.Start_def Outbound_Start.fresh_world_def)
  then have "Outbound_Reload.srv_inv out wo" "out_serves out wo = []"
    using fresh_world_empty by (simp_all add: Outbound_Reload.srv_inv_def out_serves_def)
  then show ?thesis
    unfolding running_def i o prod.case using ii tcp_config_valid
    by (simp add: app_inv_def in_wants_def out_wants_def tcp_config_def)
qed

theorem reload_atomic_witness:
  "case running of (a, w) \<Rightarrow> app_inv a w \<and>
     (case Reload (Decoded sample_config) free_env a w of (r, a', w') \<Rightarrow> app_inv a' w' \<and>
       (case r of
          Inr _ \<Rightarrow> Load (Decoded sample_config) = Inr (a_currentCfg a') \<and> aw_reload_success w' = Suc (aw_reload_success w)
        | Inl _ \<Rightarrow> a_currentCfg a' = a_currentCfg a \<and> aw_reload_failure w' = Suc (aw_reload_failure w)))"
proof -
  obtain a w where aw: "running = (a, w)" by fastforce
  obtain r a' w' where r: "Reload (Decoded sample_config) free_env a w = (r, a', w')" by (metis prod_cases3)
  have i: "app_inv a w" using running_inv unfolding aw prod.case by simp
  show ?thesis unfolding aw prod.case r using i reload_atomic [OF i r] by (cases r) simp_all
qed

theorem signals_safe_witness:
  "case running of (a, w) \<Rightarrow> app_inv a w \<and>
     (case runSignalLoop [SIGHUP (Decoded sample_config) free_env, SIGHUP DecodeError free_env, SIGTERM True True True] a w of
        (code, a', w') \<Rightarrow> code \<in> {0, 1} \<and> stopped w')"
proof -
  obtain a w where aw: "running = (a, w)" by fastforce
  let ?s = "[SIGHUP (Decoded sample_config) free_env, SIGHUP DecodeError free_env, SIGTERM True True True]"
  obtain code a' w' where r: "runSignalLoop ?s a w = (code, a', w')" by (metis prod_cases3)
  have i: "app_inv a w" "a_metricsLn a = aw_metrics w" using running_inv unfolding aw prod.case by simp_all
  have "\<not> list_all is_hup ?s" by (simp add: is_hup_def)
  then show ?thesis unfolding aw prod.case r using i(1) signals_safe [OF i r] by (simp only: if_False simp_thms)
qed

end
