(* ===== verification/Metrics.thy ===== *)
theory Metrics
  imports Server_Loops Relay_Loop App
begin

text \<open>
  \<open>internal/metrics/metrics.go\<close>: the collectors, what the servers report to them, and the metrics endpoint. A
  \<open>collector\<close> is what the code says of one: its name, its help text and, for a vector, its label names; the registry
  and the HTTP server are the Prometheus and \<open>net/http\<close> packages.
\<close>

section \<open>Collectors\<close>

record collector =
  co_Name :: bytes
  co_Help :: bytes
  co_Labels :: "bytes list option"

definition NewCounter :: "bytes \<Rightarrow> bytes \<Rightarrow> collector" where
  "NewCounter name help = \<lparr>co_Name = name, co_Help = help, co_Labels = None\<rparr>"

definition NewCounterVec :: "bytes \<Rightarrow> bytes \<Rightarrow> bytes list \<Rightarrow> collector" where
  "NewCounterVec name help labels = \<lparr>co_Name = name, co_Help = help, co_Labels = Some labels\<rparr>"

record Metrics =
  mt_InboundConnections :: collector
  mt_InboundBytes :: collector
  mt_InboundErrors :: collector
  mt_OutboundConnections :: collector
  mt_OutboundBytes :: collector
  mt_TCPToVsockConnections :: collector
  mt_TCPToVsockBytes :: collector
  mt_TCPToVsockErrors :: collector
  mt_VsockToTCPConnections :: collector
  mt_VsockToTCPBytes :: collector
  mt_VsockToTCPErrors :: collector
  mt_LogRelayConnections :: collector
  mt_LogRelayLines :: collector
  mt_LogRelayBytes :: collector
  mt_LogRelayErrors :: collector
  mt_ConfigReloads :: collector

definition New :: Metrics where
  "New =
     \<lparr>mt_InboundConnections = NewCounterVec ''inbound_connections_total''
        ''Total TCP connections accepted on inbound listeners, by route.'' [''route''],
      mt_InboundBytes = NewCounterVec ''inbound_bytes_total''
        ''Bytes proxied on inbound connections, by route and direction.'' [''route'', ''direction''],
      mt_InboundErrors = NewCounterVec ''inbound_errors_total''
        ''Inbound errors, by route and error kind.'' [''route'', ''kind''],
      mt_OutboundConnections = NewCounterVec ''outbound_connections_total''
        ''vsock connections accepted on outbound listeners, by CID and policy result.'' [''cid'', ''result''],
      mt_OutboundBytes = NewCounterVec ''outbound_bytes_total''
        ''Bytes proxied on outbound connections, by CID and direction.'' [''cid'', ''direction''],
      mt_TCPToVsockConnections = NewCounter ''tcp_to_vsock_connections_total''
        ''TCP connections accepted on tcp_to_vsock listeners.'',
      mt_TCPToVsockBytes = NewCounterVec ''tcp_to_vsock_bytes_total''
        ''Bytes proxied on tcp_to_vsock connections, by direction.'' [''direction''],
      mt_TCPToVsockErrors = NewCounterVec ''tcp_to_vsock_errors_total''
        ''Errors on tcp_to_vsock connections, by reason.'' [''reason''],
      mt_VsockToTCPConnections = NewCounter ''vsock_to_tcp_connections_total''
        ''vsock connections accepted on vsock_to_tcp listeners.'',
      mt_VsockToTCPBytes = NewCounterVec ''vsock_to_tcp_bytes_total''
        ''Bytes proxied on vsock_to_tcp connections, by direction.'' [''direction''],
      mt_VsockToTCPErrors = NewCounterVec ''vsock_to_tcp_errors_total''
        ''Errors on vsock_to_tcp connections, by reason.'' [''reason''],
      mt_LogRelayConnections = NewCounter ''log_relay_connections_total''
        ''vsock connections accepted on log_relay listeners.'',
      mt_LogRelayLines = NewCounter ''log_relay_lines_total''
        ''Enriched NDJSON lines emitted to log_relay sinks.'',
      mt_LogRelayBytes = NewCounter ''log_relay_bytes_total''
        ''Bytes written to log_relay sinks.'',
      mt_LogRelayErrors = NewCounterVec ''log_relay_errors_total''
        ''Errors on log_relay listeners, by reason.'' [''reason''],
      mt_ConfigReloads = NewCounterVec ''config_reloads_total''
        ''Configuration reload attempts, by result.'' [''result'']\<rparr>"

text \<open>What \<open>New\<close> passes to \<open>MustRegister\<close>.\<close>

definition registered :: "Metrics \<Rightarrow> collector list" where
  "registered m =
     [mt_InboundConnections m, mt_InboundBytes m, mt_InboundErrors m, mt_OutboundConnections m, mt_OutboundBytes m,
      mt_TCPToVsockConnections m, mt_TCPToVsockBytes m, mt_TCPToVsockErrors m, mt_VsockToTCPConnections m,
      mt_VsockToTCPBytes m, mt_VsockToTCPErrors m, mt_LogRelayConnections m, mt_LogRelayLines m, mt_LogRelayBytes m,
      mt_LogRelayErrors m, mt_ConfigReloads m]"

definition InboundErrorAccept :: bytes where "InboundErrorAccept = ''accept''"
definition ReloadResultSuccess :: bytes where "ReloadResultSuccess = ''success''"
definition ReloadResultFailure :: bytes where "ReloadResultFailure = ''failure''"
definition LogRelayErrorSink :: bytes where "LogRelayErrorSink = ''sink_open''"
definition LogRelayErrorRead :: bytes where "LogRelayErrorRead = ''read_error''"
definition LogRelayErrorLineTooLong :: bytes where "LogRelayErrorLineTooLong = ''line_too_long''"

section \<open>Updates\<close>

text \<open>\<open>WithLabelValues(vs).Add(n)\<close> on a vector, \<open>Add(n)\<close> on a counter; \<open>Inc\<close> adds one.\<close>

datatype update = Update (u_collector: collector) (u_values: "bytes list") (u_amount: nat)

fun in_update :: "Metrics \<Rightarrow> in_action \<Rightarrow> update list" where
  "in_update m (CountInError route kind) = [Update (mt_InboundErrors m) [route, kind] 1]"
| "in_update m (CountInConn route) = [Update (mt_InboundConnections m) [route] 1]"
| "in_update m (CountInBytes route dir n) = [Update (mt_InboundBytes m) [route, dir] n]"
| "in_update m Inbound_Conn.CountTCPConn = [Update (mt_TCPToVsockConnections m) [] 1]"
| "in_update m (Inbound_Conn.CountTCPError reason) = [Update (mt_TCPToVsockErrors m) [reason] 1]"
| "in_update m (Inbound_Conn.CountTCPBytes dir n) = [Update (mt_TCPToVsockBytes m) [dir] n]"
| "in_update m _ = []"

fun accept_update :: "Metrics \<Rightarrow> 'h loop_event \<Rightarrow> update list" where
  "accept_update m CountAccept = [Update (mt_InboundErrors m) [routeLabelUnknown, InboundErrorAccept] 1]"
| "accept_update m _ = []"

fun out_update :: "Metrics \<Rightarrow> out_action \<Rightarrow> update list" where
  "out_update m (CountConn cid result) = [Update (mt_OutboundConnections m) [cid, result] 1]"
| "out_update m (CountBytes cid dir n) = [Update (mt_OutboundBytes m) [cid, dir] n]"
| "out_update m _ = []"

fun tcp_update :: "Metrics \<Rightarrow> tcp_action \<Rightarrow> update list" where
  "tcp_update m (Conn_act a) = out_update m a"
| "tcp_update m Outbound_TCP.CountTCPConn = [Update (mt_VsockToTCPConnections m) [] 1]"
| "tcp_update m (Outbound_TCP.CountTCPError reason) = [Update (mt_VsockToTCPErrors m) [reason] 1]"
| "tcp_update m (Outbound_TCP.CountTCPBytes dir n) = [Update (mt_VsockToTCPBytes m) [dir] n]"

text \<open>One relayed connection, with its counters summed up.\<close>

definition relay_updates :: "Metrics \<Rightarrow> relay_out \<Rightarrow> update list" where
  "relay_updates m out =
     [Update (mt_LogRelayConnections m) [] 1, Update (mt_LogRelayBytes m) [] (ro_bytes out),
      Update (mt_LogRelayLines m) [] (ro_lines out),
      Update (mt_LogRelayErrors m) [LogRelayErrorLineTooLong] (ro_toolong out),
      Update (mt_LogRelayErrors m) [LogRelayErrorRead] (ro_readerr out)]"

definition sink_failed_update :: "Metrics \<Rightarrow> update list" where
  "sink_failed_update m = [Update (mt_LogRelayErrors m) [LogRelayErrorSink] 1]"

definition reload_updates :: "Metrics \<Rightarrow> app_world \<Rightarrow> update list" where
  "reload_updates m w =
     [Update (mt_ConfigReloads m) [ReloadResultSuccess] (aw_reload_success w),
      Update (mt_ConfigReloads m) [ReloadResultFailure] (aw_reload_failure w)]"

section \<open>The endpoint\<close>

text \<open>
  \<open>ServeMetrics\<close>: the select sees the context done first or \<open>Serve\<close> return first. In the first case the server is shut
  down within the grace and \<open>Serve\<close> is awaited.
\<close>

datatype serve_error = ErrServerClosed | ServeFailed

datatype serve_race = CtxDone | ServeReturned serve_error

datatype serve_action = Serve | ShutdownServer int | AwaitServe

definition ServeMetrics :: "serve_race \<Rightarrow> int \<Rightarrow> serve_error option \<times> serve_action list" where
  "ServeMetrics race shutdownGrace =
     (case race of
        CtxDone \<Rightarrow> (None, [Serve, ShutdownServer shutdownGrace, AwaitServe])
      | ServeReturned err \<Rightarrow> (if err = ErrServerClosed then None else Some err, [Serve]))"

section \<open>The time series\<close>

text \<open>Every series the daemon can create, for its route hostnames and the labels of its CIDs.\<close>

definition pairs :: "bytes list \<Rightarrow> bytes list \<Rightarrow> bytes list list" where
  "pairs xs ys = concat (map (\<lambda>x. map (\<lambda>y. [x, y]) ys) xs)"

definition series_rows :: "Metrics \<Rightarrow> bytes list \<Rightarrow> bytes list \<Rightarrow> (collector \<times> bytes list list) list" where
  "series_rows m routes cids =
     [(mt_InboundConnections m, map (\<lambda>r. [r]) routes),
      (mt_InboundBytes m, pairs routes [''in'', ''out'']),
      (mt_InboundErrors m, pairs [''unknown''] [''sniff'', ''route'', ''accept''] @ pairs routes [''dial'', ''copy'']),
      (mt_OutboundConnections m, [''unauthorized'', ''denied''] # pairs cids [''allowed'', ''denied'', ''error'']),
      (mt_OutboundBytes m, pairs cids [''in'', ''out'']),
      (mt_TCPToVsockConnections m, [[]]), (mt_TCPToVsockBytes m, [[''up''], [''down'']]),
      (mt_TCPToVsockErrors m, [[''dial_fail''], [''copy_error'']]),
      (mt_VsockToTCPConnections m, [[]]), (mt_VsockToTCPBytes m, [[''up''], [''down'']]),
      (mt_VsockToTCPErrors m, [[''dial_fail''], [''copy_error'']]),
      (mt_LogRelayConnections m, [[]]), (mt_LogRelayLines m, [[]]), (mt_LogRelayBytes m, [[]]),
      (mt_LogRelayErrors m, [[''sink_open''], [''read_error''], [''line_too_long'']]),
      (mt_ConfigReloads m, [[''success''], [''failure'']])]"

definition series :: "Metrics \<Rightarrow> bytes list \<Rightarrow> bytes list \<Rightarrow> (collector \<times> bytes list) list" where
  "series m routes cids = concat (map (\<lambda>(c, vss). map (Pair c) vss) (series_rows m routes cids))"

text \<open>\<open>WithLabelValues\<close> panics on the wrong number of values.\<close>

definition arity_ok :: "collector \<times> bytes list \<Rightarrow> bool" where
  "arity_ok cv = (case co_Labels (fst cv) of None \<Rightarrow> snd cv = [] | Some ls \<Rightarrow> length (snd cv) = length ls)"

definition created :: "update list \<Rightarrow> (collector \<times> bytes list) set" where
  "created us = (\<lambda>u. (u_collector u, u_values u)) ` set us"

definition updates :: "('a \<Rightarrow> update list) \<Rightarrow> 'a list \<Rightarrow> update list" where
  "updates f acts = concat (map f acts)"

lemma created_simps [simp]:
  "created [] = {}" "created (u # us) = insert (u_collector u, u_values u) (created us)"
  "created (us @ vs) = created us \<union> created vs"
  by (auto simp: created_def)

lemma updates_simps [simp]:
  "updates f [] = []" "updates f (a # as) = f a @ updates f as" "updates f (as @ bs) = updates f as @ updates f bs"
  by (simp_all add: updates_def)

lemma set_pairs [simp]: "set (pairs xs ys) = {[x, y] | x y. x \<in> set xs \<and> y \<in> set ys}"
  by (auto simp: pairs_def)

lemma length_pairs [simp]: "length (pairs xs ys) = length xs * length ys"
  by (induction xs) (simp_all add: pairs_def)

lemma updates_if [simp]: "updates f (if b then xs else ys) = (if b then updates f xs else updates f ys)"
  by simp

lemma series_row: "\<lbrakk>(c, vss) \<in> set (series_rows m rs cs); vs \<in> set vss\<rbrakk> \<Longrightarrow> (c, vs) \<in> set (series m rs cs)"
  by (force simp: series_def)

lemma in_rows:
  "(mt_InboundConnections m, map (\<lambda>r. [r]) rs) \<in> set (series_rows m rs cs)"
  "(mt_InboundBytes m, pairs rs [''in'', ''out'']) \<in> set (series_rows m rs cs)"
  "(mt_InboundErrors m, pairs [''unknown''] [''sniff'', ''route'', ''accept''] @ pairs rs [''dial'', ''copy'']) \<in> set (series_rows m rs cs)"
  "(mt_TCPToVsockConnections m, [[]]) \<in> set (series_rows m rs cs)"
  "(mt_TCPToVsockBytes m, [[''up''], [''down'']]) \<in> set (series_rows m rs cs)"
  "(mt_TCPToVsockErrors m, [[''dial_fail''], [''copy_error'']]) \<in> set (series_rows m rs cs)"
  by (simp_all add: series_rows_def)

lemma out_rows:
  "(mt_OutboundConnections m, [''unauthorized'', ''denied''] # pairs cs [''allowed'', ''denied'', ''error'']) \<in> set (series_rows m rs cs)"
  "(mt_OutboundBytes m, pairs cs [''in'', ''out'']) \<in> set (series_rows m rs cs)"
  "(mt_VsockToTCPConnections m, [[]]) \<in> set (series_rows m rs cs)"
  "(mt_VsockToTCPBytes m, [[''up''], [''down'']]) \<in> set (series_rows m rs cs)"
  "(mt_VsockToTCPErrors m, [[''dial_fail''], [''copy_error'']]) \<in> set (series_rows m rs cs)"
  by (simp_all add: series_rows_def)

lemma relay_rows:
  "(mt_LogRelayConnections m, [[]]) \<in> set (series_rows m rs cs)" "(mt_LogRelayLines m, [[]]) \<in> set (series_rows m rs cs)"
  "(mt_LogRelayBytes m, [[]]) \<in> set (series_rows m rs cs)"
  "(mt_LogRelayErrors m, [[''sink_open''], [''read_error''], [''line_too_long'']]) \<in> set (series_rows m rs cs)"
  "(mt_ConfigReloads m, [[''success''], [''failure'']]) \<in> set (series_rows m rs cs)"
  by (simp_all add: series_rows_def)

lemma in_series:
  assumes "r \<in> set rs"
  shows "(mt_InboundConnections m, [r]) \<in> set (series m rs cs)"
    "d \<in> {''in'', ''out''} \<Longrightarrow> (mt_InboundBytes m, [r, d]) \<in> set (series m rs cs)"
    "k \<in> {''dial'', ''copy''} \<Longrightarrow> (mt_InboundErrors m, [r, k]) \<in> set (series m rs cs)"
  by (rule series_row [OF in_rows(1)] series_row [OF in_rows(2)] series_row [OF in_rows(3)], use assms in simp)+

lemma in_fixed_series:
  "k \<in> {''sniff'', ''route'', ''accept''} \<Longrightarrow> (mt_InboundErrors m, [''unknown'', k]) \<in> set (series m rs cs)"
  "(mt_TCPToVsockConnections m, []) \<in> set (series m rs cs)"
  "d \<in> {''up'', ''down''} \<Longrightarrow> (mt_TCPToVsockBytes m, [d]) \<in> set (series m rs cs)"
  "k \<in> {''dial_fail'', ''copy_error''} \<Longrightarrow> (mt_TCPToVsockErrors m, [k]) \<in> set (series m rs cs)"
  by (rule series_row [OF in_rows(3)] series_row [OF in_rows(4)] series_row [OF in_rows(5)] series_row [OF in_rows(6)], simp)+

lemma out_series:
  assumes "c \<in> set cs"
  shows "r \<in> {''allowed'', ''denied'', ''error''} \<Longrightarrow> (mt_OutboundConnections m, [c, r]) \<in> set (series m rs cs)"
    "d \<in> {''in'', ''out''} \<Longrightarrow> (mt_OutboundBytes m, [c, d]) \<in> set (series m rs cs)"
  by (rule series_row [OF out_rows(1)] series_row [OF out_rows(2)], use assms in simp)+

lemma out_fixed_series:
  "(mt_OutboundConnections m, [''unauthorized'', ''denied'']) \<in> set (series m rs cs)"
  "(mt_VsockToTCPConnections m, []) \<in> set (series m rs cs)"
  "d \<in> {''up'', ''down''} \<Longrightarrow> (mt_VsockToTCPBytes m, [d]) \<in> set (series m rs cs)"
  "k \<in> {''dial_fail'', ''copy_error''} \<Longrightarrow> (mt_VsockToTCPErrors m, [k]) \<in> set (series m rs cs)"
  by (rule series_row [OF out_rows(1)] series_row [OF out_rows(3)] series_row [OF out_rows(4)] series_row [OF out_rows(5)], simp)+

lemmas in_label_defs = label_defs routeLabelUnknown_def Inbound_Conn.TCPErrorDial_def Inbound_Conn.TCPErrorCopy_def

lemmas out_label_defs = OutboundResultAllowed_def OutboundResultDenied_def OutboundResultError_def CIDLabelUnauthorized_def
  Outbound_Conn.DirectionIn_def Outbound_Conn.DirectionOut_def

definition hostnames :: "Inbound.listener \<Rightarrow> bytes list" where
  "hostnames l = map (\<lambda>(h, r). r_Hostname r) (routesSnapshot l)"

lemma in_handle_series: "created (updates (in_update m) (in_handle env l)) \<subseteq> set (series m (hostnames l) cs)"
proof (cases rule: in_handle_cases [of l env])
  case (routed host buffered rest route acts tail)
  have h: "r_Hostname route \<in> set (hostnames l)"
    using map_of_SomeD [OF routed(2)] by (force simp: hostnames_def)
  have "created (updates (in_update m) (acts @ tail)) \<subseteq> set (series m (hostnames l) cs)"
    using routed(4)
    by (elim disjE conjE exE insertE emptyE)
      (simp_all add: in_series [OF h] in_label_defs in_with_upstream_def proxy_actions_def Let_def split: if_split)
  then show ?thesis unfolding routed(3) by (simp add: in_series [OF h])
qed (simp_all add: in_fixed_series in_label_defs)

lemma in_handleTCP_series: "created (updates (in_update m) (in_handleTCP env l)) \<subseteq> set (series m rs cs)"
proof (cases rule: in_handleTCP_cases [of env l])
  case (undialled acts)
  have "created (updates (in_update m) acts) \<subseteq> set (series m rs cs)"
    using undialled(1) by (induction acts) (auto simp: in_fixed_series in_label_defs)
  then show ?thesis unfolding undialled(2) by (simp add: in_fixed_series)
next
  case (shuttled moved down acts)
  from shuttled(2) have "created (updates (in_update m) acts) \<subseteq> set (series m rs cs)"
    by (elim insertE emptyE) (simp_all add: in_fixed_series in_label_defs)
  then show ?thesis unfolding shuttled(3) by (simp add: in_fixed_series in_label_defs in_with_upstream_def)
qed

lemma bad_request_series:
  "c \<in> set cs \<Longrightarrow> created (updates (out_update m) (bad_request c)) \<subseteq> set (series m rs cs)"
  by (simp add: bad_request_def writeStatusLine_def out_series out_label_defs)

lemma handleConnect_series:
  assumes "c \<in> set cs"
  shows "created (updates (out_update m) (handleConnect env req mt c)) \<subseteq> set (series m rs cs)"
  unfolding handleConnect_def
  by (simp add: action_defs out_series [OF assms] out_label_defs Let_def split: sum.split prod.split if_split)

lemma handleProxy_series:
  assumes "c \<in> set cs"
  shows "created (updates (out_update m) (handleProxy env req mt c)) \<subseteq> set (series m rs cs)"
  unfolding handleProxy_def
  by (simp add: action_defs out_series [OF assms] out_label_defs Let_def split: sum.split prod.split option.split if_split)

lemma handle_series:
  "created (updates (out_update m) (handle env ms cid)) \<subseteq> set (series m rs (map (FormatCID \<circ> fst) ms))"
proof (cases "map_of ms cid")
  case None
  then show ?thesis by (simp add: handle_def out_fixed_series out_label_defs)
next
  case (Some mt)
  have c: "FormatCID cid \<in> set (map (FormatCID \<circ> fst) ms)" using map_of_SomeD [OF Some] by force
  show ?thesis
    using Some handleConnect_series [OF c] handleProxy_series [OF c] bad_request_series [OF c]
    by (simp add: handle_def Let_def del: set_map split: option.split)
qed

lemma handleTCP_series: "created (updates (tcp_update m) (handleTCP env a)) \<subseteq> set (series m rs cs)"
  by (simp add: handleTCP_def tcp_with_upstream_def out_fixed_series Outbound_TCP.DirectionUp_def Outbound_TCP.DirectionDown_def
      Outbound_TCP.TCPErrorDial_def Outbound_TCP.TCPErrorCopy_def Let_def split: prod.split if_split)

lemma accept_series: "created (updates (accept_update m) evs) \<subseteq> set (series m rs cs)"
proof (induction evs)
  case (Cons e evs)
  then show ?case by (cases e) (simp_all add: in_fixed_series routeLabelUnknown_def InboundErrorAccept_def)
qed simp

lemma other_series:
  "created (relay_updates m out @ sink_failed_update m @ reload_updates m w) \<subseteq> set (series m rs cs)"
  unfolding relay_updates_def sink_failed_update_def reload_updates_def append.simps created_simps update.sel
    LogRelayErrorLineTooLong_def LogRelayErrorRead_def LogRelayErrorSink_def ReloadResultSuccess_def ReloadResultFailure_def
  by (intro insert_subsetI empty_subsetI; rule relay_rows [THEN series_row]; simp)

lemma list_all_series: "list_all P (series m rs cs) = list_all (\<lambda>(c, vss). list_all (\<lambda>vs. P (c, vs)) vss) (series_rows m rs cs)"
  by (auto simp: series_def list_all_iff)

lemma list_all_pairs: "list_all P (pairs xs ys) = list_all (\<lambda>x. list_all (\<lambda>y. P [x, y]) ys) xs"
  by (auto simp: pairs_def list_all_iff)

lemma rows_registered: "list_all (\<lambda>(c, vss). c \<in> set (registered m)) (series_rows m rs cs)"
  by (simp add: series_rows_def registered_def)

lemma New_labels:
  "co_Labels (mt_InboundConnections New) = Some [''route'']" "co_Labels (mt_InboundBytes New) = Some [''route'', ''direction'']"
  "co_Labels (mt_InboundErrors New) = Some [''route'', ''kind'']" "co_Labels (mt_OutboundConnections New) = Some [''cid'', ''result'']"
  "co_Labels (mt_OutboundBytes New) = Some [''cid'', ''direction'']" "co_Labels (mt_TCPToVsockConnections New) = None"
  "co_Labels (mt_TCPToVsockBytes New) = Some [''direction'']" "co_Labels (mt_TCPToVsockErrors New) = Some [''reason'']"
  "co_Labels (mt_VsockToTCPConnections New) = None" "co_Labels (mt_VsockToTCPBytes New) = Some [''direction'']"
  "co_Labels (mt_VsockToTCPErrors New) = Some [''reason'']" "co_Labels (mt_LogRelayConnections New) = None"
  "co_Labels (mt_LogRelayLines New) = None" "co_Labels (mt_LogRelayBytes New) = None"
  "co_Labels (mt_LogRelayErrors New) = Some [''reason'']" "co_Labels (mt_ConfigReloads New) = Some [''result'']"
  by (simp_all add: New_def NewCounter_def NewCounterVec_def)

lemma rows_arity: "list_all (\<lambda>(c, vss). list_all (\<lambda>vs. arity_ok (c, vs)) vss) (series_rows New rs cs)"
  by (simp add: series_rows_def arity_ok_def New_labels list_all_pairs list.pred_map list.pred_True comp_def)

lemma series_typed: "list_all (\<lambda>cv. fst cv \<in> set (registered New) \<and> arity_ok cv) (series New rs cs)"
  using rows_registered [of New rs cs] rows_arity [of rs cs] unfolding list_all_series
  by (fastforce simp: list_all_iff)

text \<open>
  C10. The metrics cannot panic and stay bounded: the collectors \<open>New\<close> registers have distinct names; whatever the peers do, every
  update made for an inbound connection, an accept loop, a forward-proxy connection, a passthrough connection, a relayed
  connection, a failed sink or a reload names one of the fixed series, whose route labels are configured hostnames and whose CID labels are
  configured CIDs; each series belongs to a registered collector and has as many values as it has labels; and there are \<open>5 R + 5 C
  + 22\<close> of them.
\<close>

theorem metric_series_bounded:
  "distinct (map co_Name (registered New)) \<and>
   created (updates (in_update New) (in_serve env l)) \<subseteq> set (series New (hostnames l) cs) \<and>
   created (updates (accept_update New) (fst (inbound_run l outs))) \<subseteq> set (series New rs cs) \<and>
   created (updates (out_update New) (handle env' ms cid)) \<subseteq> set (series New rs (map (FormatCID \<circ> fst) ms)) \<and>
   created (updates (tcp_update New) (handleTCP env'' a)) \<subseteq> set (series New rs cs) \<and>
   created (relay_updates New out @ sink_failed_update New @ reload_updates New w) \<subseteq> set (series New rs cs) \<and>
   list_all (\<lambda>cv. fst cv \<in> set (registered New) \<and> arity_ok cv) (series New rs cs) \<and>
   length (series New rs cs) = 5 * length rs + 5 * length cs + 22"
proof (intro conjI)
  show "distinct (map co_Name (registered New))"
    by (simp add: registered_def New_def NewCounter_def NewCounterVec_def)
  show "created (updates (in_update New) (in_serve env l)) \<subseteq> set (series New (hostnames l) cs)"
    by (simp add: in_serve_def in_handle_series in_handleTCP_series)
  show "list_all (\<lambda>cv. fst cv \<in> set (registered New) \<and> arity_ok cv) (series New rs cs)"
    by (rule series_typed)
  show "length (series New rs cs) = 5 * length rs + 5 * length cs + 22"
    by (simp add: series_def series_rows_def)
qed (rule accept_series handle_series handleTCP_series other_series)+

end
