(* ===== verification/Vsockconn.thy ===== *)
theory Vsockconn
  imports Prelude
begin

text \<open>
  \<open>internal/vsockconn\<close>: the two transports behind \<open>Dialer\<close> and \<open>Listener\<close>. Of the AF_VSOCK one there is what \<open>Accept\<close> and \<open>CloseWrite\<close>
  do with the library's connection. The loopback one is a state machine: \<open>Registry\<close> maps a (cid, port) to the address of a
  TCP listener, \<open>Dial\<close>, \<open>ListenLoopback\<close> and \<open>Close\<close> take the registry's lock and use the network in separate steps, and a dialled
  connection opens with four bytes that carry the dialler's CID.
\<close>

section \<open>Shared\<close>

definition BackendLoopback :: bytes where "BackendLoopback = ''loopback''"

definition UseLoopback :: "bytes \<Rightarrow> bool" where
  "UseLoopback backendEnv \<longleftrightarrow> backendEnv = BackendLoopback"

text \<open>\<open>CloseWrite\<close>, the same for both transports: forwarded if the connection has one, a full close otherwise.\<close>

datatype close_call = ConnCloseWrite | ConnClose

definition CloseWrite :: "bool \<Rightarrow> close_call" where
  "CloseWrite hasCloseWrite = (if hasCloseWrite then ConnCloseWrite else ConnClose)"

text \<open>
  What the two commands wire: the loopback dialler's CID and, for the daemon, the CID its listeners register under, on one
  registry; or AF_VSOCK.
\<close>

datatype backend = LoopbackBackend uint32 "uint32 option" | VsockBackend

definition selectVsockBackend :: "bytes \<Rightarrow> backend" where
  "selectVsockBackend backendEnv = (if UseLoopback backendEnv then LoopbackBackend 0 (Some 0) else VsockBackend)"

definition selectDialer :: "bytes \<Rightarrow> backend" where
  "selectDialer backendEnv = (if UseLoopback backendEnv then LoopbackBackend 0 None else VsockBackend)"

section \<open>AF\_VSOCK\<close>

datatype remote_addr = VsockAddr uint32 uint32 | OtherAddr

datatype accept_error = AcceptFailed | UnexpectedAddr | HandshakeRead

record vconn =
  vc_peerCID :: uint32
  vc_peerPort :: uint32

text \<open>\<open>Accept\<close>: the connection or an error, and whether the accepted socket was closed.\<close>

definition vsockAccept :: "remote_addr option \<Rightarrow> (accept_error + vconn) \<times> bool" where
  "vsockAccept accepted =
     (case accepted of
        None \<Rightarrow> (Inl AcceptFailed, False)
      | Some (VsockAddr cid port) \<Rightarrow> (Inr \<lparr>vc_peerCID = cid, vc_peerPort = port\<rparr>, False)
      | Some OtherAddr \<Rightarrow> (Inl UnexpectedAddr, True))"

section \<open>The registry\<close>

type_synonym registryKey = "uint32 \<times> uint32"
type_synonym Registry = "registryKey \<rightharpoonup> nat"

definition NewRegistry :: Registry where
  "NewRegistry = Map.empty"

definition register :: "registryKey \<Rightarrow> nat \<Rightarrow> Registry \<Rightarrow> Registry option" where
  "register k a r = (case r k of Some _ \<Rightarrow> None | None \<Rightarrow> Some (r(k \<mapsto> a)))"

definition unregister :: "registryKey \<Rightarrow> Registry \<Rightarrow> Registry" where
  "unregister k r = r(k := None)"

definition lookup :: "registryKey \<Rightarrow> Registry \<Rightarrow> nat option" where
  "lookup k r = r k"

section \<open>The handshake\<close>

definition peerCIDHeaderLen :: nat where "peerCIDHeaderLen = 4"

text \<open>\<open>binary.BigEndian\<close>.\<close>

definition PutUint32 :: "uint32 \<Rightarrow> bytes" where
  "PutUint32 v = map (\<lambda>n. char_of (unat (drop_bit n v))) [24, 16, 8, 0]"

unbundle bit_operations_syntax

definition Uint32 :: "bytes \<Rightarrow> uint32" where
  "Uint32 b = (let v = \<lambda>i. (word_of_nat (byte_val (b ! i)) :: uint32)
     in v 3 OR push_bit 8 (v 2) OR push_bit 16 (v 1) OR push_bit 24 (v 0))"

lemma byte_of_word: "(word_of_nat (unat w mod 256) :: uint32) = take_bit 8 w" for w :: uint32
proof -
  have "unat w mod 256 = take_bit 8 (unat w)" by (simp add: take_bit_eq_mod)
  then show ?thesis by (simp add: of_nat_take_bit)
qed

lemma Uint32_PutUint32: "Uint32 (PutUint32 v) = v"
proof -
  have "take_bit 8 v OR push_bit 8 (take_bit 8 (drop_bit 8 v)) OR push_bit 16 (take_bit 8 (drop_bit 16 v)) OR
      push_bit 24 (take_bit 8 (drop_bit 24 v)) = v"
  proof (rule bit_word_eqI)
    fix n
    assume "n < LENGTH(32)"
    consider "n < 8" | "8 \<le> n" "n < 16" | "16 \<le> n" "n < 24" | "24 \<le> n" by linarith
    then show "bit (take_bit 8 v OR push_bit 8 (take_bit 8 (drop_bit 8 v)) OR push_bit 16 (take_bit 8 (drop_bit 16 v)) OR
      push_bit 24 (take_bit 8 (drop_bit 24 v))) n = bit v n"
      using \<open>n < LENGTH(32)\<close> by cases (auto simp: bit_simps)
  qed
  then show ?thesis by (simp add: Uint32_def PutUint32_def byte_of_word Let_def)
qed

lemma length_PutUint32 [simp]: "length (PutUint32 v) = 4"
  by (simp add: PutUint32_def)

section \<open>The loopback network\<close>

text \<open>
  A connection in a listener's queue: whom the dialler wanted, its CID, and what it has written. A listener: its key, the
  address of its TCP socket, how far \<open>ListenLoopback\<close> or \<open>Close\<close> has got, and the connections waiting in the socket.
\<close>

record lconn =
  lc_key :: registryKey
  lc_source :: uint32
  lc_data :: bytes

datatype lstate = Bound | Refused | Listening | Closing | Shut

record loopbackListener =
  ll_key :: registryKey
  ll_addr :: nat
  ll_state :: lstate
  ll_queue :: "lconn list"

record pending_dial =
  pd_key :: registryKey
  pd_source :: uint32
  pd_addr :: nat

record loopback =
  lo_reg :: Registry
  lo_listeners :: "loopbackListener list"
  lo_dials :: "pending_dial list"
  lo_accepted :: "(registryKey \<times> lconn \<times> (accept_error + uint32 \<times> bytes)) list"

definition sock_open :: "loopbackListener \<Rightarrow> bool" where
  "sock_open l \<longleftrightarrow> ll_state l \<noteq> Shut \<and> ll_state l \<noteq> Refused"

definition set_listener :: "nat \<Rightarrow> (loopbackListener \<Rightarrow> loopbackListener) \<Rightarrow> loopback \<Rightarrow> loopback" where
  "set_listener i f w = w\<lparr>lo_listeners := (lo_listeners w)[i := f (lo_listeners w ! i)]\<rparr>"

text \<open>The open socket at an address, if any.\<close>

definition sock_at :: "nat \<Rightarrow> loopback \<Rightarrow> nat option" where
  "sock_at a w = find (\<lambda>i. sock_open (lo_listeners w ! i) \<and> ll_addr (lo_listeners w ! i) = a) [0..<length (lo_listeners w)]"

text \<open>The loopback listener's \<open>Accept\<close> on one connection: \<open>io.ReadFull\<close> of the header, the CID, and what is left.\<close>

definition loopbackAccept :: "bytes \<Rightarrow> accept_error + uint32 \<times> bytes" where
  "loopbackAccept d =
     (if length d < peerCIDHeaderLen then Inl HandshakeRead
      else Inr (Uint32 (take peerCIDHeaderLen d), drop peerCIDHeaderLen d))"

datatype lo_event =
    LoBind registryKey nat
  | LoRegister nat
  | LoUnregister nat
  | LoCloseSock nat
  | LoLookup registryKey uint32
  | LoConnect nat nat bytes
  | LoAccept nat

text \<open>
  \<open>ListenLoopback\<close> is \<open>LoBind\<close> (the kernel picks an address no open socket has) then \<open>LoRegister\<close>, which may be refused; \<open>Close\<close>, which may be called
  more than once, is \<open>LoUnregister\<close> then \<open>LoCloseSock\<close>; \<open>Dial\<close> is \<open>LoLookup\<close> then \<open>LoConnect\<close>, which writes \<open>k\<close> bytes of the header
  and then, if it wrote them all, what the caller sends. A failing lookup or connect changes nothing else.
\<close>

fun lo_do :: "lo_event \<Rightarrow> loopback \<Rightarrow> loopback option" where
  "lo_do (LoBind k a) w =
     (case sock_at a w of
        Some i \<Rightarrow> None
      | None \<Rightarrow> Some (w\<lparr>lo_listeners := lo_listeners w @ [\<lparr>ll_key = k, ll_addr = a, ll_state = Bound, ll_queue = []\<rparr>]\<rparr>))"
| "lo_do (LoRegister i) w =
     (let l = lo_listeners w ! i in
      if i < length (lo_listeners w) \<and> ll_state l = Bound
      then case register (ll_key l) (ll_addr l) (lo_reg w) of
          None \<Rightarrow> Some (set_listener i (\<lambda>l. l\<lparr>ll_state := Refused\<rparr>) w)
        | Some reg \<Rightarrow> Some (set_listener i (\<lambda>l. l\<lparr>ll_state := Listening\<rparr>) (w\<lparr>lo_reg := reg\<rparr>))
      else None)"
| "lo_do (LoUnregister i) w =
     (let l = lo_listeners w ! i in
      if i < length (lo_listeners w) \<and> ll_state l \<noteq> Bound \<and> ll_state l \<noteq> Refused
      then Some (set_listener i (\<lambda>l. l\<lparr>ll_state := (if ll_state l = Listening then Closing else ll_state l)\<rparr>)
        (w\<lparr>lo_reg := unregister (ll_key l) (lo_reg w)\<rparr>))
      else None)"
| "lo_do (LoCloseSock i) w =
     (if i < length (lo_listeners w) \<and> ll_state (lo_listeners w ! i) = Closing
      then Some (set_listener i (\<lambda>l. l\<lparr>ll_state := Shut, ll_queue := []\<rparr>) w) else None)"
| "lo_do (LoLookup k src) w =
     (case lookup k (lo_reg w) of
        None \<Rightarrow> None
      | Some a \<Rightarrow> Some (w\<lparr>lo_dials := lo_dials w @ [\<lparr>pd_key = k, pd_source = src, pd_addr = a\<rparr>]\<rparr>))"
| "lo_do (LoConnect n k payload) w =
     (if n < length (lo_dials w)
      then let d = lo_dials w ! n; hdr = PutUint32 (pd_source d); w' = w\<lparr>lo_dials := take n (lo_dials w) @ drop (Suc n) (lo_dials w)\<rparr>
        in case sock_at (pd_addr d) w of
          None \<Rightarrow> Some w'
        | Some i \<Rightarrow> Some (set_listener i (\<lambda>l. l\<lparr>ll_queue := ll_queue l @ [\<lparr>lc_key = pd_key d, lc_source = pd_source d,
            lc_data = (if k < peerCIDHeaderLen then take k hdr else hdr @ payload)\<rparr>]\<rparr>) w')
      else None)"
| "lo_do (LoAccept i) w =
     (if i < length (lo_listeners w) \<and> sock_open (lo_listeners w ! i)
      then case ll_queue (lo_listeners w ! i) of
          [] \<Rightarrow> None
        | c # cs \<Rightarrow> Some ((set_listener i (\<lambda>l. l\<lparr>ll_queue := cs\<rparr>) w)
            \<lparr>lo_accepted := lo_accepted w @ [(ll_key (lo_listeners w ! i), c, loopbackAccept (lc_data c))]\<rparr>)
      else None)"

definition lo_empty :: loopback where
  "lo_empty = \<lparr>lo_reg = NewRegistry, lo_listeners = [], lo_dials = [], lo_accepted = []\<rparr>"

inductive lo_step :: "loopback \<Rightarrow> loopback \<Rightarrow> bool" where
  lo_event [sys_intros]: "lo_do e w = Some w' \<Longrightarrow> lo_step w w'"

inductive_cases lo_stepE: "lo_step w w'"

abbreviation lo_reach :: "loopback \<Rightarrow> bool" where
  "lo_reach \<equiv> reach (\<lambda>w. w = lo_empty) lo_step"

section \<open>The invariant\<close>

text \<open>What a dialler has written: part of its header, or its header and more.\<close>

definition written :: "lconn \<Rightarrow> bool" where
  "written c \<longleftrightarrow> (\<exists>k < 4. lc_data c = take k (PutUint32 (lc_source c))) \<or> (\<exists>payload. lc_data c = PutUint32 (lc_source c) @ payload)"

definition addr_inv :: "loopback \<Rightarrow> bool" where
  "addr_inv w \<longleftrightarrow> (\<forall>i < length (lo_listeners w). \<forall>j < length (lo_listeners w).
     sock_open (lo_listeners w ! i) \<and> sock_open (lo_listeners w ! j) \<and> ll_addr (lo_listeners w ! i) = ll_addr (lo_listeners w ! j) \<longrightarrow> i = j)"

definition reg_inv :: "loopback \<Rightarrow> bool" where
  "reg_inv w \<longleftrightarrow> (\<forall>k a. lo_reg w k = Some a \<longrightarrow>
     (\<exists>i < length (lo_listeners w). ll_key (lo_listeners w ! i) = k \<and> ll_addr (lo_listeners w ! i) = a \<and>
        ll_state (lo_listeners w ! i) = Listening))"

definition data_inv :: "loopback \<Rightarrow> bool" where
  "data_inv w \<longleftrightarrow> (\<forall>l \<in> set (lo_listeners w). \<forall>c \<in> set (ll_queue l). written c) \<and>
     (\<forall>(k, c, r) \<in> set (lo_accepted w). written c \<and> r = loopbackAccept (lc_data c))"

definition lo_inv :: "loopback \<Rightarrow> bool" where
  "lo_inv w \<longleftrightarrow> addr_inv w \<and> reg_inv w \<and> data_inv w"

lemma set_listener_fields [simp]:
  "lo_listeners (set_listener i f w) = (lo_listeners w)[i := f (lo_listeners w ! i)]" "lo_reg (set_listener i f w) = lo_reg w"
  "lo_dials (set_listener i f w) = lo_dials w" "lo_accepted (set_listener i f w) = lo_accepted w"
  by (simp_all add: set_listener_def)

lemma sock_at_Some:
  "sock_at a w = Some i \<Longrightarrow> i < length (lo_listeners w) \<and> sock_open (lo_listeners w ! i) \<and> ll_addr (lo_listeners w ! i) = a"
  by (auto simp: sock_at_def find_Some_iff)

lemma sock_at_None:
  "sock_at a w = None \<Longrightarrow> i < length (lo_listeners w) \<Longrightarrow> sock_open (lo_listeners w ! i) \<Longrightarrow> ll_addr (lo_listeners w ! i) \<noteq> a"
  by (auto simp: sock_at_def find_None_iff)

lemma sock_at_unique:
  assumes "addr_inv w" "i < length (lo_listeners w)" "sock_open (lo_listeners w ! i)"
  shows "sock_at (ll_addr (lo_listeners w ! i)) w = Some i"
proof (cases "sock_at (ll_addr (lo_listeners w ! i)) w")
  case None
  then show ?thesis using sock_at_None [OF None assms(2,3)] by simp
next
  case (Some j)
  then have "j = i" using sock_at_Some [OF Some] assms unfolding addr_inv_def by blast
  then show ?thesis using Some by simp
qed

text \<open>A step that touches one listener.\<close>

lemma addr_inv_set:
  assumes "addr_inv w" "ll_addr (f (lo_listeners w ! i)) = ll_addr (lo_listeners w ! i)"
    "sock_open (f (lo_listeners w ! i)) \<Longrightarrow> sock_open (lo_listeners w ! i)"
    "lo_listeners w' = (lo_listeners w)[i := f (lo_listeners w ! i)]"
  shows "addr_inv w'"
proof -
  have a: "ll_addr (lo_listeners w' ! j) = ll_addr (lo_listeners w ! j)" if "j < length (lo_listeners w)" for j
    using assms(2,4) that by (cases "j = i") simp_all
  have op: "sock_open (lo_listeners w ! j)" if "j < length (lo_listeners w)" "sock_open (lo_listeners w' ! j)" for j
    using assms(3,4) that by (cases "j = i") simp_all
  have n: "length (lo_listeners w') = length (lo_listeners w)" by (simp add: assms(4))
  show ?thesis using assms(1) a op n unfolding addr_inv_def by metis
qed

lemma reg_inv_set:
  assumes "reg_inv w" "lo_reg w' \<subseteq>\<^sub>m lo_reg w" "lo_listeners w' = (lo_listeners w)[i := f (lo_listeners w ! i)]"
    "\<And>l. ll_key (f l) = ll_key l \<and> ll_addr (f l) = ll_addr l"
    "\<And>k. \<lbrakk>k \<in> dom (lo_reg w'); ll_state (lo_listeners w ! i) = Listening; ll_key (lo_listeners w ! i) = k\<rbrakk> \<Longrightarrow>
       ll_state (f (lo_listeners w ! i)) = Listening"
  shows "reg_inv w'"
  unfolding reg_inv_def
proof (intro allI impI)
  fix k a
  assume k: "lo_reg w' k = Some a"
  then have "lo_reg w k = Some a" using assms(2) unfolding map_le_def by (metis domI)
  then obtain j where j: "j < length (lo_listeners w)" "ll_key (lo_listeners w ! j) = k" "ll_addr (lo_listeners w ! j) = a"
      "ll_state (lo_listeners w ! j) = Listening"
    using assms(1) unfolding reg_inv_def by blast
  have "ll_state (f (lo_listeners w ! i)) = Listening" if "j = i" using assms(5) [of k] j k that by auto
  then show "\<exists>j < length (lo_listeners w'). ll_key (lo_listeners w' ! j) = k \<and> ll_addr (lo_listeners w' ! j) = a \<and>
      ll_state (lo_listeners w' ! j) = Listening"
    using j assms(3,4) by (intro exI [of _ j]) (cases "j = i"; simp)
qed

lemma data_inv_set:
  assumes "data_inv w" "lo_listeners w' = (lo_listeners w)[i := f (lo_listeners w ! i)]" "lo_accepted w' = lo_accepted w @ as"
    "i < length (lo_listeners w)"
    "\<forall>c \<in> set (ll_queue (f (lo_listeners w ! i))). c \<in> set (ll_queue (lo_listeners w ! i)) \<or> written c"
    "\<forall>(k, c, r) \<in> set as. written c \<and> r = loopbackAccept (lc_data c)"
  shows "data_inv w'"
proof -
  have "\<forall>c \<in> set (ll_queue (f (lo_listeners w ! i))). written c"
    using assms(1,4,5) nth_mem unfolding data_inv_def by blast
  then show ?thesis
    using assms(1,2,3,6) unfolding data_inv_def by (auto dest!: set_update_subset_insert [THEN subsetD])
qed

lemma written_sent: "written \<lparr>lc_key = k, lc_source = src, lc_data = (if n < peerCIDHeaderLen then take n (PutUint32 src) else PutUint32 src @ p)\<rparr>"
  by (auto simp: written_def peerCIDHeaderLen_def)

lemma lo_bind_inv:
  assumes "lo_do (LoBind k a) w = Some w'" "lo_inv w"
  shows "lo_inv w'"
proof -
  have inv: "addr_inv w" "reg_inv w" "data_inv w" using assms(2) by (simp_all add: lo_inv_def)
  have w': "sock_at a w = None"
    "w' = w\<lparr>lo_listeners := lo_listeners w @ [\<lparr>ll_key = k, ll_addr = a, ll_state = Bound, ll_queue = []\<rparr>]\<rparr>"
    using assms(1) by (auto split: option.splits)
  have "addr_inv w'"
    using inv(1) sock_at_None [OF w'(1)] by (auto simp: addr_inv_def w'(2) nth_append less_Suc_eq)
  moreover have "reg_inv w'" using inv(2) by (fastforce simp: reg_inv_def w'(2) nth_append less_Suc_eq)
  moreover have "data_inv w'" using inv(3) by (simp add: data_inv_def w'(2))
  ultimately show ?thesis by (simp add: lo_inv_def)
qed

lemma lo_register_inv:
  assumes "lo_do (LoRegister i) w = Some w'" "lo_inv w"
  shows "lo_inv w'"
proof -
  have inv: "addr_inv w" "reg_inv w" "data_inv w" using assms(2) by (simp_all add: lo_inv_def)
  let ?l = "lo_listeners w ! i"
  have l: "i < length (lo_listeners w)" "ll_state ?l = Bound"
    using assms(1) by (auto simp: Let_def split: if_splits)
  show ?thesis
  proof (cases "lo_reg w (ll_key ?l)")
    case None
    then have w': "w' = set_listener i (\<lambda>l. l\<lparr>ll_state := Listening\<rparr>) (w\<lparr>lo_reg := (lo_reg w)(ll_key ?l \<mapsto> ll_addr ?l)\<rparr>)"
      using assms(1) l by (simp add: Let_def register_def)
    have "reg_inv w'"
      unfolding reg_inv_def
    proof (intro allI impI)
      fix k a
      assume k: "lo_reg w' k = Some a"
      show "\<exists>j < length (lo_listeners w'). ll_key (lo_listeners w' ! j) = k \<and> ll_addr (lo_listeners w' ! j) = a \<and>
          ll_state (lo_listeners w' ! j) = Listening"
      proof (cases "k = ll_key ?l")
        case True
        then show ?thesis using k l by (intro exI [of _ i]) (simp add: w')
      next
        case False
        then obtain j where "j < length (lo_listeners w)" "ll_key (lo_listeners w ! j) = k" "ll_addr (lo_listeners w ! j) = a"
            "ll_state (lo_listeners w ! j) = Listening"
          using k inv(2) unfolding w' reg_inv_def by (metis fun_upd_other set_listener_fields(2) loopback.select_convs(1) loopback.surjective loopback.update_convs(1))
        then show ?thesis using False by (intro exI [of _ j]) (cases "j = i"; simp add: w')
      qed
    qed
    moreover have "addr_inv w'"
      by (rule addr_inv_set [where f = "\<lambda>l. if ll_state l = Bound then l\<lparr>ll_state := Listening\<rparr> else l", OF inv(1)])
        (use l in \<open>auto simp: w' sock_open_def split: if_splits\<close>)
    moreover have "data_inv w'" by (rule data_inv_set [where f = "\<lambda>l. l\<lparr>ll_state := Listening\<rparr>" and as = "[]", OF inv(3)]) (use l in \<open>auto simp: w'\<close>)
    ultimately show ?thesis by (simp add: lo_inv_def)
  next
    case (Some a)
    then have w': "w' = set_listener i (\<lambda>l. l\<lparr>ll_state := Refused\<rparr>) w"
      using assms(1) l by (simp add: Let_def register_def)
    show ?thesis
      unfolding lo_inv_def w'
      by (intro conjI addr_inv_set [where f = "\<lambda>l. l\<lparr>ll_state := Refused\<rparr>", OF inv(1)]
          reg_inv_set [where f = "\<lambda>l. l\<lparr>ll_state := Refused\<rparr>", OF inv(2)]
          data_inv_set [where f = "\<lambda>l. l\<lparr>ll_state := Refused\<rparr>" and as = "[]", OF inv(3)])
        (use l in \<open>auto simp: sock_open_def\<close>)
  qed
qed

lemma lo_connect_inv:
  assumes "lo_do (LoConnect n k payload) w = Some w'" "lo_inv w"
  shows "lo_inv w'"
proof -
  have inv: "addr_inv w" "reg_inv w" "data_inv w" using assms(2) by (simp_all add: lo_inv_def)
  let ?d = "lo_dials w ! n"
  show ?thesis
  proof (cases "sock_at (pd_addr ?d) w")
    case None
    then have "lo_listeners w' = lo_listeners w" "lo_reg w' = lo_reg w" "lo_accepted w' = lo_accepted w"
      using assms(1) by (auto simp: Let_def split: if_splits)
    then show ?thesis using inv by (simp add: lo_inv_def addr_inv_def reg_inv_def data_inv_def)
  next
    case (Some i)
    let ?c = "\<lparr>lc_key = pd_key ?d, lc_source = pd_source ?d,
      lc_data = (if k < peerCIDHeaderLen then take k (PutUint32 (pd_source ?d)) else PutUint32 (pd_source ?d) @ payload)\<rparr>"
    let ?f = "\<lambda>l. l\<lparr>ll_queue := ll_queue l @ [?c]\<rparr>"
    have w': "lo_listeners w' = (lo_listeners w)[i := ?f (lo_listeners w ! i)]" "lo_reg w' = lo_reg w" "lo_accepted w' = lo_accepted w"
      using assms(1) Some by (auto simp: Let_def split: if_splits)
    show ?thesis
      unfolding lo_inv_def
      by (intro conjI addr_inv_set [where f = ?f, OF inv(1) _ _ w'(1)] reg_inv_set [where f = ?f, OF inv(2) _ w'(1)]
          data_inv_set [where f = ?f and as = "[]", OF inv(3) w'(1)])
        (use sock_at_Some [OF Some] written_sent in \<open>simp_all add: sock_open_def w'\<close>)
  qed
qed

lemma lo_accept_inv:
  assumes "lo_do (LoAccept i) w = Some w'" "lo_inv w"
  shows "lo_inv w'"
proof -
  have inv: "addr_inv w" "reg_inv w" "data_inv w" using assms(2) by (simp_all add: lo_inv_def)
  obtain c cs where l: "i < length (lo_listeners w)" "ll_queue (lo_listeners w ! i) = c # cs"
    and w': "w' = (set_listener i (\<lambda>l. l\<lparr>ll_queue := cs\<rparr>) w)
          \<lparr>lo_accepted := lo_accepted w @ [(ll_key (lo_listeners w ! i), c, loopbackAccept (lc_data c))]\<rparr>"
    using assms(1) by (auto split: if_splits list.splits)
  have "written c" using inv(3) l nth_mem [OF l(1)] unfolding data_inv_def by (metis list.set_intros(1))
  then show ?thesis
    unfolding lo_inv_def w'
    by (intro conjI addr_inv_set [where f = "\<lambda>l. l\<lparr>ll_queue := cs\<rparr>", OF inv(1)] reg_inv_set [where f = "\<lambda>l. l\<lparr>ll_queue := cs\<rparr>", OF inv(2)]
        data_inv_set [where f = "\<lambda>l. l\<lparr>ll_queue := cs\<rparr>" and as = "[(ll_key (lo_listeners w ! i), c, loopbackAccept (lc_data c))]", OF inv(3)])
      (use l in \<open>auto simp: sock_open_def\<close>)
qed

lemma lo_do_inv:
  assumes "lo_do e w = Some w'" "lo_inv w"
  shows "lo_inv w'"
proof -
  have inv: "addr_inv w" "reg_inv w" "data_inv w" using assms(2) by (simp_all add: lo_inv_def)
  show ?thesis
  proof (cases e)
    case (LoUnregister i)
    let ?f = "\<lambda>l. l\<lparr>ll_state := (if ll_state l = Listening then Closing else ll_state l)\<rparr>"
    have l: "i < length (lo_listeners w)"
      and w': "w' = set_listener i ?f (w\<lparr>lo_reg := unregister (ll_key (lo_listeners w ! i)) (lo_reg w)\<rparr>)"
      using assms(1) LoUnregister by (auto simp: Let_def split: if_splits)
    show ?thesis
      unfolding lo_inv_def w'
      by (intro conjI addr_inv_set [where f = ?f, OF inv(1)] reg_inv_set [where f = ?f, OF inv(2)] data_inv_set [where f = ?f and as = "[]", OF inv(3)])
        (use l in \<open>auto simp: sock_open_def unregister_def map_le_def split: if_splits\<close>)
  next
    case (LoCloseSock i)
    let ?f = "\<lambda>l. l\<lparr>ll_state := Shut, ll_queue := []\<rparr>"
    have l: "i < length (lo_listeners w)" "ll_state (lo_listeners w ! i) = Closing" and w': "w' = set_listener i ?f w"
      using assms(1) LoCloseSock by (auto split: if_splits)
    show ?thesis
      unfolding lo_inv_def w'
      by (intro conjI addr_inv_set [where f = ?f, OF inv(1)] reg_inv_set [where f = ?f, OF inv(2)] data_inv_set [where f = ?f and as = "[]", OF inv(3)])
        (use l in \<open>auto simp: sock_open_def\<close>)
  next
    case (LoLookup k src)
    then have "lo_listeners w' = lo_listeners w" "lo_reg w' = lo_reg w" "lo_accepted w' = lo_accepted w"
      using assms(1) by (auto split: option.splits)
    then show ?thesis using inv by (simp add: lo_inv_def addr_inv_def reg_inv_def data_inv_def)
  qed (use assms in \<open>blast intro: lo_bind_inv lo_register_inv lo_connect_inv lo_accept_inv\<close>)+
qed

lemma lo_empty_inv: "lo_inv lo_empty"
  by (simp add: lo_inv_def lo_empty_def addr_inv_def reg_inv_def data_inv_def NewRegistry_def)

interpretation loopback: invariant_system "\<lambda>w. w = lo_empty" lo_step lo_inv
  by unfold_locales (auto intro: lo_empty_inv lo_do_inv elim: lo_stepE)

section \<open>Properties\<close>

text \<open>
  C18. The loopback transport delivers what it promises, under every interleaving of listeners, diallers and closes: a registered
  (cid, port) belongs to an open listener for it, and a \<open>Dial\<close> whose lookup and connect are not separated queues its connection
  there and nowhere else; every accepted connection reports the CID its dialler was created with and hands over exactly what the
  caller of \<open>Dial\<close> wrote, or fails because the header was not written in full.
\<close>

theorem loopback_transport:
  assumes "lo_reach w"
  shows "(\<forall>k src n payload a. lookup k (lo_reg w) = Some a \<longrightarrow>
        (\<exists>i w1 w2. i < length (lo_listeners w) \<and> ll_key (lo_listeners w ! i) = k \<and> sock_open (lo_listeners w ! i) \<and>
           lo_do (LoLookup k src) w = Some w1 \<and> lo_do (LoConnect (length (lo_dials w)) n payload) w1 = Some w2 \<and>
           lo_dials w2 = lo_dials w \<and> (\<exists>c. lc_key c = k \<and> lc_source c = src \<and> lo_listeners w2 =
             (lo_listeners w)[i := (lo_listeners w ! i)\<lparr>ll_queue := ll_queue (lo_listeners w ! i) @ [c]\<rparr>]))) \<and>
     (\<forall>(k, c, r) \<in> set (lo_accepted w).
        r = Inl HandshakeRead \<and> length (lc_data c) < 4 \<or>
        (\<exists>payload. lc_data c = PutUint32 (lc_source c) @ payload \<and> r = Inr (lc_source c, payload)))"
proof (intro conjI allI impI)
  have inv: "addr_inv w" "reg_inv w" "data_inv w" using loopback.invar_reach [OF assms] by (simp_all add: lo_inv_def)
  fix k src n payload a
  assume "lookup k (lo_reg w) = Some a"
  then obtain i where a: "lo_reg w k = Some a" and i: "i < length (lo_listeners w)" "ll_key (lo_listeners w ! i) = k"
      "ll_addr (lo_listeners w ! i) = a" "ll_state (lo_listeners w ! i) = Listening"
    using inv(2) unfolding reg_inv_def lookup_def by blast
  have op: "sock_open (lo_listeners w ! i)" using i by (simp add: sock_open_def)
  have at: "sock_at a w = Some i" using sock_at_unique [OF inv(1) i(1) op] i(3) by simp
  let ?w1 = "w\<lparr>lo_dials := lo_dials w @ [\<lparr>pd_key = k, pd_source = src, pd_addr = a\<rparr>]\<rparr>"
  let ?c = "\<lparr>lc_key = k, lc_source = src,
    lc_data = (if n < peerCIDHeaderLen then take n (PutUint32 src) else PutUint32 src @ payload)\<rparr>"
  let ?w2 = "set_listener i (\<lambda>l. l\<lparr>ll_queue := ll_queue l @ [?c]\<rparr>) w"
  have s1: "lo_do (LoLookup k src) w = Some ?w1" by (simp add: lookup_def a)
  have "sock_at a ?w1 = Some i" using at by (simp add: sock_at_def)
  then have s2: "lo_do (LoConnect (length (lo_dials w)) n payload) ?w1 = Some ?w2" by (simp add: Let_def)
  have "\<exists>c. lc_key c = k \<and> lc_source c = src \<and> lo_listeners ?w2 =
      (lo_listeners w)[i := (lo_listeners w ! i)\<lparr>ll_queue := ll_queue (lo_listeners w ! i) @ [c]\<rparr>]"
    by (intro exI [of _ ?c]) simp
  then show "\<exists>i w1 w2. i < length (lo_listeners w) \<and> ll_key (lo_listeners w ! i) = k \<and> sock_open (lo_listeners w ! i) \<and>
      lo_do (LoLookup k src) w = Some w1 \<and> lo_do (LoConnect (length (lo_dials w)) n payload) w1 = Some w2 \<and>
      lo_dials w2 = lo_dials w \<and> (\<exists>c. lc_key c = k \<and> lc_source c = src \<and> lo_listeners w2 =
        (lo_listeners w)[i := (lo_listeners w ! i)\<lparr>ll_queue := ll_queue (lo_listeners w ! i) @ [c]\<rparr>])"
    using i(1,2) op s1 s2 by (intro exI [of _ i] exI [of _ ?w1] exI [of _ ?w2] conjI) simp_all
next
  have "data_inv w" using loopback.invar_reach [OF assms] by (simp add: lo_inv_def)
  moreover have "loopbackAccept d = Inl HandshakeRead \<and> length d < 4" if "d = take k (PutUint32 v)" "k < 4" for d k v
    using that by (simp add: loopbackAccept_def peerCIDHeaderLen_def)
  moreover have "loopbackAccept (PutUint32 v @ p) = Inr (v, p)" for v p
    by (simp add: loopbackAccept_def peerCIDHeaderLen_def Uint32_PutUint32)
  ultimately show "\<forall>(k, c, r) \<in> set (lo_accepted w). r = Inl HandshakeRead \<and> length (lc_data c) < 4 \<or>
        (\<exists>payload. lc_data c = PutUint32 (lc_source c) @ payload \<and> r = Inr (lc_source c, payload))"
    unfolding data_inv_def written_def by fastforce
qed

fun lo_exec :: "lo_event list \<Rightarrow> loopback \<Rightarrow> loopback option" where
  "lo_exec [] w = Some w"
| "lo_exec (e # es) w = (case lo_do e w of None \<Rightarrow> None | Some w' \<Rightarrow> lo_exec es w')"

lemma lo_exec_reach: "lo_exec es w = Some w' \<Longrightarrow> lo_reach w \<Longrightarrow> lo_reach w'"
  by (induction es arbitrary: w) (auto split: option.splits intro: sys_intros)

definition loopback_run :: "lo_event list" where
  "loopback_run = [LoBind (3, 80) 40000, LoRegister 0, LoLookup (3, 80) 16, LoConnect 0 4 ''hi'', LoAccept 0]"

lemma loopback_run_ends:
  "\<exists>w c. lo_exec loopback_run lo_empty = Some w \<and> lo_accepted w = [((3, 80), c, loopbackAccept (PutUint32 16 @ ''hi''))] \<and>
     lc_source c = 16 \<and> lo_reg w (3, 80) = Some 40000 \<and> lc_data c = PutUint32 16 @ ''hi''"
  by (simp add: loopback_run_def lo_empty_def NewRegistry_def sock_at_def register_def lookup_def set_listener_def sock_open_def
      peerCIDHeaderLen_def Let_def)

theorem loopback_transport_witness:
  "\<exists>w c. lo_reach w \<and> lookup (3, 80) (lo_reg w) = Some 40000 \<and> length (lo_listeners w) > 0 \<and>
     lo_accepted w = [((3, 80), c, Inr (16, ''hi''))]"
proof -
  obtain w c where w: "lo_exec loopback_run lo_empty = Some w" "lo_accepted w = [((3, 80), c, loopbackAccept (PutUint32 16 @ ''hi''))]"
    "lc_source c = 16" "lo_reg w (3, 80) = Some 40000" "lc_data c = PutUint32 16 @ ''hi''"
    using loopback_run_ends by blast
  have r: "lo_reach w" using w(1) by (rule lo_exec_reach) (simp add: reach_start)
  have l: "lookup (3, 80) (lo_reg w) = Some 40000" using w(4) by (simp add: lookup_def)
  note t = loopback_transport [OF r]
  have "length (lo_listeners w) > 0" using t [THEN conjunct1, rule_format, OF l] by auto
  moreover have "lo_accepted w = [((3, 80), c, Inr (16, ''hi''))]" using t [THEN conjunct2] w(2,3,5) by auto
  ultimately show ?thesis using r l by blast
qed

text \<open>
  Where the two steps are separated the promise does not hold: an address looked up before a listener closes can belong to another
  listener when the dial connects, which then accepts a connection meant for a different (cid, port).
\<close>

theorem loopback_stale_address:
  "\<exists>w c r. lo_reach w \<and> ((4, 81), c, r) \<in> set (lo_accepted w) \<and> lc_key c = (3, 80)"
proof -
  let ?es = "[LoBind (3, 80) 40000, LoRegister 0, LoLookup (3, 80) 16, LoUnregister 0, LoCloseSock 0,
    LoBind (4, 81) 40000, LoRegister 1, LoConnect 0 4 ''hi'', LoAccept 1]"
  have "\<exists>w c r. lo_exec ?es lo_empty = Some w \<and> ((4, 81), c, r) \<in> set (lo_accepted w) \<and> lc_key c = (3, 80)"
    by (simp add: lo_empty_def NewRegistry_def sock_at_def register_def unregister_def lookup_def set_listener_def sock_open_def
        peerCIDHeaderLen_def Let_def upt_rec)
  then show ?thesis using lo_exec_reach [OF _ reach_start] by blast
qed

text \<open>Closing a listener twice removes the registration of a listener that took the same (cid, port) in between.\<close>

theorem loopback_double_close:
  "\<exists>w. lo_reach w \<and> length (lo_listeners w) = 2 \<and> ll_state (lo_listeners w ! 1) = Listening \<and>
     ll_key (lo_listeners w ! 1) = (3, 80) \<and> lookup (3, 80) (lo_reg w) = None"
proof -
  let ?es = "[LoBind (3, 80) 40000, LoRegister 0, LoUnregister 0, LoCloseSock 0, LoBind (3, 80) 40001, LoRegister 1, LoUnregister 0]"
  have "\<exists>w. lo_exec ?es lo_empty = Some w \<and> length (lo_listeners w) = 2 \<and> ll_state (lo_listeners w ! 1) = Listening \<and>
      ll_key (lo_listeners w ! 1) = (3, 80) \<and> lookup (3, 80) (lo_reg w) = None"
    by (simp add: lo_empty_def NewRegistry_def sock_at_def register_def unregister_def lookup_def set_listener_def sock_open_def
        Let_def upt_rec)
  then show ?thesis using lo_exec_reach [OF _ reach_start] by blast
qed

end
