(* ===== verification/Vsockd_Main.thy ===== *)
theory Vsockd_Main
  imports App
begin

text \<open>
  \<open>cmd/vsockd/main.go\<close>: what the flags, the environment and the configuration file resolve to, and \<open>run\<close> from the
  command line to the exit status. The flag package's verdict on the arguments is a value of \<open>parse_result\<close>;
  a flag the user did not set is told apart from one set to the empty string, as \<open>fs.Visit\<close> does.
\<close>

abbreviation LogFormatJSON :: bytes where "LogFormatJSON \<equiv> ''json''"
abbreviation LogFormatText :: bytes where "LogFormatText \<equiv> ''text''"
abbreviation LogFormatAuto :: bytes where "LogFormatAuto \<equiv> ''auto''"
abbreviation LogLevelDebug :: bytes where "LogLevelDebug \<equiv> ''debug''"
abbreviation LogLevelInfo :: bytes where "LogLevelInfo \<equiv> ''info''"

section \<open>Flags and what they override\<close>

record flags =
  fl_metricsAddr :: "bytes option"
  fl_logFormat :: bytes
  fl_debug :: bool
  fl_version :: bool

datatype parse_result = FlagHelp | FlagError | Parsed flags

datatype level = LevelDebug | LevelInfo

datatype slog_handler = TextHandler level | JSONHandler level

text \<open>The mode of standard error, when \<open>Stat\<close> succeeds; \<open>os.ModeCharDevice\<close> is bit 21.\<close>

definition isTerminal :: "uint32 option \<Rightarrow> bool" where
  "isTerminal info = (case info of None \<Rightarrow> False | Some mode \<Rightarrow> bit mode 21)"

definition resolveLogFormat :: "uint32 option \<Rightarrow> bytes \<Rightarrow> bytes \<Rightarrow> bytes" where
  "resolveLogFormat stderr flagVal cfgVal =
     (let f = (if flagVal = [] then cfgVal else flagVal) in
      if f = [] \<or> f = LogFormatAuto then if isTerminal stderr then LogFormatText else LogFormatJSON else f)"

definition buildLogger :: "bytes \<Rightarrow> level \<Rightarrow> slog_handler" where
  "buildLogger format lvl = (if format = LogFormatText then TextHandler lvl else JSONHandler lvl)"

definition resolveLogLevel :: "bool \<Rightarrow> bytes \<Rightarrow> bytes \<Rightarrow> bytes + level" where
  "resolveLogLevel debug envVar cfgLevel =
     (if debug then Inr LevelDebug
      else if envVar \<noteq> [] then
        if envVar = LogLevelDebug then Inr LevelDebug
        else if envVar = LogLevelInfo then Inr LevelInfo
        else Inl envVar
      else if cfgLevel = LogLevelDebug then Inr LevelDebug
      else Inr LevelInfo)"

definition resolveMetrics :: "bytes option \<Rightarrow> Config \<Rightarrow> bytes \<times> uint32" where
  "resolveMetrics flagVal cfg =
     (case flagVal of
        Some v \<Rightarrow> (v, 0)
      | None \<Rightarrow>
          if mc_Bind (c_Metrics cfg) \<noteq> [] then (mc_Bind (c_Metrics cfg), 0)
          else if mc_VsockPort (c_Metrics cfg) \<noteq> 0 then ([], mc_VsockPort (c_Metrics cfg))
          else ([], 0))"

section \<open>From the command line to the exit status\<close>

text \<open>
  The process around \<open>run\<close>: the flag package's verdict, \<open>VSOCKD_LOG_LEVEL\<close>, the mode of standard error, the
  configuration file, the environment of \<open>New\<close> and \<open>Start\<close>, and the signals that will arrive.
\<close>

record process =
  pr_args :: parse_result
  pr_env :: bytes
  pr_stderr :: "uint32 option"
  pr_file :: yaml_result
  pr_sys :: app_env
  pr_signals :: "os_signal list"

datatype outcome =
    Printed
  | BadFlags
  | NoConfig app_error
  | BadLevel bytes
  | NotBuilt app_error
  | NotStarted app_error
  | Served slog_handler App

definition run :: "process \<Rightarrow> app_world \<Rightarrow> int \<times> outcome \<times> app_world" where
  "run p w =
     (case pr_args p of
        FlagHelp \<Rightarrow> (0, Printed, w)
      | FlagError \<Rightarrow> (2, BadFlags, w)
      | Parsed fs \<Rightarrow>
          if fl_version fs then (0, Printed, w)
          else case Load (pr_file p) of
            Inl e \<Rightarrow> (1, NoConfig e, w)
          | Inr cfg \<Rightarrow>
              (case resolveLogLevel (fl_debug fs) (pr_env p) (c_LogLevel cfg) of
                 Inl v \<Rightarrow> (1, BadLevel v, w)
               | Inr lvl \<Rightarrow>
                   let h = buildLogger (resolveLogFormat (pr_stderr p) (fl_logFormat fs) (c_LogFormat cfg)) lvl;
                       (maddr, vport) = resolveMetrics (fl_metricsAddr fs) cfg;
                       opts = \<lparr>o_Config = cfg, o_MetricsAddr = maddr, o_MetricsVsockPort = vport\<rparr>
                   in case New_app (pr_sys p) opts w of
                        (Inl e, w1) \<Rightarrow> (1, NotBuilt e, w1)
                      | (Inr a, w1) \<Rightarrow>
                          (case Start_app (pr_sys p) a w1 of
                             (Inl e, a1, w2) \<Rightarrow> (1, NotStarted e, w2)
                           | (Inr _, a1, w2) \<Rightarrow>
                               (case runSignalLoop (pr_signals p) a1 w2 of (code, a2, w3) \<Rightarrow> (code, Served h a2, w3)))))"

section \<open>Resolution\<close>

lemma resolveMetrics_exclusive: "resolveMetrics f cfg = (maddr, port) \<Longrightarrow> maddr = [] \<or> port = 0"
  by (auto simp: resolveMetrics_def split: option.splits if_splits)

lemma resolveLogFormat_known:
  "valid_config cfg \<Longrightarrow> resolveLogFormat tty [] (c_LogFormat cfg) \<in> {LogFormatText, LogFormatJSON}"
  by (auto simp: resolveLogFormat_def Let_def valid_config_def)

lemma idle_stopped: "idle_world w \<Longrightarrow> stopped w"
  by (simp add: idle_world_def stopped_def)

text \<open>The lifecycle of the application, for the options \<open>run\<close> builds.\<close>

lemma run_lifecycle:
  assumes "idle_world w0" "Load y = Inr cfg" "resolveMetrics f cfg = (maddr, port)"
    "opts = \<lparr>o_Config = cfg, o_MetricsAddr = maddr, o_MetricsVsockPort = port\<rparr>"
  shows "New_app env opts w0 = (Inl e, w) \<Longrightarrow> stopped w"
    "New_app env opts w0 = (Inr a, w) \<Longrightarrow> Start_app env a w = (Inl e, a', w') \<Longrightarrow> stopped w'"
    "New_app env opts w0 = (Inr a, w) \<Longrightarrow> Start_app env a w = (Inr u, a', w') \<Longrightarrow>
       app_inv a' w' \<and> a_currentCfg a' = cfg \<and> aw_metrics w' = a_metricsLn a' \<and> (a_metricsLn a' \<longleftrightarrow> maddr \<noteq> [] \<or> port \<noteq> 0)"
proof -
  have o: "valid_config (o_Config opts)" "o_MetricsAddr opts = [] \<or> o_MetricsVsockPort opts = 0"
    using Load_valid [OF assms(2)] resolveMetrics_exclusive [OF assms(3)] by (simp_all add: assms(4))
  note l = app_lifecycle [OF assms(1) o, of env]
  show "New_app env opts w0 = (Inl e, w) \<Longrightarrow> stopped w" using l by simp
  show "New_app env opts w0 = (Inr a, w) \<Longrightarrow> Start_app env a w = (Inl e, a', w') \<Longrightarrow> stopped w'" using l by simp
  show "New_app env opts w0 = (Inr a, w) \<Longrightarrow> Start_app env a w = (Inr u, a', w') \<Longrightarrow>
       app_inv a' w' \<and> a_currentCfg a' = cfg \<and> aw_metrics w' = a_metricsLn a' \<and> (a_metricsLn a' \<longleftrightarrow> maddr \<noteq> [] \<or> port \<noteq> 0)"
    using l by (simp add: assms(4))
qed

lemma signal_loop_exit: "runSignalLoop sigs a w = (code, a', w') \<Longrightarrow> code \<in> {0, 1}"
  by (induction sigs a w rule: runSignalLoop.induct) (auto split: prod.splits sum.splits)

section \<open>Properties of the command\<close>

text \<open>
  C11. The life of the process: started where nothing listens, \<open>run\<close> ends with exit status 0, 1 or 2, the last only
  for bad flags; if it ends before serving, or a SIGTERM or SIGINT ended it, nothing listens any more; if it served and
  was only sent SIGHUPs, both servers still serve exactly the current configuration, which is the one the file held
  at the start or one a SIGHUP loaded, and the metrics endpoint is up precisely if the flag or the file asked for it.
\<close>

theorem run_outcome:
  assumes "idle_world w0" "run p w0 = (code, r, w)"
  shows "code \<in> {0, 1, 2} \<and> (code = 2 \<longleftrightarrow> pr_args p = FlagError) \<and>
     (case r of
        Served h a \<Rightarrow>
          (if list_all is_hup (pr_signals p)
           then app_inv a w \<and>
             (Load (pr_file p) = Inr (a_currentCfg a) \<or>
              (\<exists>file env. SIGHUP file env \<in> set (pr_signals p) \<and> Load file = Inr (a_currentCfg a))) \<and>
             (\<exists>fs cfg. pr_args p = Parsed fs \<and> Load (pr_file p) = Inr cfg \<and>
                (aw_metrics w \<longleftrightarrow> resolveMetrics (fl_metricsAddr fs) cfg \<noteq> ([], 0)))
           else stopped w)
      | _ \<Rightarrow> stopped w)"
proof (cases "\<exists>fs cfg lvl. pr_args p = Parsed fs \<and> \<not> fl_version fs \<and> Load (pr_file p) = Inr cfg \<and>
    resolveLogLevel (fl_debug fs) (pr_env p) (c_LogLevel cfg) = Inr lvl")
  case False
  then show ?thesis
    using assms(2) idle_stopped [OF assms(1)]
    by (auto simp: run_def split: parse_result.splits sum.splits if_splits)
next
  case True
  then obtain fs cfg lvl where h: "pr_args p = Parsed fs" "\<not> fl_version fs" "Load (pr_file p) = Inr cfg"
    "resolveLogLevel (fl_debug fs) (pr_env p) (c_LogLevel cfg) = Inr lvl" by blast
  obtain maddr port where m: "resolveMetrics (fl_metricsAddr fs) cfg = (maddr, port)" by fastforce
  let ?opts = "\<lparr>o_Config = cfg, o_MetricsAddr = maddr, o_MetricsVsockPort = port\<rparr>"
  note life = run_lifecycle [OF assms(1) h(3) m refl, of "pr_sys p"]
  obtain ra w1 where n: "New_app (pr_sys p) ?opts w0 = (ra, w1)" by fastforce
  show ?thesis
  proof (cases ra)
    case (Inl e)
    then show ?thesis using assms(2) h m n life(1) [of e w1] by (auto simp: run_def Let_def)
  next
    case a: (Inr a)
    obtain rs a1 w2 where s: "Start_app (pr_sys p) a w1 = (rs, a1, w2)" by (metis prod_cases3)
    show ?thesis
    proof (cases rs)
      case (Inl e)
      then show ?thesis using assms(2) h m n a s life(2) [of a w1 e a1 w2] by (auto simp: run_def Let_def)
    next
      case (Inr u)
      obtain c a2 w3 where l: "runSignalLoop (pr_signals p) a1 w2 = (c, a2, w3)" by (metis prod_cases3)
      have st: "app_inv a1 w2" "a_currentCfg a1 = cfg" "a_metricsLn a1 = aw_metrics w2" "aw_metrics w2 \<longleftrightarrow> maddr \<noteq> [] \<or> port \<noteq> 0"
        using life(3) [of a w1 u a1 w2] n a s Inr by simp_all
      obtain hnd where r: "code = c" "r = Served hnd a2" "w = w3" using assms(2) h m n a s Inr l by (auto simp: run_def Let_def)
      show ?thesis
        using signal_loop_cases [OF st(1,3) l] signal_loop_exit [OF l] st h m unfolding r
        by (cases "list_all is_hup (pr_signals p)") auto
    qed
  qed
qed

section \<open>Witness\<close>

definition sample_process :: process where
  "sample_process = \<lparr>pr_args = Parsed \<lparr>fl_metricsAddr = None, fl_logFormat = [], fl_debug = False, fl_version = False\<rparr>,
     pr_env = ''info'', pr_stderr = None, pr_file = Decoded sample_config, pr_sys = free_env,
     pr_signals = [SIGHUP DecodeError free_env, SIGTERM True True True]\<rparr>"

theorem run_outcome_witness:
  "idle_world fresh_app_world \<and>
   (case run sample_process fresh_app_world of (code, r, w) \<Rightarrow> code \<in> {0, 1} \<and> stopped w)"
proof -
  obtain code r w where e: "run sample_process fresh_app_world = (code, r, w)" by (metis prod_cases3)
  have a: "pr_args sample_process \<noteq> FlagError" "\<not> list_all is_hup (pr_signals sample_process)"
    by (simp_all add: sample_process_def is_hup_def)
  show ?thesis
    unfolding e prod.case using run_outcome [OF fresh_app_idle e] a fresh_app_idle by (cases r) auto
qed

end
