(* ===== verification/Spec2Isabelle.thy ===== *)
theory Spec2Isabelle
  imports Config_Valid Go_Duration Sni HttpHost Proxy Shipper Manager Conn_Track Supervisor_Main Metrics Vsockconn Relay_Sink Outbound Egress Vsockd_Main
begin

text \<open>
  vsockd: a bridge between TCP and AF_VSOCK for AWS Nitro Enclaves, and the supervisor that runs the
  processes inside an enclave. This development models the Go sources under src/.

  The program. The daemon \<open>cmd/vsockd\<close> loads a YAML file (\<open>internal/config\<close>), builds an \<open>app.App\<close>
  (\<open>internal/app\<close>) and serves until a SIGTERM; a SIGHUP reloads the file. The app owns two servers. The
  inbound one (\<open>internal/inbound\<close>) accepts TCP and forwards into enclaves, chosen by the host name in the
  HTTP request or the TLS ClientHello. The outbound one (\<open>internal/outbound\<close>) accepts vsock connections from
  enclaves: an HTTP forward proxy with an egress allowlist per enclave CID (\<open>internal/allowlist\<close>), a raw
  bridge to one upstream, or a log relay that stamps records with the CID of the sender. The supervisor
  (\<open>internal/supervisor\<close>) runs child processes under a restart policy and ships their output over vsock
  through a bounded buffer.

  Foundations:
  \<^item> \<open>Prelude\<close>: errors as sums (\<open>res_bind\<close>, \<open>res_wrap\<close>, \<open>for_idx\<close> for Go's loops with early returns), the
    \<open>named_theorems\<close> collections and shared lemmas on lists and fields.
  \<^item> \<open>Go_Strings\<close>, \<open>Go_Unicode\<close>, \<open>Go_Net\<close>, \<open>Go_Bufio\<close>, \<open>Go_Textproto\<close>, \<open>Go_Http\<close>, \<open>Go_Json\<close>, \<open>Json_Roundtrip\<close>: what
    the sources use of Go's standard library: string functions on bytes, UTF-8, \<open>ParseIP\<close> and \<open>SplitHostPort\<close>, a
    \<open>bufio.Reader\<close> on chunks, \<open>textproto.Reader\<close> on top of it (proved against the byte stream), header maps, the JSON token stream and string quoting with their round trip. Strings are byte lists.

  The daemon, bottom up:
  \<^item> \<open>Allowlist\<close> (allowlist.go): \<open>parsePattern\<close>, \<open>New\<close>, \<open>Allow\<close>; refines a declarative pattern language.
  \<^item> \<open>Config\<close>, \<open>Config_Valid\<close> (config.go): the configuration records and \<open>Validate\<close>; acceptance is exactly the
    predicate \<open>valid_config\<close>, the result is a fixed point.
  \<^item> \<open>Go_Duration\<close> (\<open>UnmarshalYAML\<close> of both config.go): \<open>time.ParseDuration\<close> with its \<open>uint64\<close> arithmetic; only the float64
    expression for a fraction of a unit is an argument.
  \<^item> \<open>Sni\<close> (inbound/sni.go): the ClientHello parser, total on every input and exact against an encoder.
  \<^item> \<open>HttpHost\<close> (inbound/httphost.go): \<open>SniffHost\<close> on a limited, buffered, recorded connection; round trip with an
    encoder of requests, independent of how the network cuts the stream.
  \<^item> \<open>Staged_Reload\<close>: the contract of a two-phase reload as a locale \<open>stager\<close>: a prepared plan can be committed or
    aborted; its client lemma says a reload publishes the new configuration or changes nothing.
  \<^item> \<open>Inbound\<close> (inbound/server.go): listeners as objects in a store, \<open>NewServer\<close>, \<open>Start\<close>, \<open>PrepareApply\<close>,
    \<open>CommitApply\<close>, \<open>AbortApply\<close>, the closing half of \<open>Shutdown\<close>; interprets \<open>stager\<close>.
  \<^item> \<open>Duplex\<close>, \<open>Shuttle\<close>, \<open>Proxy\<close> (both server.go and tcp.go): two connections and the two copies between them as a step
    relation; \<open>shuttleTCP\<close> with its waiter and timer, \<open>proxy\<close> and \<open>tunnel\<close> with their half-closes.
  \<^item> \<open>Inbound_Conn\<close> (inbound/server.go, tcp.go), \<open>Outbound_TCP\<close> (outbound/tcp.go): the handlers \<open>handle\<close> and \<open>handleTCP\<close> as
    traces of actions: which route is dialled, what is forwarded, counted and closed.
  \<^item> \<open>Accept_Loop\<close>, \<open>Server_Loops\<close> (\<open>run\<close> of both listeners): the loop over what \<open>Accept\<close> returns, its back-off, and
    which handler a connection gets; \<open>timeline\<close> interleaves \<open>Accept\<close>, the capture of a connection's upstream and the reloads
    that replace it, so that the window between the first two is there.
  \<^item> \<open>Conn_Track\<close> (\<open>trackConn\<close>, \<open>untrackConn\<close>, \<open>Shutdown\<close> of both servers): accept loops, the handlers' traces and
    \<open>Shutdown\<close> interleaved; the contract of a handler is the locale \<open>tracked_handlers\<close>, interpreted on both servers. The
    log relay handler runs in its accept loop; an inbound dial given up on shutdown is left to a cleanup goroutine
    outside the wait group, which can outlive \<open>Shutdown\<close>.
  \<^item> \<open>LogRelay\<close>, \<open>Relay_Loop\<close>, \<open>Relay_Sink\<close> (outbound/logrelay.go): enrichment of records, the read loop, and the
    reference-counted sink as a step relation over interleaved handlers, reloads and teardown (a swap with the release
    that follows it, and a release with its \<open>Close\<close>, are one step each).
  \<^item> \<open>Outbound_Conn\<close>, \<open>Egress\<close> (outbound/server.go): the connection handlers of the forward proxy, as functions from
    what the client sent and what the network answers to a trace of effects.
  \<^item> \<open>Outbound\<close>, \<open>Outbound_Reload\<close>, \<open>Outbound_Start\<close> (outbound/server.go): the server with its sinks; a ledger
    that accounts for every reference carries the proof that no log file is leaked or closed early.
  \<^item> \<open>App\<close> (app.go): both servers as one \<open>stager\<close> (locale \<open>stager_pair\<close> with its sublocale), \<open>Load\<close>, \<open>New\<close>,
    \<open>Start\<close>, \<open>Reload\<close>, \<open>Shutdown\<close> and the signal loop.
  \<^item> \<open>Metrics\<close> (metrics.go): the collectors, the updates the handlers' traces make, and the series they can create.
  \<^item> \<open>Vsockconn\<close> (internal/vsockconn): the loopback transport as a state machine whose operations use the registry and the
    network in separate steps, the CID header, and what the AF_VSOCK backend does with the library's connections.
  \<^item> \<open>Vsockd_Main\<close> (cmd/vsockd/main.go): \<open>run\<close> from the parsed command line to the exit status.

  The supervisor:
  \<^item> \<open>Supervisor_Config\<close> (config.go): \<open>Validate\<close> against its declarative predicate.
  \<^item> \<open>RingBuffer\<close> (buffer.go): each method is one critical section; eviction and draining conserve frames.
  \<^item> \<open>Shipper\<close> (shipper.go): the loops as program counters, producers and the consumer interleaved; every offered
    frame is delivered, queued, or covered by a drop record.
  \<^item> \<open>Manager\<close> (manager.go): the event loop of \<open>Run\<close> with the policy of \<open>handleExit\<close>, the restart budget and
    shutdown, from which every run of the loop returns after as many exits as were outstanding, without a restart.
  \<^item> \<open>Event\<close> (event.go): the records and their JSON, each one line that parses back to what it was made from.
  \<^item> \<open>Pump\<close> (manager.go): the output pump, and its composition with the relay loop of the host: what a child writes arrives
    in the log file, when no frame is lost on the way and every framed record fits the relay's line limit.
  \<^item> \<open>SlogHandler\<close> (sloghandler.go): the log handler, behind its level, against a specification by nested groups.
  \<^item> \<open>Supervisor_Main\<close> (cmd/supervisor/main.go and \<open>Load\<close>): \<open>run\<close>, and \<open>supervise\<close> as the interleaving of the manager, the
    pumps, the handler and the shipper; the invariant orders each process's records and ties the exit status to the run.

  Conventions. Mutable objects live in a store (\<open>nat \<Rightarrow> listener\<close>) with a fresh counter; open sockets and open
  files are sets in the world, so that a leak or a double close is visible. Whether a bind, an open or a dial
  succeeds is an argument that may depend on the world, never a fixed answer. Ports and CIDs of type uint32 are
  32-bit words; Go's int is \<open>int\<close> where no operation of the code can leave its range. Errors are values of one
  datatype per component. No loop needs fuel: loops over inputs recurse on the input, the read loops on a measure
  of the bytes left; only the drain of \<open>Go_Bufio\<close> proves its measure separately.

  Not modelled: the YAML decoder, the Prometheus registry and HTTP server, net/http's request parser and the
  vsock sockets are other people's code and appear as arguments; logging has no effect on the state. Goroutine
  scheduling is modelled where state is shared without one lock held throughout (sinks, shipper) and is
  sequential where a mutex covers the whole operation (servers, app). Attribute values of log records are their
  rendered text. Accessors that only return a field, and the choice of the transport backend from the environment,
  have no definition of their own.
\<close>

end
